(* ===== verification/Prelude.thy ===== *)
theory Prelude
  imports Main "HOL-Library.Word"
begin

text \<open>
  Shared vocabulary of the development: bytes and machine words, results with an
  explicit error, byte-stream readers, and the little-endian conversions of Go's
  \<^verbatim>\<open>encoding/binary\<close>.  The collection \<open>codec_simps\<close> gathers the
  decode-after-encode laws of all codecs, so that the law of a composite codec is
  one \<open>simp\<close> call over the laws of its fields.
\<close>

named_theorems codec_simps \<open>decode-after-encode equations\<close>
named_theorems size_simps \<open>length of encodings\<close>

type_synonym byte = "8 word"
type_synonym bytes = "8 word list"
type_synonym u16 = "16 word"
type_synonym u32 = "32 word"
type_synonym u64 = "64 word"

text \<open>Go's \<^verbatim>\<open>int32\<close> and \<^verbatim>\<open>int64\<close> are words read by \<^const>\<open>sint\<close>.\<close>

type_synonym i32 = "32 word"
type_synonym i64 = "64 word"

section \<open>Results\<close>

text \<open>
  A fallible Go call \<^verbatim>\<open>x, err := f(); if err != nil { return err }\<close> is a value
  of a sum type, \<open>Inl\<close> holding the error; \<open>andthen\<close> is the early return.
\<close>

definition andthen :: "'e + 'a \<Rightarrow> ('a \<Rightarrow> 'e + 'b) \<Rightarrow> 'e + 'b" where
  "andthen m f = (case m of Inl e \<Rightarrow> Inl e | Inr x \<Rightarrow> f x)"

lemma andthen_simps [simp]:
  "andthen (Inl e) f = Inl e"
  "andthen (Inr x) f = f x"
  by (simp_all add: andthen_def)

lemma andthen_eq_Inr [simp]:
  "andthen m f = Inr y \<longleftrightarrow> (\<exists>x. m = Inr x \<and> f x = Inr y)"
  by (cases m) simp_all

lemma andthen_eq_Inl:
  "andthen m f = Inl e \<longleftrightarrow> m = Inl e \<or> (\<exists>x. m = Inr x \<and> f x = Inl e)"
  by (cases m) simp_all

lemma andthen_cong [fundef_cong]:
  "m = m' \<Longrightarrow> (\<And>x. m' = Inr x \<Longrightarrow> f x = f' x) \<Longrightarrow> andthen m f = andthen m' f'"
  by (cases m') simp_all

text \<open>The loop \<^verbatim>\<open>for i := 0; i < n; i++ { x, err := rd(r) ... }\<close> over a stream.\<close>

fun repeat_read :: "nat \<Rightarrow> ('s \<Rightarrow> 'e + ('a \<times> 's)) \<Rightarrow> 's \<Rightarrow> 'e + ('a list \<times> 's)" where
  "repeat_read 0 rd s = Inr ([], s)"
| "repeat_read (Suc n) rd s =
     andthen (rd s) (\<lambda>(x, s'). andthen (repeat_read n rd s') (\<lambda>(xs, s''). Inr (x # xs, s'')))"

lemma repeat_read_length:
  "repeat_read n rd s = Inr (xs, s') \<Longrightarrow> length xs = n"
  by (induction n arbitrary: s xs) auto

text \<open>
  A fallible write to a growing buffer is the bytes that reached the buffer together with
  the error, if any: a write that fails half-way leaves what it wrote.
\<close>

type_synonym 'e written = "bytes \<times> 'e option"

abbreviation wrote :: "bytes \<Rightarrow> 'e written" where
  "wrote b \<equiv> (b, None)"

definition wthen :: "'e written \<Rightarrow> 'e written \<Rightarrow> 'e written" where
  "wthen w1 w2 = (case snd w1 of Some e \<Rightarrow> w1 | None \<Rightarrow> (fst w1 @ fst w2, snd w2))"

lemma wthen_simps [simp]:
  "wthen (b, None) w = (b @ fst w, snd w)"
  "wthen (b, Some e) w = (b, Some e)"
  by (simp_all add: wthen_def)

lemma wthen_failed: "snd w \<noteq> None \<Longrightarrow> wthen w x = w"
  by (cases w) auto

lemma snd_wthen_None: "snd (wthen w x) = None \<longleftrightarrow> snd w = None \<and> snd x = None"
  by (cases w, cases "snd w") auto

text \<open>The loop \<^verbatim>\<open>for _, x := range xs { err := wr(w, x); if err != nil { return err } }\<close>.\<close>

fun write_all :: "('a \<Rightarrow> 'e written) \<Rightarrow> 'a list \<Rightarrow> 'e written" where
  "write_all wr [] = wrote []"
| "write_all wr (x # xs) = wthen (wr x) (write_all wr xs)"

lemma write_all_total:
  "(\<And>x. x \<in> set xs \<Longrightarrow> wr x = wrote (f x)) \<Longrightarrow> write_all wr xs = wrote (concat (map f xs))"
  by (induction xs) auto

lemma write_all_append: "write_all wr (xs @ ys) = wthen (write_all wr xs) (write_all wr ys)"
  by (induction xs) (auto simp: wthen_def split: option.splits)

text \<open>
  Reading with a bounded scratch area: each item takes \<open>cost\<close> bytes of it away.  If the
  area is large enough for all of them (and \<open>spare\<close> more), the loop succeeds.
\<close>

lemma repeat_read_budget:
  assumes "sum_list (map cost xs) + spare \<le> (slab::nat)"
    and "\<And>x s r. x \<in> set xs \<Longrightarrow> cost x + spare \<le> s \<Longrightarrow> rd (s, enc x @ r) = Inr (x, (s - cost x, r))"
  shows "repeat_read (length xs) rd (slab, concat (map enc xs) @ r) =
         Inr (xs, (slab - sum_list (map cost xs), r))"
  using assms
proof (induction xs arbitrary: slab)
  case Nil
  then show ?case by simp
next
  case (Cons x xs)
  have "rd (slab, enc x @ (concat (map enc xs) @ r)) = Inr (x, (slab - cost x, concat (map enc xs) @ r))"
    using Cons.prems by simp
  moreover have "repeat_read (length xs) rd (slab - cost x, concat (map enc xs) @ r) =
      Inr (xs, (slab - cost x - sum_list (map cost xs), r))"
    using Cons.prems by (intro Cons.IH) auto
  ultimately show ?case by simp
qed

section \<open>Little-endian integers\<close>

text \<open>\<^verbatim>\<open>PutUint16/32/64\<close> of \<open>v\<close> are \<open>put_le 2/4/8\<close>, \<^verbatim>\<open>Uint16/32/64\<close> are \<open>get_le\<close>.\<close>

fun put_le :: "nat \<Rightarrow> nat \<Rightarrow> bytes" where
  "put_le 0 v = []"
| "put_le (Suc n) v = word_of_nat v # put_le n (v div 256)"

fun get_le :: "bytes \<Rightarrow> nat" where
  "get_le [] = 0"
| "get_le (b # bs) = unat b + 256 * get_le bs"

lemma length_put_le [simp, size_simps]: "length (put_le n v) = n"
  by (induction n arbitrary: v) auto

text \<open>The range of \<^const>\<open>unat\<close> at the widths in use.\<close>

lemma unat_less_width:
  "unat (b::byte) < 256"
  "unat (h::u16) < 65536"
  "unat (w::u32) < 4294967296"
  "unat (d::u64) < 18446744073709551616"
proof -
  have "unat b < 2 ^ 8" "unat h < 2 ^ 16" "unat w < 2 ^ 32" "unat d < 2 ^ 64"
    by (rule order_less_le_trans [OF unsigned_less], simp)+
  then show
    "unat b < 256" "unat h < 65536" "unat w < 4294967296" "unat d < 18446744073709551616"
    by simp_all
qed

lemma unat_byte_of_nat: "unat (word_of_nat v :: byte) = v mod 256"
  by (simp add: unat_of_nat)

lemma get_put_le: "get_le (put_le n v) = v mod 256 ^ n"
proof (induction n arbitrary: v)
  case 0
  then show ?case by simp
next
  case (Suc n)
  have "v mod 256 ^ Suc n = v mod 256 + 256 * (v div 256 mod 256 ^ n)"
    by (simp add: mod_mult2_eq)
  with Suc show ?case by (simp add: unat_byte_of_nat)
qed

lemma get_le_bound: "get_le bs < 256 ^ length bs"
proof (induction bs)
  case Nil
  then show ?case by simp
next
  case (Cons b bs)
  have "unat b < 256" by (rule unat_less_width)
  moreover have "get_le bs + 1 \<le> 256 ^ length bs" using Cons by simp
  then have "256 * (get_le bs + 1) \<le> 256 * 256 ^ length bs" by (rule mult_le_mono2)
  ultimately show ?case by simp
qed

lemma put_get_le: "put_le (length bs) (get_le bs) = bs"
proof (induction bs)
  case Nil
  then show ?case by simp
next
  case (Cons b bs)
  have b: "unat b < 256" by (rule unat_less_width)
  have "word_of_nat (unat b + 256 * get_le bs) = b"
  proof -
    have "(word_of_nat (256 * get_le bs) :: byte) = 0"
      by (subst word_of_nat_eq_0_iff) simp
    then show ?thesis by simp
  qed
  with b Cons show ?case by simp
qed

lemma get_put_le_u16 [codec_simps]: "word_of_nat (get_le (put_le 2 (unat (v::u16)))) = v"
  by (simp add: get_put_le unat_less_width)

lemma get_put_le_u32 [codec_simps]: "word_of_nat (get_le (put_le 4 (unat (v::u32)))) = v"
  by (simp add: get_put_le unat_less_width)

lemma get_put_le_u64 [codec_simps]: "word_of_nat (get_le (put_le 8 (unat (v::u64)))) = v"
  by (simp add: get_put_le unat_less_width)

text \<open>An integer in the range of \<^verbatim>\<open>int64\<close> survives the conversion to a word and back.\<close>

lemma sint_word_of_int_i64:
  "- (2 ^ 63) \<le> v \<Longrightarrow> v < 2 ^ 63 \<Longrightarrow> sint (word_of_int v :: i64) = v"
  by (simp add: signed_of_int signed_take_bit_int_eq_self)

end
