(* ===== verification/Wire_Common.thy ===== *)
theory Wire_Common
  imports Prelude
begin

text \<open>
  \<^verbatim>\<open>wire/common.go\<close>: the primitive readers and writers of the wire protocol.
  A reader \<^verbatim>\<open>r io.Reader\<close> is the list of bytes that remain; a writer appends to a
  buffer, so a write function returns the bytes it appends.  The scratch buffers of the
  free list only hold temporaries, and the protocol version \<^verbatim>\<open>pver\<close> is not read by
  the functions modelled here, so neither is an argument of the model.

  The locales \<open>codec\<close> and \<open>canonical_codec\<close> are the contracts between a
  reader and a writer: decoding inverts encoding whatever bytes follow, and (canonical)
  every accepted byte string is the encoding of the value it decodes to.
\<close>

section \<open>Streams and errors\<close>

datatype wire_error =
    EOF
  | UnexpectedEOF
  | MessageError string
  | FmtError string

type_synonym 'a reader = "bytes \<Rightarrow> wire_error + ('a \<times> bytes)"

text \<open>\<^verbatim>\<open>io.ReadFull\<close>: all \<open>n\<close> bytes, or an error that tells an empty stream from a short one.\<close>

definition read_full :: "nat \<Rightarrow> bytes reader" where
  "read_full n r =
     (if n \<le> length r then Inr (take n r, drop n r)
      else if r = [] then Inl EOF else Inl UnexpectedEOF)"

lemma read_full_append [codec_simps]: "length b = n \<Longrightarrow> read_full n (b @ r) = Inr (b, r)"
  by (simp add: read_full_def)

lemma read_full_SomeD: "read_full n bs = Inr (b, r) \<Longrightarrow> length b = n \<and> bs = b @ r"
  by (auto simp: read_full_def split: if_splits)

lemma read_full_short: "length bs < n \<Longrightarrow> \<exists>e. read_full n bs = Inl e"
  by (simp add: read_full_def)

section \<open>Contracts of readers and writers\<close>

locale codec =
  fixes enc :: "'a \<Rightarrow> bytes"
    and dec :: "'a reader"
    and ok :: "'a \<Rightarrow> bool"
  assumes dec_enc: "ok x \<Longrightarrow> dec (enc x @ r) = Inr (x, r)"
begin

lemma dec_enc_exact: "ok x \<Longrightarrow> dec (enc x) = Inr (x, [])"
  using dec_enc [of x "[]"] by simp

text \<open>No encoding is a proper prefix of another one: streams of encodings parse uniquely.\<close>

lemma enc_unique: "ok x \<Longrightarrow> ok y \<Longrightarrow> enc x @ r = enc y @ s \<Longrightarrow> x = y \<and> r = s"
  by (metis dec_enc prod.inject sum.inject(2))

lemma enc_inj: "ok x \<Longrightarrow> ok y \<Longrightarrow> enc x = enc y \<Longrightarrow> x = y"
  using enc_unique [of x y "[]" "[]"] by simp

lemma repeat_dec_enc:
  "(\<And>x. x \<in> set xs \<Longrightarrow> ok x) \<Longrightarrow>
   repeat_read (length xs) dec (concat (map enc xs) @ r) = Inr (xs, r)"
  by (induction xs) (simp_all add: dec_enc)

end

locale canonical_codec = codec +
  assumes enc_dec: "dec bs = Inr (x, r) \<Longrightarrow> ok x \<and> bs = enc x @ r"
begin

text \<open>A value has one byte representation only: decoding is injective on accepted streams.\<close>

lemma dec_inj: "dec bs = Inr (x, r) \<Longrightarrow> dec cs = Inr (x, r) \<Longrightarrow> bs = cs"
  using enc_dec by metis

lemma dec_consumes: "dec bs = Inr (x, r) \<Longrightarrow> length bs = length (enc x) + length r"
  using enc_dec by fastforce

lemma repeat_enc_dec:
  "repeat_read n dec bs = Inr (xs, r) \<Longrightarrow>
   length xs = n \<and> (\<forall>x \<in> set xs. ok x) \<and> bs = concat (map enc xs) @ r"
proof (induction n arbitrary: bs xs)
  case 0
  then show ?case by simp
next
  case (Suc n)
  then obtain x s ys where x: "dec bs = Inr (x, s)"
    and ys: "repeat_read n dec s = Inr (ys, r)" and xs: "xs = x # ys"
    by auto
  from Suc.IH [OF ys] enc_dec [OF x] xs show ?case by auto
qed

end

section \<open>Fixed-width integers\<close>

datatype byte_order = LittleEndian | BigEndian

fun order_put :: "byte_order \<Rightarrow> nat \<Rightarrow> nat \<Rightarrow> bytes" where
  "order_put LittleEndian n v = put_le n v"
| "order_put BigEndian n v = rev (put_le n v)"

fun order_get :: "byte_order \<Rightarrow> bytes \<Rightarrow> nat" where
  "order_get LittleEndian bs = get_le bs"
| "order_get BigEndian bs = get_le (rev bs)"

lemma length_order_put [simp, size_simps]: "length (order_put bo n v) = n"
  by (cases bo) simp_all

lemma order_get_put: "order_get bo (order_put bo n v) = v mod 256 ^ n"
  by (cases bo) (simp_all add: get_put_le)

lemma order_put_get: "length bs = n \<Longrightarrow> order_put bo n (order_get bo bs) = bs"
  using put_get_le [of bs] put_get_le [of "rev bs"] by (cases bo) auto

lemma order_get_bound: "order_get bo bs < 256 ^ length bs"
  using get_le_bound [of bs] get_le_bound [of "rev bs"] by (cases bo) auto

definition Uint8 :: "byte reader" where
  "Uint8 r = andthen (read_full 1 r) (\<lambda>(buf, r). Inr (buf ! 0, r))"

definition Uint16 :: "byte_order \<Rightarrow> u16 reader" where
  "Uint16 bo r = andthen (read_full 2 r) (\<lambda>(buf, r). Inr (word_of_nat (order_get bo buf), r))"

definition Uint32 :: "byte_order \<Rightarrow> u32 reader" where
  "Uint32 bo r = andthen (read_full 4 r) (\<lambda>(buf, r). Inr (word_of_nat (order_get bo buf), r))"

definition Uint64 :: "byte_order \<Rightarrow> u64 reader" where
  "Uint64 bo r = andthen (read_full 8 r) (\<lambda>(buf, r). Inr (word_of_nat (order_get bo buf), r))"

definition PutUint8 :: "byte \<Rightarrow> bytes" where
  "PutUint8 val = [val]"

definition PutUint16 :: "byte_order \<Rightarrow> u16 \<Rightarrow> bytes" where
  "PutUint16 bo val = order_put bo 2 (unat val)"

definition PutUint32 :: "byte_order \<Rightarrow> u32 \<Rightarrow> bytes" where
  "PutUint32 bo val = order_put bo 4 (unat val)"

definition PutUint64 :: "byte_order \<Rightarrow> u64 \<Rightarrow> bytes" where
  "PutUint64 bo val = order_put bo 8 (unat val)"

lemma length_PutUint [simp, size_simps]:
  "length (PutUint8 b) = 1" "length (PutUint16 bo h) = 2"
  "length (PutUint32 bo w) = 4" "length (PutUint64 bo d) = 8"
  by (simp_all add: PutUint8_def PutUint16_def PutUint32_def PutUint64_def)

lemma Uint8_Cons [simp]: "Uint8 (b # r) = Inr (b, r)" "Uint8 [] = Inl EOF"
  by (simp_all add: Uint8_def read_full_def)

text \<open>A fixed-width reader over any width: the three integer codecs are instances.\<close>

lemma fixed_enc_dec:
  fixes n :: nat
  assumes "256 ^ n = (2::nat) ^ LENGTH('w::len)"
    and "andthen (read_full n bs) (\<lambda>(buf, r). Inr (word_of_nat (order_get bo buf) :: 'w word, r)) = Inr (x, r)"
  shows "bs = order_put bo n (unat x) @ r"
proof -
  from assms(2) obtain buf where buf: "read_full n bs = Inr (buf, r)"
    and x: "x = word_of_nat (order_get bo buf)" by auto
  from read_full_SomeD [OF buf] have len: "length buf = n" and bs: "bs = buf @ r" by auto
  have "order_get bo buf < 2 ^ LENGTH('w)"
    using order_get_bound [of bo buf] len assms(1) by simp
  then have "unat x = order_get bo buf"
    by (simp add: x unat_of_nat)
  with order_put_get [OF len, of bo] bs show ?thesis by simp
qed

interpretation uint8: canonical_codec PutUint8 Uint8 "\<lambda>_. True"
proof unfold_locales
  fix x r show "Uint8 (PutUint8 x @ r) = Inr (x, r)" by (simp add: PutUint8_def)
next
  fix bs x r assume "Uint8 bs = Inr (x, r)"
  then show "True \<and> bs = PutUint8 x @ r" by (cases bs) (auto simp: PutUint8_def)
qed

interpretation uint16: canonical_codec "PutUint16 bo" "Uint16 bo" "\<lambda>_. True" for bo
proof unfold_locales
  fix x r show "Uint16 bo (PutUint16 bo x @ r) = Inr (x, r)"
    by (simp add: Uint16_def PutUint16_def codec_simps order_get_put unat_less_width)
next
  fix bs x r assume "Uint16 bo bs = Inr (x, r)"
  then show "True \<and> bs = PutUint16 bo x @ r"
    using fixed_enc_dec [where 'w = 16 and n = 2] by (simp add: Uint16_def PutUint16_def)
qed

interpretation uint32: canonical_codec "PutUint32 bo" "Uint32 bo" "\<lambda>_. True" for bo
proof unfold_locales
  fix x r show "Uint32 bo (PutUint32 bo x @ r) = Inr (x, r)"
    by (simp add: Uint32_def PutUint32_def codec_simps order_get_put unat_less_width)
next
  fix bs x r assume "Uint32 bo bs = Inr (x, r)"
  then show "True \<and> bs = PutUint32 bo x @ r"
    using fixed_enc_dec [where 'w = 32 and n = 4] by (simp add: Uint32_def PutUint32_def)
qed

interpretation uint64: canonical_codec "PutUint64 bo" "Uint64 bo" "\<lambda>_. True" for bo
proof unfold_locales
  fix x r show "Uint64 bo (PutUint64 bo x @ r) = Inr (x, r)"
    by (simp add: Uint64_def PutUint64_def codec_simps order_get_put unat_less_width)
next
  fix bs x r assume "Uint64 bo bs = Inr (x, r)"
  then show "True \<and> bs = PutUint64 bo x @ r"
    using fixed_enc_dec [where 'w = 64 and n = 8] by (simp add: Uint64_def PutUint64_def)
qed

interpretation raw: canonical_codec "\<lambda>b. b" "read_full n" "\<lambda>b. length b = n" for n
  by unfold_locales (auto simp: codec_simps dest: read_full_SomeD)

lemmas uint_dec_enc [codec_simps] =
  uint8.dec_enc [OF TrueI] uint16.dec_enc [OF TrueI] uint32.dec_enc [OF TrueI] uint64.dec_enc [OF TrueI]

section \<open>Variable-length integers\<close>

definition ReadVarInt :: "u64 reader" where
  "ReadVarInt r = andthen (Uint8 r) (\<lambda>(discriminant, r).
     if discriminant = 0xff then
       andthen (Uint64 LittleEndian r) (\<lambda>(rv, r).
         if rv < 0x100000000 then Inl (MessageError ''ReadVarInt'') else Inr (rv, r))
     else if discriminant = 0xfe then
       andthen (Uint32 LittleEndian r) (\<lambda>(v, r). let rv = ucast v in
         if rv < 0x10000 then Inl (MessageError ''ReadVarInt'') else Inr (rv, r))
     else if discriminant = 0xfd then
       andthen (Uint16 LittleEndian r) (\<lambda>(v, r). let rv = ucast v in
         if rv < 0xfd then Inl (MessageError ''ReadVarInt'') else Inr (rv, r))
     else Inr (ucast discriminant, r))"

definition WriteVarInt :: "u64 \<Rightarrow> bytes" where
  "WriteVarInt val =
     (if val < 0xfd then PutUint8 (ucast val)
      else if val \<le> 0xffff then 0xfd # PutUint16 LittleEndian (ucast val)
      else if val \<le> 0xffffffff then 0xfe # PutUint32 LittleEndian (ucast val)
      else 0xff # PutUint64 LittleEndian val)"

definition VarIntSerializeSize :: "u64 \<Rightarrow> nat" where
  "VarIntSerializeSize val =
     (if val < 0xfd then 1 else if val \<le> 0xffff then 3 else if val \<le> 0xffffffff then 5 else 9)"

lemma length_WriteVarInt [simp, size_simps]: "length (WriteVarInt v) = VarIntSerializeSize v"
  by (simp add: WriteVarInt_def VarIntSerializeSize_def)

lemma VarIntSerializeSize_pos [simp]: "0 < VarIntSerializeSize v"
  by (simp add: VarIntSerializeSize_def)

lemma unat_ucast_mod: "unat (ucast (v::'a::len word) :: 'b::len word) = unat v mod 2 ^ LENGTH('b)"
  by (simp add: unsigned_ucast_eq unsigned_take_bit_eq take_bit_eq_mod)

lemma ucast_small:
  "unat v < 2 ^ LENGTH('b) \<Longrightarrow> ucast (ucast (v::'a::len word) :: 'b::len word) = v"
  by (subst word_unat_eq_iff) (simp only: unat_ucast_mod mod_less unsigned_less)

text \<open>The discriminant byte of a multi-byte encoding never collides with a one-byte value.\<close>

lemma ReadVarInt_WriteVarInt: "ReadVarInt (WriteVarInt v @ r) = Inr (v, r)"
proof -
  consider "v < 0xfd" | "\<not> v < 0xfd" "v \<le> 0xffff" | "\<not> v \<le> 0xffff" "v \<le> 0xffffffff"
    | "\<not> v \<le> 0xffffffff" by (meson linear not_le)
  then show ?thesis
  proof cases
    case 1
    then have u: "unat v < 253" by (simp add: word_less_nat_alt)
    then have "unat (ucast v :: byte) < 253" by (simp add: unat_ucast_mod)
    then have "(ucast v :: byte) \<noteq> 0xff" "(ucast v :: byte) \<noteq> 0xfe" "(ucast v :: byte) \<noteq> 0xfd"
      by auto
    with u 1 show ?thesis
      by (simp add: ReadVarInt_def WriteVarInt_def PutUint8_def ucast_small)
  next
    case 2
    then have u: "unat v \<le> 65535" by (simp add: word_le_nat_alt)
    then have "ucast (ucast v :: u16) = v" by (simp add: ucast_small)
    with 2 show ?thesis
      by (simp add: ReadVarInt_def WriteVarInt_def codec_simps Let_def)
  next
    case 3
    then have u: "unat v \<le> 4294967295" by (simp add: word_le_nat_alt)
    then have "ucast (ucast v :: u32) = v" by (simp add: ucast_small)
    moreover from 3 have "\<not> v < 0xfd" "\<not> v < 0x10000"
      by (simp_all add: word_less_nat_alt word_le_nat_alt)
    ultimately show ?thesis using 3
      by (simp add: ReadVarInt_def WriteVarInt_def codec_simps Let_def)
  next
    case 4
    then have "\<not> v < 0xfd" "\<not> v \<le> 0xffff" "\<not> v < 0x100000000"
      by (simp_all add: word_less_nat_alt word_le_nat_alt)
    with 4 show ?thesis
      by (simp add: ReadVarInt_def WriteVarInt_def codec_simps)
  qed
qed

lemma ucast_bounds:
  "ucast (b::byte) < (0x100::u64)" "ucast (h::u16) \<le> (0xffff::u64)" "ucast (w::u32) \<le> (0xffffffff::u64)"
  using unat_less_width(1) [of b] unat_less_width(2) [of h] unat_less_width(3) [of w]
  by (simp_all add: word_less_nat_alt word_le_nat_alt unat_ucast_mod)

lemma ucast_down_up:
  "ucast (ucast (b::byte) :: u64) = b" "ucast (ucast (h::u16) :: u64) = h" "ucast (ucast (w::u32) :: u64) = w"
  using unat_less_width(1) [of b] unat_less_width(2) [of h] unat_less_width(3) [of w]
  by (simp_all add: ucast_small)

text \<open>The rejection of non-canonical lengths makes the encoding of every value unique.\<close>

lemma WriteVarInt_ReadVarInt:
  assumes "ReadVarInt bs = Inr (v, r)"
  shows "bs = WriteVarInt v @ r"
proof -
  from assms obtain d s where d: "bs = d # s" by (cases bs) (auto simp: ReadVarInt_def)
  consider "d = 0xff" | "d = 0xfe" | "d = 0xfd" | "d \<noteq> 0xff" "d \<noteq> 0xfe" "d \<noteq> 0xfd" by blast
  then show ?thesis
  proof cases
    case 1
    with assms d have "Uint64 LittleEndian s = Inr (v, r)" "\<not> v < 0x100000000"
      by (auto simp: ReadVarInt_def split: if_splits)
    moreover then have "\<not> v < 0xfd" "\<not> v \<le> 0xffff" "\<not> v \<le> 0xffffffff"
      by (simp_all add: word_less_nat_alt word_le_nat_alt)
    ultimately show ?thesis using uint64.enc_dec d 1 by (auto simp: WriteVarInt_def)
  next
    case 2
    with assms d obtain w where w: "Uint32 LittleEndian s = Inr (w, r)" "v = ucast w" "\<not> v < 0x10000"
      by (auto simp: ReadVarInt_def Let_def split: if_splits)
    then have "\<not> v < 0xfd" "\<not> v \<le> 0xffff" by (simp_all add: word_less_nat_alt word_le_nat_alt)
    with w uint32.enc_dec d 2 ucast_bounds(3) [of w] show ?thesis
      by (auto simp: WriteVarInt_def ucast_down_up)
  next
    case 3
    with assms d obtain w where w: "Uint16 LittleEndian s = Inr (w, r)" "v = ucast w" "\<not> v < 0xfd"
      by (auto simp: ReadVarInt_def Let_def split: if_splits)
    with uint16.enc_dec d 3 ucast_bounds(2) [of w] show ?thesis
      by (auto simp: WriteVarInt_def ucast_down_up)
  next
    case 4
    with assms d have v: "v = ucast d" "s = r" by (auto simp: ReadVarInt_def)
    from 4 have "unat d \<noteq> 255" "unat d \<noteq> 254" "unat d \<noteq> 253"
      by (simp_all add: word_unat_eq_iff)
    then have "v < 0xfd" using unat_less_width(1) [of d]
      by (simp add: v word_less_nat_alt unat_ucast_mod)
    with v d show ?thesis by (simp add: WriteVarInt_def PutUint8_def ucast_down_up)
  qed
qed

interpretation varint: canonical_codec WriteVarInt ReadVarInt "\<lambda>_. True"
  by unfold_locales (auto simp: ReadVarInt_WriteVarInt dest: WriteVarInt_ReadVarInt)

declare ReadVarInt_WriteVarInt [codec_simps]

section \<open>Length-prefixed strings and byte arrays\<close>

definition MaxMessagePayload :: nat where
  "MaxMessagePayload = 1024 * 1024 * 32"

definition readVarStringBuf :: "bytes reader" where
  "readVarStringBuf r = andthen (ReadVarInt r) (\<lambda>(count, r).
     if unat count > MaxMessagePayload then Inl (MessageError ''ReadVarString'')
     else read_full (unat count) r)"

definition writeVarStringBuf :: "bytes \<Rightarrow> bytes" where
  "writeVarStringBuf str = WriteVarInt (word_of_nat (length str)) @ str"

definition ReadVarBytesBuf :: "u32 \<Rightarrow> bytes reader" where
  "ReadVarBytesBuf maxAllowed r = andthen (ReadVarInt r) (\<lambda>(count, r).
     if count > ucast maxAllowed then Inl (MessageError ''ReadVarBytes'')
     else read_full (unat count) r)"

definition WriteVarBytesBuf :: "bytes \<Rightarrow> bytes" where
  "WriteVarBytesBuf bs = WriteVarInt (word_of_nat (length bs)) @ bs"

text \<open>The length a Go slice can have: \<^verbatim>\<open>len\<close> is an \<^verbatim>\<open>int\<close>.\<close>

lemma unat_length_u64: "length xs < 2 ^ 64 \<Longrightarrow> unat (word_of_nat (length xs) :: u64) = length xs"
  by (simp add: unat_of_nat)

interpretation varstring:
  canonical_codec writeVarStringBuf readVarStringBuf "\<lambda>s. length s \<le> MaxMessagePayload"
proof unfold_locales
  fix x r assume "length (x::bytes) \<le> MaxMessagePayload"
  then show "readVarStringBuf (writeVarStringBuf x @ r) = Inr (x, r)"
    by (simp add: readVarStringBuf_def writeVarStringBuf_def codec_simps unat_length_u64 MaxMessagePayload_def)
next
  fix bs x r assume "readVarStringBuf bs = Inr (x, r)"
  then obtain c s where c: "ReadVarInt bs = Inr (c, s)" "read_full (unat c) s = Inr (x, r)"
    and le: "unat c \<le> MaxMessagePayload"
    by (auto simp: readVarStringBuf_def split: if_splits)
  from read_full_SomeD [OF c(2)] varint.enc_dec [OF c(1)] le
  show "length x \<le> MaxMessagePayload \<and> bs = writeVarStringBuf x @ r"
    by (auto simp: writeVarStringBuf_def)
qed

interpretation varbytes:
  canonical_codec WriteVarBytesBuf "ReadVarBytesBuf m" "\<lambda>s. length s \<le> unat m" for m
proof unfold_locales
  fix x r assume "length (x::bytes) \<le> unat m"
  moreover have "unat m < 2 ^ 64" using unat_less_width(3) [of m] by simp
  ultimately show "ReadVarBytesBuf m (WriteVarBytesBuf x @ r) = Inr (x, r)"
    by (simp add: ReadVarBytesBuf_def WriteVarBytesBuf_def codec_simps unat_length_u64
        word_less_nat_alt unat_ucast_mod)
next
  fix bs x r assume "ReadVarBytesBuf m bs = Inr (x, r)"
  then obtain c s where c: "ReadVarInt bs = Inr (c, s)" "read_full (unat c) s = Inr (x, r)"
    and le: "\<not> c > ucast m"
    by (auto simp: ReadVarBytesBuf_def split: if_splits)
  have "unat c \<le> unat m"
    using le unat_less_width(3) [of m] by (simp add: word_less_nat_alt unat_ucast_mod)
  with read_full_SomeD [OF c(2)] varint.enc_dec [OF c(1)]
  show "length x \<le> unat m \<and> bs = WriteVarBytesBuf x @ r"
    by (auto simp: WriteVarBytesBuf_def)
qed

lemma length_WriteVarBytesBuf [simp, size_simps]:
  "length (WriteVarBytesBuf b) = VarIntSerializeSize (word_of_nat (length b)) + length b"
  by (simp add: WriteVarBytesBuf_def)

section \<open>Elements\<close>

text \<open>
  \<^verbatim>\<open>readElement\<close> and \<^verbatim>\<open>writeElement\<close> dispatch on the dynamic type of their
  argument.  \<open>element_kind\<close> is that type, \<open>element\<close> a value of it.  The last two
  kinds are the fallback to \<^verbatim>\<open>binary.Read\<close>/\<^verbatim>\<open>binary.Write\<close>, which the package
  reaches with single bytes and fixed-size byte arrays.  The two timestamp kinds are only
  read; a time is its Unix second.
\<close>

definition CommandSize :: nat where
  "CommandSize = 12"

datatype element_kind =
    K_int32 | K_uint32 | K_int64 | K_uint64 | K_bool | K_uint32Time | K_int64Time
  | K_checksum | K_command | K_ip | K_hash
  | K_ServiceFlag | K_InvType | K_BitcoinNet | K_BloomUpdateType | K_RejectCode
  | K_uint8 | K_array nat

datatype element =
    E_int32 i32 | E_uint32 u32 | E_int64 i64 | E_uint64 u64 | E_bool bool
  | E_uint32Time int | E_int64Time int
  | E_checksum bytes | E_command bytes | E_ip bytes | E_hash bytes
  | E_ServiceFlag u64 | E_InvType u32 | E_BitcoinNet u32
  | E_BloomUpdateType byte | E_RejectCode byte
  | E_uint8 byte | E_array bytes

definition read_as :: "('a \<Rightarrow> element) \<Rightarrow> 'a reader \<Rightarrow> element reader" where
  "read_as f rd r = andthen (rd r) (\<lambda>(x, r). Inr (f x, r))"

fun readElement :: "element_kind \<Rightarrow> element reader" where
  "readElement K_int32 r = read_as E_int32 (Uint32 LittleEndian) r"
| "readElement K_uint32 r = read_as E_uint32 (Uint32 LittleEndian) r"
| "readElement K_int64 r = read_as E_int64 (Uint64 LittleEndian) r"
| "readElement K_uint64 r = read_as E_uint64 (Uint64 LittleEndian) r"
| "readElement K_bool r = read_as (\<lambda>rv. E_bool (rv \<noteq> 0)) Uint8 r"
| "readElement K_uint32Time r = read_as (\<lambda>rv. E_uint32Time (uint rv)) (Uint32 LittleEndian) r"
| "readElement K_int64Time r = read_as (\<lambda>rv. E_int64Time (sint rv)) (Uint64 LittleEndian) r"
| "readElement K_checksum r = read_as E_checksum (read_full 4) r"
| "readElement K_command r = read_as E_command (read_full CommandSize) r"
| "readElement K_ip r = read_as E_ip (read_full 16) r"
| "readElement K_hash r = read_as E_hash (read_full 32) r"
| "readElement K_ServiceFlag r = read_as E_ServiceFlag (Uint64 LittleEndian) r"
| "readElement K_InvType r = read_as E_InvType (Uint32 LittleEndian) r"
| "readElement K_BitcoinNet r = read_as E_BitcoinNet (Uint32 LittleEndian) r"
| "readElement K_BloomUpdateType r = read_as E_BloomUpdateType Uint8 r"
| "readElement K_RejectCode r = read_as E_RejectCode Uint8 r"
| "readElement K_uint8 r = read_as E_uint8 Uint8 r"
| "readElement (K_array n) r = read_as E_array (read_full n) r"

text \<open>\<^verbatim>\<open>binary.Write\<close> rejects the two time types, whose size is not fixed.\<close>

fun writeElement :: "element \<Rightarrow> wire_error written" where
  "writeElement (E_int32 e) = wrote (PutUint32 LittleEndian e)"
| "writeElement (E_uint32 e) = wrote (PutUint32 LittleEndian e)"
| "writeElement (E_int64 e) = wrote (PutUint64 LittleEndian e)"
| "writeElement (E_uint64 e) = wrote (PutUint64 LittleEndian e)"
| "writeElement (E_bool e) = wrote (if e then PutUint8 1 else PutUint8 0)"
| "writeElement (E_checksum e) = wrote e"
| "writeElement (E_command e) = wrote e"
| "writeElement (E_ip e) = wrote e"
| "writeElement (E_hash e) = wrote e"
| "writeElement (E_ServiceFlag e) = wrote (PutUint64 LittleEndian e)"
| "writeElement (E_InvType e) = wrote (PutUint32 LittleEndian e)"
| "writeElement (E_BitcoinNet e) = wrote (PutUint32 LittleEndian e)"
| "writeElement (E_BloomUpdateType e) = wrote (PutUint8 e)"
| "writeElement (E_RejectCode e) = wrote (PutUint8 e)"
| "writeElement (E_uint8 e) = wrote (PutUint8 e)"
| "writeElement (E_array e) = wrote e"
| "writeElement (E_uint32Time t) = ([], Some (FmtError ''binary.Write''))"
| "writeElement (E_int64Time t) = ([], Some (FmtError ''binary.Write''))"

fun readElements :: "element_kind list \<Rightarrow> element list reader" where
  "readElements [] r = Inr ([], r)"
| "readElements (k # ks) r = andthen (readElement k r) (\<lambda>(e, r).
     andthen (readElements ks r) (\<lambda>(es, r). Inr (e # es, r)))"

definition writeElements :: "element list \<Rightarrow> wire_error written" where
  "writeElements es = write_all writeElement es"

fun kind_of :: "element \<Rightarrow> element_kind" where
  "kind_of (E_int32 _) = K_int32" | "kind_of (E_uint32 _) = K_uint32"
| "kind_of (E_int64 _) = K_int64" | "kind_of (E_uint64 _) = K_uint64"
| "kind_of (E_bool _) = K_bool"
| "kind_of (E_uint32Time _) = K_uint32Time" | "kind_of (E_int64Time _) = K_int64Time"
| "kind_of (E_checksum _) = K_checksum" | "kind_of (E_command _) = K_command"
| "kind_of (E_ip _) = K_ip" | "kind_of (E_hash _) = K_hash"
| "kind_of (E_ServiceFlag _) = K_ServiceFlag" | "kind_of (E_InvType _) = K_InvType"
| "kind_of (E_BitcoinNet _) = K_BitcoinNet" | "kind_of (E_BloomUpdateType _) = K_BloomUpdateType"
| "kind_of (E_RejectCode _) = K_RejectCode" | "kind_of (E_uint8 _) = K_uint8"
| "kind_of (E_array b) = K_array (length b)"

text \<open>The Go array types have a fixed length.\<close>

fun element_ok :: "element \<Rightarrow> bool" where
  "element_ok (E_checksum b) = (length b = 4)"
| "element_ok (E_command b) = (length b = CommandSize)"
| "element_ok (E_ip b) = (length b = 16)"
| "element_ok (E_hash b) = (length b = 32)"
| "element_ok _ = True"

lemma readElement_writeElement:
  "element_ok e \<Longrightarrow> writeElement e = wrote b \<Longrightarrow> readElement (kind_of e) (b @ r) = Inr (e, r)"
  by (cases e) (auto simp: read_as_def codec_simps)

lemma readElements_writeElements:
  "list_all element_ok es \<Longrightarrow> writeElements es = wrote b \<Longrightarrow>
   readElements (map kind_of es) (b @ r) = Inr (es, r)"
proof (induction es arbitrary: b)
  case Nil
  then show ?case by (simp add: writeElements_def)
next
  case (Cons e es)
  then obtain c d where c: "writeElement e = wrote c" and d: "writeElements es = wrote d" and b: "b = c @ d"
    by (auto simp: writeElements_def wthen_def prod_eq_iff split: option.splits)
  from Cons.prems(1) c have "readElement (kind_of e) (c @ (d @ r)) = Inr (e, d @ r)"
    by (intro readElement_writeElement) simp_all
  with Cons d b show ?case by simp
qed

end
