(* ===== verification/Wire_Tx.thy ===== *)
theory Wire_Tx
  imports Wire_Common
begin

text \<open>
  \<^verbatim>\<open>wire/txassets.go\<close> and \<^verbatim>\<open>wire/msgtx.go\<close>: transactions whose outputs carry
  assets, their two encodings (with and without witnesses), their sizes and hashes.

  Asset amounts are values of the \<^verbatim>\<open>Decimal\<close> type of the separate indexer module, which
  is not part of this repository.  The functions of it that the codec calls are the
  fields of \<open>decimal_ops\<close>, an argument of the definitions; a Go string is its bytes.

  The decoder copies scripts through one fixed-size scratch area (\<^verbatim>\<open>scriptSlab\<close>); only the
  room left in it matters to the result and is threaded as a number.  The final copy of all
  scripts into one fresh allocation keeps every script's value and is the identity here.
\<close>

section \<open>Assets\<close>

record AssetName =
  Protocol :: bytes
  AssetType :: bytes
  Ticker :: bytes

record 'd AssetInfo =
  AssetInfo_Name :: AssetName
  Amount :: 'd
  BindingSat :: u32

type_synonym 'd TxAssets = "'d AssetInfo list"

record 'd decimal_ops =
  Validate :: "'d \<Rightarrow> bool"
  ToFormatString :: "'d \<Rightarrow> bytes"
  NewDecimalFromFormatString :: "bytes \<Rightarrow> 'd option"

text \<open>\<^verbatim>\<open>strings.Split(name, sep)\<close> for a one-byte separator.\<close>

fun split_on :: "byte \<Rightarrow> bytes \<Rightarrow> bytes list" where
  "split_on c [] = [[]]"
| "split_on c (x # xs) =
     (if x = c then [] # split_on c xs
      else (case split_on c xs of [] \<Rightarrow> [[x]] | p # ps \<Rightarrow> (x # p) # ps))"

definition NewAssetNameFromString :: "bytes \<Rightarrow> AssetName option" where
  "NewAssetNameFromString name =
     (case split_on 0x3a name of
        [a, b, c] \<Rightarrow> Some \<lparr>Protocol = a, AssetType = b, Ticker = c\<rparr>
      | _ \<Rightarrow> None)"

text \<open>One round of the loop of \<^verbatim>\<open>AssetsWriteToBuf\<close>, and the loop.\<close>

definition AssetBytes :: "'d decimal_ops \<Rightarrow> 'd AssetInfo \<Rightarrow> bytes" where
  "AssetBytes ops asset =
     WriteVarBytesBuf (Protocol (AssetInfo_Name asset)) @
     WriteVarBytesBuf (AssetType (AssetInfo_Name asset)) @
     WriteVarBytesBuf (Ticker (AssetInfo_Name asset)) @
     WriteVarBytesBuf (ToFormatString ops (Amount asset)) @
     WriteVarInt (ucast (BindingSat asset))"

definition AssetWrite :: "'d decimal_ops \<Rightarrow> 'd AssetInfo \<Rightarrow> wire_error written" where
  "AssetWrite ops asset =
     (if \<not> Validate ops (Amount asset) then ([], Some (FmtError ''invalid asset amount''))
      else wrote (AssetBytes ops asset))"

definition AssetsWriteToBuf :: "'d decimal_ops \<Rightarrow> 'd TxAssets \<Rightarrow> wire_error written" where
  "AssetsWriteToBuf ops assets =
     wthen (wrote (WriteVarInt (word_of_nat (length assets)))) (write_all (AssetWrite ops) assets)"

text \<open>\<open>slab\<close> is \<^verbatim>\<open>len(s)\<close>, the room in the scratch area.\<close>

definition readString :: "nat \<Rightarrow> bytes reader" where
  "readString slab r = andthen (ReadVarInt r) (\<lambda>(count, r).
     if count = 0 then Inr ([], r)
     else if unat count > slab then Inl (FmtError ''too large'')
     else read_full (unat count) r)"

definition AssetRead :: "'d decimal_ops \<Rightarrow> nat \<Rightarrow> 'd AssetInfo reader" where
  "AssetRead ops slab r =
     andthen (readString slab r) (\<lambda>(protocol, r).
     andthen (readString slab r) (\<lambda>(type, r).
     andthen (readString slab r) (\<lambda>(ticker, r).
     andthen (readString slab r) (\<lambda>(formatedAmount, r).
     case NewDecimalFromFormatString ops formatedAmount of
       None \<Rightarrow> Inl (FmtError ''invalid amount'')
     | Some amount \<Rightarrow>
         andthen (ReadVarInt r) (\<lambda>(bindingSat, r).
           Inr (\<lparr>AssetInfo_Name = \<lparr>Protocol = protocol, AssetType = type, Ticker = ticker\<rparr>,
                 Amount = amount, BindingSat = ucast bindingSat\<rparr>, r))))))"

definition AssetsReadFromBuf :: "'d decimal_ops \<Rightarrow> nat \<Rightarrow> 'd TxAssets reader" where
  "AssetsReadFromBuf ops slab r = andthen (ReadVarInt r) (\<lambda>(count, r).
     if count = 0 then Inr ([], r) else repeat_read (unat count) (AssetRead ops slab) r)"

text \<open>\<^verbatim>\<open>GetBindingSatNum\<close> on 64-bit integers; Go's division truncates towards zero.\<close>

definition trunc_div :: "int \<Rightarrow> int \<Rightarrow> int" where
  "trunc_div a b = sgn a * sgn b * (\<bar>a\<bar> div \<bar>b\<bar>)"

definition GetBindingSatNum :: "i64 \<Rightarrow> u32 \<Rightarrow> i64" where
  "GetBindingSatNum amt n =
     (if n = 0 then 0 else word_of_int (trunc_div (sint (amt + ucast n - 1)) (uint n)))"

section \<open>Transactions\<close>

record OutPoint =
  Hash :: bytes
  Index :: u32

type_synonym TxWitness = "bytes list"

record TxIn =
  PreviousOutPoint :: OutPoint
  SignatureScript :: bytes
  Witness :: TxWitness
  Sequence :: u32

record 'd TxOut =
  Value :: i64
  Assets :: "'d TxAssets"
  PkScript :: bytes

record 'd MsgTx =
  Version :: i32
  TxIns :: "TxIn list"
  TxOuts :: "'d TxOut list"
  LockTime :: u32

datatype MessageEncoding = BaseEncoding | WitnessEncoding

definition MaxTxInSequenceNum :: u32 where "MaxTxInSequenceNum = 0xffffffff"
definition MaxPrevOutIndex :: u32 where "MaxPrevOutIndex = 0xffffffff"
definition AnchorTxOutIndex :: u32 where "AnchorTxOutIndex = 0xfffffffe"
definition minTxInPayload :: nat where "minTxInPayload = 9 + 32"
definition maxTxInPerMessage :: nat where "maxTxInPerMessage = MaxMessagePayload div minTxInPayload + 1"
definition MinTxOutPayload :: nat where "MinTxOutPayload = 9"
definition maxTxOutPerMessage :: nat where "maxTxOutPerMessage = MaxMessagePayload div MinTxOutPayload + 1"
definition maxWitnessItemsPerInput :: nat where "maxWitnessItemsPerInput = 4000000"
definition maxWitnessItemSize :: nat where "maxWitnessItemSize = 4000000"
definition scriptSlabSize :: nat where "scriptSlabSize = 2 ^ 22"
definition WitnessFlag :: byte where "WitnessFlag = 0x01"
definition TxFlagMarker :: byte where "TxFlagMarker = 0x00"

lemmas tx_limits = maxTxInPerMessage_def minTxInPayload_def MaxMessagePayload_def
  maxTxOutPerMessage_def MinTxOutPayload_def maxWitnessItemsPerInput_def maxWitnessItemSize_def

subsection \<open>Fields\<close>

definition readOutPointBuf :: "OutPoint reader" where
  "readOutPointBuf r =
     andthen (read_full 32 r) (\<lambda>(hash, r).
     andthen (Uint32 LittleEndian r) (\<lambda>(index, r). Inr (\<lparr>Hash = hash, Index = index\<rparr>, r)))"

definition writeOutPointBuf :: "OutPoint \<Rightarrow> bytes" where
  "writeOutPointBuf op = Hash op @ PutUint32 LittleEndian (Index op)"

definition readScriptBuf :: "nat \<Rightarrow> bytes reader" where
  "readScriptBuf slab r = andthen (ReadVarInt r) (\<lambda>(count, r).
     if unat count > maxWitnessItemSize then Inl (MessageError ''readScript'')
     else if unat count > slab then Inl (MessageError ''readScript'')
     else read_full (unat count) r)"

definition readTxInBuf :: "nat \<Rightarrow> TxIn reader" where
  "readTxInBuf slab r =
     andthen (readOutPointBuf r) (\<lambda>(op, r).
     andthen (readScriptBuf slab r) (\<lambda>(script, r).
     andthen (Uint32 LittleEndian r) (\<lambda>(sequence, r).
       Inr (\<lparr>PreviousOutPoint = op, SignatureScript = script, Witness = [], Sequence = sequence\<rparr>, r))))"

definition writeTxInBuf :: "TxIn \<Rightarrow> bytes" where
  "writeTxInBuf ti =
     writeOutPointBuf (PreviousOutPoint ti) @ WriteVarBytesBuf (SignatureScript ti) @
     PutUint32 LittleEndian (Sequence ti)"

definition readTxOutBuf :: "'d decimal_ops \<Rightarrow> nat \<Rightarrow> 'd TxOut reader" where
  "readTxOutBuf ops slab r =
     andthen (Uint64 LittleEndian r) (\<lambda>(value, r).
     andthen (AssetsReadFromBuf ops slab r) (\<lambda>(assets, r).
     andthen (readScriptBuf slab r) (\<lambda>(script, r).
       Inr (\<lparr>Value = value, Assets = assets, PkScript = script\<rparr>, r))))"

definition WriteTxOutBuf :: "'d decimal_ops \<Rightarrow> 'd TxOut \<Rightarrow> wire_error written" where
  "WriteTxOutBuf ops to =
     wthen (wrote (PutUint64 LittleEndian (Value to)))
       (wthen (AssetsWriteToBuf ops (Assets to)) (wrote (WriteVarBytesBuf (PkScript to))))"

definition writeTxWitnessBuf :: "TxWitness \<Rightarrow> bytes" where
  "writeTxWitnessBuf wit = WriteVarInt (word_of_nat (length wit)) @ concat (map WriteVarBytesBuf wit)"

subsection \<open>The message\<close>

fun any_witness :: "TxIn list \<Rightarrow> bool" where
  "any_witness [] = False"
| "any_witness (txIn # txIns) = (if length (Witness txIn) \<noteq> 0 then True else any_witness txIns)"

definition HasWitness :: "'d MsgTx \<Rightarrow> bool" where
  "HasWitness msg = any_witness (TxIns msg)"

lemma any_witness_iff: "any_witness txins \<longleftrightarrow> (\<exists>ti \<in> set txins. Witness ti \<noteq> [])"
  by (induction txins) auto

text \<open>The three loops of \<^verbatim>\<open>btcDecode\<close>: each script read shrinks the scratch area.\<close>

definition read_txin_slab :: "nat \<times> bytes \<Rightarrow> wire_error + (TxIn \<times> nat \<times> bytes)" where
  "read_txin_slab = (\<lambda>(slab, r). andthen (readTxInBuf slab r) (\<lambda>(ti, r).
     Inr (ti, slab - length (SignatureScript ti), r)))"

definition read_txout_slab ::
    "'d decimal_ops \<Rightarrow> nat \<times> bytes \<Rightarrow> wire_error + ('d TxOut \<times> nat \<times> bytes)" where
  "read_txout_slab ops = (\<lambda>(slab, r). andthen (readTxOutBuf ops slab r) (\<lambda>(to, r).
     Inr (to, slab - length (PkScript to), r)))"

definition read_script_slab :: "nat \<times> bytes \<Rightarrow> wire_error + (bytes \<times> nat \<times> bytes)" where
  "read_script_slab = (\<lambda>(slab, r). andthen (readScriptBuf slab r) (\<lambda>(s, r).
     Inr (s, slab - length s, r)))"

definition read_witness_slab :: "nat \<times> bytes \<Rightarrow> wire_error + (TxWitness \<times> nat \<times> bytes)" where
  "read_witness_slab = (\<lambda>(slab, r). andthen (ReadVarInt r) (\<lambda>(witCount, r).
     if unat witCount > maxWitnessItemsPerInput then Inl (MessageError ''MsgTx.BtcDecode'')
     else repeat_read (unat witCount) read_script_slab (slab, r)))"

definition read_tx_flag :: "MessageEncoding \<Rightarrow> (byte \<times> u64) reader" where
  "read_tx_flag enc r = andthen (ReadVarInt r) (\<lambda>(count, r).
     if count = ucast TxFlagMarker \<and> enc = WitnessEncoding then
       andthen (Uint8 r) (\<lambda>(flag, r).
         if flag \<noteq> WitnessFlag then Inl (MessageError ''MsgTx.BtcDecode'')
         else andthen (ReadVarInt r) (\<lambda>(count, r). Inr ((flag, count), r)))
     else Inr ((0, count), r))"

definition read_witnesses ::
    "byte \<Rightarrow> MessageEncoding \<Rightarrow> TxIn list \<Rightarrow> nat \<times> bytes \<Rightarrow> wire_error + (TxIn list \<times> bytes)" where
  "read_witnesses flag enc txins = (\<lambda>(slab, r).
     if flag \<noteq> 0 \<and> enc = WitnessEncoding then
       andthen (repeat_read (length txins) read_witness_slab (slab, r)) (\<lambda>(wits, slab, r).
         let txins = map2 (\<lambda>ti w. ti\<lparr>Witness := w\<rparr>) txins wits
         in if \<not> any_witness txins then Inl (FmtError ''witness flag set but tx has no witnesses'')
            else Inr (txins, r))
     else Inr (txins, r))"

definition btcDecode :: "'d decimal_ops \<Rightarrow> MessageEncoding \<Rightarrow> nat \<Rightarrow> 'd MsgTx reader" where
  "btcDecode ops enc slab r =
     andthen (Uint32 LittleEndian r) (\<lambda>(version, r).
     andthen (read_tx_flag enc r) (\<lambda>((flag, count), r).
     if unat count > maxTxInPerMessage then Inl (MessageError ''MsgTx.BtcDecode'') else
     andthen (repeat_read (unat count) read_txin_slab (slab, r)) (\<lambda>(txins, slab, r).
     andthen (ReadVarInt r) (\<lambda>(count, r).
     if unat count > maxTxOutPerMessage then Inl (MessageError ''MsgTx.BtcDecode'') else
     andthen (repeat_read (unat count) (read_txout_slab ops) (slab, r)) (\<lambda>(txouts, slab, r).
     andthen (read_witnesses flag enc txins (slab, r)) (\<lambda>(txins, r).
     andthen (Uint32 LittleEndian r) (\<lambda>(lockTime, r).
       Inr (\<lparr>Version = version, TxIns = txins, TxOuts = txouts, LockTime = lockTime\<rparr>, r))))))))"

definition BtcDecode :: "'d decimal_ops \<Rightarrow> MessageEncoding \<Rightarrow> 'd MsgTx reader" where
  "BtcDecode ops enc r = btcDecode ops enc scriptSlabSize r"

definition btcEncode :: "'d decimal_ops \<Rightarrow> MessageEncoding \<Rightarrow> 'd MsgTx \<Rightarrow> wire_error written" where
  "btcEncode ops enc msg =
     (let doWitness = (enc = WitnessEncoding \<and> HasWitness msg) in
      wthen (wrote (PutUint32 LittleEndian (Version msg)))
      (wthen (wrote (if doWitness then [TxFlagMarker, WitnessFlag] else []))
      (wthen (wrote (WriteVarInt (word_of_nat (length (TxIns msg)))))
      (wthen (wrote (concat (map writeTxInBuf (TxIns msg))))
      (wthen (wrote (WriteVarInt (word_of_nat (length (TxOuts msg)))))
      (wthen (write_all (WriteTxOutBuf ops) (TxOuts msg))
      (wthen (wrote (if doWitness then concat (map (writeTxWitnessBuf \<circ> Witness) (TxIns msg)) else []))
        (wrote (PutUint32 LittleEndian (LockTime msg))))))))))"

definition Deserialize :: "'d decimal_ops \<Rightarrow> 'd MsgTx reader" where
  "Deserialize ops r = BtcDecode ops WitnessEncoding r"

definition DeserializeNoWitness :: "'d decimal_ops \<Rightarrow> 'd MsgTx reader" where
  "DeserializeNoWitness ops r = BtcDecode ops BaseEncoding r"

definition Serialize :: "'d decimal_ops \<Rightarrow> 'd MsgTx \<Rightarrow> wire_error written" where
  "Serialize ops msg = btcEncode ops WitnessEncoding msg"

definition SerializeNoWitness :: "'d decimal_ops \<Rightarrow> 'd MsgTx \<Rightarrow> wire_error written" where
  "SerializeNoWitness ops msg = btcEncode ops BaseEncoding msg"

subsection \<open>Sizes and script locations\<close>

text \<open>\<^verbatim>\<open>VarIntSerializeSize(uint64(len(x))) + len(x)\<close>.\<close>

definition varBytesSize :: "bytes \<Rightarrow> nat" where
  "varBytesSize b = VarIntSerializeSize (word_of_nat (length b)) + length b"

definition TxIn_SerializeSize :: "TxIn \<Rightarrow> nat" where
  "TxIn_SerializeSize t =
     40 + VarIntSerializeSize (word_of_nat (length (SignatureScript t))) + length (SignatureScript t)"

definition TxWitness_SerializeSize :: "TxWitness \<Rightarrow> nat" where
  "TxWitness_SerializeSize t =
     VarIntSerializeSize (word_of_nat (length t)) + sum_list (map varBytesSize t)"

definition txAssetsSerializeSize :: "'d decimal_ops \<Rightarrow> 'd TxAssets \<Rightarrow> nat" where
  "txAssetsSerializeSize ops assets =
     VarIntSerializeSize (word_of_nat (length assets)) +
     sum_list (map (\<lambda>asset.
       varBytesSize (Protocol (AssetInfo_Name asset)) +
       varBytesSize (AssetType (AssetInfo_Name asset)) +
       varBytesSize (Ticker (AssetInfo_Name asset)) +
       varBytesSize (ToFormatString ops (Amount asset)) +
       VarIntSerializeSize (ucast (BindingSat asset))) assets)"

definition TxOut_SerializeSize :: "'d decimal_ops \<Rightarrow> 'd TxOut \<Rightarrow> nat" where
  "TxOut_SerializeSize ops t = 8 + txAssetsSerializeSize ops (Assets t) + varBytesSize (PkScript t)"

definition baseSize :: "'d decimal_ops \<Rightarrow> 'd MsgTx \<Rightarrow> nat" where
  "baseSize ops msg =
     8 + VarIntSerializeSize (word_of_nat (length (TxIns msg))) +
     VarIntSerializeSize (word_of_nat (length (TxOuts msg))) +
     sum_list (map TxIn_SerializeSize (TxIns msg)) +
     sum_list (map (TxOut_SerializeSize ops) (TxOuts msg))"

definition SerializeSize :: "'d decimal_ops \<Rightarrow> 'd MsgTx \<Rightarrow> nat" where
  "SerializeSize ops msg =
     (if HasWitness msg
      then baseSize ops msg + 2 + sum_list (map (TxWitness_SerializeSize \<circ> Witness) (TxIns msg))
      else baseSize ops msg)"

definition SerializeSizeStripped :: "'d decimal_ops \<Rightarrow> 'd MsgTx \<Rightarrow> nat" where
  "SerializeSizeStripped ops msg = baseSize ops msg"

text \<open>
  \<^verbatim>\<open>PkScriptLocs\<close> decides whether the marker and flag bytes are present by
  \<^verbatim>\<open>msg.TxIn[0].Witness != nil\<close>.  It is the one function that tells a nil witness from an empty
  one, so its argument is the transaction in memory, where the witness of an input is a slice
  that may be nil (\<^const>\<open>None\<close>); \<open>tx_value\<close> is the transaction every other function sees.
\<close>

record memTxIn =
  mem_PreviousOutPoint :: OutPoint
  mem_SignatureScript :: bytes
  mem_Witness :: "TxWitness option"
  mem_Sequence :: u32

record 'd memTx =
  mem_Version :: i32
  mem_TxIns :: "memTxIn list"
  mem_TxOuts :: "'d TxOut list"
  mem_LockTime :: u32

definition slice_items :: "'a list option \<Rightarrow> 'a list" where
  "slice_items w = (case w of None \<Rightarrow> [] | Some items \<Rightarrow> items)"

definition txin_value :: "memTxIn \<Rightarrow> TxIn" where
  "txin_value ti = \<lparr>PreviousOutPoint = mem_PreviousOutPoint ti, SignatureScript = mem_SignatureScript ti,
     Witness = slice_items (mem_Witness ti), Sequence = mem_Sequence ti\<rparr>"

definition tx_value :: "'d memTx \<Rightarrow> 'd MsgTx" where
  "tx_value msg = \<lparr>Version = mem_Version msg, TxIns = map txin_value (mem_TxIns msg), TxOuts = mem_TxOuts msg,
     LockTime = mem_LockTime msg\<rparr>"

fun script_locs :: "'d decimal_ops \<Rightarrow> nat \<Rightarrow> 'd TxOut list \<Rightarrow> nat list" where
  "script_locs ops n [] = []"
| "script_locs ops n (txOut # txOuts) =
     (let loc = n + 8 + txAssetsSerializeSize ops (Assets txOut) +
                VarIntSerializeSize (word_of_nat (length (PkScript txOut)))
      in loc # script_locs ops (loc + length (PkScript txOut)) txOuts)"

definition PkScriptLocs :: "'d decimal_ops \<Rightarrow> 'd memTx \<Rightarrow> nat list" where
  "PkScriptLocs ops msg =
     (if length (mem_TxOuts msg) = 0 then []
      else script_locs ops
        (4 + VarIntSerializeSize (word_of_nat (length (mem_TxIns msg))) +
         VarIntSerializeSize (word_of_nat (length (mem_TxOuts msg))) +
         (if length (mem_TxIns msg) > 0 \<and> mem_Witness (mem_TxIns msg ! 0) \<noteq> None then 2 else 0) +
         sum_list (map (TxIn_SerializeSize \<circ> txin_value) (mem_TxIns msg))) (mem_TxOuts msg))"

subsection \<open>Hashes\<close>

text \<open>
  \<^verbatim>\<open>chainhash.DoubleHashRaw\<close> hashes whatever the serializer wrote and drops its error;
  \<open>sha256\<close> is the hash function.
\<close>

definition DoubleHashRaw :: "(bytes \<Rightarrow> bytes) \<Rightarrow> wire_error written \<Rightarrow> bytes" where
  "DoubleHashRaw sha256 serialized = sha256 (sha256 (fst serialized))"

definition TxHash :: "(bytes \<Rightarrow> bytes) \<Rightarrow> 'd decimal_ops \<Rightarrow> 'd MsgTx \<Rightarrow> bytes" where
  "TxHash sha256 ops msg = DoubleHashRaw sha256 (SerializeNoWitness ops msg)"

definition WitnessHash :: "(bytes \<Rightarrow> bytes) \<Rightarrow> 'd decimal_ops \<Rightarrow> 'd MsgTx \<Rightarrow> bytes" where
  "WitnessHash sha256 ops msg =
     (if HasWitness msg then DoubleHashRaw sha256 (Serialize ops msg) else TxHash sha256 ops msg)"

section \<open>Codec laws of the fields\<close>

interpretation str: canonical_codec WriteVarBytesBuf "readString slab"
  "\<lambda>s. length s \<le> slab \<and> length s < 2 ^ 64" for slab
proof unfold_locales
  fix x r assume x: "length (x::bytes) \<le> slab \<and> length x < 2 ^ 64"
  have "word_of_nat (length x) = (0::u64) \<longleftrightarrow> x = []"
    using unat_length_u64 [of x] x by (auto simp: word_unat_eq_iff)
  with x show "readString slab (WriteVarBytesBuf x @ r) = Inr (x, r)"
    by (auto simp: readString_def WriteVarBytesBuf_def codec_simps unat_length_u64)
next
  fix bs x r assume "readString slab bs = Inr (x, r)"
  then obtain c s where c: "ReadVarInt bs = Inr (c, s)"
    and d: "(if c = 0 then Inr ([], s) else if unat c > slab then Inl (FmtError ''too large'')
      else read_full (unat c) s) = Inr (x, r)"
    by (auto simp: readString_def)
  have "length x = unat c \<and> s = x @ r \<and> unat c \<le> slab"
    using d read_full_SomeD [of "unat c" s x r] by (auto split: if_splits)
  with varint.enc_dec [OF c] unat_less_width(4) [of c]
  show "(length x \<le> slab \<and> length x < 2 ^ 64) \<and> bs = WriteVarBytesBuf x @ r"
    by (auto simp: WriteVarBytesBuf_def)
qed

text \<open>What \<^const>\<open>AssetRead\<close> can read back: strings that fit and an amount the indexer module parses.\<close>

definition asset_ok :: "'d decimal_ops \<Rightarrow> nat \<Rightarrow> 'd AssetInfo \<Rightarrow> bool" where
  "asset_ok ops slab a \<longleftrightarrow>
     slab < 2 ^ 64 \<and>
     length (Protocol (AssetInfo_Name a)) \<le> slab \<and> length (AssetType (AssetInfo_Name a)) \<le> slab \<and>
     length (Ticker (AssetInfo_Name a)) \<le> slab \<and> length (ToFormatString ops (Amount a)) \<le> slab \<and>
     Validate ops (Amount a) \<and>
     NewDecimalFromFormatString ops (ToFormatString ops (Amount a)) = Some (Amount a)"

lemma asset_ok_mono: "asset_ok ops slab a \<Longrightarrow> slab \<le> slab' \<Longrightarrow> slab' < 2 ^ 64 \<Longrightarrow> asset_ok ops slab' a"
  by (auto simp: asset_ok_def)

interpretation asset: codec "AssetBytes ops" "AssetRead ops slab" "asset_ok ops slab" for ops slab
proof unfold_locales
  fix x r assume "asset_ok ops slab x"
  then show "AssetRead ops slab (AssetBytes ops x @ r) = Inr (x, r)"
    by (simp add: AssetRead_def AssetBytes_def asset_ok_def str.dec_enc ReadVarInt_WriteVarInt ucast_down_up)
qed

interpretation outpoint: canonical_codec writeOutPointBuf readOutPointBuf "\<lambda>op. length (Hash op) = 32"
proof unfold_locales
  fix x :: OutPoint and r assume "length (Hash x) = 32"
  then show "readOutPointBuf (writeOutPointBuf x @ r) = Inr (x, r)"
    by (simp add: readOutPointBuf_def writeOutPointBuf_def codec_simps)
next
  fix bs x r assume "readOutPointBuf bs = Inr (x, r)"
  then show "length (Hash x) = 32 \<and> bs = writeOutPointBuf x @ r"
    by (auto simp: readOutPointBuf_def writeOutPointBuf_def dest!: read_full_SomeD uint32.enc_dec)
qed

interpretation script: canonical_codec WriteVarBytesBuf "readScriptBuf slab"
  "\<lambda>s. length s \<le> maxWitnessItemSize \<and> length s \<le> slab" for slab
proof unfold_locales
  fix x r assume "length (x::bytes) \<le> maxWitnessItemSize \<and> length x \<le> slab"
  then show "readScriptBuf slab (WriteVarBytesBuf x @ r) = Inr (x, r)"
    by (simp add: readScriptBuf_def WriteVarBytesBuf_def codec_simps unat_length_u64 maxWitnessItemSize_def)
next
  fix bs x r assume "readScriptBuf slab bs = Inr (x, r)"
  then show "(length x \<le> maxWitnessItemSize \<and> length x \<le> slab) \<and> bs = WriteVarBytesBuf x @ r"
    by (auto simp: readScriptBuf_def WriteVarBytesBuf_def split: if_splits
        dest!: read_full_SomeD varint.enc_dec)
qed

definition txin_ok :: "nat \<Rightarrow> TxIn \<Rightarrow> bool" where
  "txin_ok slab ti \<longleftrightarrow> length (Hash (PreviousOutPoint ti)) = 32 \<and>
     length (SignatureScript ti) \<le> maxWitnessItemSize \<and> length (SignatureScript ti) \<le> slab"

interpretation txin: canonical_codec writeTxInBuf "readTxInBuf slab"
  "\<lambda>ti. txin_ok slab ti \<and> Witness ti = []" for slab
proof unfold_locales
  fix x r assume "txin_ok slab x \<and> Witness x = []"
  then show "readTxInBuf slab (writeTxInBuf x @ r) = Inr (x, r)"
    by (simp add: txin_ok_def readTxInBuf_def writeTxInBuf_def outpoint.dec_enc script.dec_enc codec_simps)
next
  fix bs x r assume "readTxInBuf slab bs = Inr (x, r)"
  then show "(txin_ok slab x \<and> Witness x = []) \<and> bs = writeTxInBuf x @ r"
    by (auto simp: txin_ok_def readTxInBuf_def writeTxInBuf_def
        dest!: outpoint.enc_dec script.enc_dec uint32.enc_dec)
qed

text \<open>The bytes of an output whose amounts are all valid.\<close>

definition TxOutBytes :: "'d decimal_ops \<Rightarrow> 'd TxOut \<Rightarrow> bytes" where
  "TxOutBytes ops to =
     PutUint64 LittleEndian (Value to) @ WriteVarInt (word_of_nat (length (Assets to))) @
     concat (map (AssetBytes ops) (Assets to)) @ WriteVarBytesBuf (PkScript to)"

definition assets_valid :: "'d decimal_ops \<Rightarrow> 'd TxAssets \<Rightarrow> bool" where
  "assets_valid ops assets \<longleftrightarrow> (\<forall>a \<in> set assets. Validate ops (Amount a))"

lemma AssetsWriteToBuf_valid:
  "assets_valid ops assets \<Longrightarrow> AssetsWriteToBuf ops assets =
     wrote (WriteVarInt (word_of_nat (length assets)) @ concat (map (AssetBytes ops) assets))"
  by (simp add: AssetsWriteToBuf_def write_all_total [where f = "AssetBytes ops"] AssetWrite_def assets_valid_def)

lemma WriteTxOutBuf_valid:
  "assets_valid ops (Assets to) \<Longrightarrow> WriteTxOutBuf ops to = wrote (TxOutBytes ops to)"
  by (simp add: WriteTxOutBuf_def AssetsWriteToBuf_valid TxOutBytes_def)

definition txout_ok :: "'d decimal_ops \<Rightarrow> nat \<Rightarrow> 'd TxOut \<Rightarrow> bool" where
  "txout_ok ops slab to \<longleftrightarrow> length (Assets to) < 2 ^ 64 \<and> (\<forall>a \<in> set (Assets to). asset_ok ops slab a) \<and>
     length (PkScript to) \<le> maxWitnessItemSize \<and> length (PkScript to) \<le> slab"

lemma txout_ok_assets_valid: "txout_ok ops slab to \<Longrightarrow> assets_valid ops (Assets to)"
  by (auto simp: txout_ok_def assets_valid_def asset_ok_def)

lemma AssetsReadFromBuf_enc:
  assumes "length assets < 2 ^ 64" and "\<And>a. a \<in> set assets \<Longrightarrow> asset_ok ops slab a"
  shows "AssetsReadFromBuf ops slab
      (WriteVarInt (word_of_nat (length assets)) @ concat (map (AssetBytes ops) assets) @ r) = Inr (assets, r)"
proof -
  have "word_of_nat (length assets) = (0::u64) \<longleftrightarrow> assets = []"
    using unat_length_u64 [OF assms(1)] by (auto simp: word_unat_eq_iff)
  with assms show ?thesis
    by (auto simp: AssetsReadFromBuf_def ReadVarInt_WriteVarInt unat_length_u64 asset.repeat_dec_enc)
qed

interpretation txout: codec "TxOutBytes ops" "readTxOutBuf ops slab" "txout_ok ops slab" for ops slab
proof unfold_locales
  fix x r assume x: "txout_ok ops slab x"
  then have "AssetsReadFromBuf ops slab (WriteVarInt (word_of_nat (length (Assets x))) @
      concat (map (AssetBytes ops) (Assets x)) @ WriteVarBytesBuf (PkScript x) @ r) =
      Inr (Assets x, WriteVarBytesBuf (PkScript x) @ r)"
    by (intro AssetsReadFromBuf_enc) (auto simp: txout_ok_def)
  moreover have "readScriptBuf slab (WriteVarBytesBuf (PkScript x) @ r) = Inr (PkScript x, r)"
    using x by (intro script.dec_enc) (simp add: txout_ok_def)
  ultimately show "readTxOutBuf ops slab (TxOutBytes ops x @ r) = Inr (x, r)"
    by (simp add: readTxOutBuf_def TxOutBytes_def codec_simps)
qed

subsection \<open>The scratch area suffices\<close>

definition witness_cost :: "TxWitness \<Rightarrow> nat" where
  "witness_cost w = sum_list (map length w)"

definition witness_ok :: "TxWitness \<Rightarrow> bool" where
  "witness_ok w \<longleftrightarrow> length w \<le> maxWitnessItemsPerInput \<and> (\<forall>i \<in> set w. length i \<le> maxWitnessItemSize)"

text \<open>All script bytes of a transaction that the decoder keeps in the scratch area.\<close>

definition scripts_size :: "MessageEncoding \<Rightarrow> 'd MsgTx \<Rightarrow> nat" where
  "scripts_size enc tx =
     sum_list (map (length \<circ> SignatureScript) (TxIns tx)) + sum_list (map (length \<circ> PkScript) (TxOuts tx)) +
     (if enc = WitnessEncoding then sum_list (map (witness_cost \<circ> Witness) (TxIns tx)) else 0)"

text \<open>
  The transactions the decoder reads back: Go's array lengths, the decoder's own limits,
  a scratch area large enough for the scripts and the asset strings, and at least one input
  under the witness encoding (an input count of zero is the marker of that encoding).
\<close>

definition tx_ok :: "'d decimal_ops \<Rightarrow> MessageEncoding \<Rightarrow> nat \<Rightarrow> 'd MsgTx \<Rightarrow> bool" where
  "tx_ok ops enc slab tx \<longleftrightarrow>
     (enc = WitnessEncoding \<longrightarrow> TxIns tx \<noteq> []) \<and> (enc = BaseEncoding \<longrightarrow> \<not> HasWitness tx) \<and>
     length (TxIns tx) \<le> maxTxInPerMessage \<and> length (TxOuts tx) \<le> maxTxOutPerMessage \<and>
     scripts_size enc tx \<le> slab \<and>
     (\<forall>ti \<in> set (TxIns tx). txin_ok slab ti \<and> witness_ok (Witness ti)) \<and>
     (\<forall>to \<in> set (TxOuts tx). length (Assets to) < 2 ^ 64 \<and> length (PkScript to) \<le> maxWitnessItemSize \<and>
        (\<forall>a \<in> set (Assets to). asset_ok ops (slab - scripts_size enc tx) a)) \<and> slab < 2 ^ 64"

abbreviation strip_witness :: "TxIn \<Rightarrow> TxIn" where
  "strip_witness ti \<equiv> ti\<lparr>Witness := []\<rparr>"

lemma writeTxInBuf_strip [simp]: "writeTxInBuf (ti\<lparr>Witness := w\<rparr>) = writeTxInBuf ti"
  by (simp add: writeTxInBuf_def)

lemma read_txins:
  assumes "sum_list (map (length \<circ> SignatureScript) txins) + spare \<le> slab"
    and "\<And>ti. ti \<in> set txins \<Longrightarrow> txin_ok slab ti"
  shows "repeat_read (length txins) read_txin_slab (slab, concat (map writeTxInBuf txins) @ r) =
    Inr (map strip_witness txins, (slab - sum_list (map (length \<circ> SignatureScript) txins), r))"
proof -
  let ?xs = "map strip_witness txins"
  have len: "map (length \<circ> SignatureScript) ?xs = map (length \<circ> SignatureScript) txins"
    and enc: "map writeTxInBuf ?xs = map writeTxInBuf txins" by simp_all
  have "repeat_read (length ?xs) read_txin_slab (slab, concat (map writeTxInBuf ?xs) @ r) =
    Inr (?xs, (slab - sum_list (map (length \<circ> SignatureScript) ?xs), r))"
  proof (rule repeat_read_budget)
    show "sum_list (map (length \<circ> SignatureScript) ?xs) + spare \<le> slab"
      using assms(1) by (simp only: len)
    fix x s r assume x: "x \<in> set ?xs" and s: "(length \<circ> SignatureScript) x + spare \<le> s"
    from x obtain ti where ti: "ti \<in> set txins" "x = strip_witness ti" by auto
    with assms(2) [OF ti(1)] s have "txin_ok s x \<and> Witness x = []" by (simp add: txin_ok_def)
    then have "readTxInBuf s (writeTxInBuf x @ r) = Inr (x, r)" by (rule txin.dec_enc)
    then show "read_txin_slab (s, writeTxInBuf x @ r) = Inr (x, (s - (length \<circ> SignatureScript) x, r))"
      by (simp add: read_txin_slab_def)
  qed
  then show ?thesis by (simp only: len enc length_map)
qed

lemma read_txouts:
  assumes "sum_list (map (length \<circ> PkScript) txouts) + spare \<le> slab" and "slab < 2 ^ 64"
    and "\<And>to. to \<in> set txouts \<Longrightarrow> length (Assets to) < 2 ^ 64 \<and> length (PkScript to) \<le> maxWitnessItemSize \<and>
        (\<forall>a \<in> set (Assets to). asset_ok ops spare a)"
  shows "repeat_read (length txouts) (read_txout_slab ops) (slab, concat (map (TxOutBytes ops) txouts) @ r) =
    Inr (txouts, (slab - sum_list (map (length \<circ> PkScript) txouts), r))"
  using assms
proof (induction txouts arbitrary: slab)
  case Nil
  then show ?case by simp
next
  case (Cons x txouts)
  have "txout_ok ops slab x"
    using Cons.prems(1,2) Cons.prems(3) [of x] asset_ok_mono [of ops spare _ slab]
    by (auto simp: txout_ok_def)
  then have "readTxOutBuf ops slab (TxOutBytes ops x @ concat (map (TxOutBytes ops) txouts) @ r) =
      Inr (x, concat (map (TxOutBytes ops) txouts) @ r)"
    by (rule txout.dec_enc)
  then have "read_txout_slab ops (slab, TxOutBytes ops x @ concat (map (TxOutBytes ops) txouts) @ r) =
      Inr (x, (slab - length (PkScript x), concat (map (TxOutBytes ops) txouts) @ r))"
    by (simp add: read_txout_slab_def)
  moreover have "repeat_read (length txouts) (read_txout_slab ops)
      (slab - length (PkScript x), concat (map (TxOutBytes ops) txouts) @ r) =
      Inr (txouts, (slab - length (PkScript x) - sum_list (map (length \<circ> PkScript) txouts), r))"
    using Cons.prems by (intro Cons.IH) auto
  ultimately show ?case by (simp add: comp_def)
qed

lemma read_witness:
  assumes "witness_ok w" and "witness_cost w \<le> slab"
  shows "read_witness_slab (slab, writeTxWitnessBuf w @ r) = Inr (w, (slab - witness_cost w, r))"
proof -
  have len: "unat (word_of_nat (length w) :: u64) = length w"
    using assms(1) by (intro unat_length_u64) (simp add: witness_ok_def maxWitnessItemsPerInput_def)
  have "repeat_read (length w) read_script_slab (slab, concat (map WriteVarBytesBuf w) @ r) =
      Inr (w, (slab - sum_list (map length w), r))"
  proof (rule repeat_read_budget [where spare = 0])
    show "sum_list (map length w) + 0 \<le> slab" using assms(2) by (simp add: witness_cost_def)
    fix x s r assume "x \<in> set w" "length x + 0 \<le> s"
    then show "read_script_slab (s, WriteVarBytesBuf x @ r) = Inr (x, (s - length x, r))"
      using assms(1) by (simp add: read_script_slab_def script.dec_enc witness_ok_def)
  qed
  with assms(1) len show ?thesis
    by (simp add: read_witness_slab_def writeTxWitnessBuf_def ReadVarInt_WriteVarInt witness_ok_def witness_cost_def)
qed

lemma read_all_witnesses:
  assumes "\<And>ti. ti \<in> set txins \<Longrightarrow> witness_ok (Witness ti)"
    and "sum_list (map (witness_cost \<circ> Witness) txins) \<le> slab"
  shows "repeat_read (length txins) read_witness_slab
      (slab, concat (map (writeTxWitnessBuf \<circ> Witness) txins) @ r) =
      Inr (map Witness txins, (slab - sum_list (map (witness_cost \<circ> Witness) txins), r))"
proof -
  have "repeat_read (length (map Witness txins)) read_witness_slab
      (slab, concat (map writeTxWitnessBuf (map Witness txins)) @ r) =
      Inr (map Witness txins, (slab - sum_list (map witness_cost (map Witness txins)), r))"
    by (rule repeat_read_budget [where spare = 0]) (use assms in \<open>auto simp: read_witness\<close>)
  then show ?thesis by simp
qed

lemma map2_restore_witness:
  "map2 (\<lambda>ti w. ti\<lparr>Witness := w\<rparr>) (map strip_witness txins) (map Witness txins) = txins"
  by (induction txins) simp_all

lemma strip_witness_none: "(\<And>ti. ti \<in> set txins \<Longrightarrow> Witness ti = []) \<Longrightarrow> map strip_witness txins = txins"
  by (induction txins) auto

section \<open>The encoding of a whole transaction\<close>

definition TxBytes :: "'d decimal_ops \<Rightarrow> MessageEncoding \<Rightarrow> 'd MsgTx \<Rightarrow> bytes" where
  "TxBytes ops enc msg =
     (let doWitness = (enc = WitnessEncoding \<and> HasWitness msg) in
      PutUint32 LittleEndian (Version msg) @
      (if doWitness then [TxFlagMarker, WitnessFlag] else []) @
      WriteVarInt (word_of_nat (length (TxIns msg))) @ concat (map writeTxInBuf (TxIns msg)) @
      WriteVarInt (word_of_nat (length (TxOuts msg))) @ concat (map (TxOutBytes ops) (TxOuts msg)) @
      (if doWitness then concat (map (writeTxWitnessBuf \<circ> Witness) (TxIns msg)) else []) @
      PutUint32 LittleEndian (LockTime msg))"

definition tx_assets_valid :: "'d decimal_ops \<Rightarrow> 'd MsgTx \<Rightarrow> bool" where
  "tx_assets_valid ops tx \<longleftrightarrow> (\<forall>to \<in> set (TxOuts tx). assets_valid ops (Assets to))"

lemma btcEncode_valid: "tx_assets_valid ops tx \<Longrightarrow> btcEncode ops enc tx = wrote (TxBytes ops enc tx)"
  by (simp add: btcEncode_def TxBytes_def Let_def tx_assets_valid_def WriteTxOutBuf_valid
      write_all_total [where f = "TxOutBytes ops"])

lemma tx_ok_assets_valid: "tx_ok ops enc slab tx \<Longrightarrow> tx_assets_valid ops tx"
  by (auto simp: tx_ok_def tx_assets_valid_def assets_valid_def asset_ok_def)

lemma word_of_nat_u64_eq_0: "n < 2 ^ 64 \<Longrightarrow> word_of_nat n = (0::u64) \<longleftrightarrow> n = 0"
  by (auto simp: word_unat_eq_iff unat_of_nat)

lemma read_tx_flag_enc:
  assumes "n < 2 ^ 64" and "enc = WitnessEncoding \<Longrightarrow> n \<noteq> 0" and "doWitness \<Longrightarrow> enc = WitnessEncoding"
  shows "read_tx_flag enc ((if doWitness then [TxFlagMarker, WitnessFlag] else []) @
      WriteVarInt (word_of_nat n) @ r) = Inr ((if doWitness then WitnessFlag else 0, word_of_nat n), r)"
proof -
  have "ReadVarInt (TxFlagMarker # s) = Inr (0, s)" for s
    by (simp add: ReadVarInt_def TxFlagMarker_def)
  with assms show ?thesis
    by (auto simp: read_tx_flag_def ReadVarInt_WriteVarInt word_of_nat_u64_eq_0 TxFlagMarker_def)
qed

lemma read_witnesses_enc:
  assumes "\<And>ti. ti \<in> set txins \<Longrightarrow> witness_ok (Witness ti)"
    and "doWitness \<longleftrightarrow> any_witness txins"
    and "doWitness \<Longrightarrow> sum_list (map (witness_cost \<circ> Witness) txins) \<le> slab"
  shows "read_witnesses (if doWitness then WitnessFlag else 0) WitnessEncoding (map strip_witness txins)
      (slab, (if doWitness then concat (map (writeTxWitnessBuf \<circ> Witness) txins) else []) @ r) =
      Inr (txins, r)"
proof (cases doWitness)
  case True
  with assms show ?thesis
    using read_all_witnesses [of txins slab r]
    by (simp add: read_witnesses_def WitnessFlag_def map2_restore_witness Let_def)
next
  case False
  with assms(2) show ?thesis by (simp add: read_witnesses_def strip_witness_none any_witness_iff)
qed

lemma btcDecode_TxBytes:
  assumes "tx_ok ops enc slab tx"
  shows "btcDecode ops enc slab (TxBytes ops enc tx @ r) = Inr (tx, r)"
proof -
  let ?w = "enc = WitnessEncoding \<and> HasWitness tx"
  let ?sig = "sum_list (map (length \<circ> SignatureScript) (TxIns tx))"
  let ?pk = "sum_list (map (length \<circ> PkScript) (TxOuts tx))"
  define F where "F = (if ?w then [TxFlagMarker, WitnessFlag] else [])"
  define G where "G = (if ?w then WitnessFlag else 0)"
  define W where "W = (if ?w then concat (map (writeTxWitnessBuf \<circ> Witness) (TxIns tx)) else [])"
  note ok = assms [unfolded tx_ok_def]
  have n: "length (TxIns tx) < 2 ^ 64" "length (TxOuts tx) < 2 ^ 64"
    and un: "unat (word_of_nat (length (TxIns tx)) :: u64) = length (TxIns tx)"
      "unat (word_of_nat (length (TxOuts tx)) :: u64) = length (TxOuts tx)"
    using ok by (auto simp: tx_limits unat_of_nat)
  have ins: "repeat_read (length (TxIns tx)) read_txin_slab (slab, concat (map writeTxInBuf (TxIns tx)) @ s) =
      Inr (map strip_witness (TxIns tx), (slab - ?sig, s))" for s
    using ok by (intro read_txins [where spare = 0]) (auto simp: scripts_size_def)
  have outs: "repeat_read (length (TxOuts tx)) (read_txout_slab ops)
      (slab - ?sig, concat (map (TxOutBytes ops) (TxOuts tx)) @ s) = Inr (TxOuts tx, (slab - ?sig - ?pk, s))" for s
    using ok by (intro read_txouts [where spare = "slab - scripts_size enc tx"]) (auto simp: scripts_size_def)
  have wit: "read_witnesses G enc (map strip_witness (TxIns tx)) (slab - ?sig - ?pk, W @ s) = Inr (TxIns tx, s)" for s
  proof (cases enc)
    case BaseEncoding
    with ok show ?thesis by (auto simp: read_witnesses_def HasWitness_def any_witness_iff strip_witness_none G_def W_def)
  next
    case WitnessEncoding
    have "read_witnesses (if any_witness (TxIns tx) then WitnessFlag else 0) WitnessEncoding
        (map strip_witness (TxIns tx)) (slab - ?sig - ?pk, (if any_witness (TxIns tx)
          then concat (map (writeTxWitnessBuf \<circ> Witness) (TxIns tx)) else []) @ s) = Inr (TxIns tx, s)"
      using ok WitnessEncoding by (intro read_witnesses_enc) (auto simp: scripts_size_def)
    with WitnessEncoding show ?thesis by (simp add: HasWitness_def G_def W_def)
  qed
  have flag: "read_tx_flag enc (F @ WriteVarInt (word_of_nat (length (TxIns tx))) @ s) =
      Inr ((G, word_of_nat (length (TxIns tx))), s)" for s
    unfolding F_def G_def using ok n by (intro read_tx_flag_enc) auto
  have bytes: "TxBytes ops enc tx = PutUint32 LittleEndian (Version tx) @ F @
      WriteVarInt (word_of_nat (length (TxIns tx))) @ concat (map writeTxInBuf (TxIns tx)) @
      WriteVarInt (word_of_nat (length (TxOuts tx))) @ concat (map (TxOutBytes ops) (TxOuts tx)) @ W @
      PutUint32 LittleEndian (LockTime tx)"
    by (simp add: TxBytes_def F_def W_def Let_def)
  show ?thesis
    using ok by (simp add: btcDecode_def bytes codec_simps flag ins outs wit [unfolded diff_diff_left] un del: andthen_eq_Inr)
qed

lemma length_concat_map_sum: "length (concat (map f xs)) = sum_list (map (\<lambda>x. length (f x)) xs)"
  by (induction xs) simp_all

lemma length_writeTxInBuf: "length (Hash (PreviousOutPoint t)) = 32 \<Longrightarrow> length (writeTxInBuf t) = TxIn_SerializeSize t"
  by (simp add: writeTxInBuf_def writeOutPointBuf_def TxIn_SerializeSize_def)

lemma length_AssetsBytes: "length (WriteVarInt (word_of_nat (length assets)) @ concat (map (AssetBytes ops) assets)) =
    txAssetsSerializeSize ops assets"
  by (simp add: txAssetsSerializeSize_def length_concat_map_sum AssetBytes_def varBytesSize_def add.assoc)

lemma length_TxOutBytes: "length (TxOutBytes ops to) = TxOut_SerializeSize ops to"
  using length_AssetsBytes [where assets = "Assets to" and ops = ops]
  by (simp add: TxOutBytes_def TxOut_SerializeSize_def varBytesSize_def)

lemma length_writeTxWitnessBuf: "length (writeTxWitnessBuf w) = TxWitness_SerializeSize w"
  by (simp add: writeTxWitnessBuf_def TxWitness_SerializeSize_def length_concat_map_sum varBytesSize_def [abs_def])

definition hashes_ok :: "'d MsgTx \<Rightarrow> bool" where
  "hashes_ok tx \<longleftrightarrow> (\<forall>ti \<in> set (TxIns tx). length (Hash (PreviousOutPoint ti)) = 32)"

lemma sum_writeTxInBuf:
  "hashes_ok tx \<Longrightarrow> (\<Sum>x\<leftarrow>TxIns tx. length (writeTxInBuf x)) = sum_list (map TxIn_SerializeSize (TxIns tx))"
  by (intro arg_cong [where f = sum_list] map_cong) (auto simp: length_writeTxInBuf hashes_ok_def)

lemma length_TxBytes:
  assumes "hashes_ok tx"
  shows "length (TxBytes ops enc tx) =
     (case enc of WitnessEncoding \<Rightarrow> SerializeSize ops tx | BaseEncoding \<Rightarrow> SerializeSizeStripped ops tx)"
  by (cases enc) (simp_all add: TxBytes_def Let_def SerializeSize_def SerializeSizeStripped_def baseSize_def
      length_concat_map_sum length_TxOutBytes length_writeTxWitnessBuf sum_writeTxInBuf [OF assms] comp_def)

subsection \<open>Script locations\<close>

text \<open>\<open>s\<close> stands at offset \<open>loc\<close> of \<open>bs\<close>.\<close>

definition located :: "bytes \<Rightarrow> nat \<Rightarrow> bytes \<Rightarrow> bool" where
  "located bs loc s \<longleftrightarrow> (\<exists>p q. bs = p @ s @ q \<and> length p = loc)"

lemma located_slice: "located bs loc s \<longleftrightarrow> loc + length s \<le> length bs \<and> take (length s) (drop loc bs) = s"
proof
  assume "loc + length s \<le> length bs \<and> take (length s) (drop loc bs) = s"
  then have "bs = take loc bs @ s @ drop (length s) (drop loc bs)" "length (take loc bs) = loc"
    by (metis append_take_drop_id, simp)
  then show "located bs loc s" unfolding located_def by blast
qed (auto simp: located_def)

lemma located_inside: "located bs loc s \<Longrightarrow> length p = n \<Longrightarrow> located (p @ bs @ q) (n + loc) s"
proof -
  assume "located bs loc s" and n: "length p = n"
  then obtain p' q' where "bs = p' @ s @ q'" "length p' = loc" by (auto simp: located_def)
  with n have "p @ bs @ q = (p @ p') @ s @ (q' @ q)" "length (p @ p') = n + loc" by simp_all
  then show ?thesis unfolding located_def by blast
qed

lemma located_TxOutBytes:
  "located (TxOutBytes ops to) (8 + txAssetsSerializeSize ops (Assets to) +
     VarIntSerializeSize (word_of_nat (length (PkScript to)))) (PkScript to)"
  unfolding located_def
proof (intro exI conjI)
  let ?p = "PutUint64 LittleEndian (Value to) @ (WriteVarInt (word_of_nat (length (Assets to))) @
     concat (map (AssetBytes ops) (Assets to))) @ WriteVarInt (word_of_nat (length (PkScript to)))"
  show "TxOutBytes ops to = ?p @ PkScript to @ []"
    by (simp add: TxOutBytes_def WriteVarBytesBuf_def)
  show "length ?p = 8 + txAssetsSerializeSize ops (Assets to) +
     VarIntSerializeSize (word_of_nat (length (PkScript to)))"
    using length_AssetsBytes [where assets = "Assets to" and ops = ops] by simp
qed

lemma located_skip: "length p = n \<Longrightarrow> located bs (loc - n) s \<Longrightarrow> n \<le> loc \<Longrightarrow> located (p @ bs) loc s"
  using located_inside [of bs "loc - n" s p n "[]"] by simp

lemma script_locs_located:
  "i < length txouts \<Longrightarrow> n \<le> script_locs ops n txouts ! i \<and>
   located (concat (map (TxOutBytes ops) txouts)) (script_locs ops n txouts ! i - n) (PkScript (txouts ! i))"
proof (induction txouts arbitrary: i n)
  case Nil
  then show ?case by simp
next
  case (Cons to txouts)
  show ?case
  proof (cases i)
    case 0
    with located_inside [OF located_TxOutBytes, of "[]" 0 ops to "concat (map (TxOutBytes ops) txouts)"]
    show ?thesis by (simp add: Let_def add.assoc)
  next
    case (Suc j)
    let ?m = "n + length (TxOutBytes ops to)"
    let ?loc = "script_locs ops ?m txouts ! j"
    have m: "script_locs ops n (to # txouts) ! i = ?loc"
      using Suc by (simp add: Let_def length_TxOutBytes TxOut_SerializeSize_def varBytesSize_def add.assoc)
    have IH: "?m \<le> ?loc \<and> located (concat (map (TxOutBytes ops) txouts)) (?loc - ?m) (PkScript (txouts ! j))"
      using Cons.prems Suc by (intro Cons.IH) simp
    then have "located (TxOutBytes ops to @ concat (map (TxOutBytes ops) txouts)) (?loc - n) (PkScript (txouts ! j))"
      by (intro located_skip) (auto simp: diff_diff_left)
    with m Suc IH show ?thesis by simp
  qed
qed

lemma script_locs_shift:
  "i < length txouts \<Longrightarrow> script_locs ops (n + k) txouts ! i = script_locs ops n txouts ! i + k"
proof (induction txouts arbitrary: i n)
  case Nil
  then show ?case by simp
next
  case (Cons to txouts)
  let ?l = "8 + txAssetsSerializeSize ops (Assets to) + VarIntSerializeSize (word_of_nat (length (PkScript to))) +
    length (PkScript to)"
  have "script_locs ops (n + k + ?l) txouts ! j = script_locs ops (n + ?l) txouts ! j + k" if "j < length txouts" for j
    using Cons.IH [OF that, of "n + ?l"] by (simp add: add.commute add.left_commute add.assoc)
  with Cons.prems show ?case
    by (cases i) (simp_all add: Let_def add.assoc)
qed

text \<open>Where the first output starts in a transaction without witnesses.\<close>

definition outs_start :: "'d MsgTx \<Rightarrow> nat" where
  "outs_start tx = 4 + VarIntSerializeSize (word_of_nat (length (TxIns tx))) +
     VarIntSerializeSize (word_of_nat (length (TxOuts tx))) + sum_list (map TxIn_SerializeSize (TxIns tx))"

lemma script_locs_tx_located:
  assumes "hashes_ok tx" and "i < length (TxOuts tx)"
  shows "located (TxBytes ops WitnessEncoding tx)
    (script_locs ops (outs_start tx) (TxOuts tx) ! i + (if HasWitness tx then 2 else 0)) (PkScript (TxOuts tx ! i))"
proof -
  let ?pre = "PutUint32 LittleEndian (Version tx) @
      (if HasWitness tx then [TxFlagMarker, WitnessFlag] else []) @
      WriteVarInt (word_of_nat (length (TxIns tx))) @ concat (map writeTxInBuf (TxIns tx)) @
      WriteVarInt (word_of_nat (length (TxOuts tx)))"
  let ?post = "(if HasWitness tx then concat (map (writeTxWitnessBuf \<circ> Witness) (TxIns tx)) else []) @
      PutUint32 LittleEndian (LockTime tx)"
  let ?n = "outs_start tx + (if HasWitness tx then 2 else 0)"
  have bytes: "TxBytes ops WitnessEncoding tx = ?pre @ concat (map (TxOutBytes ops) (TxOuts tx)) @ ?post"
    by (simp add: TxBytes_def Let_def)
  have len: "length ?pre = ?n"
    using assms(1) by (simp add: outs_start_def length_concat_map_sum sum_writeTxInBuf)
  from script_locs_located [OF assms(2), of ?n ops] located_inside [OF _ len, of _ _ _ ?post]
  have "located (?pre @ concat (map (TxOutBytes ops) (TxOuts tx)) @ ?post)
      (?n + (script_locs ops ?n (TxOuts tx) ! i - ?n)) (PkScript (TxOuts tx ! i))" by blast
  with script_locs_located [OF assms(2), of ?n ops] show ?thesis
    by (simp only: bytes script_locs_shift [OF assms(2)] le_add_diff_inverse)
qed

lemma PkScriptLocs_start:
  assumes "i < length (mem_TxOuts msg)"
  shows "PkScriptLocs ops msg ! i = script_locs ops (outs_start (tx_value msg)) (TxOuts (tx_value msg)) ! i +
    (if length (mem_TxIns msg) > 0 \<and> mem_Witness (mem_TxIns msg ! 0) \<noteq> None then 2 else 0)"
proof -
  have "PkScriptLocs ops msg = script_locs ops (outs_start (tx_value msg) +
      (if length (mem_TxIns msg) > 0 \<and> mem_Witness (mem_TxIns msg ! 0) \<noteq> None then 2 else 0)) (mem_TxOuts msg)"
    using assms by (auto simp: PkScriptLocs_def outs_start_def tx_value_def comp_def ac_simps)
  then show ?thesis using script_locs_shift [OF assms] by (simp only: tx_value_def MsgTx.simps)
qed

subsection \<open>Asset names and binding amounts\<close>

lemma split_on_nonempty: "split_on c xs \<noteq> []"
  by (induction xs) (auto split: list.splits)

text \<open>Splitting inverts joining, and the parts never contain the separator.\<close>

fun join_with :: "byte \<Rightarrow> bytes list \<Rightarrow> bytes" where
  "join_with c [] = []"
| "join_with c [p] = p"
| "join_with c (p # ps) = p @ c # join_with c ps"

lemma join_split: "join_with c (split_on c xs) = xs"
proof (induction xs)
  case Nil
  then show ?case by simp
next
  case (Cons x xs)
  obtain p ps where "split_on c xs = p # ps"
    using split_on_nonempty [of c xs] by (cases "split_on c xs") auto
  with Cons show ?case by (cases ps) auto
qed

lemma split_parts: "p \<in> set (split_on c xs) \<Longrightarrow> c \<notin> set p"
  by (induction xs arbitrary: p) (auto split: if_splits list.splits)

lemma split_on_no_sep: "c \<notin> set p \<Longrightarrow> split_on c p = [p]"
  by (induction p) auto

lemma split_on_sep: "c \<notin> set p \<Longrightarrow> split_on c (p @ c # xs) = p # split_on c xs"
  by (induction p) auto

lemma NewAssetNameFromString_iff:
  "NewAssetNameFromString name = Some n \<longleftrightarrow>
   name = Protocol n @ 0x3a # AssetType n @ 0x3a # Ticker n \<and>
   0x3a \<notin> set (Protocol n) \<and> 0x3a \<notin> set (AssetType n) \<and> 0x3a \<notin> set (Ticker n)"
proof
  assume "NewAssetNameFromString name = Some n"
  then have "split_on 0x3a name = [Protocol n, AssetType n, Ticker n]"
    by (auto simp: NewAssetNameFromString_def split: list.splits)
  then show "name = Protocol n @ 0x3a # AssetType n @ 0x3a # Ticker n \<and>
   0x3a \<notin> set (Protocol n) \<and> 0x3a \<notin> set (AssetType n) \<and> 0x3a \<notin> set (Ticker n)"
    using join_split [of "0x3a" name] split_parts [of _ "0x3a" name] by auto
qed (auto simp: NewAssetNameFromString_def split_on_no_sep split_on_sep)

lemma ceil_div: 
  assumes "0 < (n::int)" and "0 \<le> a"
  shows "a \<le> (a + n - 1) div n * n" and "m * n \<ge> a \<Longrightarrow> (a + n - 1) div n \<le> m"
proof -
  have "(a + n - 1) div n * n + (a + n - 1) mod n = a + n - 1" by simp
  moreover have "(a + n - 1) mod n < n" using assms(1) by simp
  ultimately show "a \<le> (a + n - 1) div n * n" by linarith
next
  assume "m * n \<ge> a"
  then have "(a + n - 1) div n \<le> (m * n + (n - 1)) div n"
    using assms(1) by (intro zdiv_mono1) auto
  also have "\<dots> = m" using assms(1) by (simp add: div_add1_eq)
  finally show "(a + n - 1) div n \<le> m" .
qed

lemma sint_binding_numerator:
  assumes "0 \<le> sint amt" and "sint amt + uint n - 1 < 2 ^ 63" and "n \<noteq> 0"
  shows "sint (amt + ucast (n::u32) - 1 :: i64) = sint amt + uint n - 1"
proof -
  have n: "0 < uint n" "uint n < 2 ^ 32"
    using assms(3) unsigned_less [of n] by (simp_all add: word_neq_0_conv word_less_def)
  have eq: "amt + ucast n - 1 = (word_of_int (sint amt + uint n - 1) :: i64)"
    by (simp only: of_int_add of_int_diff of_int_1 of_int_sint of_int_uint scast_id)
  show ?thesis
    unfolding eq using assms n by (intro sint_word_of_int_i64) simp_all
qed

section \<open>Properties\<close>

text \<open>Concrete operations for the witnesses: a decimal is its own format string, the empty one is invalid.\<close>

definition string_decimal :: "bytes decimal_ops" where
  "string_decimal = \<lparr>Validate = (\<lambda>d. d \<noteq> []), ToFormatString = (\<lambda>d. d),
     NewDecimalFromFormatString = (\<lambda>s. if s = [] then None else Some s)\<rparr>"

definition sample_tx :: "bytes MsgTx" where
  "sample_tx = \<lparr>Version = 2,
     TxIns = [\<lparr>PreviousOutPoint = \<lparr>Hash = replicate 32 7, Index = 1\<rparr>, SignatureScript = [0x51],
              Witness = [[1, 2], []], Sequence = MaxTxInSequenceNum\<rparr>,
              \<lparr>PreviousOutPoint = \<lparr>Hash = replicate 32 9, Index = 0\<rparr>, SignatureScript = [],
              Witness = [], Sequence = 5\<rparr>],
     TxOuts = [\<lparr>Value = 1000, Assets = [\<lparr>AssetInfo_Name = \<lparr>Protocol = [0x6f], AssetType = [0x66], Ticker = [0x70]\<rparr>,
                 Amount = [0x31, 0x30], BindingSat = 1\<rparr>], PkScript = [0x51, 0x87]\<rparr>],
     LockTime = 17\<rparr>"

definition sample_tx_nowit :: "bytes MsgTx" where
  "sample_tx_nowit = sample_tx\<lparr>TxIns := map strip_witness (TxIns sample_tx)\<rparr>"

lemmas sample_simps = sample_tx_def sample_tx_nowit_def string_decimal_def tx_ok_def HasWitness_def tx_limits
  scripts_size_def witness_cost_def txin_ok_def witness_ok_def asset_ok_def scriptSlabSize_def

text \<open>
  C14 (round trip): a transaction with asset-carrying outputs that respects the decoder's limits
  is encoded without error under either encoding, and decoding the bytes, whatever follows
  them in the stream, gives the same transaction and leaves what follows.
\<close>

theorem tx_encode_decode:
  assumes "tx_ok ops enc scriptSlabSize tx"
  shows "\<exists>b. btcEncode ops enc tx = wrote b \<and> BtcDecode ops enc (b @ r) = Inr (tx, r)"
  using btcEncode_valid [OF tx_ok_assets_valid [OF assms]] btcDecode_TxBytes [OF assms]
  by (auto simp: BtcDecode_def)

theorem tx_encode_decode_witness:
  "\<exists>b. btcEncode string_decimal WitnessEncoding sample_tx = wrote b \<and>
       BtcDecode string_decimal WitnessEncoding (b @ [0xff]) = Inr (sample_tx, [0xff])"
  by (rule tx_encode_decode) (simp add: sample_simps)

lemma sample_tx_sizes:
  "SerializeSize string_decimal sample_tx = 123" "SerializeSizeStripped string_decimal sample_tx = 115"
  by (simp_all add: sample_simps SerializeSize_def SerializeSizeStripped_def baseSize_def
      TxIn_SerializeSize_def TxOut_SerializeSize_def TxWitness_SerializeSize_def
      txAssetsSerializeSize_def varBytesSize_def VarIntSerializeSize_def)

text \<open>
  \<^verbatim>\<open>SerializeSize\<close> and \<^verbatim>\<open>SerializeSizeStripped\<close> predict, without encoding,
  the exact number of bytes the two encodings of a transaction take.
\<close>

lemma tx_size_exact:
  assumes "tx_assets_valid ops tx" and "hashes_ok tx"
  shows "snd (Serialize ops tx) = None \<and> length (fst (Serialize ops tx)) = SerializeSize ops tx \<and>
     snd (SerializeNoWitness ops tx) = None \<and> length (fst (SerializeNoWitness ops tx)) = SerializeSizeStripped ops tx"
  by (simp add: Serialize_def SerializeNoWitness_def btcEncode_valid [OF assms(1)] length_TxBytes [OF assms(2)])

text \<open>
  C25 (the offsets of \<^verbatim>\<open>PkScriptLocs\<close>): for every transaction in memory with valid amounts the script
  of output \<open>i\<close> lies in the serialized bytes at the reported offset, corrected by the two bytes of
  marker and flag where the test for a nil witness and the serializer disagree: two bytes further
  when some input has a witness but the first one's is nil, two bytes earlier when the first one's
  is empty but not nil and no input has one.  In all other cases the offset is exact.
\<close>

theorem pkscript_locations:
  assumes "tx_assets_valid ops (tx_value msg)" and "hashes_ok (tx_value msg)" and "i < length (mem_TxOuts msg)"
  shows "take (length (PkScript (mem_TxOuts msg ! i)))
      (drop (PkScriptLocs ops msg ! i + (if HasWitness (tx_value msg) then 2 else 0) -
             (if mem_TxIns msg \<noteq> [] \<and> mem_Witness (mem_TxIns msg ! 0) \<noteq> None then 2 else 0))
        (fst (Serialize ops (tx_value msg)))) = PkScript (mem_TxOuts msg ! i)"
proof -
  have "PkScriptLocs ops msg ! i + (if HasWitness (tx_value msg) then 2 else 0) -
      (if mem_TxIns msg \<noteq> [] \<and> mem_Witness (mem_TxIns msg ! 0) \<noteq> None then 2 else 0) =
      script_locs ops (outs_start (tx_value msg)) (TxOuts (tx_value msg)) ! i + (if HasWitness (tx_value msg) then 2 else 0)"
    using PkScriptLocs_start [OF assms(3), of ops] by simp
  moreover have "TxOuts (tx_value msg) = mem_TxOuts msg" by (simp add: tx_value_def)
  ultimately show ?thesis
    using script_locs_tx_located [OF assms(2), of i ops] assms(3)
    by (simp add: located_slice Serialize_def btcEncode_valid [OF assms(1)])
qed

text \<open>The sample transaction with its inputs swapped, so that the witness of the first one is nil.\<close>

definition sample_mem :: "bytes memTx" where
  "sample_mem = \<lparr>mem_Version = 2,
     mem_TxIns = [\<lparr>mem_PreviousOutPoint = \<lparr>Hash = replicate 32 9, Index = 0\<rparr>, mem_SignatureScript = [],
              mem_Witness = None, mem_Sequence = 5\<rparr>,
              \<lparr>mem_PreviousOutPoint = \<lparr>Hash = replicate 32 7, Index = 1\<rparr>, mem_SignatureScript = [0x51],
              mem_Witness = Some [[1, 2], []], mem_Sequence = MaxTxInSequenceNum\<rparr>],
     mem_TxOuts = TxOuts sample_tx, mem_LockTime = 17\<rparr>"

theorem pkscript_locations_witness:
  "HasWitness (tx_value sample_mem) \<and>
   take 2 (drop (PkScriptLocs string_decimal sample_mem ! 0 + 2) (fst (Serialize string_decimal (tx_value sample_mem)))) = [0x51, 0x87]"
proof -
  have "HasWitness (tx_value sample_mem)" "tx_assets_valid string_decimal (tx_value sample_mem)"
    "hashes_ok (tx_value sample_mem)" "0 < length (mem_TxOuts sample_mem)"
    by (simp_all add: sample_mem_def tx_value_def txin_value_def slice_items_def sample_simps tx_assets_valid_def assets_valid_def hashes_ok_def)
  moreover have "PkScript (mem_TxOuts sample_mem ! 0) = [0x51, 0x87]" "mem_Witness (mem_TxIns sample_mem ! 0) = None"
    by (simp_all add: sample_mem_def sample_tx_def)
  ultimately show ?thesis using pkscript_locations [of string_decimal sample_mem 0] by (simp flip: numeral_2_eq_2)
qed

text \<open>
  C17 (transaction identity): the transaction id does not depend on the witnesses, so a third
  party cannot change it by altering them; and two transactions without witnesses that the
  decoder accepts and that differ anywhere, asset lists included, are serialized differently, so
  that their ids differ unless the double hash collides on these two serializations.
\<close>

theorem txhash_identity:
  "TxHash sha ops (tx\<lparr>TxIns := map (\<lambda>ti. ti\<lparr>Witness := wit ti\<rparr>) (TxIns tx)\<rparr>) = TxHash sha ops tx \<and>
   (tx_ok ops BaseEncoding scriptSlabSize tx \<longrightarrow> tx_ok ops BaseEncoding scriptSlabSize tx' \<longrightarrow>
    TxHash sha ops tx = TxHash sha ops tx' \<longrightarrow> tx = tx' \<or>
      fst (SerializeNoWitness ops tx) \<noteq> fst (SerializeNoWitness ops tx') \<and>
      sha (sha (fst (SerializeNoWitness ops tx))) = sha (sha (fst (SerializeNoWitness ops tx'))))"
proof (intro conjI impI)
  show "TxHash sha ops (tx\<lparr>TxIns := map (\<lambda>ti. ti\<lparr>Witness := wit ti\<rparr>) (TxIns tx)\<rparr>) = TxHash sha ops tx"
    by (simp add: TxHash_def SerializeNoWitness_def btcEncode_def comp_def)
next
  assume ok: "tx_ok ops BaseEncoding scriptSlabSize tx" "tx_ok ops BaseEncoding scriptSlabSize tx'"
    and eq: "TxHash sha ops tx = TxHash sha ops tx'"
  have "TxBytes ops BaseEncoding tx = TxBytes ops BaseEncoding tx' \<Longrightarrow> tx = tx'"
    using btcDecode_TxBytes [OF ok(1), of "[]"] btcDecode_TxBytes [OF ok(2), of "[]"] by simp
  moreover have "fst (SerializeNoWitness ops tx) = TxBytes ops BaseEncoding tx" "fst (SerializeNoWitness ops tx') = TxBytes ops BaseEncoding tx'"
    using ok by (simp_all add: SerializeNoWitness_def btcEncode_valid tx_ok_assets_valid)
  moreover from this have "sha (sha (TxBytes ops BaseEncoding tx)) = sha (sha (TxBytes ops BaseEncoding tx'))"
    using eq by (simp add: TxHash_def DoubleHashRaw_def)
  ultimately show "tx = tx' \<or> fst (SerializeNoWitness ops tx) \<noteq> fst (SerializeNoWitness ops tx') \<and>
      sha (sha (fst (SerializeNoWitness ops tx))) = sha (sha (fst (SerializeNoWitness ops tx')))" by auto
qed

theorem txhash_identity_witness:
  "TxHash (\<lambda>b. b) string_decimal sample_tx = TxHash (\<lambda>b. b) string_decimal sample_tx_nowit \<and>
   (TxHash (\<lambda>b. b) string_decimal sample_tx_nowit \<noteq>
    TxHash (\<lambda>b. b) string_decimal (sample_tx_nowit\<lparr>LockTime := 18\<rparr>))"
proof -
  have ok: "tx_ok string_decimal BaseEncoding scriptSlabSize sample_tx_nowit"
    "tx_ok string_decimal BaseEncoding scriptSlabSize (sample_tx_nowit\<lparr>LockTime := 18\<rparr>)"
    by (simp_all add: sample_simps)
  have "LockTime sample_tx_nowit \<noteq> LockTime (sample_tx_nowit\<lparr>LockTime := 18\<rparr>)"
    by (simp add: sample_tx_def sample_tx_nowit_def)
  then have ne: "sample_tx_nowit \<noteq> sample_tx_nowit\<lparr>LockTime := 18\<rparr>" by metis
  have "TxHash (\<lambda>b. b) string_decimal sample_tx_nowit = TxHash (\<lambda>b. b) string_decimal sample_tx"
    unfolding sample_tx_nowit_def by (rule txhash_identity [THEN conjunct1])
  moreover have "TxHash (\<lambda>b. b) string_decimal sample_tx_nowit \<noteq>
      TxHash (\<lambda>b. b) string_decimal (sample_tx_nowit\<lparr>LockTime := 18\<rparr>)"
    using txhash_identity [THEN conjunct2, rule_format, OF ok, where sha = "\<lambda>b. b"] ne by blast
  ultimately show ?thesis by simp
qed

text \<open>
  C26 (the id of a transaction with an invalid amount): \<^verbatim>\<open>DoubleHashRaw\<close> drops the error of the
  serializer, and \<^verbatim>\<open>AssetsWriteToBuf\<close> fails on an amount that does not validate.  The id then
  covers only what was written before the failure: not the scripts, assets and values that follow
  the invalid amount, and not the lock time.
\<close>

theorem txhash_invalid_amount_truncated:
  assumes "\<not> Validate ops (Amount a)" and "length post = length post'" and "length rest = length rest'"
  shows "TxHash sha ops \<lparr>Version = v, TxIns = ins,
      TxOuts = pre @ \<lparr>Value = val, Assets = as @ a # rest, PkScript = p\<rparr> # post, LockTime = l\<rparr> =
    TxHash sha ops \<lparr>Version = v, TxIns = ins,
      TxOuts = pre @ \<lparr>Value = val, Assets = as @ a # rest', PkScript = p'\<rparr> # post', LockTime = l'\<rparr>"
proof -
  have failed: "snd (AssetWrite ops a) \<noteq> None"
    using assms(1) by (simp add: AssetWrite_def)
  have assets: "AssetsWriteToBuf ops (as @ a # rest') = AssetsWriteToBuf ops (as @ a # rest)"
    using assms(3) by (simp add: AssetsWriteToBuf_def write_all_append wthen_failed [OF failed])
  have assets_failed: "snd (AssetsWriteToBuf ops (as @ a # x)) \<noteq> None" for x
    by (simp add: AssetsWriteToBuf_def write_all_append wthen_failed [OF failed] snd_wthen_None failed
        del: not_None_eq)
  define W where "W = wthen (wrote (PutUint64 LittleEndian val)) (AssetsWriteToBuf ops (as @ a # rest))"
  have W: "snd W \<noteq> None" using assets_failed [of rest] by (simp add: W_def)
  have out: "WriteTxOutBuf ops \<lparr>Value = val, Assets = as @ a # rest', PkScript = p'\<rparr> = W"
    "WriteTxOutBuf ops \<lparr>Value = val, Assets = as @ a # rest, PkScript = p\<rparr> = W"
    by (simp_all add: WriteTxOutBuf_def W_def assets wthen_failed [OF assets_failed])
  have outs: "snd (wthen (write_all (WriteTxOutBuf ops) pre) W) \<noteq> None"
    using W by (simp add: snd_wthen_None del: not_None_eq)
  show ?thesis
    using assms(2)
    by (simp add: TxHash_def SerializeNoWitness_def DoubleHashRaw_def btcEncode_def write_all_append out
        wthen_failed [OF W] wthen_failed [OF outs])
qed

theorem txhash_invalid_amount_truncated_witness:
  "TxHash (\<lambda>b. b) string_decimal \<lparr>Version = 1, TxIns = [],
      TxOuts = [] @ \<lparr>Value = 5, Assets = [] @ \<lparr>AssetInfo_Name = \<lparr>Protocol = [], AssetType = [], Ticker = []\<rparr>,
        Amount = [], BindingSat = 0\<rparr> # [], PkScript = [1]\<rparr> # [], LockTime = 0\<rparr> =
   TxHash (\<lambda>b. b) string_decimal \<lparr>Version = 1, TxIns = [],
      TxOuts = [] @ \<lparr>Value = 5, Assets = [] @ \<lparr>AssetInfo_Name = \<lparr>Protocol = [], AssetType = [], Ticker = []\<rparr>,
        Amount = [], BindingSat = 0\<rparr> # [], PkScript = [2, 3]\<rparr> # [], LockTime = 9\<rparr>"
  by (rule txhash_invalid_amount_truncated) (simp_all add: string_decimal_def)

text \<open>
  C27 (the binding amount is read modulo \<open>2^32\<close>): \<^verbatim>\<open>AssetsReadFromBuf\<close> reads the binding amount as a
  64-bit variable-length integer and truncates it to 32 bits.  Bytes whose binding amount is
  \<open>2^32\<close> larger than the canonical one decode to the same asset, so the decoder accepts several byte
  strings for one transaction.
\<close>

theorem bindingsat_truncated:
  assumes "asset_ok ops slab a"
  shows "AssetRead ops slab (WriteVarBytesBuf (Protocol (AssetInfo_Name a)) @ WriteVarBytesBuf (AssetType (AssetInfo_Name a)) @
      WriteVarBytesBuf (Ticker (AssetInfo_Name a)) @ WriteVarBytesBuf (ToFormatString ops (Amount a)) @
      WriteVarInt (ucast (BindingSat a) + 0x100000000) @ r) = Inr (a, r)"
proof -
  have "(ucast (ucast (BindingSat a) + 0x100000000 :: u64) :: u32) = BindingSat a"
    using unat_less_width(3) [of "BindingSat a"]
    by (simp add: word_unat_eq_iff unat_ucast_mod unat_word_ariths)
  with assms show ?thesis
    by (simp add: AssetRead_def asset_ok_def str.dec_enc ReadVarInt_WriteVarInt)
qed

theorem bindingsat_truncated_witness:
  "AssetRead string_decimal 10 (WriteVarBytesBuf [1] @ WriteVarBytesBuf [2] @ WriteVarBytesBuf [3] @
      WriteVarBytesBuf [0x39] @ WriteVarInt 0x100000005 @ []) =
   Inr (\<lparr>AssetInfo_Name = \<lparr>Protocol = [1], AssetType = [2], Ticker = [3]\<rparr>, Amount = [0x39], BindingSat = 5\<rparr>, [])"
proof -
  have "asset_ok string_decimal 10
      \<lparr>AssetInfo_Name = \<lparr>Protocol = [1], AssetType = [2], Ticker = [3]\<rparr>, Amount = [0x39], BindingSat = 5\<rparr>"
    by (simp add: asset_ok_def string_decimal_def)
  from bindingsat_truncated [OF this, of "[]"] show ?thesis by (simp add: string_decimal_def)
qed

text \<open>
  \<^verbatim>\<open>NewAssetNameFromString\<close> accepts exactly the strings of the form
  \<open>protocol:type:ticker\<close> whose parts contain no colon, and returns those parts.
\<close>

lemma asset_name_parse:
  "NewAssetNameFromString name = Some n \<longleftrightarrow>
   (\<exists>p t k. name = p @ 0x3a # t @ 0x3a # k \<and> 0x3a \<notin> set p \<and> 0x3a \<notin> set t \<and> 0x3a \<notin> set k \<and>
            n = \<lparr>Protocol = p, AssetType = t, Ticker = k\<rparr>)"
  unfolding NewAssetNameFromString_iff by (cases n) auto

text \<open>
  For a non-negative amount that does not overflow the 64-bit
  addition, \<^verbatim>\<open>GetBindingSatNum\<close> is the least number of satoshis that can carry it.
\<close>

lemma binding_sat_num_ceil:
  assumes "0 \<le> sint amt" and "sint amt + uint n - 1 < 2 ^ 63" and "n \<noteq> 0"
  shows "sint amt \<le> sint (GetBindingSatNum amt n) * uint n \<and>
    (\<forall>m. sint amt \<le> m * uint n \<longrightarrow> sint (GetBindingSatNum amt n) \<le> m)"
proof -
  let ?q = "(sint amt + uint n - 1) div uint n"
  have n: "0 < uint n" using assms(3) by (simp add: word_neq_0_conv word_less_def)
  have "0 \<le> ?q" using assms(1) n by (simp add: pos_imp_zdiv_nonneg_iff)
  moreover have "?q \<le> sint amt + uint n - 1"
    using assms(1) n zdiv_mono2 [of "sint amt + uint n - 1" 1 "uint n"] by simp
  ultimately have "sint (word_of_int ?q :: i64) = ?q"
    using assms(2) by (intro sint_word_of_int_i64) simp_all
  moreover have "GetBindingSatNum amt n = word_of_int ?q"
  proof -
    have "trunc_div (sint amt + uint n - 1) (uint n) = ?q"
      using assms(1) n by (auto simp: trunc_div_def sgn_if)
    then show ?thesis
      using assms(3) by (simp add: GetBindingSatNum_def sint_binding_numerator [OF assms])
  qed
  ultimately have "sint (GetBindingSatNum amt n) = ?q" by simp
  with ceil_div [OF n assms(1)] show ?thesis by simp
qed

end
