(* ===== verification/Wire_Block.thy ===== *)
theory Wire_Block
  imports Wire_Tx
begin

text \<open>
  Block headers and blocks on the wire (\<^verbatim>\<open>wire/blockheader.go\<close>, \<^verbatim>\<open>wire/msgblock.go\<close>).
  A \<^verbatim>\<open>time.Time\<close> is its number of nanoseconds since the Unix epoch; \<open>Unix\<close> rounds down to seconds.
  Every transaction of a block is decoded with the whole scratch area for scripts.
\<close>

section \<open>Headers\<close>

record BlockHeader =
  bh_Version :: i32
  bh_PrevBlock :: bytes
  bh_MerkleRoot :: bytes
  bh_Timestamp :: int
  bh_Bits :: u32
  bh_Nonce :: u32

definition time_Unix :: "int \<Rightarrow> int" where
  "time_Unix t = t div 1000000000"

definition Unix_time :: "int \<Rightarrow> int" where
  "Unix_time secs = secs * 1000000000"

definition blockHeaderLen :: nat where "blockHeaderLen = 80"

definition readBlockHeaderBuf :: "BlockHeader reader" where
  "readBlockHeaderBuf r =
     andthen (Uint32 LittleEndian r) (\<lambda>(version, r).
     andthen (read_full 32 r) (\<lambda>(prevBlock, r).
     andthen (read_full 32 r) (\<lambda>(merkleRoot, r).
     andthen (Uint32 LittleEndian r) (\<lambda>(timestamp, r).
     andthen (Uint32 LittleEndian r) (\<lambda>(bits, r).
     andthen (Uint32 LittleEndian r) (\<lambda>(nonce, r).
       Inr (\<lparr>bh_Version = version, bh_PrevBlock = prevBlock, bh_MerkleRoot = merkleRoot,
             bh_Timestamp = Unix_time (uint timestamp), bh_Bits = bits, bh_Nonce = nonce\<rparr>, r)))))))"

definition writeBlockHeaderBuf :: "BlockHeader \<Rightarrow> bytes" where
  "writeBlockHeaderBuf bh =
     PutUint32 LittleEndian (bh_Version bh) @ bh_PrevBlock bh @ bh_MerkleRoot bh @
     PutUint32 LittleEndian (word_of_int (time_Unix (bh_Timestamp bh))) @
     PutUint32 LittleEndian (bh_Bits bh) @ PutUint32 LittleEndian (bh_Nonce bh)"

definition BlockHash :: "(bytes \<Rightarrow> bytes) \<Rightarrow> BlockHeader \<Rightarrow> bytes" where
  "BlockHash sha h = DoubleHashRaw sha (wrote (writeBlockHeaderBuf h))"

section \<open>Blocks\<close>

record 'd MsgBlock =
  mb_Header :: BlockHeader
  mb_Transactions :: "'d MsgTx list"

definition MaxBlockPayload :: nat where "MaxBlockPayload = 4000000"
definition minTxPayload :: nat where "minTxPayload = 10"
definition maxTxPerBlock :: nat where "maxTxPerBlock = MaxBlockPayload div minTxPayload + 1"

definition AddTransaction :: "'d MsgTx \<Rightarrow> 'd MsgBlock \<Rightarrow> 'd MsgBlock" where
  "AddTransaction tx msg = msg\<lparr>mb_Transactions := mb_Transactions msg @ [tx]\<rparr>"

definition ClearTransactions :: "'d MsgBlock \<Rightarrow> 'd MsgBlock" where
  "ClearTransactions msg = msg\<lparr>mb_Transactions := []\<rparr>"

definition MsgBlock_BtcDecode :: "'d decimal_ops \<Rightarrow> MessageEncoding \<Rightarrow> 'd MsgBlock reader" where
  "MsgBlock_BtcDecode ops enc r =
     andthen (readBlockHeaderBuf r) (\<lambda>(header, r).
     andthen (ReadVarInt r) (\<lambda>(txCount, r).
     if unat txCount > maxTxPerBlock then Inl (MessageError ''MsgBlock.BtcDecode'') else
     andthen (repeat_read (unat txCount) (btcDecode ops enc scriptSlabSize) r) (\<lambda>(txs, r).
       Inr (\<lparr>mb_Header = header, mb_Transactions = txs\<rparr>, r))))"

definition MsgBlock_Deserialize :: "'d decimal_ops \<Rightarrow> 'd MsgBlock reader" where
  "MsgBlock_Deserialize ops r = MsgBlock_BtcDecode ops WitnessEncoding r"

definition MsgBlock_DeserializeNoWitness :: "'d decimal_ops \<Rightarrow> 'd MsgBlock reader" where
  "MsgBlock_DeserializeNoWitness ops r = MsgBlock_BtcDecode ops BaseEncoding r"

record TxLoc =
  TxStart :: nat
  TxLen :: nat

text \<open>One round of the loop of \<^verbatim>\<open>DeserializeTxLoc\<close>; \<open>fullLen\<close> is the length of the whole buffer.\<close>

definition read_located :: "'d decimal_ops \<Rightarrow> nat \<Rightarrow> ('d MsgTx \<times> TxLoc) reader" where
  "read_located ops fullLen r =
     (let start = fullLen - length r in
      andthen (btcDecode ops WitnessEncoding scriptSlabSize r) (\<lambda>(tx, r).
        Inr ((tx, \<lparr>TxStart = start, TxLen = (fullLen - length r) - start\<rparr>), r)))"

definition DeserializeTxLoc :: "'d decimal_ops \<Rightarrow> bytes \<Rightarrow> wire_error + ('d MsgBlock \<times> TxLoc list)" where
  "DeserializeTxLoc ops r =
     (let fullLen = length r in
      andthen (readBlockHeaderBuf r) (\<lambda>(header, r).
      andthen (ReadVarInt r) (\<lambda>(txCount, r).
      if unat txCount > maxTxPerBlock then Inl (MessageError ''MsgBlock.DeserializeTxLoc'') else
      andthen (repeat_read (unat txCount) (read_located ops fullLen) r) (\<lambda>(txs, r).
        Inr (\<lparr>mb_Header = header, mb_Transactions = map fst txs\<rparr>, map snd txs)))))"

definition MsgBlock_BtcEncode :: "'d decimal_ops \<Rightarrow> MessageEncoding \<Rightarrow> 'd MsgBlock \<Rightarrow> wire_error written" where
  "MsgBlock_BtcEncode ops enc msg =
     wthen (wrote (writeBlockHeaderBuf (mb_Header msg)))
     (wthen (wrote (WriteVarInt (word_of_nat (length (mb_Transactions msg)))))
       (write_all (btcEncode ops enc) (mb_Transactions msg)))"

definition MsgBlock_Serialize :: "'d decimal_ops \<Rightarrow> 'd MsgBlock \<Rightarrow> wire_error written" where
  "MsgBlock_Serialize ops msg = MsgBlock_BtcEncode ops WitnessEncoding msg"

definition MsgBlock_SerializeNoWitness :: "'d decimal_ops \<Rightarrow> 'd MsgBlock \<Rightarrow> wire_error written" where
  "MsgBlock_SerializeNoWitness ops msg = MsgBlock_BtcEncode ops BaseEncoding msg"

definition MsgBlock_SerializeSize :: "'d decimal_ops \<Rightarrow> 'd MsgBlock \<Rightarrow> nat" where
  "MsgBlock_SerializeSize ops msg =
     blockHeaderLen + VarIntSerializeSize (word_of_nat (length (mb_Transactions msg))) +
     sum_list (map (SerializeSize ops) (mb_Transactions msg))"

definition MsgBlock_SerializeSizeStripped :: "'d decimal_ops \<Rightarrow> 'd MsgBlock \<Rightarrow> nat" where
  "MsgBlock_SerializeSizeStripped ops msg =
     blockHeaderLen + VarIntSerializeSize (word_of_nat (length (mb_Transactions msg))) +
     sum_list (map (SerializeSizeStripped ops) (mb_Transactions msg))"

definition TxHashes :: "(bytes \<Rightarrow> bytes) \<Rightarrow> 'd decimal_ops \<Rightarrow> 'd MsgBlock \<Rightarrow> bytes list" where
  "TxHashes sha ops msg = map (TxHash sha ops) (mb_Transactions msg)"

section \<open>Round trips\<close>

definition header_ok :: "BlockHeader \<Rightarrow> bool" where
  "header_ok bh \<longleftrightarrow> length (bh_PrevBlock bh) = 32 \<and> length (bh_MerkleRoot bh) = 32 \<and>
     (\<exists>t::u32. bh_Timestamp bh = Unix_time (uint t))"

lemma time_Unix_time [simp]: "time_Unix (Unix_time s) = s"
  by (simp add: time_Unix_def Unix_time_def)

interpretation header: canonical_codec writeBlockHeaderBuf readBlockHeaderBuf header_ok
proof unfold_locales
  fix x r assume "header_ok x"
  then show "readBlockHeaderBuf (writeBlockHeaderBuf x @ r) = Inr (x, r)"
    by (auto simp: header_ok_def readBlockHeaderBuf_def writeBlockHeaderBuf_def codec_simps)
next
  fix bs x r assume "readBlockHeaderBuf bs = Inr (x, r)"
  then obtain v pb mr t bits n r1 r2 r3 r4 r5 where
    "Uint32 LittleEndian bs = Inr (v, r1)" "read_full 32 r1 = Inr (pb, r2)" "read_full 32 r2 = Inr (mr, r3)"
    "Uint32 LittleEndian r3 = Inr (t, r4)" "Uint32 LittleEndian r4 = Inr (bits, r5)" "Uint32 LittleEndian r5 = Inr (n, r)"
    and x: "x = \<lparr>bh_Version = v, bh_PrevBlock = pb, bh_MerkleRoot = mr, bh_Timestamp = Unix_time (uint t), bh_Bits = bits, bh_Nonce = n\<rparr>"
    by (auto simp: readBlockHeaderBuf_def)
  then have "length pb = 32" "length mr = 32"
    "bs = PutUint32 LittleEndian v @ pb @ mr @ PutUint32 LittleEndian t @ PutUint32 LittleEndian bits @ PutUint32 LittleEndian n @ r"
    by (auto dest!: read_full_SomeD uint32.enc_dec)
  then show "header_ok x \<and> bs = writeBlockHeaderBuf x @ r"
    by (auto simp: header_ok_def writeBlockHeaderBuf_def x)
qed

lemma length_header: "header_ok h \<Longrightarrow> length (writeBlockHeaderBuf h) = blockHeaderLen"
  by (simp add: writeBlockHeaderBuf_def header_ok_def blockHeaderLen_def)

definition block_ok :: "'d decimal_ops \<Rightarrow> MessageEncoding \<Rightarrow> 'd MsgBlock \<Rightarrow> bool" where
  "block_ok ops enc msg \<longleftrightarrow> header_ok (mb_Header msg) \<and> length (mb_Transactions msg) \<le> maxTxPerBlock \<and>
     list_all (tx_ok ops enc scriptSlabSize) (mb_Transactions msg)"

definition BlockBytes :: "'d decimal_ops \<Rightarrow> MessageEncoding \<Rightarrow> 'd MsgBlock \<Rightarrow> bytes" where
  "BlockBytes ops enc msg = writeBlockHeaderBuf (mb_Header msg) @
     WriteVarInt (word_of_nat (length (mb_Transactions msg))) @ concat (map (TxBytes ops enc) (mb_Transactions msg))"

lemma BtcEncode_block:
  assumes "block_ok ops enc msg"
  shows "MsgBlock_BtcEncode ops enc msg = wrote (BlockBytes ops enc msg)"
proof -
  have "write_all (btcEncode ops enc) (mb_Transactions msg) = wrote (concat (map (TxBytes ops enc) (mb_Transactions msg)))"
    using assms by (intro write_all_total btcEncode_valid) (auto simp: block_ok_def list_all_iff intro: tx_ok_assets_valid)
  then show ?thesis by (simp add: MsgBlock_BtcEncode_def BlockBytes_def)
qed

lemma block_count:
  "block_ok ops enc msg \<Longrightarrow> unat (word_of_nat (length (mb_Transactions msg)) :: u64) = length (mb_Transactions msg)"
  by (intro unat_length_u64) (simp add: block_ok_def maxTxPerBlock_def MaxBlockPayload_def minTxPayload_def)

lemma tx_ok_hashes: "tx_ok ops enc slab tx \<Longrightarrow> hashes_ok tx"
  by (auto simp: tx_ok_def hashes_ok_def txin_ok_def)

lemma length_BlockBytes:
  assumes "block_ok ops enc msg"
  shows "length (BlockBytes ops enc msg) =
    (case enc of WitnessEncoding \<Rightarrow> MsgBlock_SerializeSize ops msg | BaseEncoding \<Rightarrow> MsgBlock_SerializeSizeStripped ops msg)"
proof -
  have "map (\<lambda>tx. length (TxBytes ops enc tx)) (mb_Transactions msg) =
      map (\<lambda>tx. case enc of WitnessEncoding \<Rightarrow> SerializeSize ops tx | BaseEncoding \<Rightarrow> SerializeSizeStripped ops tx) (mb_Transactions msg)"
    using assms by (intro map_cong) (auto simp: block_ok_def list_all_iff length_TxBytes tx_ok_hashes)
  then have "(\<Sum>tx\<leftarrow>mb_Transactions msg. length (TxBytes ops enc tx)) =
      sum_list (map (case enc of WitnessEncoding \<Rightarrow> SerializeSize ops | BaseEncoding \<Rightarrow> SerializeSizeStripped ops) (mb_Transactions msg))"
    by (cases enc) (simp_all only: MessageEncoding.case)
  then show ?thesis
    using assms by (cases enc) (simp_all add: BlockBytes_def length_concat_map_sum MsgBlock_SerializeSize_def
        MsgBlock_SerializeSizeStripped_def block_ok_def length_header)
qed

lemma repeat_btcDecode:
  "list_all (tx_ok ops enc scriptSlabSize) txs \<Longrightarrow>
   repeat_read (length txs) (btcDecode ops enc scriptSlabSize) (concat (map (TxBytes ops enc) txs) @ r) = Inr (txs, r)"
  by (induction txs) (simp_all add: btcDecode_TxBytes)

text \<open>
  C32 (encoding a block): a block with a header of whole seconds and transactions the decoder
  accepts is encoded without an error, in exactly the number of bytes announced by
  \<^verbatim>\<open>SerializeSize\<close> and \<^verbatim>\<open>SerializeSizeStripped\<close>, and decodes to itself, leaving what follows.
\<close>

theorem block_roundtrip:
  assumes "block_ok ops enc msg"
  shows "\<exists>b. MsgBlock_BtcEncode ops enc msg = wrote b \<and> MsgBlock_BtcDecode ops enc (b @ r) = Inr (msg, r) \<and>
    length b = (case enc of WitnessEncoding \<Rightarrow> MsgBlock_SerializeSize ops msg | BaseEncoding \<Rightarrow> MsgBlock_SerializeSizeStripped ops msg)"
proof (intro exI conjI)
  show "MsgBlock_BtcEncode ops enc msg = wrote (BlockBytes ops enc msg)" using assms by (rule BtcEncode_block)
  show "length (BlockBytes ops enc msg) = (case enc of WitnessEncoding \<Rightarrow> MsgBlock_SerializeSize ops msg
      | BaseEncoding \<Rightarrow> MsgBlock_SerializeSizeStripped ops msg)"
    using assms by (rule length_BlockBytes)
  show "MsgBlock_BtcDecode ops enc (BlockBytes ops enc msg @ r) = Inr (msg, r)"
    using assms by (simp add: MsgBlock_BtcDecode_def BlockBytes_def header.dec_enc varint.dec_enc block_ok_def
        block_count [OF assms] repeat_btcDecode)
qed

definition sample_block :: "bytes MsgBlock" where
  "sample_block = \<lparr>mb_Header = \<lparr>bh_Version = 1, bh_PrevBlock = replicate 32 1, bh_MerkleRoot = replicate 32 2,
     bh_Timestamp = Unix_time 1700000000, bh_Bits = 5, bh_Nonce = 6\<rparr>, mb_Transactions = [sample_tx, sample_tx]\<rparr>"

lemma sample_block_ok: "block_ok string_decimal WitnessEncoding sample_block"
proof -
  have "tx_ok string_decimal WitnessEncoding scriptSlabSize sample_tx" by (simp add: sample_simps)
  moreover have "\<exists>t::u32. Unix_time 1700000000 = Unix_time (uint t)" by (rule exI [of _ 1700000000]) simp
  ultimately show ?thesis
    by (simp add: block_ok_def sample_block_def header_ok_def maxTxPerBlock_def MaxBlockPayload_def minTxPayload_def)
qed

theorem block_roundtrip_witness:
  "\<exists>b. MsgBlock_BtcEncode string_decimal WitnessEncoding sample_block = wrote b \<and>
    MsgBlock_BtcDecode string_decimal WitnessEncoding (b @ [7]) = Inr (sample_block, [7]) \<and>
    length b = (case WitnessEncoding of WitnessEncoding \<Rightarrow> MsgBlock_SerializeSize string_decimal sample_block
      | BaseEncoding \<Rightarrow> MsgBlock_SerializeSizeStripped string_decimal sample_block)"
  by (rule block_roundtrip [OF sample_block_ok])

section \<open>Locations of transactions\<close>

text \<open>The transactions from \<open>n\<close> on stand at these places.\<close>

fun tx_locs :: "'d decimal_ops \<Rightarrow> nat \<Rightarrow> 'd MsgTx list \<Rightarrow> TxLoc list" where
  "tx_locs ops n [] = []"
| "tx_locs ops n (tx # txs) =
     \<lparr>TxStart = n, TxLen = length (TxBytes ops WitnessEncoding tx)\<rparr> # tx_locs ops (n + length (TxBytes ops WitnessEncoding tx)) txs"

lemma read_located_all:
  assumes "list_all (tx_ok ops WitnessEncoding scriptSlabSize) txs"
  shows "repeat_read (length txs) (read_located ops (n + length (concat (map (TxBytes ops WitnessEncoding) txs))))
    (concat (map (TxBytes ops WitnessEncoding) txs)) = Inr (zip txs (tx_locs ops n txs), [])"
  using assms
proof (induction txs arbitrary: n)
  case (Cons tx txs)
  let ?b = "TxBytes ops WitnessEncoding tx"
  show ?case
    using Cons.prems Cons.IH [of "n + length ?b"] by (simp add: read_located_def btcDecode_TxBytes add.assoc)
qed simp

lemma length_tx_locs [simp]: "length (tx_locs ops n txs) = length txs"
  by (induction txs arbitrary: n) simp_all

lemma tx_locs_located:
  "i < length txs \<Longrightarrow> length p = n \<Longrightarrow>
   TxLen (tx_locs ops n txs ! i) = length (TxBytes ops WitnessEncoding (txs ! i)) \<and>
   located (p @ concat (map (TxBytes ops WitnessEncoding) txs)) (TxStart (tx_locs ops n txs ! i)) (TxBytes ops WitnessEncoding (txs ! i))"
proof (induction txs arbitrary: i n p)
  case (Cons tx txs)
  show ?case
  proof (cases i)
    case 0
    then show ?thesis using Cons.prems by (auto simp: located_def)
  next
    case (Suc j)
    then show ?thesis
      using Cons.prems Cons.IH [of j "p @ TxBytes ops WitnessEncoding tx" "n + length (TxBytes ops WitnessEncoding tx)"] by simp
  qed
qed simp

text \<open>
  C33 (locations of transactions): on the serialization of a block \<^verbatim>\<open>DeserializeTxLoc\<close> returns the
  block and one location for each transaction, and the bytes at that location are the
  serialization of the transaction.
\<close>

theorem tx_locations:
  assumes "block_ok ops WitnessEncoding msg" "MsgBlock_Serialize ops msg = wrote b"
  shows "\<exists>locs. DeserializeTxLoc ops b = Inr (msg, locs) \<and> length locs = length (mb_Transactions msg) \<and>
    (\<forall>i < length locs. take (TxLen (locs ! i)) (drop (TxStart (locs ! i)) b) = fst (Serialize ops (mb_Transactions msg ! i)))"
proof -
  let ?txs = "mb_Transactions msg"
  define p where "p = writeBlockHeaderBuf (mb_Header msg) @ WriteVarInt (word_of_nat (length ?txs))"
  define c where "c = concat (map (TxBytes ops WitnessEncoding) ?txs)"
  have b: "b = p @ c"
    using assms(2) BtcEncode_block [OF assms(1)] by (simp add: MsgBlock_Serialize_def BlockBytes_def p_def c_def)
  have ok: "list_all (tx_ok ops WitnessEncoding scriptSlabSize) ?txs" using assms(1) by (simp add: block_ok_def)
  let ?locs = "tx_locs ops (length p) ?txs"
  have "DeserializeTxLoc ops b = Inr (msg, ?locs)"
  proof -
    have len: "length b = length p + length c" by (simp add: b)
    have "readBlockHeaderBuf b = Inr (mb_Header msg, WriteVarInt (word_of_nat (length ?txs)) @ c)"
      using assms(1) by (simp add: b p_def header.dec_enc block_ok_def)
    then show ?thesis
      using assms(1) read_located_all [OF ok, of "length p", folded c_def]
      by (simp add: DeserializeTxLoc_def Let_def len varint.dec_enc block_count [OF assms(1)] block_ok_def)
  qed
  moreover have "take (TxLen (?locs ! i)) (drop (TxStart (?locs ! i)) b) = fst (Serialize ops (?txs ! i))" if "i < length ?txs" for i
  proof -
    have "tx_ok ops WitnessEncoding scriptSlabSize (?txs ! i)" using ok that by (simp add: list_all_iff)
    then have "fst (Serialize ops (?txs ! i)) = TxBytes ops WitnessEncoding (?txs ! i)"
      by (simp add: Serialize_def btcEncode_valid tx_ok_assets_valid)
    then show ?thesis using tx_locs_located [OF that, of p] by (simp add: located_slice b c_def)
  qed
  ultimately show ?thesis by (intro exI [of _ ?locs]) simp
qed

theorem tx_locations_witness:
  "\<exists>locs. DeserializeTxLoc string_decimal (fst (MsgBlock_Serialize string_decimal sample_block)) = Inr (sample_block, locs) \<and>
    length locs = length (mb_Transactions sample_block) \<and>
    (\<forall>i < length locs. take (TxLen (locs ! i)) (drop (TxStart (locs ! i)) (fst (MsgBlock_Serialize string_decimal sample_block))) =
      fst (Serialize string_decimal (mb_Transactions sample_block ! i)))"
  by (rule tx_locations [OF sample_block_ok])
     (simp add: MsgBlock_Serialize_def BtcEncode_block [OF sample_block_ok])

end
