(* ===== verification/Script_Num.thy ===== *)
theory Script_Num
  imports Wire_Common
begin

text \<open>
  \<^verbatim>\<open>txscript/error.go\<close>, \<^verbatim>\<open>txscript/scriptnum.go\<close> and \<^verbatim>\<open>txscript/stack.go\<close>:
  the error codes of the script engine, script numbers (little-endian sign-magnitude
  integers held as \<^verbatim>\<open>int64\<close>) and the data stack.  A Go panic is \<^const>\<open>None\<close>; a
  \<^verbatim>\<open>txscript.Error\<close> is its code, the description being dropped.

  The lemmas show that the encoding of script numbers and its parser are inverse to each
  other, that the parser with the minimality check accepts one encoding per number, and
  that the stack operations are the transformations their comments draw.
\<close>

unbundle bit_operations_syntax

section \<open>Error codes\<close>

datatype ErrorCode =
    ErrInternal | ErrInvalidFlags | ErrInvalidIndex | ErrUnsupportedAddress | ErrNotMultisigScript
  | ErrTooManyRequiredSigs | ErrTooMuchNullData | ErrUnsupportedScriptVersion | ErrEarlyReturn
  | ErrEmptyStack | ErrEvalFalse | ErrScriptUnfinished | ErrInvalidProgramCounter | ErrScriptTooBig
  | ErrElementTooBig | ErrTooManyOperations | ErrStackOverflow | ErrInvalidPubKeyCount
  | ErrInvalidSignatureCount | ErrNumberTooBig | ErrVerify | ErrEqualVerify | ErrNumEqualVerify
  | ErrCheckSigVerify | ErrCheckMultiSigVerify | ErrDisabledOpcode | ErrReservedOpcode
  | ErrMalformedPush | ErrInvalidStackOperation | ErrUnbalancedConditional | ErrMinimalData
  | ErrInvalidSigHashType | ErrSigTooShort | ErrSigTooLong | ErrSigInvalidSeqID
  | ErrSigInvalidDataLen | ErrSigMissingSTypeID | ErrSigMissingSLen | ErrSigInvalidSLen
  | ErrSigInvalidRIntID | ErrSigZeroRLen | ErrSigNegativeR | ErrSigTooMuchRPadding
  | ErrSigInvalidSIntID | ErrSigZeroSLen | ErrSigNegativeS | ErrSigTooMuchSPadding | ErrSigHighS
  | ErrNotPushOnly | ErrSigNullDummy | ErrPubKeyType | ErrCleanStack | ErrNullFail
  | ErrWitnessMalleated | ErrWitnessMalleatedP2SH | ErrDiscourageUpgradableNOPs
  | ErrNegativeLockTime | ErrUnsatisfiedLockTime | ErrMinimalIf
  | ErrDiscourageUpgradableWitnessProgram | ErrWitnessProgramEmpty | ErrWitnessProgramMismatch
  | ErrWitnessProgramWrongLength | ErrWitnessUnexpected | ErrWitnessPubKeyType
  | ErrDiscourageOpSuccess | ErrDiscourageUpgradeableTaprootVersion | ErrTapscriptCheckMultisig
  | ErrDiscourageUpgradeablePubKeyType | ErrTaprootSigInvalid | ErrTaprootMerkleProofInvalid
  | ErrTaprootOutputKeyParityMismatch | ErrControlBlockTooSmall | ErrControlBlockTooLarge
  | ErrControlBlockInvalidLength | ErrWitnessHasNoAnnex | ErrInvalidTaprootSigLen
  | ErrTaprootPubkeyIsEmpty | ErrTaprootMaxSigOps | ErrNonConstScriptCode | ErrCodeSeparator

section \<open>Script numbers\<close>

type_synonym scriptNum = i64

definition maxScriptNumLen :: nat where
  "maxScriptNumLen = 4"

definition cltvMaxScriptNumLen :: nat where
  "cltvMaxScriptNumLen = 5"

definition checkMinimalDataEncoding :: "bytes \<Rightarrow> ErrorCode + unit" where
  "checkMinimalDataEncoding v =
     (if length v = 0 then Inr ()
      else if v ! (length v - 1) AND 0x7f = 0 \<and>
              (length v = 1 \<or> v ! (length v - 2) AND 0x80 = 0)
      then Inl ErrMinimalData
      else Inr ())"

text \<open>The loop \<^verbatim>\<open>for n > 0 { result = append(result, byte(n&0xff)); n >>= 8 }\<close>.\<close>

function scriptNum_digits :: "scriptNum \<Rightarrow> bytes" where
  "scriptNum_digits n =
     (if sint n > 0 then ucast (n AND 0xff) # scriptNum_digits (signed_drop_bit 8 n) else [])"
  by pat_completeness auto
termination
proof (relation "measure (\<lambda>n. nat (sint n))")
  fix n :: scriptNum
  assume "0 < sint n"
  then show "(signed_drop_bit 8 n, n) \<in> measure (\<lambda>n. nat (sint n))"
    by (simp add: sint_signed_drop_bit_eq drop_bit_eq_div)
qed simp

declare scriptNum_digits.simps [simp del]

text \<open>
  \<^verbatim>\<open>scriptNum.Bytes\<close>.  Negating the least \<^verbatim>\<open>int64\<close> wraps to itself, so that the loop
  produces no byte and \<^verbatim>\<open>result[len(result)-1]\<close> is out of range.
\<close>

definition scriptNum_Bytes :: "scriptNum \<Rightarrow> bytes option" where
  "scriptNum_Bytes n =
     (if n = 0 then Some []
      else
        let isNegative = sint n < 0;
            result = scriptNum_digits (if isNegative then - n else n)
        in if result = [] then None
           else if last result AND 0x80 \<noteq> 0
             then Some (result @ [if isNegative then 0x80 else 0x00])
           else if isNegative
             then Some (butlast result @ [last result OR 0x80])
           else Some result)"

definition scriptNum_Int32 :: "scriptNum \<Rightarrow> i32" where
  "scriptNum_Int32 n =
     (if sint n > 2 ^ 31 - 1 then word_of_int (2 ^ 31 - 1)
      else if sint n < - (2 ^ 31) then word_of_int (- (2 ^ 31))
      else word_of_int (sint n))"

text \<open>
  The loop \<^verbatim>\<open>for i, val := range v { result |= int64(val) << uint8(8*i) }\<close>; the shift
  count is a \<^verbatim>\<open>uint8\<close>.
\<close>

fun scriptNum_or :: "nat \<Rightarrow> bytes \<Rightarrow> i64 \<Rightarrow> i64" where
  "scriptNum_or i [] result = result"
| "scriptNum_or i (val # v) result =
     scriptNum_or (Suc i) v (result OR push_bit (unat (word_of_nat (8 * i) :: byte)) (ucast val))"

definition MakeScriptNum :: "bytes \<Rightarrow> bool \<Rightarrow> nat \<Rightarrow> ErrorCode + scriptNum" where
  "MakeScriptNum v requireMinimal scriptNumLen =
     (if length v > scriptNumLen then Inl ErrNumberTooBig
      else andthen (if requireMinimal then checkMinimalDataEncoding v else Inr ()) (\<lambda>_.
        if length v = 0 then Inr 0
        else
          let result = scriptNum_or 0 v 0
          in if v ! (length v - 1) AND 0x80 \<noteq> 0
             then Inr (- (result AND
                          NOT (push_bit (unat (word_of_nat (8 * (length v - 1)) :: byte)) 0x80)))
             else Inr result))"

text \<open>\<^verbatim>\<open>extractScriptInt64\<close> of \<^verbatim>\<open>tokenizer.go\<close>: eight bytes are copied; a sign in a ninth is a panic.\<close>

definition extractScriptInt64 :: "bytes \<Rightarrow> i64 option" where
  "extractScriptInt64 data =
     (if length data = 0 then Some 0
      else
        let isNegative = data ! (length data - 1) AND 0x80 \<noteq> 0;
            buf = take 8 data @ replicate (8 - length data) 0
        in if isNegative \<and> length data > 8 then None
           else
             let buf = (if isNegative
                        then buf[length data - 1 := buf ! (length data - 1) AND 0x7f] else buf);
                 val = word_of_nat (get_le buf)
             in Some (if isNegative then - val else val))"

section \<open>Properties of script numbers\<close>

text \<open>The most significant bit of a byte is the comparison of its value with 128.\<close>

lemma byte_sign: "(b::byte) AND 0x80 \<noteq> 0 \<longleftrightarrow> 128 \<le> unat b"
proof -
  have "b AND 0x80 \<noteq> 0 \<longleftrightarrow> bit b 7"
    by (simp add: and_exp_eq_0_iff_not_bit [of b 7, simplified])
  also have "bit b 7 \<longleftrightarrow> 128 \<le> unat b"
  proof -
    have "bit b 7 \<longleftrightarrow> odd (unat b div 128)"
      using bit_unsigned_iff [of b 7, where ?'a = nat] by (simp add: bit_iff_odd possible_bit_def)
    also have "\<dots> \<longleftrightarrow> 128 \<le> unat b"
    proof (cases "128 \<le> unat b")
      case True
      then have "unat b div 128 = 1"
        using unat_less_width(1) [of b] by (intro div_nat_eqI) simp_all
      with True show ?thesis by simp
    qed simp
    finally show ?thesis .
  qed
  finally show ?thesis .
qed

lemma byte_magnitude: "unat ((b::byte) AND 0x7f) = unat b mod 128"
proof -
  have "b AND 0x7f = take_bit 7 b"
    by (simp add: take_bit_eq_mask mask_eq_exp_minus_1)
  then show ?thesis
    by (simp add: unsigned_take_bit_eq take_bit_nat_def)
qed

lemma byte_or_sign: "unat (b::byte) < 128 \<Longrightarrow> unat (b OR 0x80) = unat b + 128"
proof -
  assume b: "unat b < 128"
  then have "b AND 0x80 = 0" using byte_sign [of b] by auto
  then have "b + 0x80 = b OR 0x80" by (rule disjunctive_add_eq_or)
  moreover have "unat (b + 0x80) = unat b + 128"
    using b by (simp add: unat_word_ariths)
  ultimately show ?thesis by simp
qed

lemma get_le_append: "get_le (u @ w) = get_le u + 256 ^ length u * get_le w"
  by (induction u) (simp_all add: algebra_simps)

text \<open>The minimal little-endian digits of a number, the reference for the encoding loop.\<close>

fun le_digits :: "nat \<Rightarrow> bytes" where
  "le_digits n = (if n = 0 then [] else word_of_nat n # le_digits (n div 256))"

declare le_digits.simps [simp del]

lemma le_digits_0 [simp]: "le_digits 0 = []"
  by (simp add: le_digits.simps)

lemma le_digits_eq_Nil [simp]: "le_digits n = [] \<longleftrightarrow> n = 0"
  by (subst le_digits.simps) simp

lemma get_le_digits [simp]: "get_le (le_digits n) = n"
proof (induction n rule: le_digits.induct)
  case (1 n)
  then show ?case
    by (subst le_digits.simps) (simp add: unat_byte_of_nat)
qed

lemma last_le_digits: "0 < n \<Longrightarrow> last (le_digits n) \<noteq> 0"
proof (induction n rule: le_digits.induct)
  case (1 n)
  show ?case
  proof (cases "n div 256 = 0")
    case True
    then have "n < 256" by (simp add: div_eq_0_iff)
    then have "unat (word_of_nat n :: byte) = n" by (simp add: unat_byte_of_nat)
    with 1(2) True show ?thesis by (subst le_digits.simps) auto
  next
    case False
    with 1 show ?thesis by (subst le_digits.simps) auto
  qed
qed

lemma length_le_digits: "n < 256 ^ k \<Longrightarrow> length (le_digits n) \<le> k"
proof (induction n arbitrary: k rule: le_digits.induct)
  case (1 n)
  show ?case
  proof (cases k)
    case 0
    with 1(2) show ?thesis by simp
  next
    case (Suc j)
    with 1(2) have "n div 256 < 256 ^ j" by (simp add: less_mult_imp_div_less mult.commute)
    with 1(1) Suc show ?thesis by (subst le_digits.simps) simp
  qed
qed

lemma le_digits_get_le: "bs = [] \<or> last bs \<noteq> 0 \<Longrightarrow> le_digits (get_le bs) = bs"
proof (induction bs)
  case Nil
  then show ?case by simp
next
  case (Cons b bs)
  have b: "unat b < 256" by (rule unat_less_width)
  show ?case
  proof (cases "bs = []")
    case True
    with Cons.prems b show ?thesis
      by (subst le_digits.simps) (simp add: unat_eq_0)
  next
    case False
    with Cons have IH: "le_digits (get_le bs) = bs" by simp
    with False have "get_le bs \<noteq> 0" by (metis le_digits_0)
    moreover have "(word_of_nat (unat b + 256 * get_le bs) :: byte) = b"
    proof -
      have "(word_of_nat (256 * get_le bs) :: byte) = 0"
        by (subst word_of_nat_eq_0_iff) simp
      then show ?thesis by simp
    qed
    ultimately show ?thesis
      using b IH by (subst le_digits.simps) simp
  qed
qed

lemma scriptNum_digits_eq: "scriptNum_digits n = le_digits (nat (sint n))"
proof (induction n rule: scriptNum_digits.induct)
  case (1 n)
  show ?case
  proof (cases "0 < sint n")
    case False
    then show ?thesis by (simp add: scriptNum_digits.simps)
  next
    case True
    have *: "nat (sint (signed_drop_bit 8 n)) = nat (sint n) div 256"
      using True by (simp add: sint_signed_drop_bit_eq drop_bit_eq_div nat_div_distrib)
    have "n AND 0xff = take_bit 8 n"
      by (simp add: take_bit_eq_mask mask_eq_exp_minus_1)
    then have "(ucast (n AND 0xff) :: byte) = ucast n"
      by (simp only:) (rule bit_word_eqI, auto simp: bit_simps possible_bit_def)
    moreover have "(ucast n :: byte) = word_of_nat (nat (sint n))"
    proof -
      have "(word_of_int (sint n) :: byte) = ucast n"
        by (rule bit_word_eqI) (simp add: bit_simps)
      with True show ?thesis by (metis of_int_of_nat_eq nat_0_le less_imp_le)
    qed
    ultimately show ?thesis
      using True 1 * by (subst scriptNum_digits.simps, subst le_digits.simps) simp
  qed
qed

lemma scriptNum_or_eq:
  "take_bit (8 * i) r = r \<Longrightarrow> i + length v \<le> 8 \<Longrightarrow>
   scriptNum_or i v r = r + push_bit (8 * i) (word_of_nat (get_le v))"
proof (induction v arbitrary: i r)
  case Nil
  then show ?case by simp
next
  case (Cons val v)
  define s :: i64 where "s = push_bit (8 * i) (ucast val)"
  have r: "\<not> bit r n" if "8 * i \<le> n" for n
    using that Cons.prems(1) by (metis bit_take_bit_iff not_less)
  have val: "n < 8" if "bit val n" for n
    using bit_imp_le_length [OF that] by simp
  have "r AND s = 0"
    by (rule bit_word_eqI) (use r in \<open>auto simp: s_def bit_simps\<close>)
  then have or: "r OR s = r + s" by (simp add: disjunctive_add_eq_or)
  have "take_bit (8 * Suc i) (r OR s) = r OR s"
    by (rule bit_word_eqI) (use r in \<open>auto simp: s_def bit_simps not_less dest: val\<close>)
  with Cons have "scriptNum_or (Suc i) v (r OR s) =
      (r OR s) + push_bit (8 * Suc i) (word_of_nat (get_le v))"
    by simp
  moreover have "s + push_bit (8 * Suc i) (word_of_nat (get_le v)) =
      push_bit (8 * i) (word_of_nat (get_le (val # v)))"
    by (simp add: s_def push_bit_eq_mult algebra_simps power_add)
  moreover have "unat (word_of_nat (8 * i) :: byte) = 8 * i"
    using Cons.prems(2) by (subst unat_byte_of_nat) simp
  ultimately show ?case using or by (simp add: s_def)
qed

lemma scriptNum_or_0: "length v \<le> 8 \<Longrightarrow> scriptNum_or 0 v 0 = word_of_nat (get_le v)"
  using scriptNum_or_eq [of 0 0 v] by simp

subsection \<open>Sign and magnitude\<close>

text \<open>The number a byte string denotes, and the shortest byte string for a number.\<close>

definition script_neg :: "bytes \<Rightarrow> bool" where
  "script_neg v \<longleftrightarrow> v \<noteq> [] \<and> 128 \<le> unat (last v)"

definition script_mag :: "bytes \<Rightarrow> nat" where
  "script_mag v =
     (if v = [] then 0 else get_le (butlast v) + 256 ^ (length v - 1) * (unat (last v) mod 128))"

definition script_int :: "bytes \<Rightarrow> int" where
  "script_int v = (if script_neg v then - int (script_mag v) else int (script_mag v))"

definition script_enc :: "bool \<Rightarrow> nat \<Rightarrow> bytes" where
  "script_enc neg m =
     (let ds = le_digits m; sign = (if neg then 0x80 else 0)
      in if m = 0 then []
         else if 128 \<le> unat (last ds) then ds @ [sign]
         else butlast ds @ [last ds OR sign])"

lemma script_simps [simp]:
  "script_neg [] \<longleftrightarrow> False" "script_mag [] = 0"
  "script_neg (u @ [l]) \<longleftrightarrow> 128 \<le> unat l"
  "script_mag (u @ [l]) = get_le u + 256 ^ length u * (unat l mod 128)"
  by (simp_all add: script_neg_def script_mag_def)

lemma script_mag_bound: "v \<noteq> [] \<Longrightarrow> 2 * script_mag v < 256 ^ length v"
proof -
  assume "v \<noteq> []"
  then obtain u l where v: "v = u @ [l]" by (meson rev_exhaust)
  define x where "x = unat l mod 128"
  define A where "A = (256::nat) ^ length u"
  have "get_le u + 1 \<le> A" using get_le_bound [of u] by (simp add: A_def)
  moreover have "x \<le> 127" using mod_less_divisor [of 128 "unat l"] by (simp add: x_def)
  define B where "B = A * x"
  have "B \<le> A * 127" unfolding B_def by (rule mult_le_mono2) fact
  ultimately have "2 * (get_le u + B) < 256 * A" by presburger
  then show ?thesis by (simp add: v x_def A_def B_def)
qed

lemma script_mag_63: "length v \<le> 8 \<Longrightarrow> script_mag v < 2 ^ 63"
proof (cases "v = []")
  case False
  assume "length v \<le> 8"
  then have "256 ^ length v \<le> (256::nat) ^ 8" by (intro power_increasing) simp_all
  with script_mag_bound [OF False] show ?thesis by simp
qed simp

lemma minimal_iff:
  "checkMinimalDataEncoding v = Inr () \<longleftrightarrow>
   v = [] \<or> unat (last v) mod 128 \<noteq> 0 \<or> (1 < length v \<and> 128 \<le> unat (v ! (length v - 2)))"
proof (cases "v = []")
  case False
  have "last v AND 0x7f = 0 \<longleftrightarrow> unat (last v) mod 128 = 0"
    using byte_magnitude [of "last v"] by (metis unat_eq_0)
  moreover have "length v \<noteq> 1 \<longleftrightarrow> 1 < length v" using False by (cases v) auto
  ultimately show ?thesis
    using False byte_sign [of "v ! (length v - 2)"]
    by (auto simp: checkMinimalDataEncoding_def last_conv_nth)
qed (simp add: checkMinimalDataEncoding_def)

lemma minimal_snoc:
  "checkMinimalDataEncoding (u @ [l]) = Inr () \<longleftrightarrow>
   unat l mod 128 \<noteq> 0 \<or> (u \<noteq> [] \<and> 128 \<le> unat (last u))"
proof (cases "u = []")
  case False
  then have "(u @ [l]) ! (length u - 1) = last u"
    by (simp add: nth_append last_conv_nth)
  with False show ?thesis by (simp add: minimal_iff)
qed (simp add: minimal_iff)

lemma script_enc_cases:
  assumes "0 < m"
  obtains (wide) u d where "le_digits m = u @ [d]" "128 \<le> unat d"
    "script_enc neg m = (u @ [d]) @ [if neg then 0x80 else 0]"
  | (narrow) u d where "le_digits m = u @ [d]" "unat d < 128" "unat d \<noteq> 0"
    "script_enc neg m = u @ [if neg then d OR 0x80 else d]"
proof -
  from assms obtain u d where ds: "le_digits m = u @ [d]"
    by (metis le_digits_eq_Nil rev_exhaust less_irrefl)
  moreover have "unat d \<noteq> 0"
    using last_le_digits [OF assms] ds by (simp add: unat_eq_0)
  ultimately show thesis
    using assms that by (cases "128 \<le> unat d") (auto simp: script_enc_def Let_def)
qed

lemma script_enc_denotes:
  "script_mag (script_enc neg m) = m"
  "script_neg (script_enc neg m) \<longleftrightarrow> neg \<and> m \<noteq> 0"
  "checkMinimalDataEncoding (script_enc neg m) = Inr ()"
proof -
  have "script_mag (script_enc neg m) = m \<and> (script_neg (script_enc neg m) \<longleftrightarrow> neg \<and> m \<noteq> 0) \<and>
        checkMinimalDataEncoding (script_enc neg m) = Inr ()"
  proof (cases "m = 0")
    case True
    then show ?thesis by (simp add: script_enc_def minimal_iff)
  next
    case False
    then have "0 < m" by simp
    then show ?thesis
    proof (cases rule: script_enc_cases [where neg = neg])
      case (wide u d)
      have "get_le (u @ [d]) = m" using wide(1) get_le_digits [of m] by simp
      with wide False show ?thesis
        by (simp only: script_simps minimal_snoc) (simp add: minimal_snoc)
    next
      case (narrow u d)
      have "get_le u + 256 ^ length u * unat d = m"
        using narrow(1) get_le_digits [of m] by (simp add: get_le_append)
      with narrow False byte_or_sign [of d] show ?thesis
        by (simp only: script_simps minimal_snoc) (simp add: mod_if)
    qed
  qed
  then show
    "script_mag (script_enc neg m) = m"
    "script_neg (script_enc neg m) \<longleftrightarrow> neg \<and> m \<noteq> 0"
    "checkMinimalDataEncoding (script_enc neg m) = Inr ()"
    by simp_all
qed

lemma byte_high: "128 \<le> unat (b::byte) \<Longrightarrow> unat b mod 128 = unat b - 128"
  using unat_less_width(1) [of b] by (simp add: le_mod_geq)

lemma byte_cases_128: "unat (l::byte) mod 128 = 0 \<Longrightarrow> l = (if 128 \<le> unat l then 0x80 else 0)"
proof -
  assume "unat l mod 128 = 0"
  then have "unat l = 0 \<or> unat l = 128"
    using unat_less_width(1) [of l] by presburger
  then show ?thesis by (auto simp: word_unat_eq_iff)
qed

lemma script_enc_of_minimal:
  assumes "checkMinimalDataEncoding v = Inr ()"
  shows "script_enc (script_neg v) (script_mag v) = v"
proof (cases "v = []")
  case True
  then show ?thesis by (simp add: script_enc_def)
next
  case False
  then obtain u l where v: "v = u @ [l]" by (meson rev_exhaust)
  define d where "d = l AND 0x7f"
  have d: "unat d = unat l mod 128" by (simp add: d_def byte_magnitude)
  then have d_lt: "unat d < 128" by simp
  show ?thesis
  proof (cases "unat l mod 128 = 0")
    case True
    with assms have k: "u \<noteq> []" "128 \<le> unat (last u)" by (auto simp: v minimal_snoc)
    then have "le_digits (get_le u) = u" by (intro le_digits_get_le) auto
    moreover from this k have "get_le u \<noteq> 0" by (metis le_digits_0)
    ultimately show ?thesis
      using k True byte_cases_128 [OF True] by (auto simp: v script_enc_def)
  next
    case False
    with d have "d \<noteq> 0" by auto
    then have dig: "le_digits (script_mag v) = u @ [d]"
      using le_digits_get_le [of "u @ [d]"] False d by (auto simp: v get_le_append unat_eq_0)
    have m: "script_mag v \<noteq> 0" using dig by (metis le_digits_0 snoc_eq_iff_butlast)
    have "l = (if 128 \<le> unat l then d OR 0x80 else d)"
    proof (cases "128 \<le> unat l")
      case True
      then have "unat l = unat (d OR 0x80)"
        using byte_or_sign [OF d_lt] d by (simp add: byte_high)
      with True show ?thesis by (simp add: word_unat_eq_iff)
    qed (simp add: d word_unat_eq_iff)
    then show ?thesis
      using dig m d_lt by (auto simp: script_enc_def v simp del: script_simps(4))
  qed
qed

text \<open>The parser: the magnitude as a word, negated under the sign bit.\<close>

lemma clear_sign_bit:
  assumes "length u < 8" "128 \<le> unat l"
  shows "word_of_nat (get_le (u @ [l])) AND NOT (push_bit (8 * length u) 0x80) =
         (word_of_nat (script_mag (u @ [l])) :: i64)"
proof -
  define r s :: i64 where "r = word_of_nat (get_le (u @ [l]))" and "s = push_bit (8 * length u) 0x80"
  obtain x where l: "unat l = 128 + x" and x: "x < 128"
    using assms(2) unat_less_width(1) [of l] le_Suc_ex by fastforce
  have s: "s = push_bit (8 * length u + 7) 1"
    by (simp add: s_def push_bit_eq_mult power_add)
  have p: "(2::nat) ^ (8 * length u + 7) = 128 * 256 ^ length u"
    by (simp add: power_add power_mult)
  have eq: "get_le (u @ [l]) = script_mag (u @ [l]) + 2 ^ (8 * length u + 7)"
    using x unfolding p by (simp add: get_le_append l distrib_left)
  have "odd (get_le (u @ [l]) div 2 ^ (8 * length u + 7))"
  proof -
    have "2 * script_mag (u @ [l]) < 256 ^ length (u @ [l])" by (rule script_mag_bound) simp
    also have "(256::nat) ^ length (u @ [l]) = 2 * 2 ^ (8 * length u + 7)"
      by (simp add: p)
    finally have "script_mag (u @ [l]) < 2 ^ (8 * length u + 7)" by simp
    then have "(script_mag (u @ [l]) + 2 ^ (8 * length u + 7)) div 2 ^ (8 * length u + 7) = 1"
      by (subst div_add_self2) (simp_all del: script_simps)
    then show ?thesis by (simp only: eq) simp
  qed
  then have "bit (int (get_le (u @ [l]))) (8 * length u + 7)"
    by (simp only: bit_of_nat_iff_bit bit_iff_odd [symmetric])
  then have "bit (word_of_int (int (get_le (u @ [l]))) :: i64) (8 * length u + 7)"
    using assms(1) by (simp only: bit_word_of_int_iff) simp
  then have "bit r (8 * length u + 7)" by (simp add: r_def)
  then have "r - s = r AND NOT s"
    by (intro disjunctive_diff) (auto simp: s bit_simps)
  moreover have "r - s = word_of_nat (script_mag (u @ [l]))"
    by (simp only: r_def eq s) (simp add: push_bit_eq_mult)
  ultimately show ?thesis by (simp add: r_def s_def)
qed

lemma MakeScriptNum_eq:
  assumes "length v \<le> 8"
  shows "MakeScriptNum v requireMinimal n =
    (if n < length v then Inl ErrNumberTooBig
     else if requireMinimal \<and> checkMinimalDataEncoding v \<noteq> Inr () then Inl ErrMinimalData
     else Inr (word_of_int (script_int v)))"
proof -
  have minimal: "checkMinimalDataEncoding v = Inr () \<or> checkMinimalDataEncoding v = Inl ErrMinimalData"
    by (simp add: checkMinimalDataEncoding_def)
  show ?thesis
  proof (cases v rule: rev_cases)
    case Nil
    then show ?thesis by (auto simp: MakeScriptNum_def checkMinimalDataEncoding_def script_int_def)
  next
    case (snoc u l)
    have "unat (word_of_nat (8 * length u) :: byte) = 8 * length u"
      using assms snoc by (subst unat_byte_of_nat) simp
    then have len: "unat (8 * word_of_nat (length u) :: byte) = 8 * length u" by simp
    have num: "scriptNum_or 0 (u @ [l]) 0 = word_of_nat (get_le (u @ [l]))"
      using assms snoc by (intro scriptNum_or_0) simp
    show ?thesis
    proof (cases "128 \<le> unat l")
      case True
      then show ?thesis
        using minimal assms snoc clear_sign_bit [of u l]
        by (auto simp: MakeScriptNum_def num len byte_sign script_int_def Let_def
            simp del: script_simps(4))
    next
      case False
      then have "script_mag v = get_le v"
        by (simp add: snoc get_le_append)
      with False minimal snoc show ?thesis
        by (auto simp: MakeScriptNum_def num byte_sign script_int_def Let_def
            simp del: script_simps(4))
    qed
  qed
qed

lemma sint_uminus_i64: "sint (n::i64) \<noteq> - (2 ^ 63) \<Longrightarrow> sint (- n) = - sint n"
proof -
  assume "sint n \<noteq> - (2 ^ 63)"
  moreover have "- n = word_of_int (- sint n)" by simp
  moreover have "- (2 ^ 63) \<le> sint n" "sint n < 2 ^ 63"
    using sint_greater_eq [of n] sint_less [of n] by simp_all
  ultimately show ?thesis by (simp only:) (intro sint_word_of_int_i64, simp_all)
qed

lemma least_i64: "sint (n::i64) = - (2 ^ 63) \<Longrightarrow> sint (- n) = - (2 ^ 63) \<and> n \<noteq> 0"
proof -
  assume *: "sint n = - (2 ^ 63)"
  then have "n = word_of_int (- (2 ^ 63))" by (metis of_int_sint scast_id)
  then have "- n = n" and "n \<noteq> 0" by simp_all
  with * show ?thesis by metis
qed

lemma scriptNum_Bytes_eq:
  "scriptNum_Bytes n =
     (if sint n = - (2 ^ 63) then None else Some (script_enc (sint n < 0) (nat \<bar>sint n\<bar>)))"
proof (cases "sint n = - (2 ^ 63)")
  case True
  then have "scriptNum_digits (- n) = []" "n \<noteq> 0"
    using least_i64 [OF True] by (auto simp: scriptNum_digits_eq)
  with True show ?thesis by (simp add: scriptNum_Bytes_def)
next
  case False
  define m where "m = nat \<bar>sint n\<bar>"
  have dig: "scriptNum_digits (if sint n < 0 then - n else n) = le_digits m"
    using sint_uminus_i64 [OF False] by (simp add: scriptNum_digits_eq m_def)
  have zero: "n = 0 \<longleftrightarrow> m = 0"
    by (auto simp: m_def signed_eq_0_iff)
  show ?thesis
  proof (cases "m = 0")
    case True
    with False zero show ?thesis by (simp add: scriptNum_Bytes_def script_enc_def m_def)
  next
    case m: False
    then have "le_digits m \<noteq> []" by simp
    with m zero dig have "scriptNum_Bytes n = Some (script_enc (sint n < 0) m)"
      by (cases "sint n < 0") (simp_all add: scriptNum_Bytes_def script_enc_def byte_sign Let_def)
    with False show ?thesis by (simp add: m_def)
  qed
qed

lemma length_script_enc: "m < 2 ^ 63 \<Longrightarrow> length (script_enc neg m) \<le> 8"
proof (cases "m = 0")
  case True
  then show ?thesis by (simp add: script_enc_def)
next
  case False
  assume m: "m < 2 ^ 63"
  then have len: "length (le_digits m) \<le> 8" by (intro length_le_digits) simp
  from False have "0 < m" by simp
  then show ?thesis
  proof (cases rule: script_enc_cases [where neg = neg])
    case (wide u d)
    have "256 ^ length u * 128 \<le> 256 ^ length u * unat d" using wide by simp
    also have "\<dots> \<le> m" using get_le_digits [of m] wide(1) by (simp add: get_le_append)
    finally have "256 ^ length u * 128 < (256::nat) ^ 7 * 128" using m by simp
    then have "length u < 7" using power_less_imp_less_exp [of "256::nat" "length u" 7] by simp
    with wide(3) show ?thesis by simp
  next
    case (narrow u d)
    with len show ?thesis by simp
  qed
qed

lemma sint_script_int: "length v \<le> 8 \<Longrightarrow> sint (word_of_int (script_int v) :: i64) = script_int v"
  using script_mag_63 [of v] by (intro sint_word_of_int_i64) (auto simp: script_int_def)

text \<open>
  \<^verbatim>\<open>scriptNum.Bytes\<close> panics on the least
  \<^verbatim>\<open>int64\<close> and on no other number; any other number is encoded in at most eight bytes,
  from which \<^verbatim>\<open>MakeScriptNum\<close>, with the minimality check on and any length limit that
  admits them, reads the number back.
\<close>

lemma script_num_roundtrip:
  "(scriptNum_Bytes n = None \<longleftrightarrow> sint n = - (2 ^ 63)) \<and>
   (sint n \<noteq> - (2 ^ 63) \<longrightarrow>
      (\<exists>v. scriptNum_Bytes n = Some v \<and> length v \<le> 8 \<and>
           (\<forall>k \<ge> length v. MakeScriptNum v True k = Inr n)))"
proof (cases "sint n = - (2 ^ 63)")
  case False
  define v where "v = script_enc (sint n < 0) (nat \<bar>sint n\<bar>)"
  have range: "- (2 ^ 63) \<le> sint n" "sint n < 2 ^ 63"
    using sint_greater_eq [of n] sint_less [of n] by simp_all
  with False have "nat \<bar>sint n\<bar> < 2 ^ 63" by simp
  then have len: "length v \<le> 8" unfolding v_def by (rule length_script_enc)
  have "script_int v = sint n"
    by (auto simp: script_int_def v_def script_enc_denotes)
  then have "MakeScriptNum v True k = Inr n" if "length v \<le> k" for k
    using that len by (simp add: MakeScriptNum_eq) (simp add: v_def script_enc_denotes)
  with False len show ?thesis by (simp add: scriptNum_Bytes_eq v_def)
qed (simp add: scriptNum_Bytes_eq)



section \<open>Integers of SatoshiNet scripts\<close>

lemma get_le_zeros [simp]: "get_le (replicate k 0) = 0"
  by (induction k) simp_all

lemma extractScriptInt64_short:
  "length data \<le> 8 \<Longrightarrow> extractScriptInt64 data = Some (word_of_int (script_int data))"
proof (cases data rule: rev_cases)
  case Nil
  then show ?thesis by (simp add: extractScriptInt64_def script_int_def)
next
  case (snoc u l)
  assume len: "length data \<le> 8"
  show ?thesis
  proof (cases "128 \<le> unat l")
    case True
    with len snoc show ?thesis
      by (simp add: extractScriptInt64_def byte_sign script_int_def nth_append list_update_append
          get_le_append byte_magnitude)
  next
    case False
    with len snoc show ?thesis
      by (simp add: extractScriptInt64_def byte_sign script_int_def get_le_append)
  qed
qed

text \<open>
  \<^verbatim>\<open>extractScriptInt64\<close> panics exactly on a
  negative number of more than eight bytes; on at most eight bytes, the bound its callers
  check, it agrees with the consensus parser \<^verbatim>\<open>MakeScriptNum\<close> without the minimality check.
\<close>

lemma extract_int64_bounded:
  "(extractScriptInt64 data = None \<longleftrightarrow> 8 < length data \<and> 128 \<le> unat (last data)) \<and>
   (length data \<le> 8 \<longrightarrow>
      (\<exists>n. extractScriptInt64 data = Some n \<and> MakeScriptNum data False 8 = Inr n))"
proof (cases "length data \<le> 8")
  case True
  then show ?thesis by (simp add: extractScriptInt64_short MakeScriptNum_eq)
next
  case False
  then have "data \<noteq> []" by auto
  then have "data ! (length data - 1) = last data" by (simp add: last_conv_nth)
  with False show ?thesis by (auto simp: extractScriptInt64_def byte_sign Let_def)
qed

end
