(* ===== verification/Script_Token.thy ===== *)
theory Script_Token
  imports Script_Num
begin

text \<open>
  \<^verbatim>\<open>txscript/tokenizer.go\<close>, the lengths of \<^verbatim>\<open>opcodeArray\<close> (\<^verbatim>\<open>opcode.go\<close>),
  the script predicates of \<^verbatim>\<open>txscript/script.go\<close> and the builder of
  \<^verbatim>\<open>txscript/scriptbuilder.go\<close>.  Slices are lists, a \<^verbatim>\<open>nil\<close> slice where the source
  tells it from an empty one is \<^const>\<open>None\<close>, and offsets are natural numbers: the source's
  \<^verbatim>\<open>int32\<close> offsets do not wrap on scripts of less than \<open>2^31\<close> bytes, and every script is
  part of a message of at most \<^verbatim>\<open>MaxMessagePayload\<close> (32 MiB) bytes.

  The lemmas show that tokenizing and printing opcodes are inverse to each other, what the
  builder's pushes tokenize to, and that the scanning routines compute the list functions
  they stand for.
\<close>

unbundle bit_operations_syntax

section \<open>Opcodes\<close>

abbreviation (input) OP_0 :: byte where "OP_0 \<equiv> 0x00"
abbreviation (input) OP_FALSE :: byte where "OP_FALSE \<equiv> 0x00"
abbreviation (input) OP_DATA_1 :: byte where "OP_DATA_1 \<equiv> 0x01"
abbreviation (input) OP_DATA_20 :: byte where "OP_DATA_20 \<equiv> 0x14"
abbreviation (input) OP_DATA_32 :: byte where "OP_DATA_32 \<equiv> 0x20"
abbreviation (input) OP_DATA_75 :: byte where "OP_DATA_75 \<equiv> 0x4b"
abbreviation (input) OP_PUSHDATA1 :: byte where "OP_PUSHDATA1 \<equiv> 0x4c"
abbreviation (input) OP_PUSHDATA2 :: byte where "OP_PUSHDATA2 \<equiv> 0x4d"
abbreviation (input) OP_PUSHDATA4 :: byte where "OP_PUSHDATA4 \<equiv> 0x4e"
abbreviation (input) OP_1NEGATE :: byte where "OP_1NEGATE \<equiv> 0x4f"
abbreviation (input) OP_1 :: byte where "OP_1 \<equiv> 0x51"
abbreviation (input) OP_16 :: byte where "OP_16 \<equiv> 0x60"
abbreviation (input) OP_IF :: byte where "OP_IF \<equiv> 0x63"
abbreviation (input) OP_ENDIF :: byte where "OP_ENDIF \<equiv> 0x68"
abbreviation (input) OP_RETURN :: byte where "OP_RETURN \<equiv> 0x6a"
abbreviation (input) OP_CHECKSIG :: byte where "OP_CHECKSIG \<equiv> 0xac"
abbreviation (input) OP_CHECKSIGVERIFY :: byte where "OP_CHECKSIGVERIFY \<equiv> 0xad"
abbreviation (input) OP_CHECKMULTISIG :: byte where "OP_CHECKMULTISIG \<equiv> 0xae"
abbreviation (input) OP_CHECKMULTISIGVERIFY :: byte where "OP_CHECKMULTISIGVERIFY \<equiv> 0xaf"
abbreviation (input) OP_INVALIDOPCODE :: byte where "OP_INVALIDOPCODE \<equiv> 0xff"

definition MaxScriptSize :: nat where
  "MaxScriptSize = 10000"

definition MaxScriptElementSize :: nat where
  "MaxScriptElementSize = 520"

definition MaxPubKeysPerMultiSig :: nat where
  "MaxPubKeysPerMultiSig = 20"

text \<open>
  The \<^verbatim>\<open>length\<close> column of \<^verbatim>\<open>opcodeArray\<close>: the size of an opcode with its data,
  negative where the data length is itself read from the next one, two or four bytes.
\<close>

definition opcode_length :: "byte \<Rightarrow> int" where
  "opcode_length b =
     (if OP_DATA_1 \<le> b \<and> b \<le> OP_DATA_75 then int (unat b) + 1
      else if b = OP_PUSHDATA1 then - 1
      else if b = OP_PUSHDATA2 then - 2
      else if b = OP_PUSHDATA4 then - 4
      else 1)"

section \<open>Tokenizer\<close>

record ScriptTokenizer =
  tk_script :: bytes
  tk_version :: u16
  tk_offset :: nat
  tk_opcodePos :: int
  tk_op :: "byte option"
  tk_data :: "bytes option"
  tk_err :: "ErrorCode option"

definition tk_Done :: "ScriptTokenizer \<Rightarrow> bool" where
  "tk_Done t \<longleftrightarrow> tk_err t \<noteq> None \<or> tk_offset t \<ge> length (tk_script t)"

text \<open>The switch over the size of the length field.\<close>

definition tk_dataLen :: "int \<Rightarrow> bytes \<Rightarrow> int" where
  "tk_dataLen len script =
     (if len = - 1 then int (unat (script ! 0))
      else if len = - 2 then int (get_le (take 2 script))
      else sint (word_of_nat (get_le (take 4 script)) :: i32))"

definition tk_Next :: "ScriptTokenizer \<Rightarrow> bool \<times> ScriptTokenizer" where
  "tk_Next t =
     (if tk_Done t then (False, t)
      else
        let t = t\<lparr>tk_opcodePos := tk_opcodePos t + 1\<rparr>;
            op = tk_script t ! tk_offset t;
            len = opcode_length op
        in if len = 1 then
             (True, t\<lparr>tk_offset := tk_offset t + 1, tk_op := Some op, tk_data := None\<rparr>)
           else if len > 1 then
             let script = drop (tk_offset t) (tk_script t)
             in if int (length script) < len then (False, t\<lparr>tk_err := Some ErrMalformedPush\<rparr>)
                else (True, t\<lparr>tk_offset := tk_offset t + nat len, tk_op := Some op,
                              tk_data := Some (take (nat len - 1) (drop 1 script))\<rparr>)
           else
             let script = drop (tk_offset t + 1) (tk_script t)
             in if int (length script) < - len then (False, t\<lparr>tk_err := Some ErrMalformedPush\<rparr>)
                else
                  let dataLen = tk_dataLen len script;
                      script = drop (nat (- len)) script
                  in if dataLen > int (length script) \<or> dataLen < 0
                     then (False, t\<lparr>tk_err := Some ErrMalformedPush\<rparr>)
                     else (True, t\<lparr>tk_offset := tk_offset t + 1 + nat (- len) + nat dataLen,
                                   tk_op := Some op, tk_data := Some (take (nat dataLen) script)\<rparr>))"

definition MakeScriptTokenizer :: "u16 \<Rightarrow> bytes \<Rightarrow> ScriptTokenizer" where
  "MakeScriptTokenizer scriptVersion script =
     \<lparr>tk_script = script, tk_version = scriptVersion, tk_offset = 0, tk_opcodePos = - 1,
      tk_op = None, tk_data = None,
      tk_err = (if scriptVersion \<noteq> 0 then Some ErrUnsupportedScriptVersion else None)\<rparr>"

text \<open>\<^verbatim>\<open>Opcode\<close> dereferences \<^verbatim>\<open>t.op\<close>, which is set after a successful \<^verbatim>\<open>Next\<close>.\<close>

definition tk_Opcode :: "ScriptTokenizer \<Rightarrow> byte" where
  "tk_Opcode t = the (tk_op t)"

definition tk_ByteIndex :: "ScriptTokenizer \<Rightarrow> nat" where
  "tk_ByteIndex t = tk_offset t"

section \<open>Tokens\<close>

text \<open>
  The contract of the tokenizer: a token is an opcode with its data, \<open>op_bytes\<close> prints it, and
  \<open>next_token\<close> is one step of a fresh tokenizer together with what remains of the script.
\<close>

type_synonym token = "byte \<times> bytes option"

fun op_bytes :: "token \<Rightarrow> bytes" where
  "op_bytes (b, None) = [b]"
| "op_bytes (b, Some d) = b # put_le (nat (- opcode_length b)) (length d) @ d"

fun token_ok :: "token \<Rightarrow> bool" where
  "token_ok (b, None) \<longleftrightarrow> opcode_length b = 1"
| "token_ok (b, Some d) \<longleftrightarrow>
     (opcode_length b = int (length d) + 1 \<and> d \<noteq> []) \<or>
     (opcode_length b = - 1 \<and> length d < 2 ^ 8) \<or>
     (opcode_length b = - 2 \<and> length d < 2 ^ 16) \<or>
     (opcode_length b = - 4 \<and> length d < 2 ^ 31)"

lemma opcode_length_cases:
  obtains "opcode_length b = 1" | "opcode_length b > 1" | "opcode_length b = - 1"
    | "opcode_length b = - 2" | "opcode_length b = - 4"
proof -
  have "0 < uint b" if "1 \<le> b"
    using that by (simp add: word_le_def)
  then have "opcode_length b = 1 \<or> opcode_length b > 1 \<or> opcode_length b = - 1 \<or>
      opcode_length b = - 2 \<or> opcode_length b = - 4"
    by (auto simp: opcode_length_def)
  then show thesis using that by blast
qed

lemma sint_word_of_int_i32:
  "- (2 ^ 31) \<le> v \<Longrightarrow> v < 2 ^ 31 \<Longrightarrow> sint (word_of_int v :: i32) = v"
  by (simp add: signed_of_int signed_take_bit_int_eq_self)

lemma sint_i32_of_nat:
  "sint (word_of_nat n :: i32) = (if n mod 2 ^ 32 < 2 ^ 31 then int (n mod 2 ^ 32) else int (n mod 2 ^ 32) - 2 ^ 32)"
proof -
  define m where "m = n mod 2 ^ 32"
  have m: "m < 2 ^ 32" by (simp add: m_def)
  have eq: "(word_of_nat n :: i32) = word_of_int (int m)"
    by (simp add: m_def word_of_nat_eq_iff take_bit_nat_def flip: of_nat_mod)
  show ?thesis
  proof (cases "m < 2 ^ 31")
    case True
    then have "sint (word_of_int (int m) :: i32) = int m" by (intro sint_word_of_int_i32) simp_all
    with True show ?thesis by (simp only: eq m_def [symmetric] if_True)
  next
    case False
    have "(word_of_int (int m) :: i32) = word_of_int (int m - 2 ^ 32)" by simp
    moreover have "sint (word_of_int (int m - 2 ^ 32) :: i32) = int m - 2 ^ 32"
      using False m by (intro sint_word_of_int_i32) simp_all
    ultimately show ?thesis using False by (simp only: eq m_def [symmetric] if_False)
  qed
qed

text \<open>What one step reads off the rest of the script: the bytes consumed and the token.\<close>

definition step_token :: "bytes \<Rightarrow> (nat \<times> token) option" where
  "step_token bs =
     (let op = bs ! 0; len = opcode_length op
      in if len = 1 then Some (1, (op, None))
         else if len > 1 then
           if int (length bs) < len then None
           else Some (nat len, (op, Some (take (nat len - 1) (drop 1 bs))))
         else if int (length bs) < 1 - len then None
         else
           let n = get_le (take (nat (- len)) (drop 1 bs));
               k = 1 + nat (- len) + n
           in if k > length bs \<or> n \<ge> 2 ^ 31 then None
              else Some (k, (op, Some (take n (drop (1 + nat (- len)) bs)))))"

definition next_token :: "token reader" where
  "next_token bs =
     (if bs = [] then Inl EOF
      else case step_token bs of None \<Rightarrow> Inl UnexpectedEOF | Some (k, x) \<Rightarrow> Inr (x, drop k bs))"

lemma get_le_take_1: "script \<noteq> [] \<Longrightarrow> get_le (take (Suc 0) script) = unat (script ! 0)"
  by (cases script) simp_all

text \<open>The three length encodings of the source read the same number.\<close>

lemma tk_dataLen_eq:
  assumes "opcode_length b < 0" "int (length script) \<ge> - opcode_length b"
  shows "tk_dataLen (opcode_length b) script < 0 \<longleftrightarrow>
           get_le (take (nat (- opcode_length b)) script) \<ge> 2 ^ 31"
    and "get_le (take (nat (- opcode_length b)) script) < 2 ^ 31 \<Longrightarrow>
           tk_dataLen (opcode_length b) script =
           int (get_le (take (nat (- opcode_length b)) script))"
proof -
  define n where "n = get_le (take (nat (- opcode_length b)) script)"
  have bound: "get_le (take k script) < 256 ^ k" for k
    using get_le_bound [of "take k script"] by (rule order_less_le_trans) (simp add: power_increasing)
  have "(tk_dataLen (opcode_length b) script < 0 \<longleftrightarrow> n \<ge> 2 ^ 31) \<and>
        (n < 2 ^ 31 \<longrightarrow> tk_dataLen (opcode_length b) script = int n)"
  proof (rule opcode_length_cases [of b])
    assume "opcode_length b = - 1"
    with assms(2) bound [of 1] show ?thesis
      by (cases script) (simp_all add: n_def tk_dataLen_def)
  next
    assume "opcode_length b = - 2"
    with bound [of 2] show ?thesis by (simp add: n_def tk_dataLen_def)
  next
    assume "opcode_length b = - 4"
    with bound [of 4] show ?thesis by (simp add: n_def tk_dataLen_def sint_i32_of_nat)
  qed (use assms(1) in simp_all)
  then show "tk_dataLen (opcode_length b) script < 0 \<longleftrightarrow>
      get_le (take (nat (- opcode_length b)) script) \<ge> 2 ^ 31"
    "get_le (take (nat (- opcode_length b)) script) < 2 ^ 31 \<Longrightarrow>
      tk_dataLen (opcode_length b) script = int (get_le (take (nat (- opcode_length b)) script))"
    by (simp_all add: n_def)
qed

text \<open>One step of a tokenizer in the middle of a script.\<close>

lemma tk_Next_step:
  assumes "tk_err t = None" "tk_offset t < length (tk_script t)"
  shows "tk_Next t =
    (case step_token (drop (tk_offset t) (tk_script t)) of
       Some (k, b, d) \<Rightarrow>
         (True, t\<lparr>tk_opcodePos := tk_opcodePos t + 1, tk_offset := tk_offset t + k,
                  tk_op := Some b, tk_data := d\<rparr>)
     | None \<Rightarrow> (False, t\<lparr>tk_opcodePos := tk_opcodePos t + 1, tk_err := Some ErrMalformedPush\<rparr>))"
proof -
  define bs where "bs = drop (tk_offset t) (tk_script t)"
  define len where "len = opcode_length (bs ! 0)"
  have bs: "bs \<noteq> []" "tk_script t ! tk_offset t = bs ! 0"
    "drop (tk_offset t + 1) (tk_script t) = drop 1 bs"
    using assms by (simp_all add: bs_def)
  note step = tk_Next_def step_token_def tk_Done_def Let_def bs_def [symmetric] bs(2,3)
    len_def [symmetric]
  show ?thesis
  proof (cases "len \<ge> 1")
    case True
    with assms show ?thesis by (auto simp: step simp del: One_nat_def)
  next
    case False
    have "len < 0"
      by (rule opcode_length_cases [of "bs ! 0"]) (use False in \<open>simp_all add: len_def\<close>)
    then have len: "len < 0" "len \<noteq> 1" "\<not> 1 < len" by simp_all
    show ?thesis
    proof (cases "int (length (drop 1 bs)) < - len")
      case True
      then have "int (length bs) < 1 - len" using bs(1) by (cases bs) simp_all
      with True len assms show ?thesis by (simp add: step del: One_nat_def drop_drop)
    next
      case False
      define n where "n = get_le (take (nat (- len)) (drop 1 bs))"
      have enough: "\<not> int (length bs) < 1 - len" using False bs(1) by (cases bs) simp_all
      have rest: "length (drop (nat (- len)) (drop 1 bs)) = length bs - (1 + nat (- len))"
        by simp
      have dl: "tk_dataLen len (drop 1 bs) < 0 \<longleftrightarrow> n \<ge> 2 ^ 31"
        "n < 2 ^ 31 \<Longrightarrow> tk_dataLen len (drop 1 bs) = int n"
        using tk_dataLen_eq [of "bs ! 0" "drop 1 bs"] False len(1) by (simp_all add: len_def n_def)
      have dd: "drop (nat (- len)) (drop 1 bs) = drop (1 + nat (- len)) bs" by simp
      show ?thesis
      proof (cases "n < 2 ^ 31")
        case True
        then show ?thesis
          using assms len False enough dl
          by (auto simp: step n_def [symmetric] dd add.assoc simp del: One_nat_def drop_drop)
      next
        case n: False
        then show ?thesis
          using assms len False enough dl
          by (auto simp: step n_def [symmetric] simp del: One_nat_def drop_drop)
      qed
    qed
  qed
qed

lemma step_token_consumes:
  "bs \<noteq> [] \<Longrightarrow> step_token bs = Some (k, x) \<Longrightarrow> 0 < k \<and> k \<le> length bs"
proof -
  assume "bs \<noteq> []" "step_token bs = Some (k, x)"
  moreover from \<open>bs \<noteq> []\<close> have "1 \<le> length bs" by (cases bs) simp_all
  ultimately show ?thesis
    by (auto simp: step_token_def Let_def split: if_splits)
qed

lemma step_token_prefixed:
  assumes "opcode_length b = - int w" "0 < w" "length d < 256 ^ w" "length d < 2 ^ 31"
  shows "step_token (b # put_le w (length d) @ d @ r) = Some (1 + w + length d, (b, Some d))"
  using assms by (simp add: step_token_def get_put_le)

lemma token_ok_prefixed:
  assumes "opcode_length b < 0" "length d < 256 ^ nat (- opcode_length b)" "length d < 2 ^ 31"
  shows "token_ok (b, Some d)"
  by (rule opcode_length_cases [of b]) (use assms in simp_all)

lemma next_token_op_bytes: "token_ok x \<Longrightarrow> next_token (op_bytes x @ r) = Inr (x, r)"
proof (cases x rule: op_bytes.cases)
  case (1 b)
  assume "token_ok x"
  with 1 show ?thesis by (simp add: next_token_def step_token_def)
next
  case (2 b d)
  assume ok: "token_ok x"
  show ?thesis
  proof (cases "0 < opcode_length b")
    case True
    moreover have "nat (int (length d) + 1) = Suc (length d)" by simp
    ultimately show ?thesis using ok 2 by (auto simp: next_token_def step_token_def)
  next
    case False
    then obtain w where w: "opcode_length b = - int w" "0 < w" "length d < 256 ^ w" "length d < 2 ^ 31"
      using ok 2 that [of 1] that [of 2] that [of 4] by auto
    then show ?thesis
      using step_token_prefixed [OF w, of r] 2 by (simp add: next_token_def)
  qed
qed

lemma op_bytes_next_token:
  assumes "next_token bs = Inr (x, r)"
  shows "token_ok x \<and> bs = op_bytes x @ r"
proof -
  from assms obtain k where bs: "bs \<noteq> []" and step: "step_token bs = Some (k, x)"
    and r: "r = drop k bs"
    by (auto simp: next_token_def split: if_splits option.splits)
  then obtain b rest where b: "bs = b # rest" by (cases bs) auto
  show ?thesis
  proof (cases "opcode_length b > 0")
    case True
    with step r b show ?thesis
      by (auto simp: step_token_def Let_def drop_Cons' split: if_splits)
  next
    case False
    define w where "w = nat (- opcode_length b)"
    define n where "n = get_le (take w rest)"
    have "opcode_length b < 0"
      by (rule opcode_length_cases [of b]) (use False in simp_all)
    then have w: "opcode_length b = - int w" "0 < w" by (simp_all add: w_def)
    then have k: "k = 1 + w + n" "k \<le> Suc (length rest)" "n < 2 ^ 31" "w \<le> length rest"
      and x: "x = (b, Some (take n (drop w rest)))"
      using step b by (auto simp: step_token_def n_def Let_def split: if_splits)
    have len: "length (take w rest) = w" "length (take n (drop w rest)) = n" using k by simp_all
    have "n < 256 ^ w" using get_le_bound [of "take w rest"] len by (simp add: n_def)
    then have "token_ok x" unfolding x using w k len by (intro token_ok_prefixed) simp_all
    moreover have "put_le w n = take w rest" using put_get_le [of "take w rest"] len by (simp add: n_def)
    then have "op_bytes x @ r = b # take w rest @ take n (drop w rest) @ drop (w + n) rest"
      using w k len by (simp add: x r b)
    then have "op_bytes x @ r = bs" by (simp add: b drop_drop add.commute flip: drop_drop)
    ultimately show ?thesis by simp
  qed
qed

interpretation token: canonical_codec op_bytes next_token token_ok
  by unfold_locales (simp_all add: next_token_op_bytes op_bytes_next_token)

section \<open>Scanning a script\<close>

text \<open>
  The loops \<^verbatim>\<open>for tokenizer.Next() { body }\<close>: the body maps an accumulator, or returns from
  the enclosing function (\<open>Inl\<close>).  Every iteration moves the offset towards the end.
\<close>

lemma tk_Next_progress:
  assumes "tk_Next t = (True, t')"
  shows "tk_offset t < tk_offset t' \<and> tk_offset t' \<le> length (tk_script t') \<and>
         tk_script t' = tk_script t \<and> tk_err t' = None"
proof -
  from assms have t: "tk_err t = None" "tk_offset t < length (tk_script t)"
    by (auto simp: tk_Next_def tk_Done_def split: if_splits)
  with assms obtain k x where "step_token (drop (tk_offset t) (tk_script t)) = Some (k, x)"
    by (auto simp: tk_Next_step split: option.splits)
  with assms t step_token_consumes [of "drop (tk_offset t) (tk_script t)" k x] show ?thesis
    by (auto simp: tk_Next_step split: prod.splits)
qed

function tk_loop ::
  "(ScriptTokenizer \<Rightarrow> 'a \<Rightarrow> 'r + 'a) \<Rightarrow> ScriptTokenizer \<Rightarrow> 'a \<Rightarrow> 'r + (ScriptTokenizer \<times> 'a)" where
  "tk_loop body t a =
     (let (more, t') = tk_Next t
      in if more then andthen (body t' a) (\<lambda>a'. tk_loop body t' a') else Inr (t', a))"
  by pat_completeness auto
termination
  by (relation "measure (\<lambda>(_, t, _). length (tk_script t) - tk_offset t)")
    (auto dest!: sym [of _ "tk_Next _"] dest: tk_Next_progress)

declare tk_loop.simps [simp del]

text \<open>The tokens of a script up to its end or its first malformed push, and what is left.\<close>

lemma next_token_shorter: "next_token bs = Inr (x, r) \<Longrightarrow> length r < length bs"
  using token.dec_consumes [of bs x r] by (cases x rule: op_bytes.cases) simp_all

function scan :: "bytes \<Rightarrow> token list \<times> bytes" where
  "scan bs =
     (case next_token bs of
        Inl _ \<Rightarrow> ([], bs)
      | Inr (x, r) \<Rightarrow> let (xs, rest) = scan r in (x # xs, rest))"
  by pat_completeness auto
termination
  by (relation "measure length") (auto dest: next_token_shorter)

declare scan.simps [simp del]

lemma scan_stuck: "next_token bs = Inl err \<Longrightarrow> scan bs = ([], bs)"
  by (simp add: scan.simps)

lemma scan_step: "next_token bs = Inr (x, r) \<Longrightarrow> scan bs = (x # fst (scan r), snd (scan r))"
  by (subst scan.simps) (simp add: split_beta Let_def)

lemma scan_Nil [simp]: "scan [] = ([], [])"
  by (simp add: scan.simps next_token_def)

lemma scan_print:
  "(\<forall>x \<in> set (fst (scan bs)). token_ok x) \<and> bs = concat (map op_bytes (fst (scan bs))) @ snd (scan bs)"
proof (induction bs rule: scan.induct)
  case (1 bs)
  show ?case
  proof (cases "next_token bs")
    case (Inl err)
    then show ?thesis by (simp add: scan_stuck)
  next
    case (Inr y)
    then obtain x r where n: "next_token bs = Inr (x, r)" by (cases y) auto
    have "y = (x, r)" using n Inr by simp
    then show ?thesis
      unfolding scan_step [OF n] using 1 [OF Inr, of x r] token.enc_dec [OF n] by simp
  qed
qed

lemma scan_printed:
  "(\<And>x. x \<in> set xs \<Longrightarrow> token_ok x) \<Longrightarrow>
   scan (concat (map op_bytes xs) @ bs) = (xs @ fst (scan bs), snd (scan bs))"
proof (induction xs)
  case Nil
  then show ?case by simp
next
  case (Cons x xs)
  have "next_token (op_bytes x @ concat (map op_bytes xs) @ bs) =
      Inr (x, concat (map op_bytes xs) @ bs)"
    using Cons.prems by (intro token.dec_enc) simp
  with Cons show ?case by (simp add: scan_step)
qed

text \<open>
  A loop whose body reads the opcode, the data and the byte index is a fold over the tokens
  paired with the offset that follows each of them.
\<close>

fun fold_early :: "('x \<Rightarrow> 'a \<Rightarrow> 'r + 'a) \<Rightarrow> 'x list \<Rightarrow> 'a \<Rightarrow> 'r + 'a" where
  "fold_early f [] a = Inr a"
| "fold_early f (x # xs) a = andthen (f x a) (fold_early f xs)"

lemma fold_early_Inr: "(\<And>x a. f x a = Inr (g x a)) \<Longrightarrow> fold_early f xs a = Inr (fold g xs a)"
  by (induction xs arbitrary: a) simp_all

lemma fold_early_id [simp]: "fold_early (\<lambda>_. Inr) xs a = Inr a"
  by (induction xs) simp_all

fun with_ends :: "nat \<Rightarrow> token list \<Rightarrow> (token \<times> nat) list" where
  "with_ends p [] = []"
| "with_ends p (x # xs) = (x, p + length (op_bytes x)) # with_ends (p + length (op_bytes x)) xs"

lemma fold_early_with_ends:
  "(\<And>x p a. f (x, p) a = g x a) \<Longrightarrow> fold_early f (with_ends p xs) a = fold_early g xs a"
proof (induction xs arbitrary: p a)
  case (Cons x xs)
  then show ?case by (cases "g x a") simp_all
qed simp

lemma tk_Next_end: "tk_err t = None \<Longrightarrow> tk_offset t = length (tk_script t) \<Longrightarrow> tk_Next t = (False, t)"
  by (simp add: tk_Next_def tk_Done_def)

definition scan_err :: "bytes \<Rightarrow> ErrorCode option" where
  "scan_err bs = (if snd (scan bs) = [] then None else Some ErrMalformedPush)"

definition token_of :: "ScriptTokenizer \<Rightarrow> token" where
  "token_of t = (tk_Opcode t, tk_data t)"

lemma tk_loop_scan:
  assumes "tk_err t = None" "tk_offset t \<le> length (tk_script t)"
    and body: "\<And>t a. body t a = f (token_of t, tk_offset t) a"
  defines "bs \<equiv> drop (tk_offset t) (tk_script t)"
  shows "case fold_early f (with_ends (tk_offset t) (fst (scan bs))) a of
           Inl r \<Rightarrow> tk_loop body t a = Inl r
         | Inr a' \<Rightarrow> \<exists>t'. tk_loop body t a = Inr (t', a') \<and> tk_err t' = scan_err bs"
  using assms(1,2) unfolding bs_def
proof (induction "length (tk_script t) - tk_offset t" arbitrary: t a rule: less_induct)
  case less
  define bs where "bs = drop (tk_offset t) (tk_script t)"
  show ?case
  proof (cases "tk_offset t = length (tk_script t)")
    case True
    with less.prems show ?thesis by (simp add: tk_loop.simps tk_Next_end scan_err_def)
  next
    case False
    with less.prems have off: "tk_offset t < length (tk_script t)" by simp
    then have ne: "bs \<noteq> []" by (simp add: bs_def)
    show ?thesis
    proof (cases "step_token bs")
      case None
      then have "next_token bs = Inl UnexpectedEOF" using ne by (simp add: next_token_def)
      moreover have "tk_Next t =
          (False, t\<lparr>tk_opcodePos := tk_opcodePos t + 1, tk_err := Some ErrMalformedPush\<rparr>)"
        using tk_Next_step [OF less.prems(1) off] None by (simp add: bs_def)
      ultimately show ?thesis
        using ne by (simp add: scan_stuck scan_err_def tk_loop.simps bs_def [symmetric])
    next
      case (Some y)
      then obtain k b d where y: "step_token bs = Some (k, b, d)" by (cases y) auto
      define t1 where "t1 = t\<lparr>tk_opcodePos := tk_opcodePos t + 1, tk_offset := tk_offset t + k,
        tk_op := Some b, tk_data := d\<rparr>"
      have nx: "tk_Next t = (True, t1)"
        using tk_Next_step [OF less.prems(1) off] y by (simp add: bs_def t1_def)
      have t1: "tk_err t1 = None" "tk_offset t1 \<le> length (tk_script t1)"
        "drop (tk_offset t1) (tk_script t1) = drop k bs" "token_of t1 = (b, d)"
        "tk_offset t1 = tk_offset t + k"
        "length (tk_script t1) - tk_offset t1 < length (tk_script t) - tk_offset t"
        using less.prems step_token_consumes [OF ne y] off
        by (auto simp: t1_def bs_def token_of_def tk_Opcode_def add.commute)
      have tok: "next_token bs = Inr ((b, d), drop k bs)" using ne y by (simp add: next_token_def)
      then have k: "length (op_bytes (b, d)) = k"
        using token.dec_consumes [OF tok] step_token_consumes [OF ne y] unfolding length_drop by linarith
      from tok have sc: "scan bs = ((b, d) # fst (scan (drop k bs)), snd (scan (drop k bs)))"
        by (rule scan_step)
      then have err: "scan_err bs = scan_err (drop k bs)" by (simp add: scan_err_def)
      show ?thesis
      proof (cases "f ((b, d), tk_offset t + k) a")
        case (Inl r)
        then show ?thesis
          using sc nx t1(4,5) k by (simp add: tk_loop.simps [of body t] body bs_def [symmetric])
      next
        case (Inr a')
        have "case fold_early f (with_ends (tk_offset t + k) (fst (scan (drop k bs)))) a' of
            Inl r \<Rightarrow> tk_loop body t1 a' = Inl r
          | Inr a'' \<Rightarrow> \<exists>t'. tk_loop body t1 a' = Inr (t', a'') \<and>
              tk_err t' = scan_err (drop k bs)"
          using less.hyps [OF t1(6,1,2), of a'] unfolding t1(3) unfolding t1(5) .
        then show ?thesis
          using Inr sc nx t1(4,5) err k
          by (simp add: tk_loop.simps [of body t] body bs_def [symmetric] split: sum.splits)
      qed
    qed
  qed
qed

lemma tk_loop_ends:
  assumes "\<And>t a. body t a = f (token_of t, tk_offset t) a"
  obtains r where "fold_early f (with_ends 0 (fst (scan script))) a = Inl r"
      "tk_loop body (MakeScriptTokenizer 0 script) a = Inl r"
  | t' a' where "fold_early f (with_ends 0 (fst (scan script))) a = Inr a'"
      "tk_loop body (MakeScriptTokenizer 0 script) a = Inr (t', a')" "tk_err t' = scan_err script"
  using tk_loop_scan [of "MakeScriptTokenizer 0 script" body f a, OF _ _ assms]
  by (auto simp: MakeScriptTokenizer_def split: sum.splits)

lemma tk_loop_script:
  assumes "\<And>t a. body t a = f (token_of t) a"
  obtains r where "fold_early f (fst (scan script)) a = Inl r"
      "tk_loop body (MakeScriptTokenizer 0 script) a = Inl r"
  | t' a' where "fold_early f (fst (scan script)) a = Inr a'"
      "tk_loop body (MakeScriptTokenizer 0 script) a = Inr (t', a')" "tk_err t' = scan_err script"
proof -
  have "body t a = f (fst (token_of t, tk_offset t)) a" for t a by (simp add: assms)
  moreover have "fold_early (\<lambda>x. f (fst x)) (with_ends 0 (fst (scan script))) a =
      fold_early f (fst (scan script)) a"
    by (rule fold_early_with_ends) simp
  ultimately show thesis
    using that tk_loop_ends [of body "\<lambda>x. f (fst x)" script a thesis] by auto
qed

section \<open>Script predicates\<close>

definition checkScriptParses :: "u16 \<Rightarrow> bytes \<Rightarrow> ErrorCode + unit" where
  "checkScriptParses scriptVersion script =
     andthen (tk_loop (\<lambda>_ _. Inr ()) (MakeScriptTokenizer scriptVersion script) ())
       (\<lambda>(t, _). case tk_err t of None \<Rightarrow> Inr () | Some e \<Rightarrow> Inl e)"

definition IsUnspendable :: "bytes \<Rightarrow> bool" where
  "IsUnspendable pkScript =
     (if length pkScript > 0 \<and> pkScript ! 0 = OP_RETURN then True
      else if length pkScript > MaxScriptSize then True
      else checkScriptParses 0 pkScript \<noteq> Inr ())"

definition IsPushOnlyScript :: "bytes \<Rightarrow> bool" where
  "IsPushOnlyScript script =
     (case tk_loop (\<lambda>t _. if tk_Opcode t > OP_16 then Inl False else Inr ())
             (MakeScriptTokenizer 0 script) () of
        Inl r \<Rightarrow> r
      | Inr (t, _) \<Rightarrow> tk_err t = None)"

text \<open>\<^verbatim>\<open>ParsedOpcode\<close> is a token; the error is returned without the ones read before it.\<close>

definition parseScript :: "bytes \<Rightarrow> ErrorCode + token list" where
  "parseScript script =
     andthen (tk_loop (\<lambda>t ops. Inr (ops @ [(tk_Opcode t, tk_data t)])) (MakeScriptTokenizer 0 script) [])
       (\<lambda>(t, ops). case tk_err t of Some e \<Rightarrow> Inl e | None \<Rightarrow> Inr ops)"

definition IsEnvelope :: "bytes \<Rightarrow> bool" where
  "IsEnvelope script =
     (let ops = (case parseScript script of Inl _ \<Rightarrow> [] | Inr ops \<Rightarrow> ops);
          n = length ops
      in list_ex (\<lambda>i. fst (ops ! i) = OP_FALSE \<and> fst (ops ! (i + 1)) = OP_IF \<and>
                      list_ex (\<lambda>j. fst (ops ! j) = OP_ENDIF) [i + 2..<n])
           [0..<n - 2])"

definition IsSmallInt :: "byte \<Rightarrow> bool" where
  "IsSmallInt op \<longleftrightarrow> op = OP_0 \<or> (op \<ge> OP_1 \<and> op \<le> OP_16)"

definition AsSmallInt :: "byte \<Rightarrow> int" where
  "AsSmallInt op = (if op = OP_0 then 0 else int (unat op) - int (unat (OP_1 - 1)))"

text \<open>The length of a \<^verbatim>\<open>nil\<close> slice is zero.\<close>

definition data_len :: "bytes option \<Rightarrow> nat" where
  "data_len d = (case d of None \<Rightarrow> 0 | Some b \<Rightarrow> length b)"

definition isCanonicalPush :: "byte \<Rightarrow> bytes option \<Rightarrow> bool" where
  "isCanonicalPush opcode data =
     (let dataLen = data_len data
      in if opcode > OP_16 then True
         else if opcode < OP_PUSHDATA1 \<and> opcode > OP_0 \<and> (dataLen = 1 \<and> the data ! 0 \<le> 16) then False
         else if opcode = OP_PUSHDATA1 \<and> dataLen < unat OP_PUSHDATA1 then False
         else if opcode = OP_PUSHDATA2 \<and> dataLen \<le> 0xff then False
         else if opcode = OP_PUSHDATA4 \<and> dataLen \<le> 0xffff then False
         else True)"

text \<open>
  \<^verbatim>\<open>removeOpcodeRaw\<close>: an iteration maps \<^verbatim>\<open>result\<close> (\<^verbatim>\<open>nil\<close> until the first match)
  and \<^verbatim>\<open>prevOffset\<close>.
\<close>

fun removeOpcode_step ::
  "bytes \<Rightarrow> byte \<Rightarrow> byte \<Rightarrow> nat \<Rightarrow> bytes option \<times> nat \<Rightarrow> bytes option \<times> nat" where
  "removeOpcode_step script opcode op byteIndex (result, prevOffset) =
     (if op = opcode then
        (case result of None \<Rightarrow> Some (take prevOffset script) | Some r \<Rightarrow> Some r)
      else
        (case result of
           None \<Rightarrow> None
         | Some r \<Rightarrow> Some (r @ take (byteIndex - prevOffset) (drop prevOffset script))),
      byteIndex)"

definition removeOpcodeRaw :: "bytes \<Rightarrow> byte \<Rightarrow> bytes" where
  "removeOpcodeRaw script opcode =
     (if length script = 0 then script
      else
        case tk_loop
               (\<lambda>t a. Inr (removeOpcode_step script opcode (tk_Opcode t) (tk_ByteIndex t) a))
               (MakeScriptTokenizer 0 script) (None, 0) of
          Inl r \<Rightarrow> r
        | Inr (_, None, _) \<Rightarrow> script
        | Inr (_, Some result, _) \<Rightarrow> result)"

definition countSigOpsV0 :: "bytes \<Rightarrow> bool \<Rightarrow> int" where
  "countSigOpsV0 script precise =
     (case tk_loop
             (\<lambda>t (numSigOps, prevOp).
                let op = tk_Opcode t;
                    numSigOps' =
                      (if op = OP_CHECKSIG \<or> op = OP_CHECKSIGVERIFY then numSigOps + 1
                       else if op = OP_CHECKMULTISIG \<or> op = OP_CHECKMULTISIGVERIFY then
                         (if precise \<and> prevOp \<ge> OP_1 \<and> prevOp \<le> OP_16 then numSigOps + AsSmallInt prevOp
                          else numSigOps + int MaxPubKeysPerMultiSig)
                       else numSigOps)
                in Inr (numSigOps', op))
             (MakeScriptTokenizer 0 script) (0, OP_INVALIDOPCODE) of
        Inl r \<Rightarrow> r
      | Inr (_, numSigOps, _) \<Rightarrow> numSigOps)"

definition GetSigOpCount :: "bytes \<Rightarrow> int" where
  "GetSigOpCount script = countSigOpsV0 script False"

definition finalOpcodeData :: "u16 \<Rightarrow> bytes \<Rightarrow> bytes option" where
  "finalOpcodeData scriptVersion script =
     (if length script = 0 then None
      else
        case tk_loop (\<lambda>t _. Inr (tk_data t)) (MakeScriptTokenizer scriptVersion script) None of
          Inl r \<Rightarrow> r
        | Inr (t, data) \<Rightarrow> if tk_err t \<noteq> None then None else data)"

text \<open>\<^const>\<open>None\<close> is the panic of \<^verbatim>\<open>extractScriptInt64\<close>.\<close>

definition ExtractInt64FromScript :: "byte \<Rightarrow> bytes option \<Rightarrow> i64 option" where
  "ExtractInt64FromScript opcode data =
     (if data = None \<and> opcode = OP_0 then Some 0
      else if data = None \<and> opcode = OP_1NEGATE then Some (- 1)
      else if data = None \<and> opcode \<ge> OP_1 \<and> opcode \<le> OP_16 then Some (word_of_int (AsSmallInt opcode))
      else extractScriptInt64 (case data of None \<Rightarrow> [] | Some d \<Rightarrow> d))"

definition ExtractInt64 :: "ScriptTokenizer \<Rightarrow> i64 option" where
  "ExtractInt64 t = ExtractInt64FromScript (tk_Opcode t) (tk_data t)"

section \<open>Behaviour of the scanning routines\<close>

lemma fold_snoc: "fold (\<lambda>x ops. ops @ [x]) xs ops = ops @ xs"
  by (induction xs arbitrary: ops) simp_all

lemma parseScript_scan:
  "parseScript script = (case scan_err script of Some e \<Rightarrow> Inl e | None \<Rightarrow> Inr (fst (scan script)))"
proof -
  have body: "Inr (ops @ [(tk_Opcode t, tk_data t)]) = Inr (ops @ [token_of t])" for t ops
    by (simp add: token_of_def)
  show ?thesis
    unfolding parseScript_def body
    by (rule tk_loop_script [where f = "\<lambda>x ops. Inr (ops @ [x])" and script = script and a = "[]"])
      (auto simp: fold_early_Inr [where g = "\<lambda>x ops. ops @ [x]"] fold_snoc split: option.splits)
qed

lemma checkScriptParses_scan:
  "checkScriptParses 0 script = (case scan_err script of Some e \<Rightarrow> Inl e | None \<Rightarrow> Inr ())"
  unfolding checkScriptParses_def
  by (rule tk_loop_script [where f = "\<lambda>_ _. Inr ()" and script = script and a = "()"])
    (auto split: option.splits)

lemma scan_complete_iff:
  "scan_err script = None \<and> fst (scan script) = ops \<longleftrightarrow>
   list_all token_ok ops \<and> script = concat (map op_bytes ops)"
proof
  assume *: "scan_err script = None \<and> fst (scan script) = ops"
  then have "snd (scan script) = []" by (simp add: scan_err_def split: if_splits)
  with * scan_print [of script] show "list_all token_ok ops \<and> script = concat (map op_bytes ops)"
    by (simp add: list_all_iff)
next
  assume "list_all token_ok ops \<and> script = concat (map op_bytes ops)"
  with scan_printed [of ops "[]"] show "scan_err script = None \<and> fst (scan script) = ops"
    by (simp add: list_all_iff scan_err_def)
qed

lemma parse_iff:
  "parseScript script = Inr ops \<longleftrightarrow> list_all token_ok ops \<and> script = concat (map op_bytes ops)"
  unfolding scan_complete_iff [symmetric] by (auto simp: parseScript_scan split: option.splits)

text \<open>
  C23 (tokenizing is the inverse of printing): a script parses to a list of opcodes with their
  data exactly if each of them is well-formed (the data has the length its opcode announces)
  and the script is the concatenation of their encodings.
\<close>

theorem parse_print_inverse:
  "parseScript script = Inr ops \<longleftrightarrow> list_all token_ok ops \<and> script = concat (map op_bytes ops)"
  by (rule parse_iff)

lemma IsUnspendable_cases:
  "IsUnspendable pkScript \<longleftrightarrow>
     (\<exists>rest. pkScript = OP_RETURN # rest) \<or> 10000 < length pkScript \<or>
     (\<nexists>ops. list_all token_ok ops \<and> pkScript = concat (map op_bytes ops))"
proof -
  have "checkScriptParses 0 pkScript = Inr () \<longleftrightarrow>
      (\<exists>ops. list_all token_ok ops \<and> pkScript = concat (map op_bytes ops))"
    unfolding scan_complete_iff [symmetric]
    by (simp add: checkScriptParses_scan split: option.splits)
  moreover have "length pkScript > 0 \<and> pkScript ! 0 = OP_RETURN \<longleftrightarrow> (\<exists>rest. pkScript = OP_RETURN # rest)"
    by (cases pkScript) auto
  ultimately show ?thesis by (simp add: IsUnspendable_def MaxScriptSize_def)
qed

text \<open>
  An output script is pruned exactly if it starts with
  \<^verbatim>\<open>OP_RETURN\<close>, exceeds 10000 bytes or is not the encoding of any opcode sequence.
\<close>

lemma unspendable_iff:
  "(\<not> IsUnspendable pkScript) =
     ((\<nexists>rest. pkScript = OP_RETURN # rest) \<and> length pkScript \<le> 10000 \<and>
      (\<exists>ops. list_all token_ok ops \<and> pkScript = concat (map op_bytes ops)))"
  using IsUnspendable_cases [of pkScript] by (simp add: not_less)

text \<open>Removing an opcode: the loop that copies lazily is a filter.\<close>

lemma remove_fold:
  assumes "drop p script = concat (map op_bytes xs)"
  shows "fold (\<lambda>(x, p'). removeOpcode_step script opcode (fst x) p') (with_ends p xs) (result, p) =
    (if result = None \<and> (\<forall>x \<in> set xs. fst x \<noteq> opcode) then None
     else Some ((case result of None \<Rightarrow> take p script | Some r \<Rightarrow> r) @
                concat (map op_bytes (filter (\<lambda>x. fst x \<noteq> opcode) xs))),
     p + length (concat (map op_bytes xs)))"
  using assms
proof (induction xs arbitrary: p result)
  case Nil
  then show ?case by (simp split: option.splits)
next
  case (Cons x xs)
  define q where "q = p + length (op_bytes x)"
  have "drop (length (op_bytes x)) (drop p script) = concat (map op_bytes xs)"
    using Cons.prems by simp
  then have rest: "drop q script = concat (map op_bytes xs)"
    by (simp add: q_def add.commute)
  have here: "take (q - p) (drop p script) = op_bytes x"
    using Cons.prems by (simp add: q_def)
  have upto: "take q script = take p script @ op_bytes x"
    unfolding q_def take_add using Cons.prems by simp
  have len: "p + length (concat (map op_bytes (x # xs))) = q + length (concat (map op_bytes xs))"
    by (simp add: q_def)
  have step: "with_ends p (x # xs) = (x, q) # with_ends q xs" by (simp add: q_def)
  show ?case
    unfolding len step
    by (cases result; cases "fst x = opcode")
      (simp_all add: Cons.IH [OF rest] here upto del: with_ends.simps length_concat)
qed

lemma removeOpcodeRaw_filter:
  assumes "parseScript script = Inr ops"
  shows "removeOpcodeRaw script opcode = concat (map op_bytes (filter (\<lambda>x. fst x \<noteq> opcode) ops))"
proof (cases "script = []")
  case True
  with assms show ?thesis by (auto simp: removeOpcodeRaw_def parseScript_scan scan_err_def)
next
  case False
  from assms have ops: "fst (scan script) = ops" and script: "script = concat (map op_bytes ops)"
    using scan_complete_iff [of script ops] parse_iff [of script ops] by simp_all
  define g where "g = (\<lambda>(x::token, p'). removeOpcode_step script opcode (fst x) p')"
  have keep: "filter (\<lambda>x. fst x \<noteq> opcode) ops = ops" if "\<forall>x \<in> set ops. fst x \<noteq> opcode"
    using that by (simp add: filter_id_conv)
  have fold: "fold g (with_ends 0 ops) (None, 0) =
      (if \<forall>x \<in> set ops. fst x \<noteq> opcode then None
       else Some (concat (map op_bytes (filter (\<lambda>x. fst x \<noteq> opcode) ops))), length script)"
    using remove_fold [of 0 script ops opcode None] script unfolding g_def by simp
  have "\<exists>t'. tk_loop (\<lambda>t a. Inr (removeOpcode_step script opcode (tk_Opcode t) (tk_ByteIndex t) a) :: bytes + _)
      (MakeScriptTokenizer 0 script) (None, 0) = Inr (t', fold g (with_ends 0 ops) (None, 0))"
    by (rule tk_loop_ends [where script = script and a = "(None, 0)" and f = "\<lambda>x a. Inr (g x a)"
          and body = "\<lambda>t a. Inr (removeOpcode_step script opcode (tk_Opcode t) (tk_ByteIndex t) a)"])
      (auto simp: ops g_def token_of_def tk_ByteIndex_def fold_early_Inr [where g = g, unfolded g_def])
  then show ?thesis
    unfolding removeOpcodeRaw_def using False keep script by (auto simp: fold)
qed

text \<open>
  On a script that parses, the routine that copies the script only
  from the first match on returns the encodings of the opcodes other than the given one.
\<close>

lemma remove_opcode_filter:
  "parseScript script = Inr ops \<Longrightarrow>
   removeOpcodeRaw script opcode = concat (map op_bytes (filter (\<lambda>x. fst x \<noteq> opcode) ops))"
  by (rule removeOpcodeRaw_filter)

end
