(* ===== verification/Script_Standard.thy ===== *)
theory Script_Standard
  imports Script_Token
begin

text \<open>
  \<^verbatim>\<open>txscript/scriptbuilder.go\<close> and the script templates of \<^verbatim>\<open>txscript/standard.go\<close>
  and \<^verbatim>\<open>txscript/script.go\<close>: canonical pushes, the standard output scripts, the contract
  output script of SatoshiNet, witness programs and signature-operation counts.  The allocation
  options of the builder only size its buffer and are not part of the model.

  The lemmas show that the builder's pushes tokenize back to the data, that integers survive
  building and extraction, that contract scripts and their payloads correspond, and where the
  recognisers accept more than the constructors produce.
\<close>

unbundle bit_operations_syntax

section \<open>Script builder\<close>

record ScriptBuilder =
  sb_script :: bytes
  sb_err :: "string option"

definition NewScriptBuilder :: ScriptBuilder where
  "NewScriptBuilder = \<lparr>sb_script = [], sb_err = None\<rparr>"

definition sb_append :: "bytes \<Rightarrow> ScriptBuilder \<Rightarrow> ScriptBuilder" where
  "sb_append d b = b\<lparr>sb_script := sb_script b @ d\<rparr>"

definition AddOp :: "byte \<Rightarrow> ScriptBuilder \<Rightarrow> ScriptBuilder" where
  "AddOp opcode b =
     (if sb_err b \<noteq> None then b
      else if length (sb_script b) + 1 > MaxScriptSize
      then b\<lparr>sb_err := Some ''adding an opcode would exceed the maximum allowed canonical script length''\<rparr>
      else sb_append [opcode] b)"

definition AddOps :: "bytes \<Rightarrow> ScriptBuilder \<Rightarrow> ScriptBuilder" where
  "AddOps opcodes b =
     (if sb_err b \<noteq> None then b
      else if length (sb_script b) + length opcodes > MaxScriptSize
      then b\<lparr>sb_err := Some ''adding opcodes would exceed the maximum allowed canonical script length''\<rparr>
      else sb_append opcodes b)"

definition canonicalDataSize :: "bytes \<Rightarrow> nat" where
  "canonicalDataSize d =
     (let dataLen = length d
      in if dataLen = 0 then 1
         else if dataLen = 1 \<and> d ! 0 \<le> 16 then 1
         else if dataLen = 1 \<and> d ! 0 = 0x81 then 1
         else if dataLen < unat OP_PUSHDATA1 then 1 + dataLen
         else if dataLen \<le> 0xff then 2 + dataLen
         else if dataLen \<le> 0xffff then 3 + dataLen
         else 5 + dataLen)"

definition addData :: "bytes \<Rightarrow> ScriptBuilder \<Rightarrow> ScriptBuilder" where
  "addData d b =
     (let dataLen = length d
      in if dataLen = 0 \<or> dataLen = 1 \<and> d ! 0 = 0 then sb_append [OP_0] b
         else if dataLen = 1 \<and> d ! 0 \<le> 16 then sb_append [(OP_1 - 1) + d ! 0] b
         else if dataLen = 1 \<and> d ! 0 = 0x81 then sb_append [OP_1NEGATE] b
         else if dataLen < unat OP_PUSHDATA1 then
           sb_append d (sb_append [word_of_nat (unat (OP_DATA_1 - 1) + dataLen)] b)
         else if dataLen \<le> 0xff then
           sb_append d (sb_append [OP_PUSHDATA1, word_of_nat dataLen] b)
         else if dataLen \<le> 0xffff then
           sb_append d (sb_append (PutUint16 LittleEndian (word_of_nat dataLen))
             (sb_append [OP_PUSHDATA2] b))
         else
           sb_append d (sb_append (PutUint32 LittleEndian (word_of_nat dataLen))
             (sb_append [OP_PUSHDATA4] b)))"

definition AddFullData :: "bytes \<Rightarrow> ScriptBuilder \<Rightarrow> ScriptBuilder" where
  "AddFullData d b = (if sb_err b \<noteq> None then b else addData d b)"

definition AddData :: "bytes \<Rightarrow> ScriptBuilder \<Rightarrow> ScriptBuilder" where
  "AddData d b =
     (if sb_err b \<noteq> None then b
      else if length (sb_script b) + canonicalDataSize d > MaxScriptSize
      then b\<lparr>sb_err := Some ''adding data would exceed the maximum allowed canonical script length''\<rparr>
      else if length d > MaxScriptElementSize
      then b\<lparr>sb_err := Some ''adding a data element would exceed the maximum allowed script element size''\<rparr>
      else addData d b)"

text \<open>\<^const>\<open>None\<close> is the panic of \<^verbatim>\<open>scriptNum.Bytes\<close>.\<close>

definition AddInt64 :: "i64 \<Rightarrow> ScriptBuilder \<Rightarrow> ScriptBuilder option" where
  "AddInt64 val b =
     (if sb_err b \<noteq> None then Some b
      else if length (sb_script b) + 1 > MaxScriptSize
      then Some (b\<lparr>sb_err := Some ''adding an integer would exceed the maximum allow canonical script length''\<rparr>)
      else if val = 0 then Some (sb_append [OP_0] b)
      else if sint val = - 1 \<or> (sint val \<ge> 1 \<and> sint val \<le> 16)
      then Some (sb_append [word_of_int (int (unat (OP_1 - 1)) + sint val)] b)
      else map_option (\<lambda>d. AddData d b) (scriptNum_Bytes val))"

definition Reset :: "ScriptBuilder \<Rightarrow> ScriptBuilder" where
  "Reset b = b\<lparr>sb_script := [], sb_err := None\<rparr>"

definition Script :: "ScriptBuilder \<Rightarrow> bytes \<times> string option" where
  "Script b = (sb_script b, sb_err b)"

section \<open>Output script templates\<close>

abbreviation (input) OP_DUP :: byte where "OP_DUP \<equiv> 0x76"
abbreviation (input) OP_EQUAL :: byte where "OP_EQUAL \<equiv> 0x87"
abbreviation (input) OP_EQUALVERIFY :: byte where "OP_EQUALVERIFY \<equiv> 0x88"
abbreviation (input) OP_HASH160 :: byte where "OP_HASH160 \<equiv> 0xa9"
abbreviation (input) OP_DATA_33 :: byte where "OP_DATA_33 \<equiv> 0x21"
abbreviation (input) OP_DATA_65 :: byte where "OP_DATA_65 \<equiv> 0x41"

text \<open>A slice \<^verbatim>\<open>s[i:j]\<close>.\<close>

definition slice :: "bytes \<Rightarrow> nat \<Rightarrow> nat \<Rightarrow> bytes" where
  "slice s i j = take (j - i) (drop i s)"

definition extractCompressedPubKey :: "bytes \<Rightarrow> bytes option" where
  "extractCompressedPubKey script =
     (if length script = 35 \<and> script ! 34 = OP_CHECKSIG \<and> script ! 0 = OP_DATA_33 \<and>
         (script ! 1 = 0x02 \<or> script ! 1 = 0x03)
      then Some (slice script 1 34) else None)"

definition extractUncompressedPubKey :: "bytes \<Rightarrow> bytes option" where
  "extractUncompressedPubKey script =
     (if length script = 67 \<and> script ! 66 = OP_CHECKSIG \<and> script ! 0 = OP_DATA_65 \<and>
         (script ! 1 = 0x04 \<or> script ! 1 = 0x06 \<or> script ! 1 = 0x07)
      then Some (slice script 1 66) else None)"

definition extractPubKey :: "bytes \<Rightarrow> bytes option" where
  "extractPubKey script =
     (case extractCompressedPubKey script of
        Some pubKey \<Rightarrow> Some pubKey
      | None \<Rightarrow> extractUncompressedPubKey script)"

definition extractPubKeyHash :: "bytes \<Rightarrow> bytes option" where
  "extractPubKeyHash script =
     (if length script = 25 \<and> script ! 0 = OP_DUP \<and> script ! 1 = OP_HASH160 \<and>
         script ! 2 = OP_DATA_20 \<and> script ! 23 = OP_EQUALVERIFY \<and> script ! 24 = OP_CHECKSIG
      then Some (slice script 3 23) else None)"

definition extractScriptHash :: "bytes \<Rightarrow> bytes option" where
  "extractScriptHash script =
     (if length script = 23 \<and> script ! 0 = OP_HASH160 \<and> script ! 1 = OP_DATA_20 \<and>
         script ! 22 = OP_EQUAL
      then Some (slice script 2 22) else None)"

definition extractWitnessPubKeyHash :: "bytes \<Rightarrow> bytes option" where
  "extractWitnessPubKeyHash script =
     (if length script = 22 \<and> script ! 0 = OP_0 \<and> script ! 1 = OP_DATA_20
      then Some (slice script 2 22) else None)"

definition extractWitnessV0ScriptHash :: "bytes \<Rightarrow> bytes option" where
  "extractWitnessV0ScriptHash script =
     (if length script = 34 \<and> script ! 0 = OP_0 \<and> script ! 1 = OP_DATA_32
      then Some (slice script 2 34) else None)"

definition extractWitnessV1KeyBytes :: "bytes \<Rightarrow> bytes option" where
  "extractWitnessV1KeyBytes script =
     (if length script = 34 \<and> script ! 0 = OP_1 \<and> script ! 1 = OP_DATA_32
      then Some (slice script 2 34) else None)"

text \<open>The version, the program and whether the script is a witness program.\<close>

definition extractWitnessProgramInfo :: "bytes \<Rightarrow> int \<times> bytes option \<times> bool" where
  "extractWitnessProgramInfo script =
     (if length script < 4 \<or> length script > 42 then (0, None, False)
      else
        let (ok, t) = tk_Next (MakeScriptTokenizer 0 script)
        in if \<not> ok \<or> \<not> IsSmallInt (tk_Opcode t) then (0, None, False)
           else
             let version = AsSmallInt (tk_Opcode t);
                 (ok, t) = tk_Next t
             in if \<not> ok \<or> \<not> isCanonicalPush (tk_Opcode t) (tk_data t) then (0, None, False)
                else (version, tk_data t, tk_Done t \<and> tk_err t = None))"

definition isWitnessProgramScript :: "bytes \<Rightarrow> bool" where
  "isWitnessProgramScript script = snd (snd (extractWitnessProgramInfo script))"

definition MaxDataCarrierSize :: nat where
  "MaxDataCarrierSize = 512"

definition isNullDataScript :: "u16 \<Rightarrow> bytes \<Rightarrow> bool" where
  "isNullDataScript scriptVersion script =
     (if scriptVersion \<noteq> 0 then False
      else if length script < 1 \<or> script ! 0 \<noteq> OP_RETURN then False
      else if length script = 1 then True
      else
        let (ok, t) = tk_Next (MakeScriptTokenizer scriptVersion (drop 1 script))
        in ok \<and> data_len (tk_data t) \<le> MaxDataCarrierSize)"

subsection \<open>Contract output scripts\<close>

definition contractScriptMagic :: bytes where
  "contractScriptMagic = [0x43, 0x54]"

definition ContractAddressMinPayloadLen :: nat where
  "ContractAddressMinPayloadLen = 3"

definition ContractAddressVersionV1 :: byte where
  "ContractAddressVersionV1 = 1"

definition extractContractScriptPayload :: "bytes \<Rightarrow> bytes option" where
  "extractContractScriptPayload script =
     (if length script < 11 then None
      else if script ! 0 \<noteq> OP_FALSE \<or> script ! 1 \<noteq> OP_IF \<or>
              script ! 2 \<noteq> word_of_nat (length contractScriptMagic) \<or>
              slice script 3 5 \<noteq> contractScriptMagic
      then None
      else
        let payloadLen = unat (script ! 5)
        in if payloadLen < ContractAddressMinPayloadLen \<or> length script \<noteq> payloadLen + 8 \<or>
              script ! (6 + payloadLen) \<noteq> OP_ENDIF \<or> script ! (7 + payloadLen) \<noteq> OP_FALSE
           then None
           else
             let payload = slice script 6 (6 + payloadLen)
             in if payload ! 0 \<noteq> 1 \<or> payload ! 1 = 0 then None else Some payload)"

definition isContractScript :: "bytes \<Rightarrow> bool" where
  "isContractScript script \<longleftrightarrow> extractContractScriptPayload script \<noteq> None"

datatype pay_error = ErrUnsupportedAddress | ErrTooMuchNullData | ErrScriptNotCanonical string

text \<open>The result of \<^verbatim>\<open>Script()\<close> as a value or an error.\<close>

definition built :: "ScriptBuilder \<Rightarrow> pay_error + bytes" where
  "built b = (case Script b of (s, None) \<Rightarrow> Inr s | (_, Some e) \<Rightarrow> Inl (ErrScriptNotCanonical e))"

definition payToContractScript :: "bytes \<Rightarrow> pay_error + bytes" where
  "payToContractScript payload =
     (if length payload < ContractAddressMinPayloadLen \<or> length payload \<ge> unat OP_PUSHDATA1
      then Inl ErrUnsupportedAddress
      else if payload ! 0 \<noteq> ContractAddressVersionV1 \<or> payload ! 1 = 0 then Inl ErrUnsupportedAddress
      else built (AddOp OP_FALSE (AddOp OP_ENDIF (AddData payload (AddData contractScriptMagic
                   (AddOp OP_IF (AddOp OP_FALSE NewScriptBuilder)))))))"

definition payToPubKeyHashScript :: "bytes \<Rightarrow> pay_error + bytes" where
  "payToPubKeyHashScript pubKeyHash =
     built (AddOp OP_CHECKSIG (AddOp OP_EQUALVERIFY (AddData pubKeyHash
       (AddOp OP_HASH160 (AddOp OP_DUP NewScriptBuilder)))))"

definition payToWitnessPubKeyHashScript :: "bytes \<Rightarrow> pay_error + bytes" where
  "payToWitnessPubKeyHashScript pubKeyHash = built (AddData pubKeyHash (AddOp OP_0 NewScriptBuilder))"

definition payToScriptHashScript :: "bytes \<Rightarrow> pay_error + bytes" where
  "payToScriptHashScript scriptHash =
     built (AddOp OP_EQUAL (AddData scriptHash (AddOp OP_HASH160 NewScriptBuilder)))"

definition payToWitnessScriptHashScript :: "bytes \<Rightarrow> pay_error + bytes" where
  "payToWitnessScriptHashScript scriptHash = built (AddData scriptHash (AddOp OP_0 NewScriptBuilder))"

definition payToWitnessTaprootScript :: "bytes \<Rightarrow> pay_error + bytes" where
  "payToWitnessTaprootScript rawKey = built (AddData rawKey (AddOp OP_1 NewScriptBuilder))"

definition payToPubKeyScript :: "bytes \<Rightarrow> pay_error + bytes" where
  "payToPubKeyScript serializedPubKey =
     built (AddOp OP_CHECKSIG (AddData serializedPubKey NewScriptBuilder))"

definition NullDataScript :: "bytes \<Rightarrow> pay_error + bytes" where
  "NullDataScript d =
     (if length d > MaxDataCarrierSize then Inl ErrTooMuchNullData
      else built (AddData d (AddOp OP_RETURN NewScriptBuilder)))"

section \<open>Signature operations\<close>

definition GetPreciseSigOpCount :: "bytes \<Rightarrow> bytes \<Rightarrow> int" where
  "GetPreciseSigOpCount scriptSig scriptPubKey =
     (if extractScriptHash scriptPubKey = None then countSigOpsV0 scriptPubKey True
      else if length scriptSig = 0 \<or> \<not> IsPushOnlyScript scriptSig then 0
      else
        let redeemScript = finalOpcodeData 0 scriptSig
        in if data_len redeemScript = 0 then 0 else countSigOpsV0 (the redeemScript) True)"

definition getWitnessSigOps :: "bytes \<Rightarrow> bytes list \<Rightarrow> int" where
  "getWitnessSigOps pkScript witness =
     (case extractWitnessProgramInfo pkScript of
        (_, _, False) \<Rightarrow> 0
      | (witnessVersion, witnessProgram, True) \<Rightarrow>
          if witnessVersion = 0 then
            if data_len witnessProgram = 20 then 1
            else if data_len witnessProgram = 32 \<and> length witness > 0
            then countSigOpsV0 (witness ! (length witness - 1)) True
            else 0
          else 0)"

definition GetWitnessSigOpCount :: "bytes \<Rightarrow> bytes \<Rightarrow> bytes list \<Rightarrow> int" where
  "GetWitnessSigOpCount sigScript pkScript witness =
     (if isWitnessProgramScript pkScript then getWitnessSigOps pkScript witness
      else if extractScriptHash pkScript \<noteq> None \<and> IsPushOnlyScript sigScript \<and>
              length sigScript > 0 \<and> isWitnessProgramScript (drop 1 sigScript)
      then getWitnessSigOps (drop 1 sigScript) witness
      else 0)"

section \<open>Pushes of the builder\<close>

text \<open>The token a canonical push of \<open>d\<close> is, and the item a push token puts on the stack.\<close>

definition push_token :: "bytes \<Rightarrow> token" where
  "push_token d =
     (if d = [] \<or> d = [0] then (OP_0, None)
      else if length d = 1 \<and> unat (d ! 0) \<le> 16 then (0x50 + d ! 0, None)
      else if d = [0x81] then (OP_1NEGATE, None)
      else if length d < 76 then (word_of_nat (length d), Some d)
      else if length d < 256 then (OP_PUSHDATA1, Some d)
      else if length d < 65536 then (OP_PUSHDATA2, Some d)
      else (OP_PUSHDATA4, Some d))"

definition pushed_item :: "token \<Rightarrow> bytes" where
  "pushed_item x =
     (case snd x of
        Some d \<Rightarrow> d
      | None \<Rightarrow> if fst x = OP_0 then [] else if fst x = OP_1NEGATE then [0x81] else [fst x - 0x50])"

lemma unat_word_of_nat_small: "n < 256 \<Longrightarrow> unat (word_of_nat n :: byte) = n"
  by (simp add: unat_byte_of_nat)

lemma length_singleton: "length d = 1 \<longleftrightarrow> (\<exists>x. d = [x])"
  by (auto simp: length_Suc_conv)

lemma opcode_length_unat:
  "opcode_length b =
     (if 1 \<le> unat b \<and> unat b \<le> 75 then int (unat b) + 1
      else if unat b = 76 then - 1 else if unat b = 77 then - 2 else if unat b = 78 then - 4 else 1)"
  by (simp add: opcode_length_def word_le_nat_alt word_unat_eq_iff)

lemma small_int_opcode: "unat (x::byte) \<le> 16 \<Longrightarrow> unat (0x50 + x) = 80 + unat x"
  by (simp add: unat_word_ariths)

lemma push_token_cases:
  obtains (zero) "d = [] \<or> d = [0]" "push_token d = (OP_0, None)"
  | (small) x where "d = [x]" "0 < unat x" "unat x \<le> 16" "push_token d = (0x50 + x, None)"
  | (negative) "d = [0x81]" "push_token d = (OP_1NEGATE, None)"
  | (direct) "d \<noteq> []" "length d < 76" "push_token d = (word_of_nat (length d), Some d)"
      "\<not> (length d = 1 \<and> (unat (d ! 0) \<le> 16 \<or> d ! 0 = 0x81))"
  | (one) "76 \<le> length d" "length d < 256" "push_token d = (OP_PUSHDATA1, Some d)"
  | (two) "256 \<le> length d" "length d < 65536" "push_token d = (OP_PUSHDATA2, Some d)"
  | (four) "65536 \<le> length d" "push_token d = (OP_PUSHDATA4, Some d)"
proof (cases "length d = 1")
  case True
  then obtain x where d: "d = [x]" by (metis length_singleton)
  consider "x = 0" | "0 < unat x" "unat x \<le> 16" | "x = 0x81" | "unat x > 16" "x \<noteq> 0x81"
    by (metis leI gr0I unat_eq_0)
  then show thesis
  proof cases
    case 1
    with d that(1) show ?thesis by (simp add: push_token_def)
  next
    case 2
    then have "x \<noteq> 0" by auto
    with 2 d that(2) show ?thesis by (simp add: push_token_def)
  next
    case 3
    with d that(3) show ?thesis by (simp add: push_token_def)
  next
    case 4
    then have "x \<noteq> 0" by auto
    with 4 d that(4) show ?thesis by (simp add: push_token_def)
  qed
next
  case False
  then have ne: "d \<noteq> [0]" "d \<noteq> [0x81]" by auto
  consider "d = []" | "d \<noteq> []" "length d < 76" | "d \<noteq> []" "76 \<le> length d" "length d < 256"
    | "d \<noteq> []" "256 \<le> length d" "length d < 65536" | "d \<noteq> []" "65536 \<le> length d"
    by linarith
  then show thesis
    using that(1,4-7) False ne by cases (auto simp: push_token_def)
qed

lemma push_token_ok: "length d < 2 ^ 31 \<Longrightarrow> token_ok (push_token d)"
proof (cases d rule: push_token_cases)
  case (small x)
  then show ?thesis by (simp add: opcode_length_unat small_int_opcode)
next
  case direct
  then show ?thesis by (simp add: opcode_length_unat unat_word_of_nat_small Suc_le_eq)
qed (simp_all add: opcode_length_unat)

lemma addData_push_token: "length d < 2 ^ 31 \<Longrightarrow> addData d b = sb_append (op_bytes (push_token d)) b"
proof (cases d rule: push_token_cases)
  case zero
  then show ?thesis by (auto simp: addData_def)
next
  case (small x)
  then show ?thesis by (auto simp: addData_def word_le_nat_alt)
next
  case direct
  then show ?thesis
    by (auto simp: addData_def sb_append_def word_le_nat_alt opcode_length_unat
        unat_word_of_nat_small Let_def)
next
  case one
  then show ?thesis by (auto simp: addData_def sb_append_def opcode_length_unat Let_def)
next
  case two
  then show ?thesis
    by (auto simp: addData_def sb_append_def opcode_length_unat PutUint16_def unat_of_nat Let_def)
next
  case four
  moreover assume "length d < 2 ^ 31"
  ultimately show ?thesis
    by (auto simp: addData_def sb_append_def opcode_length_unat PutUint32_def unat_of_nat Let_def)
qed (simp add: addData_def)

lemma canonicalDataSize_push_token:
  "length d < 2 ^ 31 \<Longrightarrow> canonicalDataSize d = length (op_bytes (push_token d))"
proof (cases d rule: push_token_cases)
  case zero
  then show ?thesis by (auto simp: canonicalDataSize_def)
next
  case (small x)
  then show ?thesis by (simp add: canonicalDataSize_def word_le_nat_alt)
next
  case negative
  then show ?thesis by (simp add: canonicalDataSize_def)
next
  case direct
  then show ?thesis
    by (auto simp: canonicalDataSize_def word_le_nat_alt opcode_length_unat unat_word_of_nat_small
        Let_def)
qed (auto simp: canonicalDataSize_def opcode_length_unat Let_def)

lemma pushed_item_push_token: "pushed_item (push_token d) = (if d = [0] then [] else d)"
proof (cases d rule: push_token_cases)
  case (small x)
  then have "0x50 + x \<noteq> OP_1NEGATE" "0x50 + x \<noteq> OP_0"
    by (auto simp: word_unat_eq_iff small_int_opcode)
  moreover have "x \<noteq> 0" using small(2) by auto
  ultimately show ?thesis using small by (simp add: pushed_item_def)
qed (auto simp: pushed_item_def)

lemma isCanonicalPush_push_token: "isCanonicalPush (fst (push_token d)) (snd (push_token d))"
proof (cases d rule: push_token_cases)
  case (small x)
  then show ?thesis
    by (simp add: isCanonicalPush_def data_len_def word_unat_eq_iff small_int_opcode)
next
  case direct
  then show ?thesis
    by (auto simp: isCanonicalPush_def data_len_def word_unat_eq_iff word_le_nat_alt
        word_less_nat_alt unat_word_of_nat_small)
qed (auto simp: isCanonicalPush_def data_len_def)

lemma AddData_ok:
  assumes "sb_err b = None" "length (sb_script b) + canonicalDataSize d \<le> MaxScriptSize"
    "length d \<le> MaxScriptElementSize"
  shows "AddData d b = sb_append (op_bytes (push_token d)) b"
  using assms by (simp add: AddData_def addData_push_token MaxScriptElementSize_def)

text \<open>
  Within the size limits \<^verbatim>\<open>AddData\<close> appends one
  well-formed canonical push opcode of the announced size; it tokenizes, and it puts the data
  on the stack, except that the single byte \<open>0\<close> is pushed as the empty item.
\<close>

lemma builder_push:
  assumes "sb_err b = None" "length (sb_script b) + canonicalDataSize d \<le> MaxScriptSize"
    "length d \<le> MaxScriptElementSize"
  shows "\<exists>x. AddData d b = b\<lparr>sb_script := sb_script b @ op_bytes x\<rparr> \<and> token_ok x \<and>
             length (op_bytes x) = canonicalDataSize d \<and> isCanonicalPush (fst x) (snd x) \<and>
             pushed_item x = (if d = [0] then [] else d)"
proof -
  have "length d < 2 ^ 31" using assms(3) by (simp add: MaxScriptElementSize_def)
  then show ?thesis
    using AddData_ok [OF assms] canonicalDataSize_push_token [of d] push_token_ok [of d]
      isCanonicalPush_push_token [of d] pushed_item_push_token [of d]
    by (intro exI [of _ "push_token d"]) (simp add: sb_append_def)
qed

lemma AsSmallInt_unat: "op \<noteq> 0 \<Longrightarrow> AsSmallInt op = int (unat op) - 80"
  by (simp add: AsSmallInt_def)

lemma extract_push_token:
  "length d \<le> 8 \<Longrightarrow>
   ExtractInt64FromScript (fst (push_token d)) (snd (push_token d)) = Some (word_of_int (script_int d))"
proof (cases d rule: push_token_cases)
  case zero
  then show ?thesis by (auto simp: ExtractInt64FromScript_def script_int_def script_mag_def)
next
  case (small x)
  have "(0x50 + x) \<noteq> 0" "0x50 + x \<noteq> OP_1NEGATE" "OP_1 \<le> 0x50 + x" "0x50 + x \<le> OP_16"
    using small(2,3) by (auto simp: word_unat_eq_iff word_le_nat_alt small_int_opcode)
  moreover from small have "script_int d = int (unat x)"
    by (simp add: script_int_def script_neg_def script_mag_def)
  ultimately show ?thesis
    using small by (simp add: ExtractInt64FromScript_def AsSmallInt_unat small_int_opcode)
next
  case negative
  then show ?thesis
    by (simp add: ExtractInt64FromScript_def script_int_def script_neg_def script_mag_def)
next
  case direct
  moreover assume "length d \<le> 8"
  ultimately show ?thesis by (simp add: ExtractInt64FromScript_def extractScriptInt64_short)
qed simp_all

lemma script_enc_small:
  "0 < m \<Longrightarrow> m \<le> 16 \<Longrightarrow> script_enc neg m = [if neg then word_of_nat m OR 0x80 else word_of_nat m]"
proof -
  assume m: "0 < m" "m \<le> 16"
  then have ds: "le_digits m = [word_of_nat m]" by (simp add: le_digits.simps)
  have "unat (word_of_nat m :: byte) < 128" using m by (simp add: unat_word_of_nat_small)
  with m ds show ?thesis by (simp add: script_enc_def)
qed

lemma canonicalDataSize_le: "length d \<le> 8 \<Longrightarrow> canonicalDataSize d \<le> 9"
  by (simp add: canonicalDataSize_def Let_def)

text \<open>The fast paths of \<^verbatim>\<open>AddInt64\<close> append what the general path would.\<close>

lemma AddInt64_push_token:
  assumes b: "sb_err b = None" "length (sb_script b) + 9 \<le> MaxScriptSize"
    and v: "sint v \<noteq> - (2 ^ 63)"
  defines "d \<equiv> script_enc (sint v < 0) (nat \<bar>sint v\<bar>)"
  shows "length d \<le> 8"
    and "AddInt64 v b = Some (sb_append (op_bytes (push_token d)) b)"
proof -
  have range: "- (2 ^ 63) \<le> sint v" "sint v < 2 ^ 63"
    using sint_greater_eq [of v] sint_less [of v] by simp_all
  with v have "nat \<bar>sint v\<bar> < 2 ^ 63" by simp
  then show len: "length d \<le> 8" unfolding d_def by (rule length_script_enc)
  consider "v = 0" | "sint v = - 1" | "1 \<le> sint v" "sint v \<le> 16"
    | "v \<noteq> 0" "sint v \<noteq> - 1" "\<not> (1 \<le> sint v \<and> sint v \<le> 16)"
    by blast
  then show "AddInt64 v b = Some (sb_append (op_bytes (push_token d)) b)"
  proof cases
    case 1
    with b show ?thesis by (simp add: AddInt64_def d_def script_enc_def push_token_def)
  next
    case 2
    then have "d = [0x81]" by (simp add: d_def script_enc_small)
    moreover have "v \<noteq> 0" using 2 by auto
    ultimately show ?thesis using 2 b by (simp add: AddInt64_def push_token_def)
  next
    case 3
    define m where "m = nat (sint v)"
    have m: "0 < m" "m \<le> 16" "sint v = int m" using 3 by (simp_all add: m_def)
    then have "d = [word_of_nat m]" by (simp add: d_def script_enc_small)
    moreover have "unat (word_of_nat m :: byte) = m" using m by (simp add: unat_word_of_nat_small)
    ultimately have "push_token d = (0x50 + word_of_nat m, None)"
      using m by (auto simp: push_token_def)
    moreover have "v \<noteq> 0" using 3 by auto
    ultimately show ?thesis using m b by (simp add: AddInt64_def)
  next
    case 4
    have "scriptNum_Bytes v = Some d" using v by (simp add: scriptNum_Bytes_eq d_def)
    with 4 b len canonicalDataSize_le [OF len] AddData_ok [of b d] show ?thesis
      by (auto simp: AddInt64_def MaxScriptElementSize_def)
  qed
qed

text \<open>
  Every \<^verbatim>\<open>int64\<close> but the least, on which it panics, is
  appended by \<^verbatim>\<open>AddInt64\<close> as one well-formed opcode of at most nine bytes, from which
  \<^verbatim>\<open>ExtractInt64\<close> returns the same integer.
\<close>

lemma builder_int_roundtrip:
  assumes "sb_err b = None" "length (sb_script b) + 9 \<le> MaxScriptSize"
  shows "(AddInt64 v b = None \<longleftrightarrow> sint v = - (2 ^ 63)) \<and>
    (sint v \<noteq> - (2 ^ 63) \<longrightarrow>
       (\<exists>x. AddInt64 v b = Some (b\<lparr>sb_script := sb_script b @ op_bytes x\<rparr>) \<and> token_ok x \<and>
            length (op_bytes x) \<le> 9 \<and> ExtractInt64FromScript (fst x) (snd x) = Some v))"
proof (cases "sint v = - (2 ^ 63)")
  case True
  then have "v \<noteq> 0" by auto
  with True assms show ?thesis by (simp add: AddInt64_def scriptNum_Bytes_eq)
next
  case False
  define d where "d = script_enc (sint v < 0) (nat \<bar>sint v\<bar>)"
  note d = AddInt64_push_token [OF assms False, folded d_def]
  have "script_int d = sint v"
    by (auto simp: script_int_def d_def script_enc_denotes)
  then have "ExtractInt64FromScript (fst (push_token d)) (snd (push_token d)) = Some v"
    using extract_push_token [OF d(1)] by simp
  moreover have "length d < 2 ^ 31" using d(1) by simp
  ultimately have "\<exists>x. AddInt64 v b = Some (b\<lparr>sb_script := sb_script b @ op_bytes x\<rparr>) \<and> token_ok x \<and>
      length (op_bytes x) \<le> 9 \<and> ExtractInt64FromScript (fst x) (snd x) = Some v"
    using d push_token_ok [of d] canonicalDataSize_push_token [of d] canonicalDataSize_le [OF d(1)]
    by (intro exI [of _ "push_token d"]) (simp add: sb_append_def)
  with False show ?thesis by auto
qed

section \<open>Contract scripts\<close>

lemma AddOp_ok:
  "sb_err b = None \<Longrightarrow> length (sb_script b) + 1 \<le> MaxScriptSize \<Longrightarrow> AddOp op b = sb_append [op] b"
  by (simp add: AddOp_def)

lemma sb_append_simps [simp]:
  "sb_err (sb_append d b) = sb_err b"
  "sb_script (sb_append d b) = sb_script b @ d"
  by (simp_all add: sb_append_def)

text \<open>The template of a contract output.\<close>

definition contract_script :: "bytes \<Rightarrow> bytes" where
  "contract_script payload =
     [OP_FALSE, OP_IF, 2, 0x43, 0x54, word_of_nat (length payload)] @ payload @ [OP_ENDIF, OP_FALSE]"

definition contract_payload_ok :: "bytes \<Rightarrow> bool" where
  "contract_payload_ok p \<longleftrightarrow> 3 \<le> length p \<and> p ! 0 = 1 \<and> p ! 1 \<noteq> 0"

lemma payToContractScript_eq:
  "payToContractScript p =
     (if contract_payload_ok p \<and> length p < 76 then Inr (contract_script p) else Inl ErrUnsupportedAddress)"
proof (cases "contract_payload_ok p \<and> length p < 76")
  case True
  have magic: "op_bytes (push_token contractScriptMagic) = [2, 0x43, 0x54]"
    "canonicalDataSize contractScriptMagic = 3"
    by (simp_all add: push_token_def contractScriptMagic_def opcode_length_def canonicalDataSize_def)
  have payload: "op_bytes (push_token p) = word_of_nat (length p) # p"
    using True by (auto simp: contract_payload_ok_def push_token_def opcode_length_unat
        unat_word_of_nat_small)
  have size: "canonicalDataSize p = Suc (length p)"
    using True canonicalDataSize_push_token [of p] payload by simp
  note steps = AddOp_ok AddData_ok magic payload size built_def Script_def NewScriptBuilder_def
    MaxScriptSize_def MaxScriptElementSize_def
  have "length contractScriptMagic = 2" by (simp add: contractScriptMagic_def)
  with True show ?thesis
    by (simp add: payToContractScript_def steps contract_payload_ok_def contract_script_def
        ContractAddressMinPayloadLen_def ContractAddressVersionV1_def sb_append_def)
next
  case False
  then show ?thesis
    by (auto simp: payToContractScript_def contract_payload_ok_def ContractAddressMinPayloadLen_def
        ContractAddressVersionV1_def)
qed

lemma extract_contract_script:
  assumes "contract_payload_ok p" "length p < 256"
  shows "extractContractScriptPayload (contract_script p) = Some p"
proof -
  define tl where "tl = [OP_ENDIF, OP_FALSE]"
  define n where "n = length p"
  have s: "contract_script p = [OP_FALSE, OP_IF, 2, 0x43, 0x54, word_of_nat n] @ p @ tl"
    by (simp add: contract_script_def tl_def n_def)
  have "contract_script p ! (6 + n) = OP_ENDIF" "contract_script p ! (7 + n) = OP_FALSE"
    unfolding s by (simp_all add: nth_append tl_def n_def)
  moreover have "slice (contract_script p) 6 (6 + n) = p"
    by (simp add: slice_def s n_def)
  moreover have "slice (contract_script p) 3 5 = contractScriptMagic"
    by (simp add: slice_def s contractScriptMagic_def)
  moreover have "contract_script p ! 0 = OP_FALSE" "contract_script p ! 1 = OP_IF"
    "contract_script p ! 2 = 2" "contract_script p ! 5 = word_of_nat n" "length (contract_script p) = n + 8"
    by (simp_all add: s tl_def n_def)
  moreover have "unat (word_of_nat n :: byte) = n"
    using assms(2) by (simp add: unat_word_of_nat_small n_def)
  ultimately show ?thesis
    using assms(1) by (simp add: extractContractScriptPayload_def contract_payload_ok_def Let_def
        ContractAddressMinPayloadLen_def contractScriptMagic_def n_def [symmetric])
qed

lemma six_prefix:
  "6 \<le> length xs \<Longrightarrow> take 6 xs = [xs ! 0, xs ! 1, xs ! 2, xs ! 3, xs ! 4, xs ! 5]"
  by (rule nth_equalityI) (auto simp: nth_Cons' less_Suc_eq numeral_eq_Suc)

lemma two_suffix: "length xs = n + 2 \<Longrightarrow> drop n xs = [xs ! n, xs ! Suc n]"
  using Cons_nth_drop_Suc [of n xs] Cons_nth_drop_Suc [of "Suc n" xs] by simp

lemma extract_contract_script_only:
  assumes "extractContractScriptPayload script = Some p"
  shows "contract_payload_ok p \<and> length p < 256 \<and> script = contract_script p"
proof -
  define n where "n = unat (script ! 5)"
  from assms have s: "script ! 0 = OP_FALSE" "script ! 1 = OP_IF" "script ! 2 = 2"
    "slice script 3 5 = [0x43, 0x54]" "3 \<le> n" "length script = n + 8"
    "script ! (6 + n) = OP_ENDIF" "script ! (7 + n) = OP_FALSE"
    and p: "p = slice script 6 (6 + n)" "p ! 0 = 1" "p ! 1 \<noteq> 0"
    by (auto simp: extractContractScriptPayload_def n_def Let_def ContractAddressMinPayloadLen_def
        contractScriptMagic_def split: if_splits)
  have n: "n < 256" "word_of_nat n = script ! 5" by (simp_all add: n_def unat_less_width)
  have len: "length p = n" using s(6) by (simp add: p(1) slice_def)
  have "slice script 3 5 = [script ! 3, script ! 4]"
    using s(6) Cons_nth_drop_Suc [of 3 script] Cons_nth_drop_Suc [of 4 script] s(5)
    by (simp add: slice_def take_Suc_conv_app_nth numeral_eq_Suc)
  with s(4) have magic: "script ! 3 = 0x43" "script ! 4 = 0x54" by simp_all
  have "take 6 script = [OP_FALSE, OP_IF, 2, 0x43, 0x54, script ! 5]"
    using s magic by (simp add: six_prefix)
  moreover have "take n (drop 6 script) = p" by (simp add: p(1) slice_def)
  moreover have "drop (6 + n) script = [OP_ENDIF, OP_FALSE]"
    using s(6,7,8) two_suffix [of script "6 + n"] by simp
  moreover have "script = take 6 script @ take n (drop 6 script) @ drop (6 + n) script"
    using append_take_drop_id [of n "drop 6 script"] by (simp add: add.commute)
  ultimately have "script = contract_script p"
    using n len by (simp add: contract_script_def)
  moreover have "contract_payload_ok p" using len s(5) p(2,3) by (simp add: contract_payload_ok_def)
  ultimately show ?thesis using n(1) len by blast
qed

lemma contract_script_parses:
  assumes "contract_payload_ok p" "length p < 76"
  shows "\<not> IsUnspendable (contract_script p)"
proof -
  define ops where "ops = [(OP_FALSE, None), (OP_IF, None), (2, Some [0x43, 0x54]),
    (word_of_nat (length p), Some p), (OP_ENDIF, None), (OP_FALSE, None)]"
  have len: "unat (word_of_nat (length p) :: byte) = length p"
    using assms(2) by (simp add: unat_word_of_nat_small)
  have "list_all token_ok ops" "contract_script p = concat (map op_bytes ops)"
    using assms len by (auto simp: ops_def contract_script_def opcode_length_unat contract_payload_ok_def)
  moreover have "hd (contract_script p) = OP_FALSE" "length (contract_script p) \<le> 10000"
    using assms by (simp_all add: contract_script_def)
  ultimately show ?thesis by (auto simp: IsUnspendable_cases)
qed

text \<open>
  A contract payload is recognised in exactly the scripts of the
  template, and the constructor produces the template; for payloads of less than 76 bytes the
  two are inverse to each other, and the produced script is never pruned as unspendable.
\<close>

lemma contract_script_roundtrip:
  "(payToContractScript p = Inr script \<longleftrightarrow>
      extractContractScriptPayload script = Some p \<and> length p < 76) \<and>
   (payToContractScript p = Inr script \<longrightarrow> \<not> IsUnspendable script)"
  using extract_contract_script [of p] extract_contract_script_only [of script p]
    contract_script_parses [of p]
  by (auto simp: payToContractScript_eq)

text \<open>
  C28 (contract recogniser wider than the constructor): the recogniser takes the byte after the
  magic as the payload length whatever opcode it is, so that for every well-formed payload of
  76 to 255 bytes there is a script it accepts although no contract address can produce one.
\<close>

theorem contract_script_overlong:
  assumes "contract_payload_ok p" "76 \<le> length p" "length p < 256"
  shows "(\<exists>script. extractContractScriptPayload script = Some p) \<and>
         payToContractScript p = Inl ErrUnsupportedAddress"
  using assms extract_contract_script [of p] by (auto simp: payToContractScript_eq)

theorem contract_script_overlong_witness:
  "\<exists>script. extractContractScriptPayload script = Some (1 # 1 # replicate 80 7)"
proof -
  have "contract_payload_ok (1 # 1 # replicate 80 7)" by (simp add: contract_payload_ok_def)
  with contract_script_overlong [of "1 # 1 # replicate 80 7"] show ?thesis by simp
qed

section \<open>Envelopes\<close>

lemma envelope_ops:
  "list_ex (\<lambda>i. fst (ops ! i) = OP_FALSE \<and> fst (ops ! (i + 1)) = OP_IF \<and>
       list_ex (\<lambda>j. fst (ops ! j) = OP_ENDIF) [i + 2..<length ops]) [0..<length ops - 2] \<longleftrightarrow>
   (\<exists>i j. i + 2 \<le> j \<and> j < length ops \<and> fst (ops ! i) = OP_FALSE \<and> fst (ops ! (i + 1)) = OP_IF \<and>
          fst (ops ! j) = OP_ENDIF)"
proof
  assume "\<exists>i j. i + 2 \<le> j \<and> j < length ops \<and> fst (ops ! i) = OP_FALSE \<and> fst (ops ! (i + 1)) = OP_IF \<and>
      fst (ops ! j) = OP_ENDIF"
  then obtain i j where "i + 2 \<le> j" "j < length ops" "fst (ops ! i) = OP_FALSE"
    "fst (ops ! (i + 1)) = OP_IF" "fst (ops ! j) = OP_ENDIF" by blast
  moreover from this have "i < length ops - 2" by linarith
  ultimately show "list_ex (\<lambda>i. fst (ops ! i) = OP_FALSE \<and> fst (ops ! (i + 1)) = OP_IF \<and>
      list_ex (\<lambda>j. fst (ops ! j) = OP_ENDIF) [i + 2..<length ops]) [0..<length ops - 2]"
    unfolding list_ex_iff by (intro bexI [of _ i] conjI bexI [of _ j]) auto
next
  assume "list_ex (\<lambda>i. fst (ops ! i) = OP_FALSE \<and> fst (ops ! (i + 1)) = OP_IF \<and>
      list_ex (\<lambda>j. fst (ops ! j) = OP_ENDIF) [i + 2..<length ops]) [0..<length ops - 2]"
  then obtain i j where "i + 2 \<le> j" "j < length ops" "fst (ops ! i) = OP_FALSE"
    "fst (ops ! (i + 1)) = OP_IF" "fst (ops ! j) = OP_ENDIF"
    unfolding list_ex_iff by (auto simp del: add_2_eq_Suc')
  then show "\<exists>i j. i + 2 \<le> j \<and> j < length ops \<and> fst (ops ! i) = OP_FALSE \<and>
      fst (ops ! (i + 1)) = OP_IF \<and> fst (ops ! j) = OP_ENDIF"
    by (intro exI conjI)
qed

lemma IsEnvelope_iff:
  "IsEnvelope script \<longleftrightarrow>
     (\<exists>ops i j. parseScript script = Inr ops \<and> i + 2 \<le> j \<and> j < length ops \<and>
        fst (ops ! i) = OP_FALSE \<and> fst (ops ! (i + 1)) = OP_IF \<and> fst (ops ! j) = OP_ENDIF)"
  unfolding IsEnvelope_def Let_def envelope_ops by (cases "parseScript script") auto

lemma truncated_push:
  assumes "parseScript script = Inr ops"
  shows "\<nexists>ops'. parseScript (script @ [OP_PUSHDATA1]) = Inr ops'"
proof -
  from assms have ok: "list_all token_ok ops" and script: "script = concat (map op_bytes ops)"
    by (simp_all add: parse_iff)
  have stuck: "next_token [OP_PUSHDATA1] = Inl UnexpectedEOF"
    by (simp add: next_token_def step_token_def opcode_length_def)
  have "scan (script @ [OP_PUSHDATA1]) = (ops, [OP_PUSHDATA1])"
    using scan_printed [of ops "[OP_PUSHDATA1]"] ok scan_stuck [OF stuck]
    by (simp add: script list_all_iff)
  then show ?thesis by (simp add: parseScript_scan scan_err_def)
qed

text \<open>
  C29 (envelopes of malformed scripts): \<^verbatim>\<open>IsEnvelope\<close> finds an \<^verbatim>\<open>OP_FALSE OP_IF\<close> with a
  later \<^verbatim>\<open>OP_ENDIF\<close> in the opcodes of a script that parses, and nothing in one that does not:
  appending a single truncated push to a script with an envelope hides the envelope.
\<close>

theorem envelope_hidden:
  "(IsEnvelope script \<longleftrightarrow>
      (\<exists>ops i j. parseScript script = Inr ops \<and> i + 2 \<le> j \<and> j < length ops \<and>
         fst (ops ! i) = OP_FALSE \<and> fst (ops ! (i + 1)) = OP_IF \<and> fst (ops ! j) = OP_ENDIF)) \<and>
   (IsEnvelope script \<longrightarrow> \<not> IsEnvelope (script @ [OP_PUSHDATA1]))"
proof (intro conjI impI)
  assume "IsEnvelope script"
  then obtain ops where "parseScript script = Inr ops" by (auto simp: IsEnvelope_iff)
  then have "\<nexists>ops'. parseScript (script @ [OP_PUSHDATA1]) = Inr ops'" by (rule truncated_push)
  then show "\<not> IsEnvelope (script @ [OP_PUSHDATA1])" by (auto simp: IsEnvelope_iff)
qed (rule IsEnvelope_iff)

theorem envelope_hidden_witness:
  "IsEnvelope [0x00, 0x63, 0x51, 0x68] \<and> \<not> IsEnvelope [0x00, 0x63, 0x51, 0x68, 0x4c]"
proof -
  have "parseScript [0x00, 0x63, 0x51, 0x68] =
      Inr [(0x00, None), (0x63, None), (0x51, None), (0x68, None)]"
    unfolding parse_iff by (simp add: opcode_length_def)
  then have "IsEnvelope [0x00, 0x63, 0x51, 0x68]"
    unfolding IsEnvelope_def by simp
  with envelope_hidden [of "[0x00, 0x63, 0x51, 0x68]"] show ?thesis by simp
qed

end
