(* ===== verification/Sighash.thy ===== *)
theory Sighash
  imports Wire_Tx Script_Standard
begin

text \<open>
  What a signature signs: \<^verbatim>\<open>txscript/sighash.go\<close> and \<^verbatim>\<open>txscript/hashcache.go\<close>.

  The three digests (legacy, witness version 0, taproot) are functions of the transaction, the
  input and the hash type; SHA-256 is the parameter \<open>sha\<close>.  A signature over everything binds the
  whole transaction; the digest of witness version 0 does not separate the fields of an asset.
\<close>

unbundle bit_operations_syntax

type_synonym SigHashType = u32

abbreviation (input) SigHashDefault :: SigHashType where "SigHashDefault \<equiv> 0x00"
abbreviation (input) SigHashAll :: SigHashType where "SigHashAll \<equiv> 0x1"
abbreviation (input) SigHashNone :: SigHashType where "SigHashNone \<equiv> 0x2"
abbreviation (input) SigHashSingle :: SigHashType where "SigHashSingle \<equiv> 0x3"
abbreviation (input) SigHashAnyOneCanPay :: SigHashType where "SigHashAnyOneCanPay \<equiv> 0x80"
abbreviation (input) sigHashMask :: SigHashType where "sigHashMask \<equiv> 0x1f"
abbreviation (input) OP_CODESEPARATOR :: byte where "OP_CODESEPARATOR \<equiv> 0xab"
abbreviation (input) blankHash :: bytes where "blankHash \<equiv> replicate 32 0"

section \<open>Hashes shared by the inputs\<close>

definition prevouts_bytes :: "'d MsgTx \<Rightarrow> bytes" where
  "prevouts_bytes tx = concat (map (\<lambda>txIn. writeOutPointBuf (PreviousOutPoint txIn)) (TxIns tx))"

definition calcHashPrevOuts :: "(bytes \<Rightarrow> bytes) \<Rightarrow> 'd MsgTx \<Rightarrow> bytes" where
  "calcHashPrevOuts sha tx = sha (prevouts_bytes tx)"

definition sequence_bytes :: "'d MsgTx \<Rightarrow> bytes" where
  "sequence_bytes tx = concat (map (\<lambda>txIn. PutUint32 LittleEndian (Sequence txIn)) (TxIns tx))"

definition calcHashSequence :: "(bytes \<Rightarrow> bytes) \<Rightarrow> 'd MsgTx \<Rightarrow> bytes" where
  "calcHashSequence sha tx = sha (sequence_bytes tx)"

text \<open>The error of the writer is dropped; what it wrote stays.\<close>

definition outputs_bytes :: "'d decimal_ops \<Rightarrow> 'd MsgTx \<Rightarrow> bytes" where
  "outputs_bytes dops tx = concat (map (\<lambda>out. fst (WriteTxOutBuf dops out)) (TxOuts tx))"

definition calcHashOutputs :: "(bytes \<Rightarrow> bytes) \<Rightarrow> 'd decimal_ops \<Rightarrow> 'd MsgTx \<Rightarrow> bytes" where
  "calcHashOutputs sha dops tx = sha (outputs_bytes dops tx)"

text \<open>The outputs spent, as the interface \<^verbatim>\<open>PrevOutputFetcher\<close> gives them; a missing one is nil.\<close>

type_synonym 'd PrevOutputFetcher = "OutPoint \<Rightarrow> 'd TxOut option"

definition CannedPrevOutputFetcher :: "bytes \<Rightarrow> i64 \<Rightarrow> 'd TxAssets \<Rightarrow> 'd PrevOutputFetcher" where
  "CannedPrevOutputFetcher script amt assets = (\<lambda>_. Some \<lparr>Value = amt, Assets = assets, PkScript = script\<rparr>)"

definition MultiPrevOutFetcher :: "(OutPoint \<rightharpoonup> 'd TxOut) \<Rightarrow> 'd PrevOutputFetcher" where
  "MultiPrevOutFetcher prevOuts = prevOuts"

definition AddPrevOut :: "OutPoint \<Rightarrow> 'd TxOut \<Rightarrow> (OutPoint \<rightharpoonup> 'd TxOut) \<Rightarrow> (OutPoint \<rightharpoonup> 'd TxOut)" where
  "AddPrevOut op txOut prevOuts = prevOuts(op \<mapsto> txOut)"

definition MergePrevOuts :: "(OutPoint \<rightharpoonup> 'd TxOut) \<Rightarrow> (OutPoint \<rightharpoonup> 'd TxOut) \<Rightarrow> (OutPoint \<rightharpoonup> 'd TxOut)" where
  "MergePrevOuts other prevOuts = prevOuts ++ other"

text \<open>\<open>None\<close> is the nil dereference on a missing output.\<close>

fun all_prevouts :: "'d PrevOutputFetcher \<Rightarrow> TxIn list \<Rightarrow> 'd TxOut list option" where
  "all_prevouts inputFetcher [] = Some []"
| "all_prevouts inputFetcher (txIn # txIns) =
     (case inputFetcher (PreviousOutPoint txIn) of None \<Rightarrow> None
      | Some prevOut \<Rightarrow> map_option ((#) prevOut) (all_prevouts inputFetcher txIns))"

definition amount_asset_bytes :: "'d decimal_ops \<Rightarrow> 'd AssetInfo \<Rightarrow> bytes" where
  "amount_asset_bytes dops asset =
     WriteVarBytesBuf (Protocol (AssetInfo_Name asset)) @ WriteVarBytesBuf (AssetType (AssetInfo_Name asset)) @
     WriteVarBytesBuf (Ticker (AssetInfo_Name asset)) @ WriteVarBytesBuf (ToFormatString dops (Amount asset)) @
     PutUint32 LittleEndian (BindingSat asset)"

definition amount_bytes :: "'d decimal_ops \<Rightarrow> i64 \<times> 'd TxAssets \<Rightarrow> bytes" where
  "amount_bytes dops = (\<lambda>(amt, assets).
     PutUint64 LittleEndian amt @ PutUint64 LittleEndian (word_of_nat (length assets)) @
     concat (map (amount_asset_bytes dops) assets))"

definition input_amounts_bytes :: "'d decimal_ops \<Rightarrow> 'd TxOut list \<Rightarrow> bytes" where
  "input_amounts_bytes dops prevOuts = concat (map (\<lambda>prevOut. amount_bytes dops (Value prevOut, Assets prevOut)) prevOuts)"

definition input_scripts_bytes :: "'d TxOut list \<Rightarrow> bytes" where
  "input_scripts_bytes prevOuts = concat (map (\<lambda>prevOut. WriteVarBytesBuf (PkScript prevOut)) prevOuts)"

definition calcHashInputAmounts :: "(bytes \<Rightarrow> bytes) \<Rightarrow> 'd decimal_ops \<Rightarrow> 'd MsgTx \<Rightarrow> 'd PrevOutputFetcher \<Rightarrow> bytes option" where
  "calcHashInputAmounts sha dops tx inputFetcher =
     map_option (\<lambda>prevOuts. sha (input_amounts_bytes dops prevOuts)) (all_prevouts inputFetcher (TxIns tx))"

definition calcHashInputScripts :: "(bytes \<Rightarrow> bytes) \<Rightarrow> 'd MsgTx \<Rightarrow> 'd PrevOutputFetcher \<Rightarrow> bytes option" where
  "calcHashInputScripts sha tx inputFetcher =
     map_option (\<lambda>prevOuts. sha (input_scripts_bytes prevOuts)) (all_prevouts inputFetcher (TxIns tx))"

record TxSigHashes =
  HashPrevOutsV0 :: bytes
  HashSequenceV0 :: bytes
  HashOutputsV0 :: bytes
  HashPrevOutsV1 :: bytes
  HashSequenceV1 :: bytes
  HashOutputsV1 :: bytes
  HashInputScriptsV1 :: bytes
  HashInputAmountsV1 :: bytes

text \<open>The loop that looks for inputs of either kind; it stops when it has seen both.\<close>

fun input_kinds :: "'d PrevOutputFetcher \<Rightarrow> TxIn list \<Rightarrow> bool \<times> bool \<Rightarrow> (bool \<times> bool) option" where
  "input_kinds inputFetcher [] kinds = Some kinds"
| "input_kinds inputFetcher (txIn # txIns) (hasV0Inputs, hasV1Inputs) =
     (let outpoint = PreviousOutPoint txIn in
      if Index outpoint = 0xffffffff \<and> Hash outpoint = blankHash then input_kinds inputFetcher txIns (True, hasV1Inputs)
      else case inputFetcher outpoint of None \<Rightarrow> None
      | Some prevOut \<Rightarrow>
          let (v0, v1) = (if extractWitnessV1KeyBytes (PkScript prevOut) \<noteq> None then (hasV0Inputs, True) else (True, hasV1Inputs))
          in if v0 \<and> v1 then Some (v0, v1) else input_kinds inputFetcher txIns (v0, v1))"

definition NewTxSigHashes :: "(bytes \<Rightarrow> bytes) \<Rightarrow> 'd decimal_ops \<Rightarrow> 'd MsgTx \<Rightarrow> 'd PrevOutputFetcher \<Rightarrow> TxSigHashes option" where
  "NewTxSigHashes sha dops tx inputFetcher =
     Option.bind (input_kinds inputFetcher (TxIns tx) (False, False)) (\<lambda>(hasV0Inputs, hasV1Inputs).
       let prevOuts = calcHashPrevOuts sha tx; sequence = calcHashSequence sha tx; outputs = calcHashOutputs sha dops tx;
           v0 = (\<lambda>x. if hasV0Inputs then sha x else blankHash);
           sigHashes = \<lparr>HashPrevOutsV0 = v0 prevOuts, HashSequenceV0 = v0 sequence, HashOutputsV0 = v0 outputs,
             HashPrevOutsV1 = prevOuts, HashSequenceV1 = sequence, HashOutputsV1 = outputs,
             HashInputScriptsV1 = blankHash, HashInputAmountsV1 = blankHash\<rparr>
       in if \<not> hasV1Inputs then Some sigHashes
          else Option.bind (calcHashInputAmounts sha dops tx inputFetcher) (\<lambda>amounts.
            map_option (\<lambda>scripts. sigHashes\<lparr>HashInputAmountsV1 := amounts, HashInputScriptsV1 := scripts\<rparr>)
              (calcHashInputScripts sha tx inputFetcher)))"

section \<open>The cache of hashes\<close>

type_synonym HashCache = "bytes \<Rightarrow> TxSigHashes option"

definition AddSigHashes ::
    "(bytes \<Rightarrow> bytes) \<Rightarrow> 'd decimal_ops \<Rightarrow> 'd MsgTx \<Rightarrow> 'd PrevOutputFetcher \<Rightarrow> HashCache \<Rightarrow> HashCache option" where
  "AddSigHashes sha dops tx inputFetcher h =
     map_option (\<lambda>s. h(TxHash sha dops tx \<mapsto> s)) (NewTxSigHashes sha dops tx inputFetcher)"

definition ContainsHashes :: "bytes \<Rightarrow> HashCache \<Rightarrow> bool" where
  "ContainsHashes txid h \<longleftrightarrow> h txid \<noteq> None"

definition GetSigHashes :: "bytes \<Rightarrow> HashCache \<Rightarrow> TxSigHashes option" where
  "GetSigHashes txid h = h txid"

definition PurgeSigHashes :: "bytes \<Rightarrow> HashCache \<Rightarrow> HashCache" where
  "PurgeSigHashes txid h = h(txid := None)"

section \<open>Legacy signatures\<close>

text \<open>
  The copy of the transaction that is signed; \<open>None\<close> is the slice out of range when only the input
  \<open>idx\<close> is kept and there is none.  Of the outputs before the input only the value and the script
  are blanked.
\<close>

definition blank_sequences :: "nat \<Rightarrow> TxIn list \<Rightarrow> TxIn list" where
  "blank_sequences idx txIns = map (\<lambda>(i, txIn). if i \<noteq> idx then txIn\<lparr>Sequence := 0\<rparr> else txIn) (enumerate 0 txIns)"

definition sighash_copy :: "bytes \<Rightarrow> SigHashType \<Rightarrow> 'd MsgTx \<Rightarrow> nat \<Rightarrow> 'd MsgTx option" where
  "sighash_copy sigScript hashType tx idx =
     (let sigScript = removeOpcodeRaw sigScript OP_CODESEPARATOR;
          txIns = map (\<lambda>(i, txIn). txIn\<lparr>SignatureScript := if i = idx then sigScript else []\<rparr>) (enumerate 0 (TxIns tx));
          (txIns, txOuts) =
            (if hashType AND sigHashMask = SigHashNone then (blank_sequences idx txIns, [])
             else if hashType AND sigHashMask = SigHashSingle then
               (blank_sequences idx txIns,
                map (\<lambda>(i, out). if i < idx then out\<lparr>Value := - 1, PkScript := []\<rparr> else out) (enumerate 0 (take (idx + 1) (TxOuts tx))))
             else (txIns, TxOuts tx))
      in if hashType AND SigHashAnyOneCanPay \<noteq> 0 then
           if idx < length txIns then Some (tx\<lparr>TxIns := [txIns ! idx], TxOuts := txOuts\<rparr>) else None
         else Some (tx\<lparr>TxIns := txIns, TxOuts := txOuts\<rparr>))"

definition calcSignatureHash ::
    "(bytes \<Rightarrow> bytes) \<Rightarrow> 'd decimal_ops \<Rightarrow> bytes \<Rightarrow> SigHashType \<Rightarrow> 'd MsgTx \<Rightarrow> nat \<Rightarrow> bytes option" where
  "calcSignatureHash sha dops sigScript hashType tx idx =
     (if hashType AND sigHashMask = SigHashSingle \<and> idx \<ge> length (TxOuts tx) then Some (0x01 # replicate 31 0)
      else map_option (\<lambda>txCopy. DoubleHashRaw sha
             (wthen (SerializeNoWitness dops txCopy) (wrote (PutUint32 LittleEndian hashType))))
           (sighash_copy sigScript hashType tx idx))"

definition CalcSignatureHash ::
    "(bytes \<Rightarrow> bytes) \<Rightarrow> 'd decimal_ops \<Rightarrow> bytes \<Rightarrow> SigHashType \<Rightarrow> 'd MsgTx \<Rightarrow> nat \<Rightarrow> ErrorCode + bytes option" where
  "CalcSignatureHash sha dops script hashType tx idx =
     andthen (checkScriptParses 0 script) (\<lambda>_. Inr (calcSignatureHash sha dops script hashType tx idx))"

section \<open>Witness version 0\<close>

text \<open>The fields of an asset are written one after the other, without their lengths.\<close>

definition v0_asset_bytes :: "'d decimal_ops \<Rightarrow> 'd AssetInfo \<Rightarrow> bytes" where
  "v0_asset_bytes dops asset =
     Protocol (AssetInfo_Name asset) @ AssetType (AssetInfo_Name asset) @ Ticker (AssetInfo_Name asset) @
     ToFormatString dops (Amount asset) @ PutUint32 LittleEndian (BindingSat asset)"

definition v0_script_code :: "bytes \<Rightarrow> bytes" where
  "v0_script_code subScript =
     (case extractWitnessPubKeyHash subScript of
        Some hash \<Rightarrow> [0x19, OP_DUP, OP_HASH160, OP_DATA_20] @ hash @ [OP_EQUALVERIFY, OP_CHECKSIG]
      | None \<Rightarrow> WriteVarBytesBuf subScript)"

text \<open>\<open>None\<close> is the error for an index out of range.\<close>

definition calcWitnessSignatureHashRaw ::
    "(bytes \<Rightarrow> bytes) \<Rightarrow> 'd decimal_ops \<Rightarrow> bytes \<Rightarrow> TxSigHashes \<Rightarrow> SigHashType \<Rightarrow> 'd MsgTx \<Rightarrow> nat \<Rightarrow> i64 \<Rightarrow> 'd TxAssets \<Rightarrow> bytes option" where
  "calcWitnessSignatureHashRaw sha dops subScript sigHashes hashType tx idx amt assets =
     (if int idx > int (length (TxIns tx)) - 1 then None
      else
        let anyone = (hashType AND SigHashAnyOneCanPay \<noteq> 0); kind = hashType AND sigHashMask; txIn = TxIns tx ! idx;
            data = PutUint32 LittleEndian (Version tx) @
              (if \<not> anyone then HashPrevOutsV0 sigHashes else blankHash) @
              (if \<not> anyone \<and> kind \<noteq> SigHashSingle \<and> kind \<noteq> SigHashNone then HashSequenceV0 sigHashes else blankHash) @
              Hash (PreviousOutPoint txIn) @ PutUint32 LittleEndian (Index (PreviousOutPoint txIn)) @
              v0_script_code subScript @
              PutUint64 LittleEndian amt @ PutUint64 LittleEndian (word_of_nat (length assets)) @
              concat (map (v0_asset_bytes dops) assets) @
              PutUint32 LittleEndian (Sequence txIn) @
              (if kind \<noteq> SigHashSingle \<and> kind \<noteq> SigHashNone then HashOutputsV0 sigHashes
               else if kind = SigHashSingle \<and> idx < length (TxOuts tx) then DoubleHashRaw sha (WriteTxOutBuf dops (TxOuts tx ! idx))
               else blankHash) @
              PutUint32 LittleEndian (LockTime tx) @ PutUint32 LittleEndian hashType
        in Some (sha (sha data)))"

definition CalcWitnessSigHash ::
    "(bytes \<Rightarrow> bytes) \<Rightarrow> 'd decimal_ops \<Rightarrow> bytes \<Rightarrow> TxSigHashes \<Rightarrow> SigHashType \<Rightarrow> 'd MsgTx \<Rightarrow> nat \<Rightarrow> i64 \<Rightarrow> 'd TxAssets \<Rightarrow>
     ErrorCode + bytes option" where
  "CalcWitnessSigHash sha dops script sigHashes hType tx idx amt assets =
     andthen (checkScriptParses 0 script) (\<lambda>_. Inr (calcWitnessSignatureHashRaw sha dops script sigHashes hType tx idx amt assets))"

section \<open>Taproot\<close>

datatype sighash_error = SigHashInvalid | SigHashWrite wire_error | SigHashPanic

text \<open>The options: \<open>so_tapscript\<close> is the extension flag.\<close>

record taprootSigHashOptions =
  so_tapscript :: bool
  so_annexHash :: "bytes option"
  so_tapLeafHash :: bytes
  so_keyVersion :: byte
  so_codeSepPos :: u32

definition defaultTaprootSighashOptions :: taprootSigHashOptions where
  "defaultTaprootSighashOptions =
     \<lparr>so_tapscript = False, so_annexHash = None, so_tapLeafHash = [], so_keyVersion = 0, so_codeSepPos = 0\<rparr>"

definition writeDigestExtensions :: "taprootSigHashOptions \<Rightarrow> bytes" where
  "writeDigestExtensions t =
     (if \<not> so_tapscript t then []
      else so_tapLeafHash t @ [so_keyVersion t] @ PutUint32 LittleEndian (so_codeSepPos t))"

definition WithAnnex :: "(bytes \<Rightarrow> bytes) \<Rightarrow> bytes \<Rightarrow> taprootSigHashOptions \<Rightarrow> taprootSigHashOptions" where
  "WithAnnex sha annex opts = opts\<lparr>so_annexHash := Some (sha (WriteVarBytesBuf annex))\<rparr>"

definition WithBaseTapscriptVersion :: "u32 \<Rightarrow> bytes \<Rightarrow> taprootSigHashOptions \<Rightarrow> taprootSigHashOptions" where
  "WithBaseTapscriptVersion codeSepPos tapLeafHash opts =
     opts\<lparr>so_tapscript := True, so_tapLeafHash := tapLeafHash, so_keyVersion := 0, so_codeSepPos := codeSepPos\<rparr>"

definition isValidTaprootSigHash :: "SigHashType \<Rightarrow> bool" where
  "isValidTaprootSigHash hashType \<longleftrightarrow> hashType \<in> {SigHashDefault, SigHashAll, SigHashNone, SigHashSingle, 0x81, 0x82, 0x83}"

definition TaggedHash :: "(bytes \<Rightarrow> bytes) \<Rightarrow> bytes \<Rightarrow> bytes \<Rightarrow> bytes" where
  "TaggedHash sha tag msg = sha (sha tag @ sha tag @ msg)"

definition TagTapSighash :: bytes where
  "TagTapSighash = [0x54, 0x61, 0x70, 0x53, 0x69, 0x67, 0x68, 0x61, 0x73, 0x68]"

text \<open>A writer that fails ends the function with its error.\<close>

definition written :: "wire_error written \<Rightarrow> sighash_error + bytes" where
  "written w = (case w of (b, None) \<Rightarrow> Inr b | (b, Some e) \<Rightarrow> Inl (SigHashWrite e))"

definition calcTaprootSignatureHashRaw ::
    "(bytes \<Rightarrow> bytes) \<Rightarrow> 'd decimal_ops \<Rightarrow> TxSigHashes \<Rightarrow> SigHashType \<Rightarrow> 'd MsgTx \<Rightarrow> nat \<Rightarrow> 'd PrevOutputFetcher \<Rightarrow>
     taprootSigHashOptions \<Rightarrow> sighash_error + bytes" where
  "calcTaprootSignatureHashRaw sha dops sigHashes hType tx idx prevOutFetcher opts =
     (if \<not> isValidTaprootSigHash hType then Inl SigHashInvalid
      else if int idx > int (length (TxIns tx)) - 1 then Inl SigHashInvalid
      else
        let anyone = (hType AND SigHashAnyOneCanPay = SigHashAnyOneCanPay); input = TxIns tx ! idx;
            common = [0x00, ucast hType] @ PutUint32 LittleEndian (Version tx) @ PutUint32 LittleEndian (LockTime tx) @
              (if \<not> anyone then HashPrevOutsV1 sigHashes @ HashInputAmountsV1 sigHashes @ HashInputScriptsV1 sigHashes @ HashSequenceV1 sigHashes else []) @
              (if hType AND SigHashSingle \<noteq> SigHashSingle \<and> hType AND SigHashSingle \<noteq> SigHashNone then HashOutputsV1 sigHashes else []) @
              [(if so_tapscript opts then 2 else 0) + (if so_annexHash opts \<noteq> None then 1 else 0)]
        in
        andthen
          (if anyone then
             case prevOutFetcher (PreviousOutPoint input) of None \<Rightarrow> Inl SigHashPanic
             | Some prevOut \<Rightarrow>
                 andthen (written (WriteTxOutBuf dops prevOut)) (\<lambda>out.
                   Inr (writeOutPointBuf (PreviousOutPoint input) @ out @ PutUint32 LittleEndian (Sequence input)))
           else Inr (PutUint32 LittleEndian (word_of_nat idx))) (\<lambda>which.
        andthen
          (if hType AND sigHashMask = SigHashSingle then
             if idx \<ge> length (TxOuts tx) then Inl SigHashInvalid
             else andthen (written (WriteTxOutBuf dops (TxOuts tx ! idx))) (\<lambda>out. Inr (sha out))
           else Inr []) (\<lambda>single.
          Inr (TaggedHash sha TagTapSighash
            (common @ which @ (case so_annexHash opts of None \<Rightarrow> [] | Some a \<Rightarrow> a) @ single @ writeDigestExtensions opts)))))"

definition CalcTaprootSignatureHash ::
    "(bytes \<Rightarrow> bytes) \<Rightarrow> 'd decimal_ops \<Rightarrow> TxSigHashes \<Rightarrow> SigHashType \<Rightarrow> 'd MsgTx \<Rightarrow> nat \<Rightarrow> 'd PrevOutputFetcher \<Rightarrow> sighash_error + bytes" where
  "CalcTaprootSignatureHash sha dops sigHashes hType tx idx prevOutFetcher =
     calcTaprootSignatureHashRaw sha dops sigHashes hType tx idx prevOutFetcher defaultTaprootSighashOptions"

section \<open>Messages that parse in one way only\<close>

text \<open>
  The messages that are hashed are rows of encodings with nothing between them.  A reader is not
  needed to see that a row determines its values: no encoding is a prefix of another one.
\<close>

locale prefix_code =
  fixes enc :: "'a \<Rightarrow> bytes"
    and ok :: "'a \<Rightarrow> bool"
  assumes parse_unique: "ok x \<Longrightarrow> ok y \<Longrightarrow> enc x @ r = enc y @ s \<Longrightarrow> x = y \<and> r = s"
    and nonempty: "enc x \<noteq> []"
begin

lemma row_unique:
  "list_all ok xs \<Longrightarrow> list_all ok ys \<Longrightarrow> concat (map enc xs) = concat (map enc ys) \<Longrightarrow> xs = ys"
proof (induction xs arbitrary: ys)
  case Nil
  then show ?case by (cases ys) (simp_all add: nonempty)
next
  case (Cons x xs)
  from Cons.prems obtain y ys' where ys: "ys = y # ys'" by (cases ys) (simp_all add: nonempty)
  with Cons.prems parse_unique [of x y "concat (map enc xs)" "concat (map enc ys')"] show ?case
    by (auto intro: Cons.IH)
qed

lemma counted_row_unique:
  "list_all ok xs \<Longrightarrow> list_all ok ys \<Longrightarrow> length xs = length ys \<Longrightarrow>
   concat (map enc xs) @ r = concat (map enc ys) @ s \<Longrightarrow> xs = ys \<and> r = s"
proof (induction xs arbitrary: ys)
  case Nil
  then show ?case by simp
next
  case (Cons x xs)
  from Cons.prems obtain y ys' where ys: "ys = y # ys'" by (cases ys) auto
  with Cons.prems parse_unique [of x y "concat (map enc xs) @ r" "concat (map enc ys') @ s"] Cons.IH [of ys'] show ?case
    by auto
qed

end

lemma WriteVarBytesBuf_unique:
  "length x < 2 ^ 64 \<Longrightarrow> length y < 2 ^ 64 \<Longrightarrow> WriteVarBytesBuf x @ r = WriteVarBytesBuf y @ s \<longleftrightarrow> x = y \<and> r = s"
  using str.enc_unique [of x "max (length x) (length y)" y r s] by auto

lemma PutUint32_unique: "PutUint32 LittleEndian v @ r = PutUint32 LittleEndian w @ s \<longleftrightarrow> v = w \<and> r = s"
  using uint32.enc_unique by blast

lemma PutUint32_eq: "PutUint32 LittleEndian v = PutUint32 LittleEndian w \<longleftrightarrow> v = w"
  using PutUint32_unique [of v "[]" w "[]"] by simp

lemma PutUint64_unique: "PutUint64 LittleEndian v @ r = PutUint64 LittleEndian w @ s \<longleftrightarrow> v = w \<and> r = s"
  using uint64.enc_unique by blast

lemma put_nonempty [simp]: "PutUint32 bo v \<noteq> []" "PutUint64 bo w \<noteq> []" "WriteVarInt w \<noteq> []"
  by (rule notI, drule arg_cong [of _ _ length], simp add: VarIntSerializeSize_def split: if_splits)+

text \<open>An asset as the taproot digest writes it; the fields fit Go's strings and the amount is read back.\<close>

definition asset_name_ok :: "'d decimal_ops \<Rightarrow> 'd AssetInfo \<Rightarrow> bool" where
  "asset_name_ok dops asset \<longleftrightarrow>
     length (Protocol (AssetInfo_Name asset)) < 2 ^ 64 \<and> length (AssetType (AssetInfo_Name asset)) < 2 ^ 64 \<and>
     length (Ticker (AssetInfo_Name asset)) < 2 ^ 64 \<and> length (ToFormatString dops (Amount asset)) < 2 ^ 64 \<and>
     NewDecimalFromFormatString dops (ToFormatString dops (Amount asset)) = Some (Amount asset)"

lemma asset_name_unique:
  assumes "asset_name_ok dops x" "asset_name_ok dops y" "amount_asset_bytes dops x @ r = amount_asset_bytes dops y @ s"
  shows "x = y \<and> r = s"
proof -
  note ok = assms(1,2) [unfolded asset_name_ok_def]
  have eq: "Protocol (AssetInfo_Name x) = Protocol (AssetInfo_Name y) \<and> AssetType (AssetInfo_Name x) = AssetType (AssetInfo_Name y) \<and>
    Ticker (AssetInfo_Name x) = Ticker (AssetInfo_Name y) \<and>
    ToFormatString dops (Amount x) = ToFormatString dops (Amount y) \<and> BindingSat x = BindingSat y \<and> r = s"
    using assms(3) unfolding amount_asset_bytes_def append_assoc
    by (simp only: ok WriteVarBytesBuf_unique PutUint32_unique simp_thms)
  then have "Amount x = Amount y" using assms(1,2) by (metis asset_name_ok_def option.inject)
  with eq show ?thesis by simp
qed

interpretation asset_row: prefix_code "amount_asset_bytes dops" "asset_name_ok dops" for dops
proof unfold_locales
  show "amount_asset_bytes dops x \<noteq> []" for x
    by (simp add: amount_asset_bytes_def)
qed (blast dest: asset_name_unique)+

interpretation amount_row: prefix_code "amount_bytes dops" "\<lambda>(amt, assets). length assets < 2 ^ 64 \<and> list_all (asset_name_ok dops) assets" for dops
proof unfold_locales
  fix x y :: "i64 \<times> 'a TxAssets" and r s
  assume x: "case x of (amt, assets) \<Rightarrow> length assets < 2 ^ 64 \<and> list_all (asset_name_ok dops) assets"
    and y: "case y of (amt, assets) \<Rightarrow> length assets < 2 ^ 64 \<and> list_all (asset_name_ok dops) assets"
    and eq: "amount_bytes dops x @ r = amount_bytes dops y @ s"
  obtain a as b bs where xy: "x = (a, as)" "y = (b, bs)" by (cases x, cases y)
  note ok = x [unfolded xy prod.case] y [unfolded xy prod.case]
  from eq have eq': "a = b \<and> word_of_nat (length as) = (word_of_nat (length bs) :: u64) \<and>
      concat (map (amount_asset_bytes dops) as) @ r = concat (map (amount_asset_bytes dops) bs) @ s"
    unfolding amount_bytes_def xy prod.case append_assoc PutUint64_unique .
  then have "length as = length bs" using ok unat_length_u64 by metis
  then have "as = bs \<and> r = s" using ok eq' by (intro asset_row.counted_row_unique [of dops]) blast+
  with eq' xy show "x = y \<and> r = s" by blast
next
  show "amount_bytes dops x \<noteq> []" for x :: "i64 \<times> 'a TxAssets"
    by (simp add: amount_bytes_def split: prod.splits)
qed

interpretation script_row: prefix_code WriteVarBytesBuf "\<lambda>s. length s < 2 ^ 64"
proof unfold_locales
  show "WriteVarBytesBuf x \<noteq> []" for x
    by (simp add: WriteVarBytesBuf_def)
qed (simp_all add: WriteVarBytesBuf_unique)

interpretation outpoint_row: prefix_code writeOutPointBuf "\<lambda>op. length (Hash op) = 32"
  by unfold_locales (rule outpoint.enc_unique, assumption+, simp add: writeOutPointBuf_def)

interpretation sequence_row: prefix_code "PutUint32 LittleEndian" "\<lambda>_. True"
  by unfold_locales (simp_all add: PutUint32_unique)

interpretation txout_row: prefix_code "TxOutBytes dops" "txout_ok dops slab" for dops slab
proof unfold_locales
  show "TxOutBytes dops x \<noteq> []" for x by (simp add: TxOutBytes_def)
qed (rule txout.enc_unique)

section \<open>What a taproot signature signs\<close>

text \<open>The input spends a taproot output and is not a coinbase.\<close>

definition taproot_input :: "'d PrevOutputFetcher \<Rightarrow> TxIn \<Rightarrow> bool" where
  "taproot_input f txIn \<longleftrightarrow>
     \<not> (Index (PreviousOutPoint txIn) = 0xffffffff \<and> Hash (PreviousOutPoint txIn) = blankHash) \<and>
     (\<exists>prevOut. f (PreviousOutPoint txIn) = Some prevOut \<and> extractWitnessV1KeyBytes (PkScript prevOut) \<noteq> None)"

definition spent_ok :: "'d decimal_ops \<Rightarrow> 'd TxOut \<Rightarrow> bool" where
  "spent_ok dops prevOut \<longleftrightarrow> length (Assets prevOut) < 2 ^ 64 \<and> list_all (asset_name_ok dops) (Assets prevOut) \<and>
     length (PkScript prevOut) < 2 ^ 64"

text \<open>A transaction whose input \<open>idx\<close> spends a taproot output; \<open>outs\<close> are the outputs it spends.\<close>

definition taproot_signable :: "'d decimal_ops \<Rightarrow> 'd PrevOutputFetcher \<Rightarrow> 'd MsgTx \<Rightarrow> nat \<Rightarrow> 'd TxOut list \<Rightarrow> bool" where
  "taproot_signable dops f tx idx outs \<longleftrightarrow>
     idx < length (TxIns tx) \<and> length (TxIns tx) < 2 ^ 32 \<and> taproot_input f (TxIns tx ! idx) \<and>
     all_prevouts f (TxIns tx) = Some outs \<and> list_all (spent_ok dops) outs \<and>
     hashes_ok tx \<and> list_all (txout_ok dops scriptSlabSize) (TxOuts tx)"

lemma input_kinds_Some:
  "all_prevouts f ins = Some outs \<Longrightarrow> (\<exists>txIn \<in> set ins. taproot_input f txIn) \<or> v1 \<Longrightarrow>
   \<exists>k0. input_kinds f ins (v0, v1) = Some (k0, True)"
proof (induction ins arbitrary: outs v0 v1)
  case Nil
  then show ?case by simp
next
  case (Cons txIn ins)
  from Cons.prems(1) obtain prevOut outs' where f: "f (PreviousOutPoint txIn) = Some prevOut" "all_prevouts f ins = Some outs'"
    by (auto split: option.splits)
  note IH = Cons.IH [OF f(2)]
  let ?coinbase = "Index (PreviousOutPoint txIn) = 0xffffffff \<and> Hash (PreviousOutPoint txIn) = blankHash"
  let ?tap = "extractWitnessV1KeyBytes (PkScript prevOut) \<noteq> None"
  have tap: "taproot_input f txIn \<longleftrightarrow> \<not> ?coinbase \<and> ?tap" using f by (simp add: taproot_input_def)
  have here: "taproot_input f txIn \<or> (\<exists>txIn \<in> set ins. taproot_input f txIn) \<or> v1" using Cons.prems(2) by auto
  consider "?coinbase" | "\<not> ?coinbase" "?tap" | "\<not> ?coinbase" "\<not> ?tap" by blast
  then show ?case
  proof cases
    case 1
    with here tap IH [of v1 True] show ?thesis by simp
  next
    case 2
    with f IH [of True v0] show ?thesis by (cases v0) auto
  next
    case 3
    with here tap f IH [of v1 True] show ?thesis by (cases v1) auto
  qed
qed

text \<open>The message under the tag, for a signature over everything.\<close>

definition taproot_message :: "TxSigHashes \<Rightarrow> SigHashType \<Rightarrow> 'd MsgTx \<Rightarrow> nat \<Rightarrow> bytes" where
  "taproot_message sigHashes hType tx idx =
     [0x00, ucast hType] @ PutUint32 LittleEndian (Version tx) @ PutUint32 LittleEndian (LockTime tx) @
     HashPrevOutsV1 sigHashes @ HashInputAmountsV1 sigHashes @ HashInputScriptsV1 sigHashes @ HashSequenceV1 sigHashes @
     HashOutputsV1 sigHashes @ [0] @ PutUint32 LittleEndian (word_of_nat idx)"

lemma taproot_digest:
  assumes "hType = SigHashDefault \<or> hType = SigHashAll" and "idx < length (TxIns tx)"
  shows "CalcTaprootSignatureHash sha dops sigHashes hType tx idx f =
    Inr (TaggedHash sha TagTapSighash (taproot_message sigHashes hType tx idx))"
  using assms by (auto simp: CalcTaprootSignatureHash_def calcTaprootSignatureHashRaw_def isValidTaprootSigHash_def
      taproot_message_def defaultTaprootSighashOptions_def writeDigestExtensions_def)

lemma taproot_kinds:
  "taproot_signable dops f tx idx outs \<Longrightarrow> \<exists>k0. input_kinds f (TxIns tx) (False, False) = Some (k0, True)"
  using input_kinds_Some [of f "TxIns tx" outs False False] nth_mem [of idx "TxIns tx"]
  unfolding taproot_signable_def by blast

lemma NewTxSigHashes_taproot:
  assumes "taproot_signable dops f tx idx outs" and "NewTxSigHashes sha dops tx f = Some sigHashes"
  shows "HashPrevOutsV1 sigHashes = sha (prevouts_bytes tx)" and "HashSequenceV1 sigHashes = sha (sequence_bytes tx)"
    and "HashOutputsV1 sigHashes = sha (outputs_bytes dops tx)"
    and "HashInputAmountsV1 sigHashes = sha (input_amounts_bytes dops outs)"
    and "HashInputScriptsV1 sigHashes = sha (input_scripts_bytes outs)"
proof -
  obtain k0 where "input_kinds f (TxIns tx) (False, False) = Some (k0, True)"
    using taproot_kinds [OF assms(1)] ..
  with assms show "HashPrevOutsV1 sigHashes = sha (prevouts_bytes tx)" and "HashSequenceV1 sigHashes = sha (sequence_bytes tx)"
    and "HashOutputsV1 sigHashes = sha (outputs_bytes dops tx)"
    and "HashInputAmountsV1 sigHashes = sha (input_amounts_bytes dops outs)"
    and "HashInputScriptsV1 sigHashes = sha (input_scripts_bytes outs)"
    by (auto simp: NewTxSigHashes_def Let_def calcHashInputAmounts_def calcHashInputScripts_def taproot_signable_def
        calcHashPrevOuts_def calcHashSequence_def calcHashOutputs_def)
qed

lemma NewTxSigHashes_Some:
  assumes "taproot_signable dops f tx idx outs"
  shows "\<exists>s. NewTxSigHashes sha dops tx f = Some s"
proof -
  obtain k0 where "input_kinds f (TxIns tx) (False, False) = Some (k0, True)" using taproot_kinds [OF assms] ..
  with assms show ?thesis
    by (simp add: taproot_signable_def NewTxSigHashes_def Let_def calcHashInputAmounts_def calcHashInputScripts_def)
qed

lemma outputs_bytes_ok:
  "list_all (txout_ok dops slab) (TxOuts tx) \<Longrightarrow> outputs_bytes dops tx = concat (map (TxOutBytes dops) (TxOuts tx))"
  unfolding outputs_bytes_def
  by (intro arg_cong [of _ _ concat] map_cong refl) (auto simp: list_all_iff dest!: txout_ok_assets_valid WriteTxOutBuf_valid)

lemma maps_determine:
  "map f xs = map f ys \<Longrightarrow> map g xs = map g ys \<Longrightarrow> (\<And>x y. f x = f y \<Longrightarrow> g x = g y \<Longrightarrow> x = y) \<Longrightarrow> xs = ys"
  by (induction xs arbitrary: ys) (auto simp: Cons_eq_map_conv)

lemma spent_outputs_unique:
  assumes "list_all (spent_ok dops) outs" "list_all (spent_ok dops) outs'"
    and "input_amounts_bytes dops outs = input_amounts_bytes dops outs'" "input_scripts_bytes outs = input_scripts_bytes outs'"
  shows "outs = outs'"
proof -
  have "map (\<lambda>out. (Value out, Assets out)) outs = map (\<lambda>out. (Value out, Assets out)) outs'"
    using assms by (intro amount_row.row_unique [of dops])
      (auto simp: input_amounts_bytes_def comp_def list_all_iff spent_ok_def)
  moreover have "map PkScript outs = map PkScript outs'"
    using assms by (intro script_row.row_unique) (auto simp: input_scripts_bytes_def comp_def list_all_iff spent_ok_def)
  ultimately show ?thesis by (rule maps_determine) simp
qed

text \<open>Two messages of a row that differ and have one hash.\<close>

definition collision_among :: "(bytes \<Rightarrow> bytes) \<Rightarrow> bytes list \<Rightarrow> bytes list \<Rightarrow> bool" where
  "collision_among sha xs ys \<longleftrightarrow> (\<exists>(x, y) \<in> set (zip xs ys). x \<noteq> y \<and> sha x = sha y)"

definition taproot_hashed :: "(bytes \<Rightarrow> bytes) \<Rightarrow> 'd decimal_ops \<Rightarrow> TxSigHashes \<Rightarrow> SigHashType \<Rightarrow> 'd MsgTx \<Rightarrow> nat \<Rightarrow> 'd TxOut list \<Rightarrow> bytes list" where
  "taproot_hashed sha dops sigHashes hType tx idx outs =
     [prevouts_bytes tx, sequence_bytes tx, outputs_bytes dops tx, input_amounts_bytes dops outs, input_scripts_bytes outs,
      sha TagTapSighash @ sha TagTapSighash @ taproot_message sigHashes hType tx idx]"

lemma collision_or_equal:
  "length xs = length ys \<Longrightarrow> map sha xs = map sha ys \<Longrightarrow> xs = ys \<or> collision_among sha xs ys"
  by (induction xs ys rule: list_induct2) (auto simp: collision_among_def)

lemma unat_small_u32: "n < 2 ^ 32 \<Longrightarrow> unat (word_of_nat n :: u32) = n"
  by (simp add: unat_of_nat)

lemma taproot_message_unique:
  assumes "taproot_message s hType tx idx = taproot_message s' hType' tx' idx'"
    and "hType = SigHashDefault \<or> hType = SigHashAll" "hType' = SigHashDefault \<or> hType' = SigHashAll"
    and "idx < 2 ^ 32" "idx' < 2 ^ 32"
    and "\<And>t. t \<in> {s, s'} \<Longrightarrow> length (HashPrevOutsV1 t) = 32 \<and> length (HashInputAmountsV1 t) = 32 \<and>
      length (HashInputScriptsV1 t) = 32 \<and> length (HashSequenceV1 t) = 32 \<and> length (HashOutputsV1 t) = 32"
  shows "hType = hType' \<and> idx = idx' \<and> Version tx = Version tx' \<and> LockTime tx = LockTime tx' \<and>
    HashPrevOutsV1 s = HashPrevOutsV1 s' \<and> HashInputAmountsV1 s = HashInputAmountsV1 s' \<and>
    HashInputScriptsV1 s = HashInputScriptsV1 s' \<and> HashSequenceV1 s = HashSequenceV1 s' \<and> HashOutputsV1 s = HashOutputsV1 s'"
proof -
  have ht: "ucast hType = (ucast hType' :: byte) \<Longrightarrow> hType = hType'" using assms(2,3) by auto
  have idx: "word_of_nat idx = (word_of_nat idx' :: u32) \<Longrightarrow> idx = idx'"
    using assms(4,5) unat_small_u32 by metis
  from assms(1,6) have "ucast hType = (ucast hType' :: byte) \<and> Version tx = Version tx' \<and> LockTime tx = LockTime tx' \<and>
    HashPrevOutsV1 s = HashPrevOutsV1 s' \<and> HashInputAmountsV1 s = HashInputAmountsV1 s' \<and>
    HashInputScriptsV1 s = HashInputScriptsV1 s' \<and> HashSequenceV1 s = HashSequenceV1 s' \<and> HashOutputsV1 s = HashOutputsV1 s' \<and>
    word_of_nat idx = (word_of_nat idx' :: u32)"
    by (simp add: taproot_message_def PutUint32_unique PutUint32_eq)
  with ht idx show ?thesis by blast
qed

lemma taproot_hashed_unique:
  assumes "taproot_signable dops f tx idx outs" "taproot_signable dops f' tx' idx' outs'"
    and "prevouts_bytes tx = prevouts_bytes tx'" "sequence_bytes tx = sequence_bytes tx'" "outputs_bytes dops tx = outputs_bytes dops tx'"
    and "input_amounts_bytes dops outs = input_amounts_bytes dops outs'" "input_scripts_bytes outs = input_scripts_bytes outs'"
  shows "map PreviousOutPoint (TxIns tx) = map PreviousOutPoint (TxIns tx') \<and> map Sequence (TxIns tx) = map Sequence (TxIns tx') \<and>
    TxOuts tx = TxOuts tx' \<and> outs = outs'"
proof (intro conjI)
  show "map PreviousOutPoint (TxIns tx) = map PreviousOutPoint (TxIns tx')"
    using assms by (intro outpoint_row.row_unique)
      (auto simp: prevouts_bytes_def comp_def taproot_signable_def hashes_ok_def list_all_iff)
  show "map Sequence (TxIns tx) = map Sequence (TxIns tx')"
    using assms(4) by (intro sequence_row.row_unique) (simp_all add: sequence_bytes_def comp_def list_all_iff)
  show "TxOuts tx = TxOuts tx'"
    using assms by (intro txout_row.row_unique [of dops scriptSlabSize]) (auto simp: taproot_signable_def outputs_bytes_ok)
  show "outs = outs'"
    using assms by (intro spent_outputs_unique [of dops]) (auto simp: taproot_signable_def)
qed

section \<open>What a legacy signature signs\<close>

text \<open>The hash types that sign all inputs and outputs.\<close>

definition signs_all :: "SigHashType \<Rightarrow> bool" where
  "signs_all hashType \<longleftrightarrow> hashType AND sigHashMask \<noteq> SigHashNone \<and> hashType AND sigHashMask \<noteq> SigHashSingle \<and>
     hashType AND SigHashAnyOneCanPay = 0"

text \<open>The copy that is signed then, without the witnesses, which the encoding leaves out, and the message.\<close>

definition signed_tx :: "bytes \<Rightarrow> 'd MsgTx \<Rightarrow> nat \<Rightarrow> 'd MsgTx" where
  "signed_tx script tx idx = tx\<lparr>TxIns := map (\<lambda>(i, txIn).
     txIn\<lparr>SignatureScript := if i = idx then removeOpcodeRaw script OP_CODESEPARATOR else [], Witness := []\<rparr>) (enumerate 0 (TxIns tx))\<rparr>"

definition legacy_message :: "'d decimal_ops \<Rightarrow> bytes \<Rightarrow> SigHashType \<Rightarrow> 'd MsgTx \<Rightarrow> nat \<Rightarrow> bytes" where
  "legacy_message dops script hashType tx idx =
     TxBytes dops BaseEncoding (signed_tx script tx idx) @ PutUint32 LittleEndian hashType"

lemma calcSignatureHash_all:
  assumes "signs_all hashType" and "tx_ok dops BaseEncoding slab (signed_tx script tx idx)"
  shows "calcSignatureHash sha dops script hashType tx idx = Some (sha (sha (legacy_message dops script hashType tx idx)))"
proof -
  define copy where "copy = tx\<lparr>TxIns := map (\<lambda>(i, txIn). txIn\<lparr>SignatureScript :=
    if i = idx then removeOpcodeRaw script OP_CODESEPARATOR else []\<rparr>) (enumerate 0 (TxIns tx)), TxOuts := TxOuts tx\<rparr>"
  have copy: "sighash_copy script hashType tx idx = Some copy"
    using assms(1) by (simp add: sighash_copy_def signs_all_def copy_def)
  have "tx_assets_valid dops copy"
    using tx_ok_assets_valid [OF assms(2)] by (simp add: tx_assets_valid_def signed_tx_def copy_def)
  then have "SerializeNoWitness dops copy = wrote (TxBytes dops BaseEncoding copy)"
    by (simp add: SerializeNoWitness_def btcEncode_valid)
  moreover have "TxBytes dops BaseEncoding copy = TxBytes dops BaseEncoding (signed_tx script tx idx)"
    by (simp add: TxBytes_def copy_def signed_tx_def comp_def case_prod_unfold)
  ultimately show ?thesis
    using assms(1) by (simp add: calcSignatureHash_def copy signs_all_def DoubleHashRaw_def legacy_message_def)
qed

lemma enumerate_map_snd: "map (\<lambda>x. f (snd x)) (enumerate n xs) = map f xs"
  by (induction xs arbitrary: n) auto

lemma legacy_message_unique:
  assumes "legacy_message dops script hashType tx idx = legacy_message dops script' hashType' tx' idx'"
    and "tx_ok dops BaseEncoding slab (signed_tx script tx idx)" "tx_ok dops BaseEncoding slab (signed_tx script' tx' idx')"
  shows "hashType = hashType' \<and> signed_tx script tx idx = signed_tx script' tx' idx'"
proof -
  have "Inr (signed_tx script tx idx, PutUint32 LittleEndian hashType) =
      btcDecode dops BaseEncoding slab (legacy_message dops script hashType tx idx)"
    unfolding legacy_message_def using btcDecode_TxBytes [OF assms(2)] by (rule sym)
  also have "\<dots> = Inr (signed_tx script' tx' idx', PutUint32 LittleEndian hashType')"
    unfolding assms(1) unfolding legacy_message_def using assms(3) by (rule btcDecode_TxBytes)
  finally show ?thesis by (simp only: sum.inject prod.inject PutUint32_eq simp_thms)
qed

lemma signed_tx_unique:
  assumes "signed_tx script tx idx = signed_tx script' tx' idx'" and "idx < length (TxIns tx)" "idx' < length (TxIns tx')"
  shows "Version tx = Version tx' \<and> LockTime tx = LockTime tx' \<and> TxOuts tx = TxOuts tx' \<and>
    map PreviousOutPoint (TxIns tx) = map PreviousOutPoint (TxIns tx') \<and> map Sequence (TxIns tx) = map Sequence (TxIns tx') \<and>
    removeOpcodeRaw script OP_CODESEPARATOR = removeOpcodeRaw script' OP_CODESEPARATOR \<and>
    (idx = idx' \<or> removeOpcodeRaw script OP_CODESEPARATOR = [])"
proof -
  let ?s = "removeOpcodeRaw script OP_CODESEPARATOR" and ?s' = "removeOpcodeRaw script' OP_CODESEPARATOR"
  note sel = arg_cong [OF assms(1)]
  have "Version tx = Version tx'" "LockTime tx = LockTime tx'" "TxOuts tx = TxOuts tx'"
    using sel [of Version] sel [of LockTime] sel [of TxOuts] by (simp_all add: signed_tx_def)
  moreover have "map PreviousOutPoint (TxIns tx) = map PreviousOutPoint (TxIns tx')" "map Sequence (TxIns tx) = map Sequence (TxIns tx')"
    using sel [of "\<lambda>t. map PreviousOutPoint (TxIns t)"] sel [of "\<lambda>t. map Sequence (TxIns t)"]
    by (simp_all add: signed_tx_def comp_def case_prod_unfold enumerate_map_snd)
  moreover have len: "length (TxIns tx) = length (TxIns tx')"
    using sel [of "length \<circ> TxIns"] by (simp add: signed_tx_def)
  have scripts: "(if i = idx then ?s else []) = (if i = idx' then ?s' else [])" if "i < length (TxIns tx)" for i
    using sel [of "\<lambda>t. SignatureScript (TxIns t ! i)"] that len by (simp add: signed_tx_def nth_enumerate_eq)
  have "?s = ?s' \<and> (idx = idx' \<or> ?s = [])"
    using scripts [of idx] scripts [of idx'] assms(2,3) len by (auto split: if_splits)
  ultimately show ?thesis by blast
qed

section \<open>Properties\<close>

definition sighash_sample :: "bytes MsgTx" where
  "sighash_sample = \<lparr>Version = 2,
     TxIns = [\<lparr>PreviousOutPoint = \<lparr>Hash = replicate 32 7, Index = 1\<rparr>, SignatureScript = [], Witness = [], Sequence = 5\<rparr>],
     TxOuts = [\<lparr>Value = 1000, Assets = [], PkScript = [0x51]\<rparr>], LockTime = 17\<rparr>"

definition taproot_sample_out :: "bytes TxOut" where
  "taproot_sample_out = \<lparr>Value = 1500, Assets = [\<lparr>AssetInfo_Name = \<lparr>Protocol = [0x6f], AssetType = [0x66], Ticker = [0x70]\<rparr>,
     Amount = [0x31, 0x30], BindingSat = 1\<rparr>], PkScript = [0x51, 0x20] @ replicate 32 3\<rparr>"

definition taproot_sample_fetcher :: "bytes PrevOutputFetcher" where
  "taproot_sample_fetcher = CannedPrevOutputFetcher (PkScript taproot_sample_out) (Value taproot_sample_out) (Assets taproot_sample_out)"

text \<open>
  C20 (a taproot signature binds everything that is spent and paid): two transactions with one digest
  under a hash type that signs everything agree in version, lock time, the outpoints and sequence numbers
  of their inputs, their outputs, the values, asset lists and scripts of the outputs they spend, the
  input signed and the hash type; or two of the messages that were hashed for the digests collide.
\<close>

theorem taproot_sighash_binds:
  assumes sha: "\<And>x. length (sha x) = 32"
    and ok: "taproot_signable dops f tx idx outs" "taproot_signable dops f' tx' idx' outs'"
    and hashes: "NewTxSigHashes sha dops tx f = Some s" "NewTxSigHashes sha dops tx' f' = Some s'"
    and all: "hType = SigHashDefault \<or> hType = SigHashAll" "hType' = SigHashDefault \<or> hType' = SigHashAll"
    and eq: "CalcTaprootSignatureHash sha dops s hType tx idx f = CalcTaprootSignatureHash sha dops s' hType' tx' idx' f'"
  shows "Version tx = Version tx' \<and> LockTime tx = LockTime tx' \<and>
      map PreviousOutPoint (TxIns tx) = map PreviousOutPoint (TxIns tx') \<and> map Sequence (TxIns tx) = map Sequence (TxIns tx') \<and>
      TxOuts tx = TxOuts tx' \<and> outs = outs' \<and> idx = idx' \<and> hType = hType' \<or>
    collision_among sha (taproot_hashed sha dops s hType tx idx outs) (taproot_hashed sha dops s' hType' tx' idx' outs')"
proof -
  note H = NewTxSigHashes_taproot [OF ok(1) hashes(1)] and H' = NewTxSigHashes_taproot [OF ok(2) hashes(2)]
  let ?xs = "taproot_hashed sha dops s hType tx idx outs" and ?ys = "taproot_hashed sha dops s' hType' tx' idx' outs'"
  have idx: "idx < length (TxIns tx)" "idx' < length (TxIns tx')" "idx < 2 ^ 32" "idx' < 2 ^ 32"
    using ok by (simp_all add: taproot_signable_def)
  have last: "sha (last ?xs) = sha (last ?ys)"
    using eq unfolding taproot_digest [OF all(1) idx(1)] taproot_digest [OF all(2) idx(2)]
    by (simp add: TaggedHash_def taproot_hashed_def)
  show ?thesis
  proof (cases "taproot_message s hType tx idx = taproot_message s' hType' tx' idx'")
    case True
    have M: "hType = hType' \<and> idx = idx' \<and> Version tx = Version tx' \<and> LockTime tx = LockTime tx' \<and>
      HashPrevOutsV1 s = HashPrevOutsV1 s' \<and> HashInputAmountsV1 s = HashInputAmountsV1 s' \<and>
      HashInputScriptsV1 s = HashInputScriptsV1 s' \<and> HashSequenceV1 s = HashSequenceV1 s' \<and> HashOutputsV1 s = HashOutputsV1 s'"
      by (rule taproot_message_unique [OF True all idx(3,4)]) (auto simp: H H' sha)
    have "?xs = ?ys \<or> collision_among sha ?xs ?ys"
      using M last by (intro collision_or_equal) (simp_all add: taproot_hashed_def flip: H H')
    moreover have "?xs = ?ys \<Longrightarrow> map PreviousOutPoint (TxIns tx) = map PreviousOutPoint (TxIns tx') \<and>
        map Sequence (TxIns tx) = map Sequence (TxIns tx') \<and> TxOuts tx = TxOuts tx' \<and> outs = outs'"
      by (rule taproot_hashed_unique [OF ok]) (simp_all add: taproot_hashed_def)
    ultimately show ?thesis using M by blast
  next
    case False
    with last have "collision_among sha ?xs ?ys" by (simp add: collision_among_def taproot_hashed_def)
    then show ?thesis ..
  qed
qed

theorem taproot_sighash_binds_witness:
  "\<exists>s. NewTxSigHashes (\<lambda>x. take 32 (x @ replicate 32 0)) string_decimal sighash_sample taproot_sample_fetcher = Some s \<and>
     collision_among (\<lambda>x. take 32 (x @ replicate 32 0))
       (taproot_hashed (\<lambda>x. take 32 (x @ replicate 32 0)) string_decimal s SigHashDefault sighash_sample 0 [taproot_sample_out])
       (taproot_hashed (\<lambda>x. take 32 (x @ replicate 32 0)) string_decimal s SigHashAll sighash_sample 0 [taproot_sample_out])"
proof -
  define sha :: "bytes \<Rightarrow> bytes" where "sha = (\<lambda>x. take 32 (x @ replicate 32 0))"
  have sha: "length (sha x) = 32" for x by (simp add: sha_def)
  have out: "\<lparr>Value = Value taproot_sample_out, Assets = Assets taproot_sample_out, PkScript = PkScript taproot_sample_out\<rparr> = taproot_sample_out"
    by simp
  have ok: "taproot_signable string_decimal taproot_sample_fetcher sighash_sample 0 [taproot_sample_out]"
    by (simp add: taproot_signable_def taproot_input_def taproot_sample_fetcher_def CannedPrevOutputFetcher_def out)
      (simp add: sighash_sample_def taproot_sample_out_def spent_ok_def asset_name_ok_def string_decimal_def hashes_ok_def
        txout_ok_def extractWitnessV1KeyBytes_def maxWitnessItemSize_def scriptSlabSize_def taproot_input_def)
  obtain s where s: "NewTxSigHashes sha string_decimal sighash_sample taproot_sample_fetcher = Some s"
    using NewTxSigHashes_Some [OF ok] by blast
  have "CalcTaprootSignatureHash sha string_decimal s SigHashDefault sighash_sample 0 taproot_sample_fetcher =
      CalcTaprootSignatureHash sha string_decimal s SigHashAll sighash_sample 0 taproot_sample_fetcher"
    using sha [of TagTapSighash] by (simp add: taproot_digest sighash_sample_def TaggedHash_def)
      (simp add: sha_def TagTapSighash_def)
  with taproot_sighash_binds [OF sha ok ok s s, of SigHashDefault SigHashAll] s show ?thesis
    unfolding sha_def by auto
qed

text \<open>
  C39 (a legacy signature binds the transaction): two transactions with one digest under hash types that
  sign everything agree in version, lock time, outputs with their assets, outpoints and sequence numbers,
  the script and, unless that script is empty, the input; or the two messages hashed collide.
\<close>

theorem legacy_sighash_binds:
  assumes all: "signs_all hashType" "signs_all hashType'"
    and idx: "idx < length (TxIns tx)" "idx' < length (TxIns tx')"
    and ok: "tx_ok dops BaseEncoding scriptSlabSize (signed_tx script tx idx)"
      "tx_ok dops BaseEncoding scriptSlabSize (signed_tx script' tx' idx')"
    and eq: "calcSignatureHash sha dops script hashType tx idx = calcSignatureHash sha dops script' hashType' tx' idx'"
  shows "hashType = hashType' \<and> Version tx = Version tx' \<and> LockTime tx = LockTime tx' \<and> TxOuts tx = TxOuts tx' \<and>
      map PreviousOutPoint (TxIns tx) = map PreviousOutPoint (TxIns tx') \<and> map Sequence (TxIns tx) = map Sequence (TxIns tx') \<and>
      removeOpcodeRaw script OP_CODESEPARATOR = removeOpcodeRaw script' OP_CODESEPARATOR \<and>
      (idx = idx' \<or> removeOpcodeRaw script OP_CODESEPARATOR = []) \<or>
    legacy_message dops script hashType tx idx \<noteq> legacy_message dops script' hashType' tx' idx' \<and>
      sha (sha (legacy_message dops script hashType tx idx)) = sha (sha (legacy_message dops script' hashType' tx' idx'))"
proof (cases "legacy_message dops script hashType tx idx = legacy_message dops script' hashType' tx' idx'")
  case True
  from legacy_message_unique [OF True ok] signed_tx_unique [OF _ idx] show ?thesis by blast
next
  case False
  with eq calcSignatureHash_all [OF all(1) ok(1)] calcSignatureHash_all [OF all(2) ok(2)] show ?thesis by simp
qed

theorem legacy_sighash_binds_witness:
  "calcSignatureHash (\<lambda>b. b) string_decimal [0xac] SigHashAll sighash_sample 0 \<noteq>
   calcSignatureHash (\<lambda>b. b) string_decimal [0xac] SigHashAll (sighash_sample\<lparr>LockTime := 18\<rparr>) 0"
proof -
  have all: "signs_all SigHashAll" by (simp add: signs_all_def)
  have idx: "0 < length (TxIns sighash_sample)" "0 < length (TxIns (sighash_sample\<lparr>LockTime := 18\<rparr>))"
    by (simp_all add: sighash_sample_def)
  have "removeOpcodeRaw [0xac] OP_CODESEPARATOR = [0xac]" by code_simp
  then have ok: "tx_ok string_decimal BaseEncoding scriptSlabSize (signed_tx [0xac] sighash_sample 0)"
    "tx_ok string_decimal BaseEncoding scriptSlabSize (signed_tx [0xac] (sighash_sample\<lparr>LockTime := 18\<rparr>) 0)"
    by (simp_all add: signed_tx_def sighash_sample_def sample_simps)
  have "LockTime sighash_sample \<noteq> LockTime (sighash_sample\<lparr>LockTime := 18\<rparr>)" by (simp add: sighash_sample_def)
  with legacy_sighash_binds [OF all all idx ok, where sha = "\<lambda>b. b"] show ?thesis by blast
qed

text \<open>
  C40 (asset fields run together under witness version 0): the digest of witness version 0 writes the
  protocol, type, ticker and amount of an asset without their lengths, so bytes may move from one
  field into the next, as from the type into the ticker, and the digest stays the same; one signature
  is good for outputs that carry different assets.
\<close>

theorem witness_sighash_assets_ambiguous:
  "calcWitnessSignatureHashRaw sha dops script sigHashes hashType tx idx amt
     (pre @ asset\<lparr>AssetInfo_Name := \<lparr>Protocol = p, AssetType = t @ moved, Ticker = k\<rparr>\<rparr> # post) =
   calcWitnessSignatureHashRaw sha dops script sigHashes hashType tx idx amt
     (pre @ asset\<lparr>AssetInfo_Name := \<lparr>Protocol = p, AssetType = t, Ticker = moved @ k\<rparr>\<rparr> # post)"
  by (simp add: calcWitnessSignatureHashRaw_def v0_asset_bytes_def)

end
