(* ===== verification/Script_Stack.thy ===== *)
theory Script_Stack
  imports Script_Num
begin

text \<open>
  \<^verbatim>\<open>txscript/stack.go\<close>: the data stack of the script engine.  As in the source the stack
  is a slice whose last element is the top, and the operations compute slice indices from the
  depth.  Indices and counts are integers in the range of \<^verbatim>\<open>int32\<close>; where the source computes an
  index that can leave this range (\<open>2 * n - 1\<close>, \<open>3 * n - 1\<close>), \<open>int32\<close> wraps it around.  The number of
  items is not wrapped: \<^verbatim>\<open>int32(len(s.stk))\<close> is the length of every stack of fewer than \<open>2 ^ 31\<close> items.
  An operation that fails leaves a stack the engine no longer uses, so a failure carries the error
  alone.

  The lemmas relate every operation to a stack with the top at the head (\<open>view\<close>), where it is
  a plain list function, and characterise the depths at which it fails.
\<close>

section \<open>Model\<close>

record stack =
  stk :: "bytes list"
  verifyMinimalData :: bool

text \<open>The loop over the bytes returns at the first one that is not zero.\<close>

fun asBool :: "bytes \<Rightarrow> bool" where
  "asBool [] = False"
| "asBool (b # t) = (if b \<noteq> 0 then \<not> (t = [] \<and> b = 0x80) else asBool t)"

definition fromBool :: "bool \<Rightarrow> bytes" where
  "fromBool v = (if v then [1] else [])"

definition Depth :: "stack \<Rightarrow> int" where
  "Depth s = int (length (stk s))"

definition PushByteArray :: "bytes \<Rightarrow> stack \<Rightarrow> stack" where
  "PushByteArray so s = s\<lparr>stk := stk s @ [so]\<rparr>"

text \<open>\<^const>\<open>None\<close> is the panic of \<^verbatim>\<open>scriptNum.Bytes\<close>.\<close>

definition PushInt :: "scriptNum \<Rightarrow> stack \<Rightarrow> stack option" where
  "PushInt val s = map_option (\<lambda>b. PushByteArray b s) (scriptNum_Bytes val)"

definition PushBool :: "bool \<Rightarrow> stack \<Rightarrow> stack" where
  "PushBool val s = PushByteArray (fromBool val) s"

definition PeekByteArray :: "int \<Rightarrow> stack \<Rightarrow> ErrorCode + bytes" where
  "PeekByteArray idx s =
     (let sz = int (length (stk s))
      in if idx < 0 \<or> idx \<ge> sz then Inl ErrInvalidStackOperation
         else Inr (stk s ! nat (sz - idx - 1)))"

text \<open>The three ways in which \<^verbatim>\<open>nipN\<close> builds the new slice.\<close>

definition nipN :: "int \<Rightarrow> stack \<Rightarrow> ErrorCode + (bytes \<times> stack)" where
  "nipN idx s =
     (let sz = int (length (stk s))
      in if idx < 0 \<or> idx > sz - 1 then Inl ErrInvalidStackOperation
         else
           let so = stk s ! nat (sz - idx - 1);
               stk' = (if idx = 0 then take (nat (sz - 1)) (stk s)
                       else if idx = sz - 1 then drop 1 (stk s)
                       else take (nat (sz - idx - 1)) (stk s) @ drop (nat (sz - idx)) (stk s))
           in Inr (so, s\<lparr>stk := stk'\<rparr>))"

definition PopByteArray :: "stack \<Rightarrow> ErrorCode + (bytes \<times> stack)" where
  "PopByteArray s = nipN 0 s"

definition PopInt :: "stack \<Rightarrow> ErrorCode + (scriptNum \<times> stack)" where
  "PopInt s = andthen (PopByteArray s) (\<lambda>(so, s).
     andthen (MakeScriptNum so (verifyMinimalData s) maxScriptNumLen) (\<lambda>n. Inr (n, s)))"

definition PopBool :: "stack \<Rightarrow> ErrorCode + (bool \<times> stack)" where
  "PopBool s = andthen (PopByteArray s) (\<lambda>(so, s). Inr (asBool so, s))"

definition PeekInt :: "int \<Rightarrow> stack \<Rightarrow> ErrorCode + scriptNum" where
  "PeekInt idx s = andthen (PeekByteArray idx s) (\<lambda>so.
     MakeScriptNum so (verifyMinimalData s) maxScriptNumLen)"

definition PeekBool :: "int \<Rightarrow> stack \<Rightarrow> ErrorCode + bool" where
  "PeekBool idx s = andthen (PeekByteArray idx s) (\<lambda>so. Inr (asBool so))"

definition NipN :: "int \<Rightarrow> stack \<Rightarrow> ErrorCode + stack" where
  "NipN idx s = andthen (nipN idx s) (\<lambda>(_, s). Inr s)"

definition Tuck :: "stack \<Rightarrow> ErrorCode + stack" where
  "Tuck s =
     andthen (PopByteArray s) (\<lambda>(so2, s).
     andthen (PopByteArray s) (\<lambda>(so1, s).
       Inr (PushByteArray so2 (PushByteArray so1 (PushByteArray so2 s)))))"

text \<open>The loops \<^verbatim>\<open>for i := n; i > 0; i-- { ... }\<close> repeat a fallible step.\<close>

fun repeat_step :: "nat \<Rightarrow> (stack \<Rightarrow> ErrorCode + stack) \<Rightarrow> stack \<Rightarrow> ErrorCode + stack" where
  "repeat_step 0 step s = Inr s"
| "repeat_step (Suc n) step s = andthen (step s) (repeat_step n step)"

definition DropN :: "int \<Rightarrow> stack \<Rightarrow> ErrorCode + stack" where
  "DropN n s =
     (if n < 1 then Inl ErrInvalidStackOperation
      else repeat_step (nat n) (\<lambda>s. andthen (PopByteArray s) (\<lambda>(_, s). Inr s)) s)"

definition DupN :: "int \<Rightarrow> stack \<Rightarrow> ErrorCode + stack" where
  "DupN n s =
     (if n < 1 then Inl ErrInvalidStackOperation
      else repeat_step (nat n)
             (\<lambda>s. andthen (PeekByteArray (n - 1) s) (\<lambda>so. Inr (PushByteArray so s))) s)"

text \<open>The \<^verbatim>\<open>int32\<close> that arithmetic on \<^verbatim>\<open>int32\<close> values gives.\<close>

definition int32 :: "int \<Rightarrow> int" where
  "int32 x = sint (word_of_int x :: i32)"

definition RotN :: "int \<Rightarrow> stack \<Rightarrow> ErrorCode + stack" where
  "RotN n s =
     (if n < 1 then Inl ErrInvalidStackOperation
      else let entry = int32 (3 * n - 1)
           in repeat_step (nat n)
                (\<lambda>s. andthen (nipN entry s) (\<lambda>(so, s). Inr (PushByteArray so s))) s)"

definition SwapN :: "int \<Rightarrow> stack \<Rightarrow> ErrorCode + stack" where
  "SwapN n s =
     (if n < 1 then Inl ErrInvalidStackOperation
      else let entry = int32 (2 * n - 1)
           in repeat_step (nat n)
                (\<lambda>s. andthen (nipN entry s) (\<lambda>(so, s). Inr (PushByteArray so s))) s)"

definition OverN :: "int \<Rightarrow> stack \<Rightarrow> ErrorCode + stack" where
  "OverN n s =
     (if n < 1 then Inl ErrInvalidStackOperation
      else let entry = int32 (2 * n - 1)
           in repeat_step (nat n)
                (\<lambda>s. andthen (PeekByteArray entry s) (\<lambda>so. Inr (PushByteArray so s))) s)"

definition PickN :: "int \<Rightarrow> stack \<Rightarrow> ErrorCode + stack" where
  "PickN n s = andthen (PeekByteArray n s) (\<lambda>so. Inr (PushByteArray so s))"

definition RollN :: "int \<Rightarrow> stack \<Rightarrow> ErrorCode + stack" where
  "RollN n s = andthen (nipN n s) (\<lambda>(so, s). Inr (PushByteArray so s))"

section \<open>The stack seen from the top\<close>

text \<open>The abstraction: items from the top down.\<close>

definition view :: "stack \<Rightarrow> bytes list" where
  "view s = rev (stk s)"

definition set_view :: "bytes list \<Rightarrow> stack \<Rightarrow> stack" where
  "set_view xs s = s\<lparr>stk := rev xs\<rparr>"

lemma view_set_view [simp]: "view (set_view xs s) = xs"
  by (simp add: view_def set_view_def)

lemma set_view_set_view [simp]: "set_view xs (set_view ys s) = set_view xs s"
  by (simp add: set_view_def)

lemma set_view_view [simp]: "set_view (view s) s = s"
  by (simp add: set_view_def view_def)

lemma verifyMinimalData_set_view [simp]: "verifyMinimalData (set_view xs s) = verifyMinimalData s"
  by (simp add: set_view_def)

lemma Depth_view: "Depth s = int (length (view s))"
  by (simp add: Depth_def view_def)

lemma PushByteArray_view: "PushByteArray so s = set_view (so # view s) s"
  by (simp add: PushByteArray_def set_view_def view_def)

lemma PeekByteArray_view:
  "PeekByteArray idx s =
     (if 0 \<le> idx \<and> nat idx < length (view s) then Inr (view s ! nat idx)
      else Inl ErrInvalidStackOperation)"
proof (cases "0 \<le> idx \<and> nat idx < length (view s)")
  case True
  then have "nat (int (length (stk s)) - idx - 1) = length (stk s) - Suc (nat idx)"
    by (simp add: view_def) linarith
  with True show ?thesis by (auto simp: PeekByteArray_def view_def rev_nth Let_def)
qed (auto simp: PeekByteArray_def view_def Let_def)

lemma nipN_view:
  "nipN idx s =
     (if 0 \<le> idx \<and> nat idx < length (view s)
      then Inr (view s ! nat idx, set_view (take (nat idx) (view s) @ drop (Suc (nat idx)) (view s)) s)
      else Inl ErrInvalidStackOperation)"
proof (cases "0 \<le> idx \<and> nat idx < length (view s)")
  case True
  define k n where "k = nat idx" and "n = length (stk s)"
  from True have k: "idx = int k" "k < n" by (simp_all add: k_def n_def view_def)
  then have idx: "nat (int n - idx - 1) = n - Suc k" "nat (int n - idx) = n - k" by simp_all
  have "rev (take k (rev (stk s)) @ drop (Suc k) (rev (stk s))) =
      take (n - Suc k) (stk s) @ drop (n - k) (stk s)"
    by (simp add: take_rev drop_rev n_def)
  moreover have "drop 1 (stk s) = take (n - Suc k) (stk s) @ drop (n - k) (stk s)" if "k = n - 1"
    using that k by simp
  moreover have "take (nat (int n - 1)) (stk s) = take (n - Suc k) (stk s) @ drop (n - k) (stk s)"
    if "k = 0"
  proof -
    have "nat (int n - 1) = n - Suc 0" by simp
    with that k show ?thesis by (simp add: n_def)
  qed
  ultimately show ?thesis
    using True k idx
    by (auto simp: nipN_def view_def set_view_def rev_nth Let_def n_def [symmetric] k_def [symmetric])
qed (auto simp: nipN_def view_def Let_def)

lemma PopByteArray_view:
  "PopByteArray s =
     (case view s of [] \<Rightarrow> Inl ErrInvalidStackOperation | so # xs \<Rightarrow> Inr (so, set_view xs s))"
  by (simp add: PopByteArray_def nipN_view split: list.split)

lemmas stack_view = Depth_view PushByteArray_view PeekByteArray_view nipN_view PopByteArray_view

section \<open>Behaviour of the operations\<close>

lemma repeat_step_last: "repeat_step (Suc n) step s = andthen (repeat_step n step s) step"
proof (induction n arbitrary: s)
  case 0
  then show ?case by (cases "step s") simp_all
next
  case (Suc n)
  then show ?case by (cases "step s") simp_all
qed

lemma repeat_step_fails: "0 < n \<Longrightarrow> step s = Inl err \<Longrightarrow> repeat_step n step s = Inl err"
  by (cases n) simp_all

lemma drop_take_Suc:
  "i \<le> e \<Longrightarrow> e < length xs \<Longrightarrow>
   drop (e - i) (take (Suc e) xs) = xs ! (e - i) # drop (Suc e - i) (take (Suc e) xs)"
  by (subst Cons_nth_drop_Suc [symmetric]) (simp_all add: Suc_diff_le)

text \<open>Copying the item at depth \<open>e\<close> to the top, \<open>i\<close> times.\<close>

lemma repeat_peek_push:
  assumes "e < length (view s)" "i \<le> Suc e"
  shows "repeat_step i (\<lambda>s. andthen (PeekByteArray (int e) s) (\<lambda>so. Inr (PushByteArray so s))) s =
         Inr (set_view (drop (Suc e - i) (take (Suc e) (view s)) @ view s) s)"
  using assms(2)
proof (induction i)
  case 0
  then show ?case by simp
next
  case (Suc i)
  have "length (drop (Suc e - i) (take (Suc e) (view s))) = i"
    using assms(1) Suc.prems by simp
  with Suc assms(1) show ?case
    by (simp add: repeat_step_last stack_view nth_append drop_take_Suc del: repeat_step.simps)
qed

text \<open>Moving the item at depth \<open>e\<close> to the top, \<open>i\<close> times: a rotation of the top \<open>e + 1\<close> items.\<close>

lemma repeat_nip_push:
  assumes "e < length (view s)" "i \<le> Suc e"
  shows "repeat_step i (\<lambda>s. andthen (nipN (int e) s) (\<lambda>(so, s). Inr (PushByteArray so s))) s =
         Inr (set_view (drop (Suc e - i) (take (Suc e) (view s)) @ take (Suc e - i) (view s) @
                        drop (Suc e) (view s)) s)"
  using assms(2)
proof (induction i)
  case 0
  then show ?case by simp
next
  case (Suc i)
  define p q where "p = drop (Suc e - i) (take (Suc e) (view s))" and "q = drop (Suc e) (view s)"
  have p: "length p = i" using assms(1) Suc.prems by (simp add: p_def)
  have split: "take (Suc e - i) (view s) = take (e - i) (view s) @ [view s ! (e - i)]"
    using assms(1) Suc.prems by (simp add: Suc_diff_le take_Suc_conv_app_nth)
  have len: "length (take (e - i) (view s)) = e - i" using assms(1) by simp
  have IH: "repeat_step i (\<lambda>s. andthen (nipN (int e) s) (\<lambda>(so, s). Inr (PushByteArray so s))) s =
      Inr (set_view (p @ take (e - i) (view s) @ view s ! (e - i) # q) s)"
    using Suc split by (simp add: p_def q_def)
  have "(p @ take (e - i) (view s) @ view s ! (e - i) # q) ! e = view s ! (e - i)"
    using p len Suc.prems by (simp add: nth_append)
  moreover have "take e (p @ take (e - i) (view s) @ view s ! (e - i) # q) = p @ take (e - i) (view s)"
    using p len Suc.prems by simp
  moreover have "drop (Suc e) (p @ take (e - i) (view s) @ view s ! (e - i) # q) = q"
    using p len Suc.prems by simp
  moreover have "e < length (p @ take (e - i) (view s) @ view s ! (e - i) # q)"
    using p len Suc.prems by simp
  ultimately show ?case
    using Suc.prems assms(1) IH
    by (simp add: repeat_step_last stack_view drop_take_Suc p_def [symmetric] q_def [symmetric]
        del: repeat_step.simps)
qed

lemma repeat_pop:
  "repeat_step n (\<lambda>s. andthen (PopByteArray s) (\<lambda>(_, s). Inr s)) s =
     (if n \<le> length (view s) then Inr (set_view (drop n (view s)) s)
      else Inl ErrInvalidStackOperation)"
proof (induction n arbitrary: s)
  case 0
  then show ?case by simp
next
  case (Suc n)
  then show ?case by (cases "view s") (simp_all add: PopByteArray_view)
qed

text \<open>The outcome of an operation that needs the condition \<open>c\<close> and leaves the items \<open>ys\<close>.\<close>

definition leaves :: "stack \<Rightarrow> bool \<Rightarrow> bytes list \<Rightarrow> ErrorCode + stack" where
  "leaves s c ys = (if c then Inr (set_view ys s) else Inl ErrInvalidStackOperation)"

lemma peek_push_leaves:
  assumes "1 \<le> i" "i \<le> k"
  shows "repeat_step i (\<lambda>s. andthen (PeekByteArray (int k - 1) s) (\<lambda>so. Inr (PushByteArray so s))) s =
         leaves s (k \<le> length (view s)) (drop (k - i) (take k (view s)) @ view s)"
proof -
  from assms obtain e where k: "k = Suc e" by (cases k) auto
  show ?thesis
  proof (cases "k \<le> length (view s)")
    case True
    with k assms repeat_peek_push [of e s i] show ?thesis by (simp add: leaves_def)
  next
    case False
    with assms k show ?thesis
      by (simp add: leaves_def repeat_step_fails PeekByteArray_view)
  qed
qed

lemma nip_push_leaves:
  assumes "1 \<le> i" "i \<le> k"
  shows "repeat_step i (\<lambda>s. andthen (nipN (int k - 1) s) (\<lambda>(so, s). Inr (PushByteArray so s))) s =
         leaves s (k \<le> length (view s))
           (drop (k - i) (take k (view s)) @ take (k - i) (view s) @ drop k (view s))"
proof -
  from assms obtain e where k: "k = Suc e" by (cases k) auto
  show ?thesis
  proof (cases "k \<le> length (view s)")
    case True
    with k assms repeat_nip_push [of e s i] show ?thesis by (simp add: leaves_def)
  next
    case False
    with assms k show ?thesis
      by (simp add: leaves_def repeat_step_fails nipN_view)
  qed
qed

text \<open>Any number of moves, also more than \<open>e + 1\<close>.\<close>

lemma repeat_nip_rotate:
  assumes "e < length (view s)"
  shows "repeat_step i (\<lambda>s. andthen (nipN (int e) s) (\<lambda>(so, s). Inr (PushByteArray so s))) s =
         Inr (set_view (rotate (e * i) (take (Suc e) (view s)) @ drop (Suc e) (view s)) s)"
proof (induction i)
  case 0
  then show ?case by simp
next
  case (Suc i)
  define xs where "xs = rotate (e * i) (take (Suc e) (view s))"
  have len: "length xs = Suc e" using assms by (simp add: xs_def)
  then obtain ys x where xs: "xs = ys @ [x]" "length ys = e" by (metis length_Suc_conv_rev)
  have "rotate (e * Suc i) (take (Suc e) (view s)) = rotate e xs"
    by (simp add: xs_def rotate_rotate algebra_simps)
  also have "\<dots> = x # ys" using xs rotate_append [of ys "[x]"] by simp
  finally show ?case
    using Suc xs by (simp add: repeat_step_last stack_view nth_append xs_def [symmetric] del: repeat_step.simps)
qed

lemma int32_mod: "int32 x = (x + 2 ^ 31) mod 2 ^ 32 - 2 ^ 31"
  by (simp add: int32_def signed_of_int signed_take_bit_eq_take_bit_shift take_bit_eq_mod)

lemma int32_id: "- (2 ^ 31) \<le> x \<Longrightarrow> x < 2 ^ 31 \<Longrightarrow> int32 x = x"
  by (simp add: int32_mod)

text \<open>Where an index wraps to a negative number the operation fails at its first step.\<close>

lemma wrapped_entry_fails:
  assumes "1 \<le> n" "entry < 0"
  shows "repeat_step (nat n) (\<lambda>s. andthen (nipN entry s) (\<lambda>(so, s). Inr (PushByteArray so s))) s = Inl ErrInvalidStackOperation"
    "repeat_step (nat n) (\<lambda>s. andthen (PeekByteArray entry s) (\<lambda>so. Inr (PushByteArray so s))) s = Inl ErrInvalidStackOperation"
  using assms by (simp_all add: repeat_step_fails nipN_view PeekByteArray_view)

lemma int32_double: "2 ^ 30 < n \<Longrightarrow> n < 2 ^ 31 \<Longrightarrow> int32 (2 * n - 1) < 0"
proof -
  assume "2 ^ 30 < n" "n < 2 ^ 31"
  moreover from this have "(2 * n - 1 + 2 ^ 31) mod 2 ^ 32 = 2 * n - 1 + 2 ^ 31 - 2 ^ 32"
    by (subst mod_pos_geq) simp_all
  ultimately show ?thesis by (simp add: int32_mod)
qed

lemma int32_triple:
  "715827882 < n \<Longrightarrow> n < 1431655766 \<Longrightarrow> int32 (3 * n - 1) < 0"
  "1431655766 \<le> n \<Longrightarrow> n < 2 ^ 31 \<Longrightarrow> int32 (3 * n - 1) = 3 * n - 1 - 2 ^ 32"
proof -
  assume "715827882 < n" "n < 1431655766"
  moreover from this have "(3 * n - 1 + 2 ^ 31) mod 2 ^ 32 = 3 * n - 1 + 2 ^ 31 - 2 ^ 32"
    by (subst mod_pos_geq) simp_all
  ultimately show "int32 (3 * n - 1) < 0" by (simp add: int32_mod)
next
  assume n: "1431655766 \<le> n" "n < 2 ^ 31"
  have "(3 * n - 1 + 2 ^ 31) mod 2 ^ 32 = (3 * n - 1 - 2 ^ 32 + 2 ^ 31) mod 2 ^ 32"
    using mod_add_self2 [of "3 * n - 1 - 2 ^ 32 + 2 ^ 31" "2 ^ 32 :: int"] by (simp add: algebra_simps)
  with n show "int32 (3 * n - 1) = 3 * n - 1 - 2 ^ 32" by (simp add: int32_mod)
qed

text \<open>What the rearranging operations do for every count in the range of \<^verbatim>\<open>int32\<close>.\<close>

lemma DupN_leaves:
  "DupN n s = leaves s (1 \<le> n \<and> n \<le> int (length (view s))) (take (nat n) (view s) @ view s)"
  using peek_push_leaves [of "nat n" "nat n" s] by (cases "1 \<le> n") (simp_all add: DupN_def leaves_def nat_le_iff)

lemma OverN_leaves:
  assumes "n < 2 ^ 31" "length (view s) < 2 ^ 30"
  shows "OverN n s = leaves s (1 \<le> n \<and> 2 * n \<le> int (length (view s))) (take (nat n) (drop (nat n) (view s)) @ view s)"
proof -
  consider "n < 1" | "1 \<le> n" "n \<le> 2 ^ 30" | "2 ^ 30 < n" by fastforce
  then show ?thesis
  proof cases
    case 2
    then show ?thesis using peek_push_leaves [of "nat n" "nat (2 * n)" s]
      by (auto simp: OverN_def int32_id leaves_def drop_take nat_mult_distrib)
  next
    case 3
    then show ?thesis using assms by (simp add: OverN_def int32_double wrapped_entry_fails leaves_def)
  qed (simp add: OverN_def leaves_def)
qed

lemma SwapN_leaves:
  assumes "n < 2 ^ 31" "length (view s) < 2 ^ 30"
  shows "SwapN n s = leaves s (1 \<le> n \<and> 2 * n \<le> int (length (view s)))
     (take (nat n) (drop (nat n) (view s)) @ take (nat n) (view s) @ drop (nat (2 * n)) (view s))"
proof -
  consider "n < 1" | "1 \<le> n" "n \<le> 2 ^ 30" | "2 ^ 30 < n" by fastforce
  then show ?thesis
  proof cases
    case 2
    then show ?thesis using nip_push_leaves [of "nat n" "nat (2 * n)" s]
      by (auto simp: SwapN_def int32_id leaves_def drop_take nat_mult_distrib)
  next
    case 3
    then show ?thesis using assms by (simp add: SwapN_def int32_double wrapped_entry_fails leaves_def)
  qed (simp add: SwapN_def leaves_def)
qed

lemma RotN_leaves:
  assumes "n < 1431655766" "length (view s) < 2 ^ 30"
  shows "RotN n s = leaves s (1 \<le> n \<and> 3 * n \<le> int (length (view s)))
     (take (nat n) (drop (nat (2 * n)) (view s)) @ take (nat (2 * n)) (view s) @ drop (nat (3 * n)) (view s))"
proof -
  consider "n < 1" | "1 \<le> n" "n \<le> 715827882" | "715827882 < n" by fastforce
  then show ?thesis
  proof cases
    case 2
    then show ?thesis using nip_push_leaves [of "nat n" "nat (3 * n)" s]
      by (auto simp: RotN_def int32_id leaves_def drop_take nat_mult_distrib)
  next
    case 3
    then show ?thesis using assms by (simp add: RotN_def int32_triple(1) wrapped_entry_fails leaves_def)
  qed (simp add: RotN_def leaves_def)
qed

text \<open>From \<open>1431655766\<close> on the index \<open>3 * n - 1\<close> is a small positive number again.\<close>

lemma RotN_wrapped:
  assumes "1431655766 \<le> n" "n < 2 ^ 31"
  shows "RotN n s = leaves s (3 * n - 2 ^ 32 \<le> int (length (view s)))
     (rotate (nat (3 * n - 2 ^ 32 - 1) * nat n) (take (nat (3 * n - 2 ^ 32)) (view s)) @ drop (nat (3 * n - 2 ^ 32)) (view s))"
proof -
  define e where "e = nat (3 * n - 2 ^ 32 - 1)"
  have e: "int32 (3 * n - 1) = int e" "nat (3 * n - 2 ^ 32) = Suc e" "3 * n - 2 ^ 32 = int (Suc e)"
    using assms by (simp_all add: int32_triple(2) e_def)
  have "1 \<le> n" using assms by simp
  show ?thesis
  proof (cases "e < length (view s)")
    case True
    then show ?thesis using \<open>1 \<le> n\<close> e repeat_nip_rotate [OF True, of "nat n"]
      by (simp add: RotN_def leaves_def flip: e_def)
  next
    case False
    then show ?thesis using \<open>1 \<le> n\<close> e
      by (simp add: RotN_def leaves_def repeat_step_fails nipN_view)
  qed
qed

lemma selecting_operations:
  "DropN n s = leaves s (1 \<le> n \<and> n \<le> int (length (view s))) (drop (nat n) (view s))"
  "PickN n s = leaves s (0 \<le> n \<and> n < int (length (view s))) (view s ! nat n # view s)"
  "RollN n s = leaves s (0 \<le> n \<and> n < int (length (view s)))
     (view s ! nat n # take (nat n) (view s) @ drop (Suc (nat n)) (view s))"
  "NipN n s = leaves s (0 \<le> n \<and> n < int (length (view s))) (take (nat n) (view s) @ drop (Suc (nat n)) (view s))"
  "Tuck s = leaves s (2 \<le> length (view s)) (view s ! 0 # view s ! 1 # view s ! 0 # drop 2 (view s))"
proof -
  show "DropN n s = leaves s (1 \<le> n \<and> n \<le> int (length (view s))) (drop (nat n) (view s))"
    unfolding DropN_def repeat_pop by (simp add: leaves_def nat_le_iff)
qed (auto simp: PickN_def RollN_def NipN_def Tuck_def stack_view leaves_def split: list.split)

text \<open>
  C19 (stack operations): with the items listed from the top down, every operation of the data
  stack is the list function its comment draws on every stack deep enough for it, and it fails with
  \<^verbatim>\<open>ErrInvalidStackOperation\<close> on every other one, for every \<^verbatim>\<open>int32\<close> count or index, negative
  ones included, and every stack of fewer than \<open>2 ^ 30\<close> items.  The one exception is \<^verbatim>\<open>RotN\<close>
  with a count of at least \<open>1431655766\<close>: there \<open>3 * n - 1\<close> wraps around to the index
  \<open>3 * n - 1 - 2 ^ 32\<close>, and the call succeeds on shallow stacks and rotates as many items as this
  index selects.
\<close>

theorem stack_operations:
  assumes "- (2 ^ 31) \<le> n" "n < 2 ^ 31" "length (view s) < 2 ^ 30"
  shows "DropN n s = leaves s (1 \<le> n \<and> n \<le> int (length (view s))) (drop (nat n) (view s)) \<and>
   DupN n s = leaves s (1 \<le> n \<and> n \<le> int (length (view s))) (take (nat n) (view s) @ view s) \<and>
   OverN n s = leaves s (1 \<le> n \<and> 2 * n \<le> int (length (view s)))
     (take (nat n) (drop (nat n) (view s)) @ view s) \<and>
   SwapN n s = leaves s (1 \<le> n \<and> 2 * n \<le> int (length (view s)))
     (take (nat n) (drop (nat n) (view s)) @ take (nat n) (view s) @ drop (nat (2 * n)) (view s)) \<and>
   RotN n s =
     (if n < 1431655766
      then leaves s (1 \<le> n \<and> 3 * n \<le> int (length (view s)))
        (take (nat n) (drop (nat (2 * n)) (view s)) @ take (nat (2 * n)) (view s) @ drop (nat (3 * n)) (view s))
      else leaves s (3 * n - 2 ^ 32 \<le> int (length (view s)))
        (rotate (nat (3 * n - 2 ^ 32 - 1) * nat n) (take (nat (3 * n - 2 ^ 32)) (view s)) @
         drop (nat (3 * n - 2 ^ 32)) (view s))) \<and>
   PickN n s = leaves s (0 \<le> n \<and> n < int (length (view s))) (view s ! nat n # view s) \<and>
   RollN n s = leaves s (0 \<le> n \<and> n < int (length (view s)))
     (view s ! nat n # take (nat n) (view s) @ drop (Suc (nat n)) (view s)) \<and>
   NipN n s = leaves s (0 \<le> n \<and> n < int (length (view s))) (take (nat n) (view s) @ drop (Suc (nat n)) (view s)) \<and>
   Tuck s = leaves s (2 \<le> length (view s)) (view s ! 0 # view s ! 1 # view s ! 0 # drop 2 (view s))"
  using selecting_operations(1-4) [of n s] selecting_operations(5) [of s] DupN_leaves [of n s] OverN_leaves [OF assms(2,3)] SwapN_leaves [OF assms(2,3)]
    RotN_leaves [OF _ assms(3), of n] RotN_wrapped [OF _ assms(2)]
  by (intro conjI) (simp_all only: if_split not_less simp_thms, blast)

definition sample_stack :: stack where
  "sample_stack = \<lparr>stk = [[3], [2], [1]], verifyMinimalData = True\<rparr>"

theorem stack_operations_witness:
  "RotN 1 sample_stack = Inr \<lparr>stk = [[2], [1], [3]], verifyMinimalData = True\<rparr> \<and>
   RotN 2 sample_stack = Inl ErrInvalidStackOperation \<and>
   RotN 1431655766 sample_stack = Inr sample_stack"
proof -
  note simps = sample_stack_def view_def leaves_def set_view_def
  have "RotN 1 sample_stack = Inr \<lparr>stk = [[2], [1], [3]], verifyMinimalData = True\<rparr>"
    using stack_operations [of 1 sample_stack] by (simp add: simps)
  moreover have "RotN 2 sample_stack = Inl ErrInvalidStackOperation"
    using stack_operations [of 2 sample_stack] by (simp add: simps)
  moreover have "rotate 1431655766 [[1], [2]] = [[1], [2] :: bytes]"
    using rotate_conv_mod [of 1431655766 "[[1], [2] :: bytes]"] by (simp flip: numeral_2_eq_2)
  then have "RotN 1431655766 sample_stack = Inr sample_stack"
    using stack_operations [of 1431655766 sample_stack] by (simp add: simps)
  ultimately show ?thesis by simp
qed

lemma asBool_mag: "asBool t \<longleftrightarrow> script_mag t \<noteq> 0"
proof (induction t)
  case Nil
  then show ?case by simp
next
  case (Cons b t)
  show ?case
  proof (cases "t = []")
    case True
    have "unat b mod 128 = 0 \<longleftrightarrow> b = 0 \<or> b = 0x80"
      using byte_cases_128 [of b] by (auto split: if_splits)
    with True show ?thesis by (auto simp: script_mag_def)
  next
    case False
    then have "script_mag (b # t) = unat b + 256 * script_mag t"
      by (cases t rule: rev_cases) (simp_all add: script_mag_def algebra_simps)
    with False Cons show ?thesis by (auto simp: unat_eq_0)
  qed
qed

text \<open>
  An item is true as a boolean exactly if it denotes a number
  other than zero, whatever its length; in particular the negative zeros are false.
\<close>

lemma as_bool_number:
  "(asBool t \<longleftrightarrow> script_int t \<noteq> 0) \<and> asBool (fromBool v) = v"
proof
  show "asBool t \<longleftrightarrow> script_int t \<noteq> 0" by (simp add: asBool_mag script_int_def)
  show "asBool (fromBool v) = v" by (simp add: fromBool_def)
qed

end
