(* ===== verification/Script_Sig.thy ===== *)
theory Script_Sig
  imports Sighash Script_Stack
begin

text \<open>
  The state of the script engine (\<^verbatim>\<open>txscript/engine.go\<close>) and the verification of signatures under
  its four sets of rules: \<^verbatim>\<open>txscript/sigvalidate.go\<close>, the signature cache of
  \<^verbatim>\<open>txscript/sigcache.go\<close>, the encoding checks of \<^verbatim>\<open>txscript/engine.go\<close> and the taproot
  commitments of \<^verbatim>\<open>txscript/taproot.go\<close>.

  Hash functions, curve arithmetic and the order in which Go walks a map are fields of the record
  \<open>script_env\<close>.  A \<^verbatim>\<open>txscript.Error\<close> is \<open>ScriptErr\<close> with its code, any other error is
  \<open>PlainErr\<close>, a nil dereference or an index out of range is \<open>EnginePanic\<close>.
\<close>

unbundle bit_operations_syntax

section \<open>Flags and limits\<close>

type_synonym ScriptFlags = u32

abbreviation (input) ScriptBip16 :: ScriptFlags where "ScriptBip16 \<equiv> 0x1"
abbreviation (input) ScriptStrictMultiSig :: ScriptFlags where "ScriptStrictMultiSig \<equiv> 0x2"
abbreviation (input) ScriptDiscourageUpgradableNops :: ScriptFlags where "ScriptDiscourageUpgradableNops \<equiv> 0x4"
abbreviation (input) ScriptVerifyCheckLockTimeVerify :: ScriptFlags where "ScriptVerifyCheckLockTimeVerify \<equiv> 0x8"
abbreviation (input) ScriptVerifyCheckSequenceVerify :: ScriptFlags where "ScriptVerifyCheckSequenceVerify \<equiv> 0x10"
abbreviation (input) ScriptVerifyCleanStack :: ScriptFlags where "ScriptVerifyCleanStack \<equiv> 0x20"
abbreviation (input) ScriptVerifyDERSignatures :: ScriptFlags where "ScriptVerifyDERSignatures \<equiv> 0x40"
abbreviation (input) ScriptVerifyLowS :: ScriptFlags where "ScriptVerifyLowS \<equiv> 0x80"
abbreviation (input) ScriptVerifyMinimalData :: ScriptFlags where "ScriptVerifyMinimalData \<equiv> 0x100"
abbreviation (input) ScriptVerifyNullFail :: ScriptFlags where "ScriptVerifyNullFail \<equiv> 0x200"
abbreviation (input) ScriptVerifySigPushOnly :: ScriptFlags where "ScriptVerifySigPushOnly \<equiv> 0x400"
abbreviation (input) ScriptVerifyStrictEncoding :: ScriptFlags where "ScriptVerifyStrictEncoding \<equiv> 0x800"
abbreviation (input) ScriptVerifyWitness :: ScriptFlags where "ScriptVerifyWitness \<equiv> 0x1000"
abbreviation (input) ScriptVerifyDiscourageUpgradeableWitnessProgram :: ScriptFlags where
  "ScriptVerifyDiscourageUpgradeableWitnessProgram \<equiv> 0x2000"
abbreviation (input) ScriptVerifyMinimalIf :: ScriptFlags where "ScriptVerifyMinimalIf \<equiv> 0x4000"
abbreviation (input) ScriptVerifyWitnessPubKeyType :: ScriptFlags where "ScriptVerifyWitnessPubKeyType \<equiv> 0x8000"
abbreviation (input) ScriptVerifyTaproot :: ScriptFlags where "ScriptVerifyTaproot \<equiv> 0x10000"
abbreviation (input) ScriptVerifyDiscourageUpgradeableTaprootVersion :: ScriptFlags where
  "ScriptVerifyDiscourageUpgradeableTaprootVersion \<equiv> 0x20000"
abbreviation (input) ScriptVerifyDiscourageOpSuccess :: ScriptFlags where "ScriptVerifyDiscourageOpSuccess \<equiv> 0x40000"
abbreviation (input) ScriptVerifyDiscourageUpgradeablePubkeyType :: ScriptFlags where
  "ScriptVerifyDiscourageUpgradeablePubkeyType \<equiv> 0x80000"
abbreviation (input) ScriptVerifyConstScriptCode :: ScriptFlags where "ScriptVerifyConstScriptCode \<equiv> 0x100000"

definition MaxStackSize :: nat where "MaxStackSize = 1000"
definition MaxOpsPerScript :: nat where "MaxOpsPerScript = 201"

abbreviation (input) payToWitnessPubKeyHashDataSize :: nat where "payToWitnessPubKeyHashDataSize \<equiv> 20"
abbreviation (input) payToWitnessScriptHashDataSize :: nat where "payToWitnessScriptHashDataSize \<equiv> 32"
abbreviation (input) payToTaprootDataSize :: nat where "payToTaprootDataSize \<equiv> 32"
abbreviation (input) BaseSegwitWitnessVersion :: int where "BaseSegwitWitnessVersion \<equiv> 0"
abbreviation (input) TaprootWitnessVersion :: int where "TaprootWitnessVersion \<equiv> 1"
abbreviation (input) sigOpsDelta :: i32 where "sigOpsDelta \<equiv> 50"
abbreviation (input) blankCodeSepValue :: u32 where "blankCodeSepValue \<equiv> 0xffffffff"

section \<open>The environment\<close>

datatype engine_error = ScriptErr ErrorCode | PlainErr | EnginePanic

definition serr :: "ErrorCode + 'a \<Rightarrow> engine_error + 'a" where
  "serr r = (case r of Inl e \<Rightarrow> Inl (ScriptErr e) | Inr x \<Rightarrow> Inr x)"

text \<open>An entry of the cache: the digest, the signature and the key.\<close>

type_synonym sigCacheEntry = "bytes \<times> bytes \<times> bytes"

text \<open>
  Keys, ECDSA signatures and Schnorr signatures are the types \<open>'k\<close>, \<open>'s\<close> and \<open>'x\<close>.
  \<open>env_tweak\<close> adds a multiple of the generator to a point; \<open>env_evict\<close> is the entry at which the
  walk over the cache starts.
\<close>

record ('d, 'k, 's, 'x) script_env =
  env_sha256 :: "bytes \<Rightarrow> bytes"
  env_ripemd160 :: "bytes \<Rightarrow> bytes"
  env_sha1 :: "bytes \<Rightarrow> bytes"
  env_decimal :: "'d decimal_ops"
  env_ParsePubKey :: "bytes \<Rightarrow> 'k option"
  env_ParseDERSignature :: "bytes \<Rightarrow> 's option"
  env_ParseSignature :: "bytes \<Rightarrow> 's option"
  env_Verify :: "'s \<Rightarrow> bytes \<Rightarrow> 'k \<Rightarrow> bool"
  env_schnorrParsePubKey :: "bytes \<Rightarrow> 'k option"
  env_schnorrParseSignature :: "bytes \<Rightarrow> 'x option"
  env_schnorrVerify :: "'x \<Rightarrow> bytes \<Rightarrow> 'k \<Rightarrow> bool"
  env_schnorrSerializePubKey :: "'k \<Rightarrow> bytes"
  env_SerializeCompressed :: "'k \<Rightarrow> bytes"
  env_tweak :: "'k \<Rightarrow> bytes \<Rightarrow> 'k"
  env_halfOrder :: int
  env_evict :: "sigCacheEntry list \<Rightarrow> nat"

section \<open>The signature cache\<close>

text \<open>The map as the list of its entries, one per digest.\<close>

record SigCache =
  sc_validSigs :: "sigCacheEntry list"
  sc_maxEntries :: nat

definition NewSigCache :: "nat \<Rightarrow> SigCache" where
  "NewSigCache maxEntries = \<lparr>sc_validSigs = [], sc_maxEntries = maxEntries\<rparr>"

definition sc_Exists :: "bytes \<Rightarrow> bytes \<Rightarrow> bytes \<Rightarrow> SigCache \<Rightarrow> bool" where
  "sc_Exists sigHash sig pubKey s =
     (case map_of (sc_validSigs s) sigHash of None \<Rightarrow> False | Some (esig, epubKey) \<Rightarrow> epubKey = pubKey \<and> esig = sig)"

definition sc_Add :: "('d, 'k, 's, 'x) script_env \<Rightarrow> bytes \<Rightarrow> bytes \<Rightarrow> bytes \<Rightarrow> SigCache \<Rightarrow> SigCache" where
  "sc_Add env sigHash sig pubKey s =
     (if sc_maxEntries s = 0 then s
      else
        let sigs = sc_validSigs s;
            i = env_evict env sigs mod length sigs;
            sigs = (if length sigs + 1 > sc_maxEntries s then take i sigs @ drop (i + 1) sigs else sigs)
        in s\<lparr>sc_validSigs := (sigHash, sig, pubKey) # filter (\<lambda>e. fst e \<noteq> sigHash) sigs\<rparr>)"

section \<open>The engine\<close>

record taprootExecutionCtx =
  cx_annex :: "bytes option"
  cx_codeSepPos :: u32
  cx_tapLeafHash :: bytes
  cx_sigOpsBudget :: i32
  cx_mustSucceed :: bool

definition tallysigOp :: "taprootExecutionCtx \<Rightarrow> engine_error + taprootExecutionCtx" where
  "tallysigOp t =
     (let t = t\<lparr>cx_sigOpsBudget := cx_sigOpsBudget t - sigOpsDelta\<rparr>
      in if sint (cx_sigOpsBudget t) < 0 then Inl (ScriptErr ErrTaprootMaxSigOps) else Inr t)"

definition newTaprootExecutionCtx :: "i32 \<Rightarrow> taprootExecutionCtx" where
  "newTaprootExecutionCtx inputWitnessSize =
     \<lparr>cx_annex = None, cx_codeSepPos = blankCodeSepValue, cx_tapLeafHash = blankHash,
      cx_sigOpsBudget = sigOpsDelta + inputWitnessSize, cx_mustSucceed = False\<rparr>"

datatype cond_value = OpCondFalse | OpCondTrue | OpCondSkip

text \<open>The callback of the debug engine is left out.\<close>

record 'd Engine =
  vm_flags :: ScriptFlags
  vm_tx :: "'d MsgTx"
  vm_txIdx :: nat
  vm_version :: u16
  vm_bip16 :: bool
  vm_sigCache :: "SigCache option"
  vm_hashCache :: "TxSigHashes option"
  vm_prevOutFetcher :: "'d PrevOutputFetcher"
  vm_scripts :: "bytes list"
  vm_scriptIdx :: nat
  vm_opcodeIdx :: nat
  vm_lastCodeSep :: nat
  vm_tokenizer :: ScriptTokenizer
  vm_savedFirstStack :: "bytes list"
  vm_dstack :: stack
  vm_astack :: stack
  vm_condStack :: "cond_value list"
  vm_numOps :: nat
  vm_witnessVersion :: int
  vm_witnessProgram :: "bytes option"
  vm_inputAmount :: i64
  vm_txAssets :: "'d TxAssets"
  vm_taprootCtx :: "taprootExecutionCtx option"

definition hasFlag :: "'d Engine \<Rightarrow> ScriptFlags \<Rightarrow> bool" where
  "hasFlag vm flag \<longleftrightarrow> vm_flags vm AND flag = flag"

definition isWitnessVersionActive :: "'d Engine \<Rightarrow> int \<Rightarrow> bool" where
  "isWitnessVersionActive vm version \<longleftrightarrow> vm_witnessProgram vm \<noteq> None \<and> vm_witnessVersion vm = version"

text \<open>The slice panics when the position of the separator is beyond the script.\<close>

definition subScript :: "'d Engine \<Rightarrow> engine_error + bytes" where
  "subScript vm =
     (if vm_scriptIdx vm < length (vm_scripts vm) \<and> vm_lastCodeSep vm \<le> length (vm_scripts vm ! vm_scriptIdx vm)
      then Inr (drop (vm_lastCodeSep vm) (vm_scripts vm ! vm_scriptIdx vm)) else Inl EnginePanic)"

section \<open>Encodings\<close>

definition checkHashTypeEncoding :: "SigHashType \<Rightarrow> 'd Engine \<Rightarrow> ErrorCode + unit" where
  "checkHashTypeEncoding hashType vm =
     (if \<not> hasFlag vm ScriptVerifyStrictEncoding then Inr ()
      else
        let sigHashType = hashType AND NOT SigHashAnyOneCanPay
        in if sigHashType < SigHashAll \<or> sigHashType > SigHashSingle then Inl ErrInvalidSigHashType else Inr ())"

definition isStrictPubKeyEncoding :: "bytes \<Rightarrow> bool" where
  "isStrictPubKeyEncoding pubKey \<longleftrightarrow>
     length pubKey = 33 \<and> (pubKey ! 0 = 0x02 \<or> pubKey ! 0 = 0x03) \<or>
     length pubKey = 65 \<and> (pubKey ! 0 = 0x04 \<or> pubKey ! 0 = 0x06 \<or> pubKey ! 0 = 0x07)"

definition IsCompressedPubKey :: "bytes \<Rightarrow> bool" where
  "IsCompressedPubKey pubKey \<longleftrightarrow> length pubKey = 33 \<and> pubKey ! 0 AND NOT 0x1 = 0x02"

definition checkPubKeyEncoding :: "bytes \<Rightarrow> 'd Engine \<Rightarrow> ErrorCode + unit" where
  "checkPubKeyEncoding pubKey vm =
     (if hasFlag vm ScriptVerifyWitnessPubKeyType \<and> isWitnessVersionActive vm BaseSegwitWitnessVersion \<and>
         \<not> IsCompressedPubKey pubKey then Inl ErrWitnessPubKeyType
      else if \<not> hasFlag vm ScriptVerifyStrictEncoding then Inr ()
      else if length pubKey = 33 \<and> (pubKey ! 0 = 0x02 \<or> pubKey ! 0 = 0x03) then Inr ()
      else if length pubKey = 65 \<and> pubKey ! 0 = 0x04 then Inr ()
      else Inl ErrPubKeyType)"

text \<open>\<^verbatim>\<open>big.Int.SetBytes\<close>: big-endian.\<close>

definition be_int :: "bytes \<Rightarrow> int" where
  "be_int b = foldl (\<lambda>n d. 256 * n + int (unat d)) 0 b"

definition checkSignatureEncoding :: "('d, 'k, 's, 'x) script_env \<Rightarrow> bytes \<Rightarrow> 'd Engine \<Rightarrow> ErrorCode + unit" where
  "checkSignatureEncoding env sig vm =
     (if \<not> hasFlag vm ScriptVerifyDERSignatures \<and> \<not> hasFlag vm ScriptVerifyLowS \<and> \<not> hasFlag vm ScriptVerifyStrictEncoding
      then Inr ()
      else
        let sigLen = length sig
        in if sigLen < 8 then Inl ErrSigTooShort
           else if sigLen > 72 then Inl ErrSigTooLong
           else if sig ! 0 \<noteq> 0x30 then Inl ErrSigInvalidSeqID
           else if unat (sig ! 1) \<noteq> sigLen - 2 then Inl ErrSigInvalidDataLen
           else
             let rOffset = 4; rLen = unat (sig ! 3); sTypeOffset = rOffset + rLen; sLenOffset = sTypeOffset + 1
             in if sTypeOffset \<ge> sigLen then Inl ErrSigMissingSTypeID
                else if sLenOffset \<ge> sigLen then Inl ErrSigMissingSLen
                else
                  let sOffset = sLenOffset + 1; sLen = unat (sig ! sLenOffset)
                  in if sOffset + sLen \<noteq> sigLen then Inl ErrSigInvalidSLen
                     else if sig ! 2 \<noteq> 0x02 then Inl ErrSigInvalidRIntID
                     else if rLen = 0 then Inl ErrSigZeroRLen
                     else if sig ! rOffset AND 0x80 \<noteq> 0 then Inl ErrSigNegativeR
                     else if rLen > 1 \<and> sig ! rOffset = 0 \<and> sig ! (rOffset + 1) AND 0x80 = 0 then Inl ErrSigTooMuchRPadding
                     else if sig ! sTypeOffset \<noteq> 0x02 then Inl ErrSigInvalidSIntID
                     else if sLen = 0 then Inl ErrSigZeroSLen
                     else if sig ! sOffset AND 0x80 \<noteq> 0 then Inl ErrSigNegativeS
                     else if sLen > 1 \<and> sig ! sOffset = 0 \<and> sig ! (sOffset + 1) AND 0x80 = 0 then Inl ErrSigTooMuchSPadding
                     else if hasFlag vm ScriptVerifyLowS \<and> be_int (take sLen (drop sOffset sig)) > env_halfOrder env
                     then Inl ErrSigHighS
                     else Inr ())"

section \<open>The script without a signature\<close>

text \<open>One round of \<^verbatim>\<open>removeOpcodeByData\<close>; \<^verbatim>\<open>result\<close> is \<open>None\<close> until the first match.\<close>

fun removeOpcodeCanonical ::
  "bytes \<Rightarrow> bytes \<Rightarrow> byte \<Rightarrow> bytes option \<Rightarrow> nat \<Rightarrow> bytes option \<times> nat \<times> bool \<Rightarrow> bytes option \<times> nat \<times> bool" where
  "removeOpcodeCanonical script dataToRemove op data byteIndex (result, prevOffset, match) =
     (if isCanonicalPush op data \<and> (case data of None \<Rightarrow> [] | Some d \<Rightarrow> d) = dataToRemove then
        (case result of None \<Rightarrow> Some (take prevOffset script) | Some r \<Rightarrow> Some r, byteIndex, True)
      else
        (case result of None \<Rightarrow> None | Some r \<Rightarrow> Some (r @ take (byteIndex - prevOffset) (drop prevOffset script)), byteIndex, match))"

definition removeOpcodeByData :: "bytes \<Rightarrow> bytes \<Rightarrow> bytes \<times> bool" where
  "removeOpcodeByData script dataToRemove =
     (if length script = 0 \<or> length dataToRemove = 0 then (script, False)
      else
        case tk_loop (\<lambda>t a. Inr (removeOpcodeCanonical script dataToRemove (tk_Opcode t) (tk_data t) (tk_ByteIndex t) a))
               (MakeScriptTokenizer 0 script) (None, 0, False) of
          Inl r \<Rightarrow> r
        | Inr (_, result, _, match) \<Rightarrow> (case result of None \<Rightarrow> script | Some r \<Rightarrow> r, match))"

section \<open>ECDSA signatures\<close>

record ('k, 's) baseSigVerifier =
  bv_pubKey :: 'k
  bv_sig :: 's
  bv_fullSigBytes :: bytes
  bv_sigBytes :: bytes
  bv_pkBytes :: bytes
  bv_subScript :: bytes
  bv_hashType :: SigHashType

record verifyResult =
  sigValid :: bool
  sigMatch :: bool

definition strict_encoding :: "'d Engine \<Rightarrow> bool" where
  "strict_encoding vm \<longleftrightarrow> hasFlag vm ScriptVerifyStrictEncoding \<or> hasFlag vm ScriptVerifyDERSignatures"

definition parse_signature :: "('d, 'k, 's, 'x) script_env \<Rightarrow> 'd Engine \<Rightarrow> bytes \<Rightarrow> 's option" where
  "parse_signature env vm sigBytes =
     (if strict_encoding vm then env_ParseDERSignature env sigBytes else env_ParseSignature env sigBytes)"

definition parseBaseSigAndPubkey ::
    "('d, 'k, 's, 'x) script_env \<Rightarrow> bytes \<Rightarrow> bytes \<Rightarrow> 'd Engine \<Rightarrow> engine_error + ('k \<times> 's \<times> SigHashType)" where
  "parseBaseSigAndPubkey env pkBytes fullSigBytes vm =
     (if fullSigBytes = [] then Inl EnginePanic
      else
        let hashType = ucast (last fullSigBytes); sigBytes = butlast fullSigBytes
        in andthen (serr (checkHashTypeEncoding hashType vm)) (\<lambda>_.
           andthen (serr (checkSignatureEncoding env sigBytes vm)) (\<lambda>_.
           andthen (serr (checkPubKeyEncoding pkBytes vm)) (\<lambda>_.
           case env_ParsePubKey env pkBytes of None \<Rightarrow> Inl PlainErr
           | Some pubKey \<Rightarrow>
               case parse_signature env vm sigBytes of None \<Rightarrow> Inl PlainErr
               | Some signature \<Rightarrow> Inr (pubKey, signature, hashType)))))"

definition newBaseSigVerifier ::
    "('d, 'k, 's, 'x) script_env \<Rightarrow> bytes \<Rightarrow> bytes \<Rightarrow> 'd Engine \<Rightarrow> engine_error + ('k, 's) baseSigVerifier" where
  "newBaseSigVerifier env pkBytes fullSigBytes vm =
     andthen (parseBaseSigAndPubkey env pkBytes fullSigBytes vm) (\<lambda>(pubKey, sig, hashType).
     andthen (subScript vm) (\<lambda>script.
       Inr \<lparr>bv_pubKey = pubKey, bv_sig = sig, bv_fullSigBytes = fullSigBytes, bv_sigBytes = butlast fullSigBytes,
            bv_pkBytes = pkBytes, bv_subScript = script, bv_hashType = hashType\<rparr>))"

text \<open>\<^verbatim>\<open>copy\<close> of a digest into a \<^verbatim>\<open>chainhash.Hash\<close>.\<close>

definition hash_copy :: "bytes \<Rightarrow> bytes" where
  "hash_copy h = take 32 (h @ replicate 32 0)"

text \<open>The verification through the cache, where there is one.\<close>

definition verify_cached ::
    "('d, 'k, 's, 'x) script_env \<Rightarrow> bool \<Rightarrow> bytes \<Rightarrow> bytes \<Rightarrow> bytes \<Rightarrow> SigCache option \<Rightarrow> bool \<times> SigCache option" where
  "verify_cached env verifies key sigBytes pkBytes sigCache =
     (case sigCache of None \<Rightarrow> (verifies, None)
      | Some c \<Rightarrow>
          if sc_Exists key sigBytes pkBytes c then (True, Some c)
          else if verifies then (True, Some (sc_Add env key sigBytes pkBytes c))
          else (False, Some c))"

definition base_verifySig ::
    "('d, 'k, 's, 'x) script_env \<Rightarrow> ('k, 's) baseSigVerifier \<Rightarrow> bytes \<Rightarrow> SigCache option \<Rightarrow> bool \<times> SigCache option" where
  "base_verifySig env b sigHash =
     verify_cached env (env_Verify env (bv_sig b) sigHash (bv_pubKey b)) (hash_copy sigHash) (bv_sigBytes b) (bv_pkBytes b)"

text \<open>The outcome of a verification and the engine with the cache after it.\<close>

definition outcome :: "bool \<Rightarrow> bool \<times> SigCache option \<Rightarrow> 'd Engine \<Rightarrow> verifyResult \<times> 'd Engine" where
  "outcome match r vm = (\<lparr>sigValid = fst r, sigMatch = match\<rparr>, vm\<lparr>vm_sigCache := snd r\<rparr>)"

definition base_Verify ::
    "('d, 'k, 's, 'x) script_env \<Rightarrow> ('k, 's) baseSigVerifier \<Rightarrow> 'd Engine \<Rightarrow> engine_error + (verifyResult \<times> 'd Engine)" where
  "base_Verify env b vm =
     (let (script, match) = removeOpcodeByData (bv_subScript b) (bv_fullSigBytes b)
      in case calcSignatureHash (env_sha256 env) (env_decimal env) script (bv_hashType b) (vm_tx vm) (vm_txIdx vm) of
           None \<Rightarrow> Inl EnginePanic
         | Some sigHash \<Rightarrow> Inr (outcome match (base_verifySig env b sigHash (vm_sigCache vm)) vm))"

definition sig_hashes :: "('d, 'k, 's, 'x) script_env \<Rightarrow> 'd Engine \<Rightarrow> TxSigHashes option" where
  "sig_hashes env vm =
     (case vm_hashCache vm of Some h \<Rightarrow> Some h
      | None \<Rightarrow> NewTxSigHashes (env_sha256 env) (env_decimal env) (vm_tx vm) (vm_prevOutFetcher vm))"

definition segwit_Verify ::
    "('d, 'k, 's, 'x) script_env \<Rightarrow> ('k, 's) baseSigVerifier \<Rightarrow> 'd Engine \<Rightarrow> engine_error + (verifyResult \<times> 'd Engine)" where
  "segwit_Verify env b vm =
     (case sig_hashes env vm of None \<Rightarrow> Inl EnginePanic
      | Some sigHashes \<Rightarrow>
          case calcWitnessSignatureHashRaw (env_sha256 env) (env_decimal env) (bv_subScript b) sigHashes (bv_hashType b)
                 (vm_tx vm) (vm_txIdx vm) (vm_inputAmount vm) (vm_txAssets vm) of
            None \<Rightarrow> Inr (\<lparr>sigValid = False, sigMatch = False\<rparr>, vm)
          | Some sigHash \<Rightarrow> Inr (outcome False (base_verifySig env b sigHash (vm_sigCache vm)) vm))"

section \<open>Schnorr signatures\<close>

record ('k, 'x) taprootSigVerifier =
  tv_pubKey :: 'k
  tv_pkBytes :: bytes
  tv_fullSigBytes :: bytes
  tv_sig :: 'x
  tv_hashType :: SigHashType

definition parseTaprootSigAndPubKey ::
    "('d, 'k, 's, 'x) script_env \<Rightarrow> bytes \<Rightarrow> bytes \<Rightarrow> engine_error + ('k \<times> 'x \<times> SigHashType)" where
  "parseTaprootSigAndPubKey env pkBytes rawSig =
     (case env_schnorrParsePubKey env pkBytes of None \<Rightarrow> Inl PlainErr
      | Some pubKey \<Rightarrow>
          if length rawSig = 64 then
            case env_schnorrParseSignature env rawSig of None \<Rightarrow> Inl PlainErr
            | Some sig \<Rightarrow> Inr (pubKey, sig, SigHashDefault)
          else if length rawSig = 64 + 1 \<and> rawSig ! 64 \<noteq> 0 then
            case env_schnorrParseSignature env (take 64 rawSig) of None \<Rightarrow> Inl PlainErr
            | Some sig \<Rightarrow> Inr (pubKey, sig, ucast (rawSig ! 64))
          else Inl (ScriptErr ErrInvalidTaprootSigLen))"

definition newTaprootSigVerifier ::
    "('d, 'k, 's, 'x) script_env \<Rightarrow> bytes \<Rightarrow> bytes \<Rightarrow> engine_error + ('k, 'x) taprootSigVerifier" where
  "newTaprootSigVerifier env pkBytes fullSigBytes =
     andthen (parseTaprootSigAndPubKey env pkBytes fullSigBytes) (\<lambda>(pubKey, sig, sigHashType).
       Inr \<lparr>tv_pubKey = pubKey, tv_pkBytes = pkBytes, tv_fullSigBytes = fullSigBytes, tv_sig = sig, tv_hashType = sigHashType\<rparr>)"

text \<open>The digest; without a hash cache it panics as soon as one of the shared hashes is needed.\<close>

definition taproot_sighash ::
    "('d, 'k, 's, 'x) script_env \<Rightarrow> SigHashType \<Rightarrow> taprootSigHashOptions \<Rightarrow> 'd Engine \<Rightarrow> sighash_error + bytes" where
  "taproot_sighash env hashType opts vm =
     (case vm_hashCache vm of
        Some hashCache \<Rightarrow>
          calcTaprootSignatureHashRaw (env_sha256 env) (env_decimal env) hashCache hashType (vm_tx vm) (vm_txIdx vm) (vm_prevOutFetcher vm) opts
      | None \<Rightarrow>
          if isValidTaprootSigHash hashType \<and> vm_txIdx vm < length (TxIns (vm_tx vm)) \<and>
             (hashType AND SigHashAnyOneCanPay \<noteq> SigHashAnyOneCanPay \<or>
              hashType AND SigHashSingle \<noteq> SigHashSingle \<and> hashType AND SigHashSingle \<noteq> SigHashNone)
          then Inl SigHashPanic
          else
            calcTaprootSignatureHashRaw (env_sha256 env) (env_decimal env)
              \<lparr>HashPrevOutsV0 = [], HashSequenceV0 = [], HashOutputsV0 = [], HashPrevOutsV1 = [], HashSequenceV1 = [],
               HashOutputsV1 = [], HashInputScriptsV1 = [], HashInputAmountsV1 = []\<rparr>
              hashType (vm_tx vm) (vm_txIdx vm) (vm_prevOutFetcher vm) opts)"

text \<open>\<^verbatim>\<open>chainhash.NewHash\<close> gives nil for a digest of another length; the cache dereferences it.\<close>

definition taproot_verifySig ::
    "('d, 'k, 's, 'x) script_env \<Rightarrow> ('k, 'x) taprootSigVerifier \<Rightarrow> bytes \<Rightarrow> 'd Engine \<Rightarrow> engine_error + (verifyResult \<times> 'd Engine)" where
  "taproot_verifySig env t sigHash vm =
     (if vm_sigCache vm \<noteq> None \<and> length sigHash \<noteq> 32 then Inl EnginePanic
      else Inr (outcome False (verify_cached env (env_schnorrVerify env (tv_sig t) sigHash (tv_pubKey t)) sigHash
             (tv_fullSigBytes t) (tv_pkBytes t) (vm_sigCache vm)) vm))"

definition taproot_Verify ::
    "('d, 'k, 's, 'x) script_env \<Rightarrow> ('k, 'x) taprootSigVerifier \<Rightarrow> taprootSigHashOptions \<Rightarrow> 'd Engine \<Rightarrow>
     engine_error + (verifyResult \<times> 'd Engine)" where
  "taproot_Verify env t opts vm =
     (case taproot_sighash env (tv_hashType t) opts vm of
        Inl SigHashPanic \<Rightarrow> Inl EnginePanic
      | Inl _ \<Rightarrow> Inr (\<lparr>sigValid = False, sigMatch = False\<rparr>, vm)
      | Inr sigHash \<Rightarrow> taproot_verifySig env t sigHash vm)"

definition with_annex :: "('d, 'k, 's, 'x) script_env \<Rightarrow> bytes option \<Rightarrow> taprootSigHashOptions \<Rightarrow> taprootSigHashOptions" where
  "with_annex env annex opts = (case annex of None \<Rightarrow> opts | Some a \<Rightarrow> WithAnnex (env_sha256 env) a opts)"

text \<open>The verifier of a tapscript; \<open>None\<close> is the one for a key of an unknown type.\<close>

definition newBaseTapscriptSigVerifier ::
    "('d, 'k, 's, 'x) script_env \<Rightarrow> bytes \<Rightarrow> bytes \<Rightarrow> 'd Engine \<Rightarrow> engine_error + ('k, 'x) taprootSigVerifier option" where
  "newBaseTapscriptSigVerifier env pkBytes rawSig vm =
     (if length pkBytes = 0 then Inl (ScriptErr ErrTaprootPubkeyIsEmpty)
      else if length pkBytes = 32 then andthen (newTaprootSigVerifier env pkBytes rawSig) (\<lambda>t. Inr (Some t))
      else if hasFlag vm ScriptVerifyDiscourageUpgradeablePubkeyType then Inl (ScriptErr ErrDiscourageUpgradeablePubKeyType)
      else Inr None)"

definition tapscript_Verify ::
    "('d, 'k, 's, 'x) script_env \<Rightarrow> ('k, 'x) taprootSigVerifier option \<Rightarrow> taprootExecutionCtx \<Rightarrow> 'd Engine \<Rightarrow>
     engine_error + (verifyResult \<times> 'd Engine)" where
  "tapscript_Verify env b ctx vm =
     (case b of None \<Rightarrow> Inr (\<lparr>sigValid = True, sigMatch = False\<rparr>, vm)
      | Some t \<Rightarrow>
          taproot_Verify env t
            (with_annex env (cx_annex ctx)
               (WithBaseTapscriptVersion (cx_codeSepPos ctx) (cx_tapLeafHash ctx) defaultTaprootSighashOptions)) vm)"

section \<open>Taproot commitments\<close>

abbreviation (input) TaprootAnnexTag :: byte where "TaprootAnnexTag \<equiv> 0x50"
abbreviation (input) TaprootLeafMask :: byte where "TaprootLeafMask \<equiv> 0xfe"
abbreviation (input) BaseLeafVersion :: byte where "BaseLeafVersion \<equiv> 0xc0"
abbreviation (input) ControlBlockBaseSize :: nat where "ControlBlockBaseSize \<equiv> 33"
abbreviation (input) ControlBlockNodeSize :: nat where "ControlBlockNodeSize \<equiv> 32"
abbreviation (input) ControlBlockMaxSize :: nat where "ControlBlockMaxSize \<equiv> 33 + 32 * 128"

definition TagTapLeaf :: bytes where "TagTapLeaf = [0x54, 0x61, 0x70, 0x4c, 0x65, 0x61, 0x66]"
definition TagTapBranch :: bytes where "TagTapBranch = [0x54, 0x61, 0x70, 0x42, 0x72, 0x61, 0x6e, 0x63, 0x68]"
definition TagTapTweak :: bytes where "TagTapTweak = [0x54, 0x61, 0x70, 0x54, 0x77, 0x65, 0x61, 0x6b]"

definition isAnnexedWitness :: "TxWitness \<Rightarrow> bool" where
  "isAnnexedWitness witness \<longleftrightarrow>
     \<not> length witness < 2 \<and> (let lastElement = last witness in length lastElement > 0 \<and> lastElement ! 0 = TaprootAnnexTag)"

definition extractAnnex :: "TxWitness \<Rightarrow> ErrorCode + bytes" where
  "extractAnnex witness = (if \<not> isAnnexedWitness witness then Inl ErrWitnessHasNoAnnex else Inr (last witness))"

record TapLeaf =
  tl_LeafVersion :: byte
  tl_Script :: bytes

definition NewBaseTapLeaf :: "bytes \<Rightarrow> TapLeaf" where
  "NewBaseTapLeaf script = \<lparr>tl_LeafVersion = BaseLeafVersion, tl_Script = script\<rparr>"

definition NewTapLeaf :: "byte \<Rightarrow> bytes \<Rightarrow> TapLeaf" where
  "NewTapLeaf leafVersion script = \<lparr>tl_LeafVersion = leafVersion, tl_Script = script\<rparr>"

definition TapLeaf_TapHash :: "(bytes \<Rightarrow> bytes) \<Rightarrow> TapLeaf \<Rightarrow> bytes" where
  "TapLeaf_TapHash sha t = TaggedHash sha TagTapLeaf (tl_LeafVersion t # WriteVarBytesBuf (tl_Script t))"

text \<open>\<^verbatim>\<open>bytes.Compare\<close> is the lexicographic order.\<close>

definition tapBranchHash :: "(bytes \<Rightarrow> bytes) \<Rightarrow> bytes \<Rightarrow> bytes \<Rightarrow> bytes" where
  "tapBranchHash sha l r =
     (let (l, r) = (if ord_class.lexordp r l then (r, l) else (l, r)) in TaggedHash sha TagTapBranch (l @ r))"

datatype TapNode = Leaf TapLeaf | Branch TapNode TapNode

fun TapNode_TapHash :: "(bytes \<Rightarrow> bytes) \<Rightarrow> TapNode \<Rightarrow> bytes" where
  "TapNode_TapHash sha (Leaf t) = TapLeaf_TapHash sha t"
| "TapNode_TapHash sha (Branch leftNode rightNode) = tapBranchHash sha (TapNode_TapHash sha leftNode) (TapNode_TapHash sha rightNode)"

record 'k ControlBlock =
  cb_InternalKey :: 'k
  cb_OutputKeyYIsOdd :: bool
  cb_LeafVersion :: byte
  cb_InclusionProof :: bytes

definition ControlBlock_ToBytes :: "('d, 'k, 's, 'x) script_env \<Rightarrow> 'k ControlBlock \<Rightarrow> bytes" where
  "ControlBlock_ToBytes env c =
     [cb_LeafVersion c OR (if cb_OutputKeyYIsOdd c then 1 else 0)] @ env_schnorrSerializePubKey env (cb_InternalKey c) @ cb_InclusionProof c"

definition proof_nodes :: "bytes \<Rightarrow> bytes list" where
  "proof_nodes proof = map (\<lambda>nodeOffset. take 32 (drop (32 * nodeOffset) proof)) [0..<length proof div ControlBlockNodeSize]"

definition RootHash :: "(bytes \<Rightarrow> bytes) \<Rightarrow> 'k ControlBlock \<Rightarrow> bytes \<Rightarrow> bytes" where
  "RootHash sha c revealedScript =
     foldl (tapBranchHash sha) (TapLeaf_TapHash sha (NewTapLeaf (cb_LeafVersion c) revealedScript)) (proof_nodes (cb_InclusionProof c))"

definition ParseControlBlock :: "('d, 'k, 's, 'x) script_env \<Rightarrow> bytes \<Rightarrow> engine_error + 'k ControlBlock" where
  "ParseControlBlock env ctrlBlock =
     (if length ctrlBlock < ControlBlockBaseSize then Inl (ScriptErr ErrControlBlockTooSmall)
      else if length ctrlBlock > ControlBlockMaxSize then Inl (ScriptErr ErrControlBlockTooLarge)
      else if (length ctrlBlock - ControlBlockBaseSize) mod ControlBlockNodeSize \<noteq> 0 then Inl (ScriptErr ErrControlBlockInvalidLength)
      else
        case env_schnorrParsePubKey env (take 32 (drop 1 ctrlBlock)) of None \<Rightarrow> Inl PlainErr
        | Some pubKey \<Rightarrow>
            Inr \<lparr>cb_InternalKey = pubKey, cb_OutputKeyYIsOdd = (ctrlBlock ! 0 AND 0x01 = 0x01),
                 cb_LeafVersion = ctrlBlock ! 0 AND TaprootLeafMask, cb_InclusionProof = drop 33 ctrlBlock\<rparr>)"

text \<open>The key is parsed again from its x coordinate; \<open>None\<close> is the nil key that the code goes on with.\<close>

definition ComputeTaprootOutputKey :: "('d, 'k, 's, 'x) script_env \<Rightarrow> 'k \<Rightarrow> bytes \<Rightarrow> 'k option" where
  "ComputeTaprootOutputKey env pubKey scriptRoot =
     map_option (\<lambda>internalKey.
       env_tweak env internalKey
         (TaggedHash (env_sha256 env) TagTapTweak (env_schnorrSerializePubKey env internalKey @ scriptRoot)))
       (env_schnorrParsePubKey env (env_schnorrSerializePubKey env pubKey))"

definition VerifyTaprootLeafCommitment ::
    "('d, 'k, 's, 'x) script_env \<Rightarrow> 'k ControlBlock \<Rightarrow> bytes \<Rightarrow> bytes \<Rightarrow> engine_error + unit" where
  "VerifyTaprootLeafCommitment env controlBlock taprootWitnessProgram revealedScript =
     (case ComputeTaprootOutputKey env (cb_InternalKey controlBlock) (RootHash (env_sha256 env) controlBlock revealedScript) of
        None \<Rightarrow> Inl EnginePanic
      | Some taprootKey \<Rightarrow>
          if env_schnorrSerializePubKey env taprootKey \<noteq> taprootWitnessProgram then Inl (ScriptErr ErrTaprootMerkleProofInvalid)
          else if cb_OutputKeyYIsOdd controlBlock \<noteq> (env_SerializeCompressed env taprootKey ! 0 = 0x03)
          then Inl (ScriptErr ErrTaprootOutputKeyParityMismatch)
          else Inr ())"

definition VerifyTaprootKeySpend :: "('d, 'k, 's, 'x) script_env \<Rightarrow> bytes \<Rightarrow> bytes \<Rightarrow> 'd Engine \<Rightarrow> engine_error + 'd Engine" where
  "VerifyTaprootKeySpend env witnessProgram rawSig vm =
     (let witness = Witness (TxIns (vm_tx vm) ! vm_txIdx vm);
          annex = (if isAnnexedWitness witness then Some (last witness) else None)
      in andthen (newTaprootSigVerifier env witnessProgram rawSig) (\<lambda>keySpendVerifier.
         andthen (taproot_Verify env keySpendVerifier (with_annex env annex defaultTaprootSighashOptions) vm) (\<lambda>(result, vm).
           if sigValid result then Inr vm else Inl (ScriptErr ErrTaprootSigInvalid))))"

text \<open>The opcodes that end a tapscript with success.\<close>

definition successOpcodes :: "byte \<Rightarrow> bool" where
  "successOpcodes op \<longleftrightarrow> unat op \<in> {80, 98, 126, 127, 128, 129, 131, 132, 133, 134, 137, 138, 141, 142, 149, 150, 151, 152, 153} \<or>
     187 \<le> unat op \<and> unat op \<le> 254"

definition ScriptHasOpSuccess :: "bytes \<Rightarrow> bool" where
  "ScriptHasOpSuccess witnessScript =
     (case tk_loop (\<lambda>t _. if successOpcodes (tk_Opcode t) then Inl True else Inr ()) (MakeScriptTokenizer 0 witnessScript) () of
        Inl r \<Rightarrow> r
      | Inr _ \<Rightarrow> False)"

end
