(* ===== verification/Script_Opcode.thy ===== *)
theory Script_Opcode
  imports Script_Sig
begin

text \<open>
  The opcodes of the script engine: the handlers of \<^verbatim>\<open>txscript/opcode.go\<close> and the table that
  dispatches to them.  A handler maps the engine to the engine after the opcode or to an error.
\<close>

unbundle bit_operations_syntax

section \<open>Access to the stacks\<close>

type_synonym 'd step = "engine_error + 'd Engine"

definition on_dstack :: "(stack \<Rightarrow> ErrorCode + stack) \<Rightarrow> 'd Engine \<Rightarrow> 'd step" where
  "on_dstack f vm = andthen (serr (f (vm_dstack vm))) (\<lambda>s. Inr (vm\<lparr>vm_dstack := s\<rparr>))"

definition pop_with :: "(stack \<Rightarrow> ErrorCode + ('a \<times> stack)) \<Rightarrow> 'd Engine \<Rightarrow> engine_error + ('a \<times> 'd Engine)" where
  "pop_with f vm = andthen (serr (f (vm_dstack vm))) (\<lambda>(x, s). Inr (x, vm\<lparr>vm_dstack := s\<rparr>))"

definition peek_with :: "(stack \<Rightarrow> ErrorCode + 'a) \<Rightarrow> 'd Engine \<Rightarrow> engine_error + 'a" where
  "peek_with f vm = serr (f (vm_dstack vm))"

definition push_bytes :: "bytes \<Rightarrow> 'd Engine \<Rightarrow> 'd Engine" where
  "push_bytes so vm = vm\<lparr>vm_dstack := PushByteArray so (vm_dstack vm)\<rparr>"

definition push_bool :: "bool \<Rightarrow> 'd Engine \<Rightarrow> 'd Engine" where
  "push_bool v vm = vm\<lparr>vm_dstack := PushBool v (vm_dstack vm)\<rparr>"

definition push_int :: "scriptNum \<Rightarrow> 'd Engine \<Rightarrow> 'd step" where
  "push_int v vm = (case PushInt v (vm_dstack vm) of None \<Rightarrow> Inl EnginePanic | Some s \<Rightarrow> Inr (vm\<lparr>vm_dstack := s\<rparr>))"

definition isBranchExecuting :: "'d Engine \<Rightarrow> bool" where
  "isBranchExecuting vm \<longleftrightarrow> (if length (vm_condStack vm) = 0 then True else last (vm_condStack vm) = OpCondTrue)"

section \<open>Constants, errors and conditionals\<close>

type_synonym ('d, 'k, 's, 'x) opfunc = "('d, 'k, 's, 'x) script_env \<Rightarrow> byte \<Rightarrow> bytes \<Rightarrow> 'd Engine \<Rightarrow> 'd step"

definition opcodeDisabled :: "('d, 'k, 's, 'x) opfunc" where
  "opcodeDisabled env op data vm = Inl (ScriptErr ErrDisabledOpcode)"

definition opcodeReserved :: "('d, 'k, 's, 'x) opfunc" where
  "opcodeReserved env op data vm = Inl (ScriptErr ErrReservedOpcode)"

definition opcodeInvalid :: "('d, 'k, 's, 'x) opfunc" where
  "opcodeInvalid env op data vm = Inl (ScriptErr ErrReservedOpcode)"

definition opcodeFalse :: "('d, 'k, 's, 'x) opfunc" where
  "opcodeFalse env op data vm = Inr (push_bytes [] vm)"

definition opcodePushData :: "('d, 'k, 's, 'x) opfunc" where
  "opcodePushData env op data vm = Inr (push_bytes data vm)"

definition opcode1Negate :: "('d, 'k, 's, 'x) opfunc" where
  "opcode1Negate env op data vm = push_int (- 1) vm"

definition opcodeN :: "('d, 'k, 's, 'x) opfunc" where
  "opcodeN env op data vm = push_int (ucast (op - (OP_1 - 1))) vm"

definition opcodeNop :: "('d, 'k, 's, 'x) opfunc" where
  "opcodeNop env op data vm =
     (if op \<in> {0xb0, 0xb3, 0xb4, 0xb5, 0xb6, 0xb7, 0xb8, 0xb9} \<and> hasFlag vm ScriptDiscourageUpgradableNops
      then Inl (ScriptErr ErrDiscourageUpgradableNOPs) else Inr vm)"

definition popIfBool :: "'d Engine \<Rightarrow> engine_error + (bool \<times> 'd Engine)" where
  "popIfBool vm =
     (if \<not> isWitnessVersionActive vm TaprootWitnessVersion \<and>
         (\<not> isWitnessVersionActive vm BaseSegwitWitnessVersion \<or> \<not> hasFlag vm ScriptVerifyMinimalIf)
      then pop_with PopBool vm
      else
        andthen (pop_with PopByteArray vm) (\<lambda>(so, vm).
          if length so > 1 then Inl (ScriptErr ErrMinimalIf)
          else if length so = 1 \<and> so ! 0 \<noteq> 0x01 then Inl (ScriptErr ErrMinimalIf)
          else Inr (asBool so, vm)))"

definition push_cond :: "cond_value \<Rightarrow> 'd Engine \<Rightarrow> 'd Engine" where
  "push_cond condVal vm = vm\<lparr>vm_condStack := vm_condStack vm @ [condVal]\<rparr>"

definition opcodeIf :: "('d, 'k, 's, 'x) opfunc" where
  "opcodeIf env op data vm =
     (if isBranchExecuting vm then
        andthen (popIfBool vm) (\<lambda>(ok, vm). Inr (push_cond (if ok then OpCondTrue else OpCondFalse) vm))
      else Inr (push_cond OpCondSkip vm))"

definition opcodeNotIf :: "('d, 'k, 's, 'x) opfunc" where
  "opcodeNotIf env op data vm =
     (if isBranchExecuting vm then
        andthen (popIfBool vm) (\<lambda>(ok, vm). Inr (push_cond (if \<not> ok then OpCondTrue else OpCondFalse) vm))
      else Inr (push_cond OpCondSkip vm))"

definition opcodeElse :: "('d, 'k, 's, 'x) opfunc" where
  "opcodeElse env op data vm =
     (if length (vm_condStack vm) = 0 then Inl (ScriptErr ErrUnbalancedConditional)
      else
        let conditionalIdx = length (vm_condStack vm) - 1
        in Inr (vm\<lparr>vm_condStack := (vm_condStack vm)[conditionalIdx :=
             case vm_condStack vm ! conditionalIdx of
               OpCondTrue \<Rightarrow> OpCondFalse | OpCondFalse \<Rightarrow> OpCondTrue | OpCondSkip \<Rightarrow> OpCondSkip]\<rparr>))"

definition opcodeEndif :: "('d, 'k, 's, 'x) opfunc" where
  "opcodeEndif env op data vm =
     (if length (vm_condStack vm) = 0 then Inl (ScriptErr ErrUnbalancedConditional)
      else Inr (vm\<lparr>vm_condStack := take (length (vm_condStack vm) - 1) (vm_condStack vm)\<rparr>))"

definition abstractVerify :: "ErrorCode \<Rightarrow> 'd Engine \<Rightarrow> 'd step" where
  "abstractVerify c vm =
     andthen (pop_with PopBool vm) (\<lambda>(verified, vm). if \<not> verified then Inl (ScriptErr c) else Inr vm)"

definition opcodeVerify :: "('d, 'k, 's, 'x) opfunc" where
  "opcodeVerify env op data vm = abstractVerify ErrVerify vm"

definition opcodeReturn :: "('d, 'k, 's, 'x) opfunc" where
  "opcodeReturn env op data vm = Inl (ScriptErr ErrEarlyReturn)"

section \<open>Lock times\<close>

abbreviation (input) lockTimeThreshold :: i64 where "lockTimeThreshold \<equiv> 500000000"
abbreviation (input) sequenceDisabled :: i64 where "sequenceDisabled \<equiv> 0x80000000"
abbreviation (input) sequenceIsSeconds :: i64 where "sequenceIsSeconds \<equiv> 0x400000"
abbreviation (input) sequenceMask :: i64 where "sequenceMask \<equiv> 0xffff"

definition verifyLockTime :: "i64 \<Rightarrow> i64 \<Rightarrow> i64 \<Rightarrow> ErrorCode + unit" where
  "verifyLockTime txLockTime threshold lockTime =
     (if \<not> (sint txLockTime < sint threshold \<and> sint lockTime < sint threshold \<or>
            sint txLockTime \<ge> sint threshold \<and> sint lockTime \<ge> sint threshold) then Inl ErrUnsatisfiedLockTime
      else if sint lockTime > sint txLockTime then Inl ErrUnsatisfiedLockTime
      else Inr ())"

text \<open>The number on top of the stack, of up to five bytes.\<close>

definition peek_lock_time :: "'d Engine \<Rightarrow> engine_error + scriptNum" where
  "peek_lock_time vm =
     andthen (peek_with (PeekByteArray 0) vm) (\<lambda>so. serr (MakeScriptNum so (verifyMinimalData (vm_dstack vm)) 5))"

definition opcodeCheckLockTimeVerify :: "('d, 'k, 's, 'x) opfunc" where
  "opcodeCheckLockTimeVerify env op data vm =
     (if \<not> hasFlag vm ScriptVerifyCheckLockTimeVerify then
        if hasFlag vm ScriptDiscourageUpgradableNops then Inl (ScriptErr ErrDiscourageUpgradableNOPs) else Inr vm
      else
        andthen (peek_lock_time vm) (\<lambda>lockTime.
        if sint lockTime < 0 then Inl (ScriptErr ErrNegativeLockTime)
        else
          andthen (serr (verifyLockTime (ucast (LockTime (vm_tx vm))) lockTimeThreshold lockTime)) (\<lambda>_.
          if Sequence (TxIns (vm_tx vm) ! vm_txIdx vm) = MaxTxInSequenceNum then Inl (ScriptErr ErrUnsatisfiedLockTime)
          else Inr vm)))"

definition opcodeCheckSequenceVerify :: "('d, 'k, 's, 'x) opfunc" where
  "opcodeCheckSequenceVerify env op data vm =
     (if \<not> hasFlag vm ScriptVerifyCheckSequenceVerify then
        if hasFlag vm ScriptDiscourageUpgradableNops then Inl (ScriptErr ErrDiscourageUpgradableNOPs) else Inr vm
      else
        andthen (peek_lock_time vm) (\<lambda>stackSequence.
        if sint stackSequence < 0 then Inl (ScriptErr ErrNegativeLockTime)
        else if stackSequence AND sequenceDisabled \<noteq> 0 then Inr vm
        else if Version (vm_tx vm) < 2 then Inl (ScriptErr ErrUnsatisfiedLockTime)
        else
          let txSequence = ucast (Sequence (TxIns (vm_tx vm) ! vm_txIdx vm)); lockTimeMask = sequenceIsSeconds OR sequenceMask
          in if txSequence AND sequenceDisabled \<noteq> 0 then Inl (ScriptErr ErrUnsatisfiedLockTime)
             else andthen (serr (verifyLockTime (txSequence AND lockTimeMask) sequenceIsSeconds (stackSequence AND lockTimeMask)))
                    (\<lambda>_. Inr vm)))"

section \<open>Stack manipulation\<close>

definition opcodeToAltStack :: "('d, 'k, 's, 'x) opfunc" where
  "opcodeToAltStack env op data vm =
     andthen (pop_with PopByteArray vm) (\<lambda>(so, vm). Inr (vm\<lparr>vm_astack := PushByteArray so (vm_astack vm)\<rparr>))"

definition opcodeFromAltStack :: "('d, 'k, 's, 'x) opfunc" where
  "opcodeFromAltStack env op data vm =
     andthen (serr (PopByteArray (vm_astack vm))) (\<lambda>(so, s). Inr (push_bytes so (vm\<lparr>vm_astack := s\<rparr>)))"

definition opcode2Drop :: "('d, 'k, 's, 'x) opfunc" where "opcode2Drop env op data = on_dstack (DropN 2)"
definition opcode2Dup :: "('d, 'k, 's, 'x) opfunc" where "opcode2Dup env op data = on_dstack (DupN 2)"
definition opcode3Dup :: "('d, 'k, 's, 'x) opfunc" where "opcode3Dup env op data = on_dstack (DupN 3)"
definition opcode2Over :: "('d, 'k, 's, 'x) opfunc" where "opcode2Over env op data = on_dstack (OverN 2)"
definition opcode2Rot :: "('d, 'k, 's, 'x) opfunc" where "opcode2Rot env op data = on_dstack (RotN 2)"
definition opcode2Swap :: "('d, 'k, 's, 'x) opfunc" where "opcode2Swap env op data = on_dstack (SwapN 2)"

definition opcodeIfDup :: "('d, 'k, 's, 'x) opfunc" where
  "opcodeIfDup env op data vm =
     andthen (peek_with (PeekByteArray 0) vm) (\<lambda>so. if asBool so then Inr (push_bytes so vm) else Inr vm)"

definition opcodeDepth :: "('d, 'k, 's, 'x) opfunc" where
  "opcodeDepth env op data vm = push_int (word_of_int (Depth (vm_dstack vm))) vm"

definition opcodeDrop :: "('d, 'k, 's, 'x) opfunc" where "opcodeDrop env op data = on_dstack (DropN 1)"
definition opcodeDup :: "('d, 'k, 's, 'x) opfunc" where "opcodeDup env op data = on_dstack (DupN 1)"
definition opcodeNip :: "('d, 'k, 's, 'x) opfunc" where "opcodeNip env op data = on_dstack (NipN 1)"
definition opcodeOver :: "('d, 'k, 's, 'x) opfunc" where "opcodeOver env op data = on_dstack (OverN 1)"

definition opcodePick :: "('d, 'k, 's, 'x) opfunc" where
  "opcodePick env op data vm = andthen (pop_with PopInt vm) (\<lambda>(val, vm). on_dstack (PickN (sint (scriptNum_Int32 val))) vm)"

definition opcodeRoll :: "('d, 'k, 's, 'x) opfunc" where
  "opcodeRoll env op data vm = andthen (pop_with PopInt vm) (\<lambda>(val, vm). on_dstack (RollN (sint (scriptNum_Int32 val))) vm)"

definition opcodeRot :: "('d, 'k, 's, 'x) opfunc" where "opcodeRot env op data = on_dstack (RotN 1)"
definition opcodeSwap :: "('d, 'k, 's, 'x) opfunc" where "opcodeSwap env op data = on_dstack (SwapN 1)"
definition opcodeTuck :: "('d, 'k, 's, 'x) opfunc" where "opcodeTuck env op data = on_dstack Tuck"

definition opcodeSize :: "('d, 'k, 's, 'x) opfunc" where
  "opcodeSize env op data vm =
     andthen (peek_with (PeekByteArray 0) vm) (\<lambda>so. push_int (word_of_nat (length so)) vm)"

definition opcodeEqual :: "('d, 'k, 's, 'x) opfunc" where
  "opcodeEqual env op data vm =
     andthen (pop_with PopByteArray vm) (\<lambda>(a, vm). andthen (pop_with PopByteArray vm) (\<lambda>(b, vm). Inr (push_bool (a = b) vm)))"

definition opcodeEqualVerify :: "('d, 'k, 's, 'x) opfunc" where
  "opcodeEqualVerify env op data vm = andthen (opcodeEqual env op data vm) (abstractVerify ErrEqualVerify)"

section \<open>Numbers\<close>

definition num1 :: "(scriptNum \<Rightarrow> scriptNum) \<Rightarrow> 'd Engine \<Rightarrow> 'd step" where
  "num1 f vm = andthen (pop_with PopInt vm) (\<lambda>(m, vm). push_int (f m) vm)"

definition num2 :: "(scriptNum \<Rightarrow> scriptNum \<Rightarrow> scriptNum) \<Rightarrow> 'd Engine \<Rightarrow> 'd step" where
  "num2 f vm = andthen (pop_with PopInt vm) (\<lambda>(v0, vm). andthen (pop_with PopInt vm) (\<lambda>(v1, vm). push_int (f v0 v1) vm))"

definition num_bool :: "bool \<Rightarrow> scriptNum" where
  "num_bool b = (if b then 1 else 0)"

definition opcode1Add :: "('d, 'k, 's, 'x) opfunc" where
  "opcode1Add env op data = num1 (\<lambda>m. m + 1)"

definition opcode1Sub :: "('d, 'k, 's, 'x) opfunc" where
  "opcode1Sub env op data = num1 (\<lambda>m. m - 1)"

definition opcodeNegate :: "('d, 'k, 's, 'x) opfunc" where
  "opcodeNegate env op data = num1 (\<lambda>m. - m)"

definition opcodeAbs :: "('d, 'k, 's, 'x) opfunc" where
  "opcodeAbs env op data = num1 (\<lambda>m. if sint m < 0 then - m else m)"

definition opcodeNot :: "('d, 'k, 's, 'x) opfunc" where
  "opcodeNot env op data = num1 (\<lambda>m. num_bool (m = 0))"

definition opcode0NotEqual :: "('d, 'k, 's, 'x) opfunc" where
  "opcode0NotEqual env op data = num1 (\<lambda>m. if m \<noteq> 0 then 1 else m)"

definition opcodeAdd :: "('d, 'k, 's, 'x) opfunc" where
  "opcodeAdd env op data = num2 (\<lambda>v0 v1. v0 + v1)"

definition opcodeSub :: "('d, 'k, 's, 'x) opfunc" where
  "opcodeSub env op data = num2 (\<lambda>v0 v1. v1 - v0)"

definition opcodeBoolAnd :: "('d, 'k, 's, 'x) opfunc" where
  "opcodeBoolAnd env op data = num2 (\<lambda>v0 v1. num_bool (v0 \<noteq> 0 \<and> v1 \<noteq> 0))"

definition opcodeBoolOr :: "('d, 'k, 's, 'x) opfunc" where
  "opcodeBoolOr env op data = num2 (\<lambda>v0 v1. num_bool (v0 \<noteq> 0 \<or> v1 \<noteq> 0))"

definition opcodeNumEqual :: "('d, 'k, 's, 'x) opfunc" where
  "opcodeNumEqual env op data = num2 (\<lambda>v0 v1. num_bool (v0 = v1))"

definition opcodeNumEqualVerify :: "('d, 'k, 's, 'x) opfunc" where
  "opcodeNumEqualVerify env op data vm = andthen (opcodeNumEqual env op data vm) (abstractVerify ErrNumEqualVerify)"

definition opcodeNumNotEqual :: "('d, 'k, 's, 'x) opfunc" where
  "opcodeNumNotEqual env op data = num2 (\<lambda>v0 v1. num_bool (v0 \<noteq> v1))"

definition opcodeLessThan :: "('d, 'k, 's, 'x) opfunc" where
  "opcodeLessThan env op data = num2 (\<lambda>v0 v1. num_bool (sint v1 < sint v0))"

definition opcodeGreaterThan :: "('d, 'k, 's, 'x) opfunc" where
  "opcodeGreaterThan env op data = num2 (\<lambda>v0 v1. num_bool (sint v1 > sint v0))"

definition opcodeLessThanOrEqual :: "('d, 'k, 's, 'x) opfunc" where
  "opcodeLessThanOrEqual env op data = num2 (\<lambda>v0 v1. num_bool (sint v1 \<le> sint v0))"

definition opcodeGreaterThanOrEqual :: "('d, 'k, 's, 'x) opfunc" where
  "opcodeGreaterThanOrEqual env op data = num2 (\<lambda>v0 v1. num_bool (sint v1 \<ge> sint v0))"

definition opcodeMin :: "('d, 'k, 's, 'x) opfunc" where
  "opcodeMin env op data = num2 (\<lambda>v0 v1. if sint v1 < sint v0 then v1 else v0)"

definition opcodeMax :: "('d, 'k, 's, 'x) opfunc" where
  "opcodeMax env op data = num2 (\<lambda>v0 v1. if sint v1 > sint v0 then v1 else v0)"

definition opcodeWithin :: "('d, 'k, 's, 'x) opfunc" where
  "opcodeWithin env op data vm =
     andthen (pop_with PopInt vm) (\<lambda>(maxVal, vm).
     andthen (pop_with PopInt vm) (\<lambda>(minVal, vm).
     andthen (pop_with PopInt vm) (\<lambda>(x, vm).
       push_int (num_bool (sint x \<ge> sint minVal \<and> sint x < sint maxVal)) vm)))"

section \<open>Hashes\<close>

definition hash1 :: "(bytes \<Rightarrow> bytes) \<Rightarrow> 'd Engine \<Rightarrow> 'd step" where
  "hash1 f vm = andthen (pop_with PopByteArray vm) (\<lambda>(buf, vm). Inr (push_bytes (f buf) vm))"

definition opcodeRipemd160 :: "('d, 'k, 's, 'x) opfunc" where
  "opcodeRipemd160 env op data = hash1 (env_ripemd160 env)"

definition opcodeSha1 :: "('d, 'k, 's, 'x) opfunc" where
  "opcodeSha1 env op data = hash1 (env_sha1 env)"

definition opcodeSha256 :: "('d, 'k, 's, 'x) opfunc" where
  "opcodeSha256 env op data = hash1 (env_sha256 env)"

definition opcodeHash160 :: "('d, 'k, 's, 'x) opfunc" where
  "opcodeHash160 env op data = hash1 (\<lambda>buf. env_ripemd160 env (env_sha256 env buf))"

definition opcodeHash256 :: "('d, 'k, 's, 'x) opfunc" where
  "opcodeHash256 env op data = hash1 (\<lambda>buf. env_sha256 env (env_sha256 env buf))"

definition opcodeCodeSeparator :: "('d, 'k, 's, 'x) opfunc" where
  "opcodeCodeSeparator env op data vm =
     (let vm = vm\<lparr>vm_lastCodeSep := tk_ByteIndex (vm_tokenizer vm)\<rparr>
      in case vm_taprootCtx vm of
           Some ctx \<Rightarrow> Inr (vm\<lparr>vm_taprootCtx := Some (ctx\<lparr>cx_codeSepPos := word_of_int (tk_opcodePos (vm_tokenizer vm))\<rparr>)\<rparr>)
         | None \<Rightarrow>
             if vm_witnessProgram vm = None \<and> hasFlag vm ScriptVerifyConstScriptCode then Inl (ScriptErr ErrCodeSeparator)
             else Inr vm)"

section \<open>Signatures\<close>

text \<open>What follows the verification in \<^verbatim>\<open>opcodeCheckSig\<close>.\<close>

definition checksig_result :: "bytes \<Rightarrow> verifyResult \<times> 'd Engine \<Rightarrow> 'd step" where
  "checksig_result fullSigBytes = (\<lambda>(result, vm).
     let valid = sigValid result
     in if hasFlag vm ScriptVerifyConstScriptCode \<and> sigMatch result then Inl (ScriptErr ErrNonConstScriptCode)
        else if \<not> valid \<and> vm_taprootCtx vm \<noteq> None \<and> length fullSigBytes \<noteq> 0 \<or>
                \<not> valid \<and> hasFlag vm ScriptVerifyNullFail \<and> length fullSigBytes > 0 then Inl (ScriptErr ErrNullFail)
        else Inr (push_bool valid vm))"

text \<open>An error that is not a script error counts as a signature that does not verify.\<close>

definition checksig_ecdsa ::
    "engine_error + ('k, 's) baseSigVerifier \<Rightarrow> (('k, 's) baseSigVerifier \<Rightarrow> 'd Engine \<Rightarrow> engine_error + (verifyResult \<times> 'd Engine)) \<Rightarrow>
     bytes \<Rightarrow> 'd Engine \<Rightarrow> 'd step" where
  "checksig_ecdsa sigVerifier Verify fullSigBytes vm =
     (case sigVerifier of
        Inl PlainErr \<Rightarrow> Inr (push_bool False vm)
      | Inl e \<Rightarrow> Inl e
      | Inr b \<Rightarrow> andthen (Verify b vm) (checksig_result fullSigBytes))"

text \<open>Non-empty signatures are charged to the budget; empty keys fail.\<close>

definition tapscript_tally :: "bytes \<Rightarrow> bytes \<Rightarrow> taprootExecutionCtx \<Rightarrow> 'd Engine \<Rightarrow> engine_error + (taprootExecutionCtx \<times> 'd Engine)" where
  "tapscript_tally sigBytes pkBytes ctx vm =
     andthen (if length sigBytes > 0 then tallysigOp ctx else Inr ctx) (\<lambda>ctx.
       if length pkBytes = 0 then Inl (ScriptErr ErrTaprootPubkeyIsEmpty) else Inr (ctx, vm\<lparr>vm_taprootCtx := Some ctx\<rparr>))"

text \<open>In the last case no verifier has been made and the call is on nil.\<close>

definition opcodeCheckSig :: "('d, 'k, 's, 'x) opfunc" where
  "opcodeCheckSig env op data vm =
     andthen (pop_with PopByteArray vm) (\<lambda>(pkBytes, vm).
     andthen (pop_with PopByteArray vm) (\<lambda>(fullSigBytes, vm).
       if vm_taprootCtx vm = None \<and> length fullSigBytes < 1 then Inr (push_bool False vm)
       else if vm_witnessProgram vm = None then
         checksig_ecdsa (newBaseSigVerifier env pkBytes fullSigBytes vm) (base_Verify env) fullSigBytes vm
       else if isWitnessVersionActive vm BaseSegwitWitnessVersion then
         checksig_ecdsa (newBaseSigVerifier env pkBytes fullSigBytes vm) (segwit_Verify env) fullSigBytes vm
       else
         case vm_taprootCtx vm of
           Some ctx \<Rightarrow>
             andthen (tapscript_tally fullSigBytes pkBytes ctx vm) (\<lambda>(ctx, vm).
             if length fullSigBytes = 0 then Inr (push_bytes [] vm)
             else
               andthen (newBaseTapscriptSigVerifier env pkBytes fullSigBytes vm) (\<lambda>b.
               andthen (tapscript_Verify env b ctx vm) (checksig_result fullSigBytes)))
         | None \<Rightarrow> Inl EnginePanic))"

definition opcodeCheckSigVerify :: "('d, 'k, 's, 'x) opfunc" where
  "opcodeCheckSigVerify env op data vm = andthen (opcodeCheckSig env op data vm) (abstractVerify ErrCheckSigVerify)"

definition opcodeCheckSigAdd :: "('d, 'k, 's, 'x) opfunc" where
  "opcodeCheckSigAdd env op data vm =
     (case vm_taprootCtx vm of None \<Rightarrow> Inl (ScriptErr ErrReservedOpcode)
      | Some ctx \<Rightarrow>
          andthen (pop_with PopByteArray vm) (\<lambda>(pubKeyBytes, vm).
          andthen (pop_with PopInt vm) (\<lambda>(accumulatorInt, vm).
          andthen (pop_with PopByteArray vm) (\<lambda>(sigBytes, vm).
          andthen (tapscript_tally sigBytes pubKeyBytes ctx vm) (\<lambda>(ctx, vm).
            if length sigBytes = 0 then push_int accumulatorInt vm
            else
              andthen (newBaseTapscriptSigVerifier env pubKeyBytes sigBytes vm) (\<lambda>b.
              andthen (tapscript_Verify env b ctx vm) (\<lambda>(result, vm).
                if \<not> sigValid result then Inl (ScriptErr ErrNullFail) else push_int (accumulatorInt + 1) vm)))))))"

text \<open>A signature and what became of parsing it: not yet parsed, failed, or parsed.\<close>

record 's parsedSigInfo =
  ps_signature :: bytes
  ps_parsed :: "'s option option"

fun pop_items :: "nat \<Rightarrow> 'd Engine \<Rightarrow> engine_error + (bytes list \<times> 'd Engine)" where
  "pop_items 0 vm = Inr ([], vm)"
| "pop_items (Suc n) vm =
     andthen (pop_with PopByteArray vm) (\<lambda>(x, vm). andthen (pop_items n vm) (\<lambda>(xs, vm). Inr (x # xs, vm)))"

text \<open>The signatures are taken out of the script that is signed.\<close>

fun remove_signatures :: "'d Engine \<Rightarrow> bytes list \<Rightarrow> bytes \<Rightarrow> engine_error + bytes" where
  "remove_signatures vm [] script = Inr script"
| "remove_signatures vm (signature # signatures) script =
     (let (script, match) = removeOpcodeByData script signature
      in if hasFlag vm ScriptVerifyConstScriptCode \<and> match then Inl (ScriptErr ErrNonConstScriptCode)
         else remove_signatures vm signatures script)"

text \<open>The parsed form of a signature, checked and parsed when it is first needed.\<close>

definition parse_once :: "('d, 'k, 's, 'x) script_env \<Rightarrow> 'd Engine \<Rightarrow> 's parsedSigInfo \<Rightarrow> engine_error + 's option" where
  "parse_once env vm sigInfo =
     (case ps_parsed sigInfo of
        Some parsedSig \<Rightarrow> Inr parsedSig
      | None \<Rightarrow>
          let hashType = ucast (last (ps_signature sigInfo)); signature = butlast (ps_signature sigInfo)
          in andthen (serr (checkHashTypeEncoding hashType vm)) (\<lambda>_.
             andthen (serr (checkSignatureEncoding env signature vm)) (\<lambda>_. Inr (parse_signature env vm signature))))"

definition multisig_hash :: "('d, 'k, 's, 'x) script_env \<Rightarrow> bytes \<Rightarrow> SigHashType \<Rightarrow> 'd Engine \<Rightarrow> engine_error + bytes" where
  "multisig_hash env script hashType vm =
     (if isWitnessVersionActive vm 0 then
        case sig_hashes env vm of None \<Rightarrow> Inl EnginePanic
        | Some sigHashes \<Rightarrow>
            case calcWitnessSignatureHashRaw (env_sha256 env) (env_decimal env) script sigHashes hashType
                   (vm_tx vm) (vm_txIdx vm) (vm_inputAmount vm) (vm_txAssets vm) of
              None \<Rightarrow> Inl PlainErr
            | Some hash \<Rightarrow> Inr hash
      else
        case calcSignatureHash (env_sha256 env) (env_decimal env) script hashType (vm_tx vm) (vm_txIdx vm) of
          None \<Rightarrow> Inl EnginePanic
        | Some hash \<Rightarrow> Inr hash)"

text \<open>
  The loop over the keys: the signatures that are left against the keys that are left.  It ends with
  success when no signature is left and with failure when more signatures than keys are left.
\<close>

fun multisig_loop ::
    "('d, 'k, 's, 'x) script_env \<Rightarrow> bytes \<Rightarrow> 's parsedSigInfo list \<Rightarrow> bytes list \<Rightarrow> 'd Engine \<Rightarrow> engine_error + (bool \<times> 'd Engine)" where
  "multisig_loop env script [] pubKeys vm = Inr (True, vm)"
| "multisig_loop env script (sigInfo # sigs) [] vm = Inr (False, vm)"
| "multisig_loop env script (sigInfo # sigs) (pubKey # pubKeys) vm =
     (if length (sigInfo # sigs) > length (pubKey # pubKeys) then Inr (False, vm)
      else if length (ps_signature sigInfo) = 0 then multisig_loop env script (sigInfo # sigs) pubKeys vm
      else
        let hashType = ucast (last (ps_signature sigInfo)); signature = butlast (ps_signature sigInfo)
        in andthen (parse_once env vm sigInfo) (\<lambda>parsed.
           let sigInfo = sigInfo\<lparr>ps_parsed := Some parsed\<rparr>
           in case parsed of None \<Rightarrow> multisig_loop env script (sigInfo # sigs) pubKeys vm
              | Some parsedSig \<Rightarrow>
                  andthen (serr (checkPubKeyEncoding pubKey vm)) (\<lambda>_.
                  case env_ParsePubKey env pubKey of None \<Rightarrow> multisig_loop env script (sigInfo # sigs) pubKeys vm
                  | Some parsedPubKey \<Rightarrow>
                      andthen (multisig_hash env script hashType vm) (\<lambda>hash.
                      let (valid, sigCache) = verify_cached env (env_Verify env parsedSig hash parsedPubKey) (hash_copy hash)
                                                signature pubKey (vm_sigCache vm);
                          vm = vm\<lparr>vm_sigCache := sigCache\<rparr>
                      in if valid then multisig_loop env script sigs pubKeys vm
                         else multisig_loop env script (sigInfo # sigs) pubKeys vm))))"

definition opcodeCheckMultiSig :: "('d, 'k, 's, 'x) opfunc" where
  "opcodeCheckMultiSig env op data vm =
     (if vm_taprootCtx vm \<noteq> None then Inl (ScriptErr ErrTapscriptCheckMultisig)
      else
        andthen (pop_with PopInt vm) (\<lambda>(numKeys, vm).
        let numPubKeys = sint (scriptNum_Int32 numKeys)
        in if numPubKeys < 0 \<or> numPubKeys > int MaxPubKeysPerMultiSig then Inl (ScriptErr ErrInvalidPubKeyCount)
           else
             let vm = vm\<lparr>vm_numOps := vm_numOps vm + nat numPubKeys\<rparr>
             in if vm_numOps vm > MaxOpsPerScript then Inl (ScriptErr ErrTooManyOperations)
                else
                  andthen (pop_items (nat numPubKeys) vm) (\<lambda>(pubKeys, vm).
                  andthen (pop_with PopInt vm) (\<lambda>(numSigs, vm).
                  let numSignatures = sint (scriptNum_Int32 numSigs)
                  in if numSignatures < 0 \<or> numSignatures > numPubKeys then Inl (ScriptErr ErrInvalidSignatureCount)
                     else
                       andthen (pop_items (nat numSignatures) vm) (\<lambda>(signatures, vm).
                       andthen (pop_with PopByteArray vm) (\<lambda>(dummy, vm).
                       if hasFlag vm ScriptStrictMultiSig \<and> length dummy \<noteq> 0 then Inl (ScriptErr ErrSigNullDummy)
                       else
                         andthen (subScript vm) (\<lambda>script.
                         andthen (if \<not> isWitnessVersionActive vm 0 then remove_signatures vm signatures script else Inr script) (\<lambda>script.
                         andthen (multisig_loop env script (map (\<lambda>s. \<lparr>ps_signature = s, ps_parsed = None\<rparr>) signatures) pubKeys vm)
                           (\<lambda>(success, vm).
                           if \<not> success \<and> hasFlag vm ScriptVerifyNullFail \<and> list_ex (\<lambda>s. length s > 0) signatures
                           then Inl (ScriptErr ErrNullFail)
                           else Inr (push_bool success vm))))))))))"

definition opcodeCheckMultiSigVerify :: "('d, 'k, 's, 'x) opfunc" where
  "opcodeCheckMultiSigVerify env op data vm = andthen (opcodeCheckMultiSig env op data vm) (abstractVerify ErrCheckMultiSigVerify)"

section \<open>The table\<close>

definition opcode_table :: "(byte \<times> ('d, 'k, 's, 'x) opfunc) list" where
  "opcode_table = [
     (0x50, opcodeReserved), (0x61, opcodeNop), (0x62, opcodeReserved), (0x63, opcodeIf), (0x64, opcodeNotIf),
     (0x65, opcodeReserved), (0x66, opcodeReserved), (0x67, opcodeElse), (0x68, opcodeEndif), (0x69, opcodeVerify),
     (0x6a, opcodeReturn), (0x6b, opcodeToAltStack), (0x6c, opcodeFromAltStack), (0x6d, opcode2Drop), (0x6e, opcode2Dup),
     (0x6f, opcode3Dup), (0x70, opcode2Over), (0x71, opcode2Rot), (0x72, opcode2Swap), (0x73, opcodeIfDup),
     (0x74, opcodeDepth), (0x75, opcodeDrop), (0x76, opcodeDup), (0x77, opcodeNip), (0x78, opcodeOver), (0x79, opcodePick),
     (0x7a, opcodeRoll), (0x7b, opcodeRot), (0x7c, opcodeSwap), (0x7d, opcodeTuck), (0x7e, opcodeDisabled),
     (0x7f, opcodeDisabled), (0x80, opcodeDisabled), (0x81, opcodeDisabled), (0x82, opcodeSize), (0x83, opcodeDisabled),
     (0x84, opcodeDisabled), (0x85, opcodeDisabled), (0x86, opcodeDisabled), (0x87, opcodeEqual), (0x88, opcodeEqualVerify),
     (0x89, opcodeReserved), (0x8a, opcodeReserved), (0x8b, opcode1Add), (0x8c, opcode1Sub), (0x8d, opcodeDisabled),
     (0x8e, opcodeDisabled), (0x8f, opcodeNegate), (0x90, opcodeAbs), (0x91, opcodeNot), (0x92, opcode0NotEqual),
     (0x93, opcodeAdd), (0x94, opcodeSub), (0x95, opcodeDisabled), (0x96, opcodeDisabled), (0x97, opcodeDisabled),
     (0x98, opcodeDisabled), (0x99, opcodeDisabled), (0x9a, opcodeBoolAnd), (0x9b, opcodeBoolOr), (0x9c, opcodeNumEqual),
     (0x9d, opcodeNumEqualVerify), (0x9e, opcodeNumNotEqual), (0x9f, opcodeLessThan), (0xa0, opcodeGreaterThan),
     (0xa1, opcodeLessThanOrEqual), (0xa2, opcodeGreaterThanOrEqual), (0xa3, opcodeMin), (0xa4, opcodeMax),
     (0xa5, opcodeWithin), (0xa6, opcodeRipemd160), (0xa7, opcodeSha1), (0xa8, opcodeSha256), (0xa9, opcodeHash160),
     (0xaa, opcodeHash256), (0xab, opcodeCodeSeparator), (0xac, opcodeCheckSig), (0xad, opcodeCheckSigVerify),
     (0xae, opcodeCheckMultiSig), (0xaf, opcodeCheckMultiSigVerify), (0xb0, opcodeNop), (0xb1, opcodeCheckLockTimeVerify),
     (0xb2, opcodeCheckSequenceVerify), (0xb3, opcodeNop), (0xb4, opcodeNop), (0xb5, opcodeNop), (0xb6, opcodeNop),
     (0xb7, opcodeNop), (0xb8, opcodeNop), (0xb9, opcodeNop), (0xba, opcodeCheckSigAdd)]"

definition op_func :: "byte \<Rightarrow> ('d, 'k, 's, 'x) opfunc" where
  "op_func b =
     (if b = OP_FALSE then opcodeFalse
      else if b \<le> OP_PUSHDATA4 then opcodePushData
      else if b = OP_1NEGATE then opcode1Negate
      else if OP_1 \<le> b \<and> b \<le> OP_16 then opcodeN
      else case map_of opcode_table b of Some f \<Rightarrow> f | None \<Rightarrow> opcodeInvalid)"

end
