(* ===== verification/Script_Engine.thy ===== *)
theory Script_Engine
  imports Script_Opcode
begin

text \<open>
  The interpreter of \<^verbatim>\<open>txscript/engine.go\<close>: the rules around one opcode, witness programs, the
  step from one opcode or script to the next, the loop, and the construction of an engine for one
  input.  The loop is a partial function; that it returns is proved where its properties are.
\<close>

unbundle bit_operations_syntax

section \<open>One opcode\<close>

definition isOpcodeDisabled :: "byte \<Rightarrow> bool" where
  "isOpcodeDisabled opcode \<longleftrightarrow>
     opcode \<in> {0x7e, 0x7f, 0x80, 0x81, 0x83, 0x84, 0x85, 0x86, 0x8d, 0x8e, 0x95, 0x96, 0x97, 0x98, 0x99}"

definition isOpcodeAlwaysIllegal :: "byte \<Rightarrow> bool" where
  "isOpcodeAlwaysIllegal opcode \<longleftrightarrow> opcode \<in> {0x65, 0x66}"

definition isOpcodeConditional :: "byte \<Rightarrow> bool" where
  "isOpcodeConditional opcode \<longleftrightarrow> opcode \<in> {0x63, 0x64, 0x67, 0x68}"

definition checkMinimalDataPush :: "byte \<Rightarrow> bytes \<Rightarrow> ErrorCode + unit" where
  "checkMinimalDataPush opcodeVal data =
     (let dataLen = length data
      in if dataLen = 0 \<and> opcodeVal \<noteq> OP_0 then Inl ErrMinimalData
         else if dataLen = 1 \<and> data ! 0 \<ge> 1 \<and> data ! 0 \<le> 16 then
           if opcodeVal \<noteq> OP_1 + data ! 0 - 1 then Inl ErrMinimalData else Inr ()
         else if dataLen = 1 \<and> data ! 0 = 0x81 then
           if opcodeVal \<noteq> OP_1NEGATE then Inl ErrMinimalData else Inr ()
         else if dataLen \<le> 75 then if unat opcodeVal \<noteq> dataLen then Inl ErrMinimalData else Inr ()
         else if dataLen \<le> 255 then if opcodeVal \<noteq> OP_PUSHDATA1 then Inl ErrMinimalData else Inr ()
         else if dataLen \<le> 65535 then if opcodeVal \<noteq> OP_PUSHDATA2 then Inl ErrMinimalData else Inr ()
         else Inr ())"

text \<open>The count of operations and the size of pushed data.\<close>

definition count_op :: "byte \<Rightarrow> bytes \<Rightarrow> 'd Engine \<Rightarrow> 'd step" where
  "count_op op data vm =
     (if vm_taprootCtx vm = None \<and> op > OP_16 then
        let vm = vm\<lparr>vm_numOps := vm_numOps vm + 1\<rparr>
        in if vm_numOps vm > MaxOpsPerScript then Inl (ScriptErr ErrTooManyOperations) else Inr vm
      else if length data > MaxScriptElementSize then Inl (ScriptErr ErrElementTooBig)
      else Inr vm)"

definition executeOpcode :: "('d, 'k, 's, 'x) script_env \<Rightarrow> byte \<Rightarrow> bytes \<Rightarrow> 'd Engine \<Rightarrow> 'd step" where
  "executeOpcode env op data vm =
     (if isOpcodeDisabled op then Inl (ScriptErr ErrDisabledOpcode)
      else if isOpcodeAlwaysIllegal op then Inl (ScriptErr ErrReservedOpcode)
      else
        andthen (count_op op data vm) (\<lambda>vm.
          if \<not> isBranchExecuting vm \<and> \<not> isOpcodeConditional op then Inr vm
          else
            andthen (if verifyMinimalData (vm_dstack vm) \<and> isBranchExecuting vm \<and> op \<le> OP_PUSHDATA4
                     then serr (checkMinimalDataPush op data) else Inr ()) (\<lambda>_.
              op_func op env op data vm)))"

section \<open>The stacks as arrays\<close>

definition getStack :: "stack \<Rightarrow> bytes list" where
  "getStack s = rev (map (\<lambda>i. case PeekByteArray (int i) s of Inl _ \<Rightarrow> [] | Inr so \<Rightarrow> so) [0..<length (stk s)])"

definition drop_all :: "stack \<Rightarrow> stack" where
  "drop_all s = (case DropN (Depth s) s of Inl _ \<Rightarrow> s | Inr s \<Rightarrow> s)"

definition setStack :: "bytes list \<Rightarrow> stack \<Rightarrow> stack" where
  "setStack data s = foldl (\<lambda>s so. PushByteArray so s) (drop_all s) data"

definition GetStack :: "'d Engine \<Rightarrow> bytes list" where
  "GetStack vm = getStack (vm_dstack vm)"

definition SetStack :: "bytes list \<Rightarrow> 'd Engine \<Rightarrow> 'd Engine" where
  "SetStack data vm = vm\<lparr>vm_dstack := setStack data (vm_dstack vm)\<rparr>"

section \<open>Witness programs\<close>

definition add_script :: "bytes \<Rightarrow> 'd Engine \<Rightarrow> 'd Engine" where
  "add_script script vm = vm\<lparr>vm_scripts := vm_scripts vm @ [script]\<rparr>"

definition verify_v0_program :: "('d, 'k, 's, 'x) script_env \<Rightarrow> TxWitness \<Rightarrow> bytes \<Rightarrow> 'd Engine \<Rightarrow> 'd step" where
  "verify_v0_program env witness witnessProgram vm =
     (if length witnessProgram = payToWitnessPubKeyHashDataSize then
        if length witness \<noteq> 2 then Inl (ScriptErr ErrWitnessProgramMismatch)
        else
          case payToPubKeyHashScript witnessProgram of Inl _ \<Rightarrow> Inl PlainErr
          | Inr pkScript \<Rightarrow>
              andthen (serr (checkScriptParses (vm_version vm) pkScript)) (\<lambda>_.
                Inr (SetStack witness (add_script pkScript vm)))
      else if length witnessProgram = payToWitnessScriptHashDataSize then
        if length witness = 0 then Inl (ScriptErr ErrWitnessProgramEmpty)
        else
          let witnessScript = last witness
          in if length witnessScript > MaxScriptSize then Inl (ScriptErr ErrScriptTooBig)
             else if env_sha256 env witnessScript \<noteq> witnessProgram then Inl (ScriptErr ErrWitnessProgramMismatch)
             else
               andthen (serr (checkScriptParses (vm_version vm) witnessScript)) (\<lambda>_.
                 Inr (SetStack (butlast witness) (add_script witnessScript vm)))
      else Inl (ScriptErr ErrWitnessProgramWrongLength))"

definition must_succeed :: "taprootExecutionCtx \<Rightarrow> 'd Engine \<Rightarrow> 'd Engine" where
  "must_succeed ctx vm = vm\<lparr>vm_taprootCtx := Some (ctx\<lparr>cx_mustSucceed := True\<rparr>)\<rparr>"

text \<open>
  A taproot spend; the second component tells whether \<^verbatim>\<open>verifyWitnessProgram\<close> returns at once.  The witness
  is given without the annex, which the context holds.
\<close>

definition verify_tapscript ::
    "('d, 'k, 's, 'x) script_env \<Rightarrow> TxWitness \<Rightarrow> bytes \<Rightarrow> taprootExecutionCtx \<Rightarrow> 'd Engine \<Rightarrow> engine_error + ('d Engine \<times> bool)" where
  "verify_tapscript env witness witnessProgram ctx vm =
     andthen (ParseControlBlock env (last witness)) (\<lambda>controlBlock.
     let witnessScript = witness ! (length witness - 2)
     in andthen (VerifyTaprootLeafCommitment env controlBlock witnessProgram witnessScript) (\<lambda>_.
        if ScriptHasOpSuccess witnessScript then
          if hasFlag vm ScriptVerifyDiscourageOpSuccess then Inl (ScriptErr ErrDiscourageOpSuccess)
          else Inr (must_succeed ctx vm, True)
        else if cb_LeafVersion controlBlock \<noteq> BaseLeafVersion then
          if hasFlag vm ScriptVerifyDiscourageUpgradeableTaprootVersion then Inl (ScriptErr ErrDiscourageUpgradeableTaprootVersion)
          else Inr (must_succeed ctx vm, True)
        else
          andthen (serr (checkScriptParses (vm_version vm) witnessScript)) (\<lambda>_.
            Inr (SetStack (take (length witness - 2) witness) (add_script witnessScript
                   (vm\<lparr>vm_taprootCtx := Some (ctx\<lparr>cx_tapLeafHash := TapLeaf_TapHash (env_sha256 env) (NewBaseTapLeaf witnessScript)\<rparr>)\<rparr>)),
                 False))))"

definition verify_taproot_program ::
    "('d, 'k, 's, 'x) script_env \<Rightarrow> TxWitness \<Rightarrow> bytes \<Rightarrow> 'd Engine \<Rightarrow> engine_error + ('d Engine \<times> bool)" where
  "verify_taproot_program env witness witnessProgram vm =
     (if \<not> hasFlag vm ScriptVerifyTaproot then Inr (vm, True)
      else if length witness = 0 then Inl (ScriptErr ErrWitnessProgramEmpty)
      else
        let ctx = newTaprootExecutionCtx (word_of_nat (TxWitness_SerializeSize witness));
            (ctx, witness) = (if isAnnexedWitness witness then (ctx\<lparr>cx_annex := Some (last witness)\<rparr>, butlast witness) else (ctx, witness));
            vm = vm\<lparr>vm_taprootCtx := Some ctx\<rparr>
        in if length witness = 1 then
             andthen (VerifyTaprootKeySpend env witnessProgram (witness ! 0) vm) (\<lambda>vm. Inr (must_succeed ctx vm, True))
           else verify_tapscript env witness witnessProgram ctx vm)"

text \<open>The limits on the witness that becomes the stack.\<close>

definition check_witness_stack :: "'d Engine \<Rightarrow> 'd step" where
  "check_witness_stack vm =
     (if isWitnessVersionActive vm TaprootWitnessVersion \<and> Depth (vm_dstack vm) > int MaxStackSize then Inl (ScriptErr ErrStackOverflow)
      else if (isWitnessVersionActive vm TaprootWitnessVersion \<or> isWitnessVersionActive vm BaseSegwitWitnessVersion) \<and>
              list_ex (\<lambda>witElement. length witElement > MaxScriptElementSize) (GetStack vm) then Inl (ScriptErr ErrElementTooBig)
      else Inr vm)"

definition verifyWitnessProgram :: "('d, 'k, 's, 'x) script_env \<Rightarrow> TxWitness \<Rightarrow> 'd Engine \<Rightarrow> 'd step" where
  "verifyWitnessProgram env witness vm =
     (let witnessProgram = (case vm_witnessProgram vm of None \<Rightarrow> [] | Some p \<Rightarrow> p)
      in if isWitnessVersionActive vm BaseSegwitWitnessVersion then
           andthen (verify_v0_program env witness witnessProgram vm) check_witness_stack
         else if isWitnessVersionActive vm TaprootWitnessVersion \<and> length witnessProgram = payToTaprootDataSize \<and> \<not> vm_bip16 vm then
           andthen (verify_taproot_program env witness witnessProgram vm) (\<lambda>(vm, returns). if returns then Inr vm else check_witness_stack vm)
         else if hasFlag vm ScriptVerifyDiscourageUpgradeableWitnessProgram then Inl (ScriptErr ErrDiscourageUpgradableWitnessProgram)
         else check_witness_stack (vm\<lparr>vm_witnessProgram := None\<rparr>))"

section \<open>Steps\<close>

definition checkValidPC :: "'d Engine \<Rightarrow> ErrorCode + unit" where
  "checkValidPC vm = (if vm_scriptIdx vm \<ge> length (vm_scripts vm) then Inl ErrInvalidProgramCounter else Inr ())"

definition CheckErrorCondition :: "bool \<Rightarrow> 'd Engine \<Rightarrow> 'd step" where
  "CheckErrorCondition finalScript vm =
     (if (case vm_taprootCtx vm of None \<Rightarrow> False | Some ctx \<Rightarrow> cx_mustSucceed ctx) then Inr vm
      else if vm_scriptIdx vm < length (vm_scripts vm) then Inl (ScriptErr ErrScriptUnfinished)
      else if finalScript \<and> isWitnessVersionActive vm BaseSegwitWitnessVersion \<and> Depth (vm_dstack vm) \<noteq> 1 then Inl (ScriptErr ErrEvalFalse)
      else if finalScript \<and> (hasFlag vm ScriptVerifyCleanStack \<or> vm_taprootCtx vm \<noteq> None) \<and> Depth (vm_dstack vm) \<noteq> 1
      then Inl (ScriptErr ErrCleanStack)
      else if Depth (vm_dstack vm) < 1 then Inl (ScriptErr ErrEmptyStack)
      else andthen (pop_with PopBool vm) (\<lambda>(v, vm). if \<not> v then Inl (ScriptErr ErrEvalFalse) else Inr vm))"

text \<open>The switch that advances to the next script.\<close>

definition next_script :: "('d, 'k, 's, 'x) script_env \<Rightarrow> 'd Engine \<Rightarrow> 'd step" where
  "next_script env vm =
     (if vm_scriptIdx vm = 0 \<and> vm_bip16 vm then
        Inr (vm\<lparr>vm_scriptIdx := vm_scriptIdx vm + 1, vm_savedFirstStack := GetStack vm\<rparr>)
      else if vm_scriptIdx vm = 1 \<and> vm_bip16 vm then
        andthen (CheckErrorCondition False (vm\<lparr>vm_scriptIdx := vm_scriptIdx vm + 1\<rparr>)) (\<lambda>vm.
        if vm_savedFirstStack vm = [] then Inl EnginePanic
        else
          let script = last (vm_savedFirstStack vm)
          in andthen (serr (checkScriptParses (vm_version vm) script)) (\<lambda>_.
               Inr (SetStack (butlast (vm_savedFirstStack vm)) (add_script script vm))))
      else if vm_scriptIdx vm = 1 \<and> vm_witnessProgram vm \<noteq> None \<or>
              vm_scriptIdx vm = 2 \<and> vm_witnessProgram vm \<noteq> None \<and> vm_bip16 vm then
        verifyWitnessProgram env (Witness (TxIns (vm_tx vm) ! vm_txIdx vm)) (vm\<lparr>vm_scriptIdx := vm_scriptIdx vm + 1\<rparr>)
      else Inr (vm\<lparr>vm_scriptIdx := vm_scriptIdx vm + 1\<rparr>))"

text \<open>What follows the switch: an empty script is skipped, the tokenizer starts anew.\<close>

definition enter_script :: "'d Engine \<Rightarrow> bool \<times> 'd Engine" where
  "enter_script vm =
     (let vm = (if vm_scriptIdx vm < length (vm_scripts vm) \<and> length (vm_scripts vm ! vm_scriptIdx vm) = 0
                then vm\<lparr>vm_scriptIdx := vm_scriptIdx vm + 1\<rparr> else vm);
          vm = vm\<lparr>vm_lastCodeSep := 0\<rparr>
      in if vm_scriptIdx vm \<ge> length (vm_scripts vm) then (True, vm)
         else (False, vm\<lparr>vm_tokenizer := MakeScriptTokenizer (vm_version vm) (vm_scripts vm ! vm_scriptIdx vm)\<rparr>))"

definition end_script :: "('d, 'k, 's, 'x) script_env \<Rightarrow> 'd Engine \<Rightarrow> engine_error + (bool \<times> 'd Engine)" where
  "end_script env vm =
     (if length (vm_condStack vm) \<noteq> 0 then Inl (ScriptErr ErrUnbalancedConditional)
      else
        andthen (next_script env (vm\<lparr>vm_astack := drop_all (vm_astack vm), vm_numOps := 0, vm_opcodeIdx := 0\<rparr>)) (\<lambda>vm.
          Inr (enter_script vm)))"

definition Step :: "('d, 'k, 's, 'x) script_env \<Rightarrow> 'd Engine \<Rightarrow> engine_error + (bool \<times> 'd Engine)" where
  "Step env vm =
     andthen (serr (checkValidPC vm)) (\<lambda>_.
     let (more, t) = tk_Next (vm_tokenizer vm)
     in if \<not> more then
          (case tk_err t of Some e \<Rightarrow> Inl (ScriptErr e) | None \<Rightarrow> Inl (ScriptErr ErrInvalidProgramCounter))
        else
          andthen (executeOpcode env (tk_Opcode t) (case tk_data t of None \<Rightarrow> [] | Some d \<Rightarrow> d) (vm\<lparr>vm_tokenizer := t\<rparr>)) (\<lambda>vm.
          if Depth (vm_dstack vm) + Depth (vm_astack vm) > int MaxStackSize then Inl (ScriptErr ErrStackOverflow)
          else
            let vm = vm\<lparr>vm_opcodeIdx := vm_opcodeIdx vm + 1\<rparr>
            in if tk_Done (vm_tokenizer vm) then end_script env vm else Inr (False, vm)))"

section \<open>The loop\<close>

partial_function (option) execute_loop :: "('d, 'k, 's, 'x) script_env \<Rightarrow> 'd Engine \<Rightarrow> (engine_error + 'd Engine) option" where
  "execute_loop env vm =
     (case Step env vm of
        Inl e \<Rightarrow> Some (Inl e)
      | Inr (done, vm') \<Rightarrow> if done then Some (Inr vm') else execute_loop env vm')"

definition Execute :: "('d, 'k, 's, 'x) script_env \<Rightarrow> 'd Engine \<Rightarrow> (engine_error + unit) option" where
  "Execute env vm =
     (if vm_version vm \<noteq> 0 then Some (Inr ())
      else map_option (\<lambda>r. andthen r (\<lambda>vm. andthen (CheckErrorCondition True vm) (\<lambda>_. Inr ()))) (execute_loop env vm))"

section \<open>A new engine\<close>

definition check_scripts :: "bytes list \<Rightarrow> engine_error + unit" where
  "check_scripts scripts =
     fold_early (\<lambda>scr _. if length scr > MaxScriptSize then Inl (ScriptErr ErrScriptTooBig) else serr (checkScriptParses 0 scr)) scripts ()"

text \<open>The witness program of the input, if there is one.\<close>

definition find_witness_program :: "bytes \<Rightarrow> bytes \<Rightarrow> TxWitness \<Rightarrow> bool \<Rightarrow> engine_error + bytes option" where
  "find_witness_program scriptSig scriptPubKey witness bip16 =
     (if isWitnessProgramScript scriptPubKey then
        if length scriptSig \<noteq> 0 then Inl (ScriptErr ErrWitnessMalleated) else Inr (Some scriptPubKey)
      else if length witness \<noteq> 0 \<and> bip16 then
        if length scriptSig > 2 \<and> isCanonicalPush (scriptSig ! 0) (Some (drop 1 scriptSig)) \<and> isWitnessProgramScript (drop 1 scriptSig)
        then Inr (Some (drop 1 scriptSig)) else Inl (ScriptErr ErrWitnessMalleatedP2SH)
      else Inr None)"

definition set_witness_program :: "bytes \<Rightarrow> bytes \<Rightarrow> TxWitness \<Rightarrow> 'd Engine \<Rightarrow> 'd step" where
  "set_witness_program scriptSig scriptPubKey witness vm =
     (if \<not> hasFlag vm ScriptVerifyWitness then Inr vm
      else if \<not> hasFlag vm ScriptBip16 then Inl (ScriptErr ErrInvalidFlags)
      else
        andthen (find_witness_program scriptSig scriptPubKey witness (vm_bip16 vm)) (\<lambda>witProgram.
        case witProgram of
          Some script \<Rightarrow>
            (case extractWitnessProgramInfo script of
               (version, program, valid) \<Rightarrow>
                 if valid then Inr (vm\<lparr>vm_witnessVersion := version, vm_witnessProgram := program\<rparr>) else Inl PlainErr)
        | None \<Rightarrow> if length witness \<noteq> 0 then Inl (ScriptErr ErrWitnessUnexpected) else Inr vm))"

definition NewEngine ::
    "bytes \<Rightarrow> 'd MsgTx \<Rightarrow> int \<Rightarrow> ScriptFlags \<Rightarrow> SigCache option \<Rightarrow> TxSigHashes option \<Rightarrow> i64 \<Rightarrow> 'd TxAssets \<Rightarrow> 'd PrevOutputFetcher \<Rightarrow> 'd step" where
  "NewEngine scriptPubKey tx txIdx flags sigCache hashCache inputAmount assets prevOutFetcher =
     (if txIdx < 0 \<or> txIdx \<ge> int (length (TxIns tx)) then Inl (ScriptErr ErrInvalidIndex)
      else
        let scriptSig = SignatureScript (TxIns tx ! nat txIdx); witness = Witness (TxIns tx ! nat txIdx)
        in if length scriptSig = 0 \<and> length scriptPubKey = 0 then Inl (ScriptErr ErrEvalFalse)
           else
             let minimal = (flags AND ScriptVerifyMinimalData = ScriptVerifyMinimalData);
                 scriptIdx = (if length scriptSig = 0 then 1 else 0);
                 vm = \<lparr>vm_flags = flags, vm_tx = tx, vm_txIdx = nat txIdx, vm_version = 0,
                       vm_bip16 = (flags AND ScriptBip16 = ScriptBip16 \<and> extractScriptHash scriptPubKey \<noteq> None),
                       vm_sigCache = sigCache, vm_hashCache = hashCache, vm_prevOutFetcher = prevOutFetcher,
                       vm_scripts = [scriptSig, scriptPubKey], vm_scriptIdx = scriptIdx, vm_opcodeIdx = 0, vm_lastCodeSep = 0,
                       vm_tokenizer = MakeScriptTokenizer 0 ([scriptSig, scriptPubKey] ! scriptIdx), vm_savedFirstStack = [],
                       vm_dstack = \<lparr>stk = [], verifyMinimalData = minimal\<rparr>, vm_astack = \<lparr>stk = [], verifyMinimalData = minimal\<rparr>,
                       vm_condStack = [], vm_numOps = 0, vm_witnessVersion = 0, vm_witnessProgram = None,
                       vm_inputAmount = inputAmount, vm_txAssets = assets, vm_taprootCtx = None\<rparr>
             in if hasFlag vm ScriptVerifyCleanStack \<and> \<not> hasFlag vm ScriptBip16 \<and> \<not> hasFlag vm ScriptVerifyWitness
                then Inl (ScriptErr ErrInvalidFlags)
                else if (hasFlag vm ScriptVerifySigPushOnly \<or> vm_bip16 vm) \<and> \<not> IsPushOnlyScript scriptSig then Inl (ScriptErr ErrNotPushOnly)
                else
                  andthen (check_scripts [scriptSig, scriptPubKey]) (\<lambda>_. set_witness_program scriptSig scriptPubKey witness vm))"

end
