(* ===== verification/Engine_Safe.thy ===== *)
theory Engine_Safe
  imports Script_Engine
begin

text \<open>
  What every run of the script engine keeps: the parts of the state no opcode touches, the limits on
  the stacks and on the number of operations, the absence of panics, and the end of the loop.

  The judgement \<open>holds b r Q\<close> is read for an outcome \<open>r\<close>: a result satisfies \<open>Q\<close>, and when \<open>b\<close> is
  true there is no panic.  With \<open>b\<close> false the rules below give the frame of an opcode without
  any assumption about hashes or keys.
\<close>

section \<open>Outcomes\<close>

definition holds :: "bool \<Rightarrow> engine_error + 'a \<Rightarrow> ('a \<Rightarrow> bool) \<Rightarrow> bool" where
  "holds b r Q \<longleftrightarrow> (case r of Inl e \<Rightarrow> b \<longrightarrow> e \<noteq> EnginePanic | Inr x \<Rightarrow> Q x)"

lemma holds_simps [simp]:
  "holds b (Inr x) Q \<longleftrightarrow> Q x"
  "holds b (Inl e) Q \<longleftrightarrow> (b \<longrightarrow> e \<noteq> EnginePanic)"
  by (simp_all add: holds_def)

lemma holds_andthen: "holds b (andthen r f) Q \<longleftrightarrow> holds b r (\<lambda>x. holds b (f x) Q)"
  by (cases r) simp_all

lemma holds_mono: "holds b r P \<Longrightarrow> (\<And>x. P x \<Longrightarrow> Q x) \<Longrightarrow> holds b r Q"
  by (cases r) simp_all

lemma holds_bind: "holds b r P \<Longrightarrow> (\<And>x. P x \<Longrightarrow> holds b (f x) Q) \<Longrightarrow> holds b (andthen r f) Q"
  by (cases r) simp_all

lemma holds_if: "(c \<Longrightarrow> holds b r Q) \<Longrightarrow> (\<not> c \<Longrightarrow> holds b s Q) \<Longrightarrow> holds b (if c then r else s) Q"
  by simp

lemma holds_serr: "holds b (serr r) Q \<longleftrightarrow> (\<forall>x. r = Inr x \<longrightarrow> Q x)"
  by (cases r) (simp_all add: serr_def)

lemma holds_InrD: "holds b r Q \<Longrightarrow> r = Inr x \<Longrightarrow> Q x"
  by simp

section \<open>What an opcode leaves alone\<close>

definition same :: "'d Engine \<Rightarrow> 'd Engine \<Rightarrow> bool" where
  "same vm0 vm \<longleftrightarrow>
     vm_flags vm = vm_flags vm0 \<and> vm_tx vm = vm_tx vm0 \<and> vm_txIdx vm = vm_txIdx vm0 \<and>
     vm_version vm = vm_version vm0 \<and> vm_bip16 vm = vm_bip16 vm0 \<and> vm_hashCache vm = vm_hashCache vm0 \<and>
     vm_prevOutFetcher vm = vm_prevOutFetcher vm0 \<and> vm_scripts vm = vm_scripts vm0 \<and>
     vm_scriptIdx vm = vm_scriptIdx vm0 \<and> vm_tokenizer vm = vm_tokenizer vm0 \<and>
     vm_savedFirstStack vm = vm_savedFirstStack vm0 \<and> vm_witnessVersion vm = vm_witnessVersion vm0 \<and>
     vm_witnessProgram vm = vm_witnessProgram vm0 \<and> (vm_taprootCtx vm = None) = (vm_taprootCtx vm0 = None)"

text \<open>The limits: items of at most 520 bytes, 201 operations, a separator within the script.\<close>

definition item_ok :: "bytes \<Rightarrow> bool" where
  "item_ok x \<longleftrightarrow> length x \<le> MaxScriptElementSize"

definition limits :: "'d Engine \<Rightarrow> bool" where
  "limits vm \<longleftrightarrow>
     list_all item_ok (view (vm_dstack vm)) \<and> list_all item_ok (view (vm_astack vm)) \<and>
     vm_numOps vm \<le> MaxOpsPerScript \<and> vm_lastCodeSep vm \<le> length (vm_scripts vm ! vm_scriptIdx vm)"

definition keeps :: "bool \<Rightarrow> 'd Engine \<Rightarrow> 'd Engine \<Rightarrow> bool" where
  "keeps b vm0 vm \<longleftrightarrow> same vm0 vm \<and> (b \<longrightarrow> limits vm)"

text \<open>Documented behaviour of the hashes and the curve: digest lengths, and a key that was parsed parses again.\<close>

definition env_ok :: "('d, 'k, 's, 'x) script_env \<Rightarrow> bool" where
  "env_ok env \<longleftrightarrow>
     (\<forall>m. length (env_sha256 env m) = 32 \<and> length (env_ripemd160 env m) = 20 \<and> length (env_sha1 env m) = 20) \<and>
     (\<forall>k key. env_schnorrParsePubKey env k = Some key \<longrightarrow>
        env_schnorrParsePubKey env (env_schnorrSerializePubKey env key) \<noteq> None)"

text \<open>What the caller provides: a valid index, the shared hashes, and the output that is spent.\<close>

definition input_ok :: "'d Engine \<Rightarrow> bool" where
  "input_ok vm \<longleftrightarrow>
     vm_txIdx vm < length (TxIns (vm_tx vm)) \<and> vm_hashCache vm \<noteq> None \<and>
     vm_prevOutFetcher vm (PreviousOutPoint (TxIns (vm_tx vm) ! vm_txIdx vm)) \<noteq> None"

text \<open>The position in the current script.\<close>

definition placed :: "'d Engine \<Rightarrow> bool" where
  "placed vm \<longleftrightarrow>
     vm_scriptIdx vm < length (vm_scripts vm) \<and> tk_script (vm_tokenizer vm) = vm_scripts vm ! vm_scriptIdx vm \<and>
     tk_offset (vm_tokenizer vm) \<le> length (vm_scripts vm ! vm_scriptIdx vm)"

text \<open>A signature opcode finds a verifier.\<close>

definition verifier_ready :: "'d Engine \<Rightarrow> bool" where
  "verifier_ready vm \<longleftrightarrow>
     (if vm_taprootCtx vm = None then vm_witnessProgram vm = None \<or> vm_witnessVersion vm = 0
      else vm_witnessProgram vm \<noteq> None \<and> vm_witnessVersion vm \<noteq> 0)"

definition ready :: "bool \<Rightarrow> ('d, 'k, 's, 'x) script_env \<Rightarrow> 'd Engine \<Rightarrow> bool" where
  "ready b env vm0 \<longleftrightarrow> (b \<longrightarrow> env_ok env \<and> input_ok vm0 \<and> placed vm0)"

subsection \<open>Stack accesses\<close>

lemma pop_view:
  "pop_with PopByteArray vm =
     (case view (vm_dstack vm) of [] \<Rightarrow> Inl (ScriptErr ErrInvalidStackOperation)
      | x # xs \<Rightarrow> Inr (x, vm\<lparr>vm_dstack := set_view xs (vm_dstack vm)\<rparr>))"
  by (simp add: pop_with_def PopByteArray_view serr_def split: list.split)

lemma same_upd [simp]:
  "same vm0 (vm\<lparr>vm_dstack := s\<rparr>) \<longleftrightarrow> same vm0 vm"
  "same vm0 (vm\<lparr>vm_astack := s\<rparr>) \<longleftrightarrow> same vm0 vm"
  "same vm0 (vm\<lparr>vm_condStack := c\<rparr>) \<longleftrightarrow> same vm0 vm"
  "same vm0 (vm\<lparr>vm_numOps := n\<rparr>) \<longleftrightarrow> same vm0 vm"
  "same vm0 (vm\<lparr>vm_lastCodeSep := n\<rparr>) \<longleftrightarrow> same vm0 vm"
  "same vm0 (vm\<lparr>vm_sigCache := sc\<rparr>) \<longleftrightarrow> same vm0 vm"
  "vm_taprootCtx vm = Some ctx0 \<Longrightarrow> same vm0 (vm\<lparr>vm_taprootCtx := Some ctx\<rparr>) \<longleftrightarrow> same vm0 vm"
  by (auto simp: same_def)

lemma limits_upd [simp]:
  "limits vm \<Longrightarrow> limits (vm\<lparr>vm_dstack := s\<rparr>) \<longleftrightarrow> list_all item_ok (view s)"
  "limits vm \<Longrightarrow> limits (vm\<lparr>vm_astack := s\<rparr>) \<longleftrightarrow> list_all item_ok (view s)"
  "limits (vm\<lparr>vm_condStack := c\<rparr>) \<longleftrightarrow> limits vm"
  "limits (vm\<lparr>vm_sigCache := sc\<rparr>) \<longleftrightarrow> limits vm"
  "limits (vm\<lparr>vm_taprootCtx := cx\<rparr>) \<longleftrightarrow> limits vm"
  "limits vm \<Longrightarrow> limits (vm\<lparr>vm_numOps := n\<rparr>) \<longleftrightarrow> n \<le> MaxOpsPerScript"
  "limits vm \<Longrightarrow> limits (vm\<lparr>vm_lastCodeSep := n\<rparr>) \<longleftrightarrow> n \<le> length (vm_scripts vm ! vm_scriptIdx vm)"
  by (simp_all add: limits_def)

lemma keeps_dstack:
  "keeps b vm0 vm \<Longrightarrow> (b \<Longrightarrow> list_all item_ok xs) \<Longrightarrow> keeps b vm0 (vm\<lparr>vm_dstack := set_view xs (vm_dstack vm)\<rparr>)"
  by (simp add: keeps_def)

lemma keeps_items: "keeps b vm0 vm \<Longrightarrow> b \<Longrightarrow> list_all item_ok (view (vm_dstack vm))"
  by (simp add: keeps_def limits_def)

text \<open>A pop gives an item and keeps the context of a tapscript.\<close>

lemma pop_keeps:
  assumes "keeps b vm0 vm"
    and "\<And>x vm'. (b \<Longrightarrow> item_ok x) \<Longrightarrow> keeps b vm0 vm' \<Longrightarrow> vm_taprootCtx vm' = vm_taprootCtx vm \<Longrightarrow> holds b (f (x, vm')) Q"
  shows "holds b (andthen (pop_with PopByteArray vm) f) Q"
proof (cases "view (vm_dstack vm)")
  case Nil
  then show ?thesis by (simp add: pop_view)
next
  case (Cons x xs)
  have items: "b \<Longrightarrow> list_all item_ok (x # xs)" using keeps_items [OF assms(1)] Cons by simp
  then show ?thesis
    using assms(2) [of x "vm\<lparr>vm_dstack := set_view xs (vm_dstack vm)\<rparr>"] keeps_dstack [OF assms(1), of xs]
    by (simp add: pop_view Cons)
qed

definition num_ok :: "scriptNum \<Rightarrow> bool" where
  "num_ok n \<longleftrightarrow> \<bar>sint n\<bar> < 2 ^ 31"

lemma MakeScriptNum_4: "MakeScriptNum x requireMinimal maxScriptNumLen = Inr n \<Longrightarrow> num_ok n"
proof -
  assume *: "MakeScriptNum x requireMinimal maxScriptNumLen = Inr n"
  have len: "length x \<le> 4" using * by (auto simp: MakeScriptNum_def maxScriptNumLen_def split: if_splits)
  then have n: "n = word_of_int (script_int x)"
    using * MakeScriptNum_eq [of x requireMinimal maxScriptNumLen]
    by (auto split: if_splits)
  have "x \<noteq> [] \<Longrightarrow> 2 * script_mag x < 256 ^ 4"
    using script_mag_bound [of x] power_increasing [OF len, of "256 :: nat"] by linarith
  then have "script_mag x < 2 ^ 31" by (cases "x = []") simp_all
  moreover have "sint n = script_int x" using sint_script_int [of x] len n by simp
  ultimately show ?thesis by (simp add: num_ok_def script_int_def)
qed

lemma popint_keeps:
  assumes "keeps b vm0 vm"
    and "\<And>n vm'. num_ok n \<Longrightarrow> keeps b vm0 vm' \<Longrightarrow> vm_taprootCtx vm' = vm_taprootCtx vm \<Longrightarrow> holds b (f (n, vm')) Q"
  shows "holds b (andthen (pop_with PopInt vm) f) Q"
proof (cases "PopInt (vm_dstack vm)")
  case (Inl e)
  then show ?thesis by (simp add: pop_with_def serr_def)
next
  case (Inr r)
  then obtain x xs n where v: "view (vm_dstack vm) = x # xs"
      and n: "MakeScriptNum x (verifyMinimalData (vm_dstack vm)) maxScriptNumLen = Inr n"
      and r: "r = (n, set_view xs (vm_dstack vm))"
    by (auto simp: PopInt_def PopByteArray_view andthen_def split: list.splits sum.splits)
  have "b \<Longrightarrow> list_all item_ok xs" using keeps_items [OF assms(1)] v by simp
  then show ?thesis
    using assms(2) [OF MakeScriptNum_4 [OF n] keeps_dstack [OF assms(1)]] Inr r
    by (simp add: pop_with_def serr_def)
qed

lemma popbool_keeps:
  assumes "keeps b vm0 vm"
    and "\<And>v vm'. keeps b vm0 vm' \<Longrightarrow> vm_taprootCtx vm' = vm_taprootCtx vm \<Longrightarrow> holds b (f (v, vm')) Q"
  shows "holds b (andthen (pop_with PopBool vm) f) Q"
proof -
  have "pop_with PopBool vm = andthen (pop_with PopByteArray vm) (\<lambda>(x, vm). Inr (asBool x, vm))"
    by (simp add: pop_with_def PopBool_def PopByteArray_view serr_def split: list.split)
  then show ?thesis
    using pop_keeps [OF assms(1), of "\<lambda>(x, vm). f (asBool x, vm)"] assms(2)
    by (simp add: holds_andthen case_prod_unfold)
qed

lemma peek_keeps:
  assumes "keeps b vm0 vm" "\<And>x. (b \<Longrightarrow> item_ok x) \<Longrightarrow> holds b (f x) Q"
  shows "holds b (andthen (peek_with (PeekByteArray 0) vm) f) Q"
proof (cases "view (vm_dstack vm)")
  case (Cons x xs)
  then have "b \<Longrightarrow> item_ok x" using keeps_items [OF assms(1)] by simp
  then show ?thesis using assms(2) [of x] Cons by (simp add: peek_with_def PeekByteArray_view serr_def)
qed (simp add: peek_with_def PeekByteArray_view serr_def)

lemma push_bytes_keeps: "keeps b vm0 vm \<Longrightarrow> (b \<Longrightarrow> item_ok x) \<Longrightarrow> keeps b vm0 (push_bytes x vm)"
  unfolding push_bytes_def PushByteArray_view by (rule keeps_dstack) (simp_all add: keeps_items)

lemma push_bool_keeps: "keeps b vm0 vm \<Longrightarrow> keeps b vm0 (push_bool v vm)"
  using push_bytes_keeps [of b vm0 vm "fromBool v"]
  by (simp add: push_bool_def push_bytes_def PushBool_def fromBool_def item_ok_def MaxScriptElementSize_def)

lemma push_int_keeps: "keeps b vm0 vm \<Longrightarrow> (b \<Longrightarrow> sint n \<noteq> - (2 ^ 63)) \<Longrightarrow> holds b (push_int n vm) (keeps b vm0)"
proof (cases "sint n = - (2 ^ 63)")
  case False
  assume *: "keeps b vm0 vm"
  have "\<bar>sint n\<bar> < 2 ^ 63" using False sint_ge [of n] sint_lt [of n] by auto
  then have "length (script_enc (sint n < 0) (nat \<bar>sint n\<bar>)) \<le> 8"
    by (intro length_script_enc) (simp add: nat_less_iff)
  then have "keeps b vm0 (push_bytes (script_enc (sint n < 0) (nat \<bar>sint n\<bar>)) vm)"
    using * by (intro push_bytes_keeps) (simp_all add: item_ok_def MaxScriptElementSize_def)
  then show ?thesis using False by (simp add: push_int_def PushInt_def scriptNum_Bytes_eq push_bytes_def)
qed (auto simp: push_int_def PushInt_def scriptNum_Bytes_eq)

text \<open>The operations of the stack make no new items.\<close>

definition conservative :: "(stack \<Rightarrow> ErrorCode + stack) \<Rightarrow> bool" where
  "conservative f \<longleftrightarrow> (\<forall>s s'. f s = Inr s' \<longrightarrow> set (view s') \<subseteq> set (view s) \<and> s' = set_view (view s') s)"

lemma conservative_repeat: "conservative step \<Longrightarrow> conservative (repeat_step n step)"
proof (induction n)
  case 0
  show ?case by (simp add: conservative_def)
next
  case (Suc n)
  show ?case
    unfolding conservative_def
  proof (intro allI impI)
    fix s s' assume "repeat_step (Suc n) step s = Inr s'"
    then obtain s1 where s1: "step s = Inr s1" "repeat_step n step s1 = Inr s'"
      by (cases "step s") simp_all
    from s1(1) Suc.prems have 1: "set (view s1) \<subseteq> set (view s)" "s1 = set_view (view s1) s"
      by (simp_all add: conservative_def)
    from s1(2) Suc.IH [OF Suc.prems] have "set (view s') \<subseteq> set (view s1)" "s' = set_view (view s') s1"
      by (simp_all add: conservative_def)
    with 1 show "set (view s') \<subseteq> set (view s) \<and> s' = set_view (view s') s"
      by (metis order_trans set_view_set_view)
  qed
qed

lemma conservative_steps:
  "conservative (\<lambda>s. andthen (PeekByteArray i s) (\<lambda>so. Inr (PushByteArray so s)))"
  "conservative (\<lambda>s. andthen (nipN i s) (\<lambda>(so, s). Inr (PushByteArray so s)))"
  "conservative (\<lambda>s. andthen (nipN i s) (\<lambda>(_, s). Inr s))"
  "conservative (\<lambda>s. andthen (PopByteArray s) (\<lambda>(_, s). Inr s))"
  by (auto simp: conservative_def stack_view dest: in_set_takeD in_set_dropD split: if_splits list.splits)

lemma conservative_guard: "conservative f \<Longrightarrow> conservative (\<lambda>s. if c then Inl e else f s)"
  by (cases c) (simp_all add: conservative_def)

lemma conservative_ops:
  "conservative (DropN n)" "conservative (DupN n)" "conservative (RotN n)" "conservative (SwapN n)"
  "conservative (OverN n)" "conservative (PickN n)" "conservative (RollN n)" "conservative (NipN n)" "conservative Tuck"
proof -
  note steps = conservative_guard conservative_repeat conservative_steps
  show "conservative (DropN n)" unfolding DropN_def [abs_def] by (intro steps)
  show "conservative (DupN n)" unfolding DupN_def [abs_def] by (intro steps)
  show "conservative (RotN n)" unfolding RotN_def [abs_def] Let_def by (intro steps)
  show "conservative (SwapN n)" unfolding SwapN_def [abs_def] Let_def by (intro steps)
  show "conservative (OverN n)" unfolding OverN_def [abs_def] Let_def by (intro steps)
  show "conservative (PickN n)" unfolding PickN_def [abs_def] by (intro steps)
  show "conservative (RollN n)" unfolding RollN_def [abs_def] by (intro steps)
  show "conservative (NipN n)" unfolding NipN_def [abs_def] by (intro steps)
  show "conservative Tuck"
    by (auto simp: conservative_def Tuck_def stack_view split: list.splits)
qed

lemma on_dstack_keeps: "conservative f \<Longrightarrow> keeps b vm0 vm \<Longrightarrow> holds b (on_dstack f vm) (keeps b vm0)"
proof (cases "f (vm_dstack vm)")
  case (Inr s)
  assume "conservative f" and k: "keeps b vm0 vm"
  with Inr have s: "set (view s) \<subseteq> set (view (vm_dstack vm))" "s = set_view (view s) (vm_dstack vm)"
    by (simp_all add: conservative_def)
  then have "b \<Longrightarrow> list_all item_ok (view s)" using keeps_items [OF k] by (auto simp: list_all_iff)
  from keeps_dstack [OF k this] s(2) show ?thesis using Inr by (simp add: on_dstack_def serr_def)
qed (simp add: on_dstack_def serr_def)

section \<open>The opcodes\<close>

text \<open>An opcode that keeps the state; \<open>v\<close> tells whether it needs a verifier.\<close>

definition sound_op :: "bool \<Rightarrow> ('d, 'k, 's, 'x) opfunc \<Rightarrow> bool" where
  "sound_op v f \<longleftrightarrow>
     (\<forall>b env op data vm0 vm. ready b env vm0 \<longrightarrow> (b \<longrightarrow> v \<longrightarrow> verifier_ready vm0) \<longrightarrow> keeps b vm0 vm \<longrightarrow>
        (b \<longrightarrow> Depth (vm_dstack vm) < 2 ^ 63) \<longrightarrow> holds b (f env op data vm) (keeps b vm0))"

lemma sound_opI:
  "(\<And>b env op data vm0 vm. ready b env vm0 \<Longrightarrow> (b \<Longrightarrow> v \<Longrightarrow> verifier_ready vm0) \<Longrightarrow> keeps b vm0 vm \<Longrightarrow>
      (b \<Longrightarrow> Depth (vm_dstack vm) < 2 ^ 63) \<Longrightarrow> holds b (f env op data vm) (keeps b vm0)) \<Longrightarrow> sound_op v f"
  by (simp add: sound_op_def)

lemma sound_opD:
  "sound_op v f \<Longrightarrow> ready b env vm0 \<Longrightarrow> (b \<Longrightarrow> v \<Longrightarrow> verifier_ready vm0) \<Longrightarrow> keeps b vm0 vm \<Longrightarrow>
   (b \<Longrightarrow> Depth (vm_dstack vm) < 2 ^ 63) \<Longrightarrow> holds b (f env op data vm) (keeps b vm0)"
  by (simp add: sound_op_def)

lemma sound_errors:
  "sound_op v opcodeDisabled" "sound_op v opcodeReserved" "sound_op v opcodeInvalid" "sound_op v opcodeReturn"
  by (simp_all add: sound_op_def opcodeDisabled_def opcodeReserved_def opcodeInvalid_def opcodeReturn_def)

lemma sint_small: "0 \<le> sint (n :: i64) \<Longrightarrow> sint n \<noteq> - (2 ^ 63)"
  by auto

lemma sint_ucast_byte: "0 \<le> sint (ucast (c :: byte) :: i64)"
  by transfer (simp add: signed_take_bit_eq_if_positive bit_take_bit_iff)

lemma sound_constants: "sound_op v opcodeFalse" "sound_op v opcode1Negate" "sound_op v opcodeN"
proof -
  show "sound_op v opcodeFalse"
    by (rule sound_opI) (simp add: opcodeFalse_def push_bytes_keeps item_ok_def)
  show "sound_op v opcode1Negate"
    by (rule sound_opI) (simp add: opcode1Negate_def push_int_keeps)
  show "sound_op v opcodeN"
    by (rule sound_opI) (unfold opcodeN_def, intro push_int_keeps sint_small sint_ucast_byte)
qed

lemma popIfBool_keeps:
  assumes "keeps b vm0 vm"
    and "\<And>v vm'. keeps b vm0 vm' \<Longrightarrow> holds b (f (v, vm')) Q"
  shows "holds b (andthen (popIfBool vm) f) Q"
proof (cases "\<not> isWitnessVersionActive vm TaprootWitnessVersion \<and>
    (\<not> isWitnessVersionActive vm BaseSegwitWitnessVersion \<or> \<not> hasFlag vm ScriptVerifyMinimalIf)")
  case True
  then show ?thesis using assms by (simp add: popIfBool_def popbool_keeps)
next
  case False
  have "holds b (andthen (pop_with PopByteArray vm) (\<lambda>(so, vm).
      if length so > 1 then Inl (ScriptErr ErrMinimalIf)
      else if length so = 1 \<and> so ! 0 \<noteq> 0x01 then Inl (ScriptErr ErrMinimalIf) else Inr (asBool so, vm)))
    (\<lambda>x. holds b (f x) Q)"
    by (rule pop_keeps [OF assms(1)]) (simp add: assms(2))
  with False show ?thesis by (auto simp: popIfBool_def holds_andthen)
qed

lemma keeps_cond [simp]: "keeps b vm0 (vm\<lparr>vm_condStack := c\<rparr>) \<longleftrightarrow> keeps b vm0 vm"
  by (simp add: keeps_def)

lemma abstractVerify_keeps: "keeps b vm0 vm \<Longrightarrow> holds b (abstractVerify c vm) (keeps b vm0)"
  unfolding abstractVerify_def by (rule popbool_keeps) auto

lemma sound_control:
  "sound_op v opcodeNop" "sound_op v opcodeIf" "sound_op v opcodeNotIf" "sound_op v opcodeElse" "sound_op v opcodeEndif"
  "sound_op v opcodeVerify"
proof -
  show "sound_op v opcodeNop" by (rule sound_opI) (simp add: opcodeNop_def)
  show "sound_op v opcodeIf"
    by (rule sound_opI) (auto simp: opcodeIf_def push_cond_def intro!: popIfBool_keeps)
  show "sound_op v opcodeNotIf"
    by (rule sound_opI) (auto simp: opcodeNotIf_def push_cond_def intro!: popIfBool_keeps)
  show "sound_op v opcodeElse" by (rule sound_opI) (simp add: opcodeElse_def Let_def)
  show "sound_op v opcodeEndif" by (rule sound_opI) (simp add: opcodeEndif_def)
  show "sound_op v opcodeVerify" by (rule sound_opI) (simp add: opcodeVerify_def abstractVerify_keeps)
qed

lemma peek_lock_time_holds: "(\<And>n. Q n) \<Longrightarrow> holds b (peek_lock_time vm) Q"
  by (simp add: peek_lock_time_def peek_with_def holds_andthen holds_serr)

lemma sound_lock_times: "sound_op v opcodeCheckLockTimeVerify" "sound_op v opcodeCheckSequenceVerify"
  unfolding sound_op_def opcodeCheckLockTimeVerify_def opcodeCheckSequenceVerify_def Let_def
  by (auto simp: holds_andthen holds_serr intro!: peek_lock_time_holds)

lemma keeps_astack:
  "keeps b vm0 vm \<Longrightarrow> (b \<Longrightarrow> list_all item_ok xs) \<Longrightarrow> keeps b vm0 (vm\<lparr>vm_astack := set_view xs (vm_astack vm)\<rparr>)"
  by (simp add: keeps_def)

lemma keeps_aitems: "keeps b vm0 vm \<Longrightarrow> b \<Longrightarrow> list_all item_ok (view (vm_astack vm))"
  by (simp add: keeps_def limits_def)

lemma FromAltStack_keeps: "keeps b vm0 vm \<Longrightarrow> holds b (opcodeFromAltStack env op data vm) (keeps b vm0)"
proof (cases "view (vm_astack vm)")
  case (Cons x xs)
  assume k: "keeps b vm0 vm"
  with Cons have "b \<Longrightarrow> list_all item_ok (x # xs)" using keeps_aitems [OF k] by simp
  then have "keeps b vm0 (push_bytes x (vm\<lparr>vm_astack := set_view xs (vm_astack vm)\<rparr>))"
    using k by (intro push_bytes_keeps keeps_astack) auto
  then show ?thesis by (simp add: opcodeFromAltStack_def PopByteArray_view Cons serr_def)
qed (simp add: opcodeFromAltStack_def PopByteArray_view serr_def)

lemma sound_alt_stack: "sound_op v opcodeToAltStack" "sound_op v opcodeFromAltStack"
proof -
  show "sound_op v opcodeToAltStack"
    by (rule sound_opI)
      (auto simp: opcodeToAltStack_def PushByteArray_view keeps_aitems intro!: pop_keeps keeps_astack)
  show "sound_op v opcodeFromAltStack" by (intro sound_opI FromAltStack_keeps)
qed

lemma sound_stack_ops:
  "sound_op v opcode2Drop" "sound_op v opcode2Dup" "sound_op v opcode3Dup" "sound_op v opcode2Over" "sound_op v opcode2Rot"
  "sound_op v opcode2Swap" "sound_op v opcodeDrop" "sound_op v opcodeDup" "sound_op v opcodeNip" "sound_op v opcodeOver"
  "sound_op v opcodeRot" "sound_op v opcodeSwap" "sound_op v opcodeTuck" "sound_op v opcodePick" "sound_op v opcodeRoll"
  unfolding sound_op_def opcode2Drop_def opcode2Dup_def opcode3Dup_def opcode2Over_def opcode2Rot_def opcode2Swap_def
    opcodeDrop_def opcodeDup_def opcodeNip_def opcodeOver_def opcodeRot_def opcodeSwap_def opcodeTuck_def opcodePick_def opcodeRoll_def
  by (auto intro!: on_dstack_keeps conservative_ops popint_keeps)

lemma sint_word_of_nat_i64: "n < 2 ^ 63 \<Longrightarrow> sint (word_of_nat n :: i64) = int n"
  using sint_word_of_int_i64 [of "int n"] by simp

lemma Depth_keeps:
  "keeps b vm0 vm \<Longrightarrow> (b \<Longrightarrow> Depth (vm_dstack vm) < 2 ^ 63) \<Longrightarrow> holds b (opcodeDepth env op data vm) (keeps b vm0)"
  unfolding opcodeDepth_def by (erule push_int_keeps) (simp add: Depth_def sint_word_of_nat_i64)

lemma Size_keeps: "keeps b vm0 vm \<Longrightarrow> holds b (opcodeSize env op data vm) (keeps b vm0)"
  unfolding opcodeSize_def
  by (rule peek_keeps, assumption, rule push_int_keeps, assumption)
    (simp add: item_ok_def MaxScriptElementSize_def sint_word_of_nat_i64)

lemma Equal_keeps: "keeps b vm0 vm \<Longrightarrow> holds b (opcodeEqual env op data vm) (keeps b vm0)"
  by (auto simp: opcodeEqual_def intro!: pop_keeps push_bool_keeps)

lemma sound_stack_values:
  "sound_op v opcodeIfDup" "sound_op v opcodeDepth" "sound_op v opcodeSize" "sound_op v opcodeEqual" "sound_op v opcodeEqualVerify"
proof -
  show "sound_op v opcodeIfDup"
    by (rule sound_opI) (auto simp: opcodeIfDup_def intro!: peek_keeps push_bytes_keeps)
  show "sound_op v opcodeDepth" by (intro sound_opI Depth_keeps)
  show "sound_op v opcodeSize" by (intro sound_opI Size_keeps)
  show "sound_op v opcodeEqual" by (intro sound_opI Equal_keeps)
  show "sound_op v opcodeEqualVerify"
    unfolding opcodeEqualVerify_def [abs_def] by (intro sound_opI holds_bind [OF Equal_keeps] abstractVerify_keeps)
qed

subsection \<open>Numbers and hashes\<close>

lemma num_ok_arith:
  assumes "num_ok m" "num_ok n"
  shows "sint (m + n) = sint m + sint n" "sint (m - n) = sint m - sint n"
proof -
  have b: "\<bar>sint m\<bar> < 2 ^ 31" "\<bar>sint n\<bar> < 2 ^ 31" using assms by (simp_all add: num_ok_def)
  have "sint (word_of_int (sint m + sint n) :: i64) = sint m + sint n"
    by (rule sint_word_of_int_i64) (use b in auto)
  then show "sint (m + n) = sint m + sint n" by simp
  have "sint (word_of_int (sint m - sint n) :: i64) = sint m - sint n"
    by (rule sint_word_of_int_i64) (use b in auto)
  then show "sint (m - n) = sint m - sint n" by simp
qed

lemma num_ok_const [simp]: "num_ok 0" "num_ok 1"
  by (simp_all add: num_ok_def)

lemma num_ok_pushable: "num_ok n \<Longrightarrow> sint n \<noteq> - (2 ^ 63)"
  by (auto simp: num_ok_def)

lemma num_bool_pushable: "sint (num_bool v) \<noteq> - (2 ^ 63)"
  by (simp add: num_bool_def)

lemma arith_pushable:
  "num_ok m \<Longrightarrow> num_ok n \<Longrightarrow> sint (m + n) \<noteq> - (2 ^ 63)"
  "num_ok m \<Longrightarrow> num_ok n \<Longrightarrow> sint (m - n) \<noteq> - (2 ^ 63)"
  "num_ok m \<Longrightarrow> sint (- m) \<noteq> - (2 ^ 63)"
  using num_ok_arith [of m n] num_ok_arith [of 0 m] by (auto simp: num_ok_def)

lemma num1_keeps:
  "keeps b vm0 vm \<Longrightarrow> (\<And>m. num_ok m \<Longrightarrow> sint (f m) \<noteq> - (2 ^ 63)) \<Longrightarrow> holds b (num1 f vm) (keeps b vm0)"
  by (auto simp: num1_def intro!: popint_keeps push_int_keeps)

lemma num2_keeps:
  "keeps b vm0 vm \<Longrightarrow> (\<And>m n. num_ok m \<Longrightarrow> num_ok n \<Longrightarrow> sint (f m n) \<noteq> - (2 ^ 63)) \<Longrightarrow>
   holds b (num2 f vm) (keeps b vm0)"
  by (auto simp: num2_def intro!: popint_keeps push_int_keeps)

lemma sound_num1:
  "sound_op v opcode1Add" "sound_op v opcode1Sub" "sound_op v opcodeNegate" "sound_op v opcodeAbs" "sound_op v opcodeNot"
  "sound_op v opcode0NotEqual"
  unfolding opcode1Add_def [abs_def] opcode1Sub_def [abs_def] opcodeNegate_def [abs_def] opcodeAbs_def [abs_def]
    opcodeNot_def [abs_def] opcode0NotEqual_def [abs_def]
  by (intro sound_opI num1_keeps; simp add: arith_pushable num_bool_pushable num_ok_pushable del: power_numeral)+

lemma sound_num2:
  "sound_op v opcodeAdd" "sound_op v opcodeSub" "sound_op v opcodeBoolAnd" "sound_op v opcodeBoolOr" "sound_op v opcodeNumEqual"
  "sound_op v opcodeNumNotEqual" "sound_op v opcodeLessThan" "sound_op v opcodeGreaterThan" "sound_op v opcodeLessThanOrEqual"
  "sound_op v opcodeGreaterThanOrEqual" "sound_op v opcodeMin" "sound_op v opcodeMax"
  unfolding opcodeAdd_def [abs_def] opcodeSub_def [abs_def] opcodeBoolAnd_def [abs_def] opcodeBoolOr_def [abs_def]
    opcodeNumEqual_def [abs_def] opcodeNumNotEqual_def [abs_def] opcodeLessThan_def [abs_def] opcodeGreaterThan_def [abs_def]
    opcodeLessThanOrEqual_def [abs_def] opcodeGreaterThanOrEqual_def [abs_def] opcodeMin_def [abs_def] opcodeMax_def [abs_def]
  by (intro sound_opI num2_keeps; simp add: arith_pushable num_bool_pushable num_ok_pushable del: power_numeral)+

lemma sound_num_other: "sound_op v opcodeNumEqualVerify" "sound_op v opcodeWithin"
proof -
  have eq: "holds b (opcodeNumEqual env op data vm) (keeps b vm0)" if "keeps b vm0 vm" for b env op data vm0 vm
    unfolding opcodeNumEqual_def using that by (intro num2_keeps num_bool_pushable)
  show "sound_op v opcodeNumEqualVerify"
    unfolding opcodeNumEqualVerify_def [abs_def] by (intro sound_opI holds_bind [OF eq] abstractVerify_keeps)
  show "sound_op v opcodeWithin"
    by (rule sound_opI)
      (auto simp: opcodeWithin_def num_bool_pushable simp del: power_numeral intro!: popint_keeps push_int_keeps)
qed

lemma hash1_keeps: "keeps b vm0 vm \<Longrightarrow> (\<And>x. b \<Longrightarrow> item_ok (f x)) \<Longrightarrow> holds b (hash1 f vm) (keeps b vm0)"
  by (auto simp: hash1_def intro!: pop_keeps push_bytes_keeps)

lemma sound_hashes:
  "sound_op v opcodeRipemd160" "sound_op v opcodeSha1" "sound_op v opcodeSha256" "sound_op v opcodeHash160" "sound_op v opcodeHash256"
  unfolding opcodeRipemd160_def [abs_def] opcodeSha1_def [abs_def] opcodeSha256_def [abs_def] opcodeHash160_def [abs_def]
    opcodeHash256_def [abs_def]
  by (intro sound_opI hash1_keeps; simp add: ready_def env_ok_def item_ok_def MaxScriptElementSize_def)+

lemma CodeSeparator_keeps:
  assumes "ready b env vm0" "keeps b vm0 vm"
  shows "holds b (opcodeCodeSeparator env op data vm) (keeps b vm0)"
proof -
  have "b \<Longrightarrow> tk_offset (vm_tokenizer vm) \<le> length (vm_scripts vm ! vm_scriptIdx vm)"
    using assms by (simp add: ready_def placed_def keeps_def same_def)
  then show ?thesis
    using assms(2) by (auto simp: opcodeCodeSeparator_def keeps_def tk_ByteIndex_def Let_def split: option.split)
qed

subsection \<open>Signatures\<close>

lemma calcSignatureHash_total: "idx < length (TxIns tx) \<Longrightarrow> calcSignatureHash sha dops script hashType tx idx \<noteq> None"
  by (simp add: calcSignatureHash_def sighash_copy_def blank_sequences_def Let_def)

lemma ready_input: "ready b env vm0 \<Longrightarrow> keeps b vm0 vm \<Longrightarrow> b \<Longrightarrow> input_ok vm"
  by (simp add: ready_def keeps_def same_def input_ok_def)

lemma subScript_holds: "ready b env vm0 \<Longrightarrow> keeps b vm0 vm \<Longrightarrow> holds b (subScript vm) (\<lambda>_. True)"
  by (auto simp: subScript_def ready_def placed_def keeps_def same_def limits_def)

lemma newBaseSigVerifier_holds:
  assumes "ready b env vm0" "keeps b vm0 vm" "b \<Longrightarrow> fullSigBytes \<noteq> []"
  shows "holds b (newBaseSigVerifier env pkBytes fullSigBytes vm) (\<lambda>_. True)"
proof -
  have "holds b (parseBaseSigAndPubkey env pkBytes fullSigBytes vm) (\<lambda>_. True)"
    using assms(3) by (auto simp: parseBaseSigAndPubkey_def holds_andthen holds_serr Let_def split: option.split)
  then show ?thesis
    unfolding newBaseSigVerifier_def
    by (rule holds_bind) (auto simp: holds_andthen intro: holds_mono [OF subScript_holds [OF assms(1,2)]])
qed

text \<open>What a verification keeps: only the cache may change.\<close>

definition verified :: "bool \<Rightarrow> 'd Engine \<Rightarrow> 'd Engine \<Rightarrow> verifyResult \<times> 'd Engine \<Rightarrow> bool" where
  "verified b vm0 vm r \<longleftrightarrow> keeps b vm0 (snd r) \<and> vm_taprootCtx (snd r) = vm_taprootCtx vm"

lemma verified_outcome: "keeps b vm0 vm \<Longrightarrow> verified b vm0 vm (outcome m r vm)"
  by (simp add: verified_def outcome_def keeps_def)

lemma verified_same: "keeps b vm0 vm \<Longrightarrow> verified b vm0 vm (r, vm)"
  by (simp add: verified_def)

lemma base_Verify_holds:
  assumes "ready b env vm0" "keeps b vm0 vm"
  shows "holds b (base_Verify env v vm) (verified b vm0 vm)"
proof -
  have "b \<Longrightarrow> vm_txIdx vm < length (TxIns (vm_tx vm))" using ready_input [OF assms] by (simp add: input_ok_def)
  then have "calcSignatureHash (env_sha256 env) (env_decimal env) script hashType (vm_tx vm) (vm_txIdx vm) = None \<Longrightarrow> \<not> b" for script hashType
    using calcSignatureHash_total by blast
  then show ?thesis
    using assms(2) by (auto simp: base_Verify_def verified_outcome split: option.split prod.split)
qed

lemma sig_hashes_total: "ready b env vm0 \<Longrightarrow> keeps b vm0 vm \<Longrightarrow> b \<Longrightarrow> sig_hashes env vm \<noteq> None"
  using ready_input [of b env vm0 vm] by (auto simp: sig_hashes_def input_ok_def)

lemma segwit_Verify_holds:
  assumes "ready b env vm0" "keeps b vm0 vm"
  shows "holds b (segwit_Verify env v vm) (verified b vm0 vm)"
  using sig_hashes_total [OF assms] assms(2)
  by (auto simp: segwit_Verify_def verified_outcome verified_same split: option.split)

lemma andthen_neq: "r \<noteq> Inl e \<Longrightarrow> (\<And>x. f x \<noteq> Inl e) \<Longrightarrow> andthen r f \<noteq> Inl e"
  by (cases r) auto

lemma if_neq: "x \<noteq> z \<Longrightarrow> y \<noteq> z \<Longrightarrow> (if c then x else y) \<noteq> z"
  by simp

lemma taproot_sighash_holds:
  assumes "env_ok env" "input_ok vm"
  shows "taproot_sighash env hashType opts vm \<noteq> Inl SigHashPanic"
    and "taproot_sighash env hashType opts vm = Inr h \<Longrightarrow> length h = 32"
proof -
  obtain hashCache prevOut where h: "vm_hashCache vm = Some hashCache" "vm_prevOutFetcher vm (PreviousOutPoint (TxIns (vm_tx vm) ! vm_txIdx vm)) = Some prevOut"
    using assms(2) by (auto simp: input_ok_def)
  have sha: "length (env_sha256 env m) = 32" for m using assms(1) by (simp add: env_ok_def)
  have w: "written w \<noteq> Inl SigHashPanic" for w by (cases w) (auto simp: written_def split: option.split)
  show "taproot_sighash env hashType opts vm \<noteq> Inl SigHashPanic"
    unfolding taproot_sighash_def calcTaprootSignatureHashRaw_def h option.case Let_def
    by (intro if_neq andthen_neq w; simp)
  show "taproot_sighash env hashType opts vm = Inr h \<Longrightarrow> length h = 32"
    by (auto simp: taproot_sighash_def h calcTaprootSignatureHashRaw_def Let_def TaggedHash_def sha andthen_def split: sum.splits if_splits)
qed

lemma taproot_Verify_cache:
  assumes "b \<Longrightarrow> env_ok env" "b \<Longrightarrow> input_ok vm"
  shows "holds b (taproot_Verify env t opts vm) (\<lambda>r. \<exists>c. snd r = vm\<lparr>vm_sigCache := c\<rparr>)"
proof (cases "taproot_sighash env (tv_hashType t) opts vm")
  case (Inl e)
  have "\<exists>c. vm = vm\<lparr>vm_sigCache := c\<rparr>" by (rule exI [of _ "vm_sigCache vm"]) simp
  then show ?thesis
    using taproot_sighash_holds(1) [of env vm "tv_hashType t" opts] assms Inl
    by (cases e) (auto simp: taproot_Verify_def)
next
  case (Inr h)
  then show ?thesis
    using taproot_sighash_holds(2) [of env vm "tv_hashType t" opts h] assms
    by (auto simp: taproot_Verify_def taproot_verifySig_def outcome_def)
qed

lemma taproot_Verify_holds:
  assumes "ready b env vm0" "keeps b vm0 vm"
  shows "holds b (taproot_Verify env t opts vm) (verified b vm0 vm)"
proof (rule holds_mono [OF taproot_Verify_cache])
  show "b \<Longrightarrow> env_ok env" "b \<Longrightarrow> input_ok vm"
    using assms(1) ready_input [OF assms] by (simp_all add: ready_def)
qed (use assms(2) in \<open>auto simp: verified_def keeps_def\<close>)

lemma tapscript_Verify_holds:
  assumes "ready b env vm0" "keeps b vm0 vm"
  shows "holds b (tapscript_Verify env v ctx vm) (verified b vm0 vm)"
  using assms by (auto simp: tapscript_Verify_def verified_same taproot_Verify_holds split: option.split)

lemma newTaprootSigVerifier_holds: "holds b (newTaprootSigVerifier env pkBytes rawSig) (\<lambda>_. True)"
  by (simp add: newTaprootSigVerifier_def parseTaprootSigAndPubKey_def holds_andthen split: option.split)

lemma newBaseTapscriptSigVerifier_holds: "holds b (newBaseTapscriptSigVerifier env pkBytes rawSig vm) (\<lambda>_. True)"
  using newTaprootSigVerifier_holds [of b env pkBytes rawSig]
  by (auto simp: newBaseTapscriptSigVerifier_def holds_andthen intro: holds_mono)

lemma checksig_result_holds: "verified b vm0 vm r \<Longrightarrow> holds b (checksig_result sig r) (keeps b vm0)"
  by (cases r) (simp add: checksig_result_def verified_def push_bool_keeps Let_def)

lemma checksig_ecdsa_holds:
  assumes "keeps b vm0 vm" "holds b r (\<lambda>_. True)" "\<And>v. holds b (Verify v vm) (verified b vm0 vm)"
  shows "holds b (checksig_ecdsa r Verify sig vm) (keeps b vm0)"
proof (cases r)
  case (Inl e)
  with assms(1,2) show ?thesis by (cases e) (simp_all add: checksig_ecdsa_def push_bool_keeps)
next
  case (Inr v)
  show ?thesis using assms(3) [of v] by (simp add: checksig_ecdsa_def Inr holds_bind checksig_result_holds)
qed

lemma tapscript_tally_holds:
  assumes "keeps b vm0 vm" "vm_taprootCtx vm = Some ctx0"
    and "\<And>ctx vm'. keeps b vm0 vm' \<Longrightarrow> holds b (f (ctx, vm')) Q"
  shows "holds b (andthen (tapscript_tally sig pk ctx vm) f) Q"
proof -
  have "keeps b vm0 (vm\<lparr>vm_taprootCtx := Some c\<rparr>)" for c using assms(1,2) by (simp add: keeps_def)
  then show ?thesis
    using assms(3) by (simp add: tapscript_tally_def tallysigOp_def holds_andthen Let_def)
qed

lemma CheckSig_keeps:
  assumes r: "ready b env vm0" and v: "b \<Longrightarrow> verifier_ready vm0" and k: "keeps b vm0 vm"
  shows "holds b (opcodeCheckSig env op data vm) (keeps b vm0)"
  unfolding opcodeCheckSig_def
proof (rule pop_keeps [OF k], unfold prod.case, rule pop_keeps, assumption, unfold prod.case, goal_cases)
  case (1 pk vm1 sig vm)
  note k = \<open>keeps b vm0 vm\<close>
  have ready: "b \<Longrightarrow> verifier_ready vm" using v k by (simp add: verifier_ready_def keeps_def same_def)
  have ecdsa: "(b \<Longrightarrow> sig \<noteq> []) \<Longrightarrow> holds b (checksig_ecdsa (newBaseSigVerifier env pk sig vm) (base_Verify env) sig vm) (keeps b vm0)"
    "(b \<Longrightarrow> sig \<noteq> []) \<Longrightarrow> holds b (checksig_ecdsa (newBaseSigVerifier env pk sig vm) (segwit_Verify env) sig vm) (keeps b vm0)"
    by (intro checksig_ecdsa_holds [OF k newBaseSigVerifier_holds [OF r k]] base_Verify_holds [OF r k] segwit_Verify_holds [OF r k]; simp)+
  have tap: "holds b (andthen (tapscript_tally sig pk ctx vm) (\<lambda>(ctx, vm).
      if length sig = 0 then Inr (push_bytes [] vm)
      else andthen (newBaseTapscriptSigVerifier env pk sig vm) (\<lambda>v.
           andthen (tapscript_Verify env v ctx vm) (checksig_result sig)))) (keeps b vm0)"
    if "vm_taprootCtx vm = Some ctx" for ctx
    by (rule tapscript_tally_holds [OF k that])
      (auto simp: push_bytes_keeps item_ok_def
         intro!: holds_bind [OF newBaseTapscriptSigVerifier_holds] holds_bind [OF tapscript_Verify_holds [OF r]] checksig_result_holds)
  show ?case
  proof (cases "vm_taprootCtx vm")
    case None
    then show ?thesis
      using ecdsa ready k
      by (auto simp: push_bool_keeps verifier_ready_def isWitnessVersionActive_def)
  next
    case (Some ctx)
    then show ?thesis
      using tap [OF Some] ecdsa ready
      by (cases b) (auto simp: verifier_ready_def isWitnessVersionActive_def)
  qed
qed

lemma sound_checksig: "sound_op True opcodeCheckSig" "sound_op True opcodeCheckSigVerify"
  unfolding opcodeCheckSigVerify_def [abs_def]
  by (intro sound_opI holds_bind [OF CheckSig_keeps] abstractVerify_keeps CheckSig_keeps; simp)+

lemma CheckSigAdd_keeps:
  assumes r: "ready b env vm0" and k: "keeps b vm0 vm"
  shows "holds b (opcodeCheckSigAdd env op data vm) (keeps b vm0)"
proof (cases "vm_taprootCtx vm")
  case (Some ctx)
  show ?thesis
    unfolding opcodeCheckSigAdd_def Some option.case
    apply (rule pop_keeps [OF k], unfold prod.case, rule popint_keeps, assumption, unfold prod.case)
    apply (rule pop_keeps, assumption, unfold prod.case, rule tapscript_tally_holds, assumption, simp add: Some)
    apply (auto simp: verified_def simp del: power_numeral intro!: push_int_keeps
       holds_bind [OF newBaseTapscriptSigVerifier_holds] holds_bind [OF tapscript_Verify_holds [OF r]]
       dest: num_ok_pushable arith_pushable(1) [OF _ num_ok_const(2)])
    done
qed (simp add: opcodeCheckSigAdd_def)

lemma pop_items_keeps:
  assumes "keeps b vm0 vm"
    and "\<And>xs vm'. keeps b vm0 vm' \<Longrightarrow> vm_taprootCtx vm' = vm_taprootCtx vm \<Longrightarrow> holds b (f (xs, vm')) Q"
  shows "holds b (andthen (pop_items n vm) f) Q"
  using assms
proof (induction n arbitrary: vm f)
  case 0
  then show ?case by simp
next
  case (Suc n)
  have "holds b (andthen (pop_with PopByteArray vm) (\<lambda>(x, vm). andthen (pop_items n vm) (\<lambda>(xs, vm). f (x # xs, vm)))) Q"
    by (rule pop_keeps [OF Suc.prems(1)], unfold prod.case, rule Suc.IH, assumption) (simp add: Suc.prems(2))
  then show ?case by (simp add: holds_andthen case_prod_unfold)
qed

lemma remove_signatures_holds: "holds b (remove_signatures vm sigs script) (\<lambda>_. True)"
  by (induction sigs arbitrary: script) (simp_all add: case_prod_unfold Let_def)

lemma multisig_hash_holds:
  assumes "ready b env vm0" "keeps b vm0 vm"
  shows "holds b (multisig_hash env script hashType vm) (\<lambda>_. True)"
proof -
  have "b \<Longrightarrow> vm_txIdx vm < length (TxIns (vm_tx vm))" using ready_input [OF assms] by (simp add: input_ok_def)
  then have "calcSignatureHash (env_sha256 env) (env_decimal env) script hashType (vm_tx vm) (vm_txIdx vm) = None \<Longrightarrow> \<not> b"
    using calcSignatureHash_total by blast
  then show ?thesis
    using sig_hashes_total [OF assms] by (auto simp: multisig_hash_def split: option.split)
qed

lemma parse_once_holds: "holds b (parse_once env vm sigInfo) (\<lambda>_. True)"
  by (simp add: parse_once_def holds_andthen holds_serr Let_def split: option.split)

lemma multisig_loop_keeps:
  assumes r: "ready b env vm0"
  shows "keeps b vm0 vm \<Longrightarrow> holds b (multisig_loop env script sigs pubKeys vm) (\<lambda>r. keeps b vm0 (snd r))"
proof (induction pubKeys arbitrary: sigs vm)
  case Nil
  then show ?case by (cases sigs) simp_all
next
  case (Cons pubKey pubKeys)
  have cache: "keeps b vm0 (vm\<lparr>vm_sigCache := c\<rparr>)" for c using Cons.prems by (simp add: keeps_def)
  show ?case
  proof (cases sigs)
    case Nil
    then show ?thesis using Cons.prems by simp
  next
    case sigs: (Cons sigInfo sigs')
    show ?thesis
      unfolding sigs multisig_loop.simps(3) Let_def split_beta
      using Cons.prems
      by (intro holds_if holds_bind [OF parse_once_holds])
        (auto simp: holds_serr Cons.IH cache multisig_hash_holds [OF r] split: option.split
          intro!: holds_bind [where P = "\<lambda>_. True"])
  qed
qed

lemma CheckMultiSig_keeps:
  assumes r: "ready b env vm0" and k: "keeps b vm0 vm"
  shows "holds b (opcodeCheckMultiSig env op data vm) (keeps b vm0)"
proof -
  have ops: "keeps b vm0 (vm\<lparr>vm_numOps := n\<rparr>)" if "keeps b vm0 vm" "n \<le> MaxOpsPerScript" for vm n
    using that by (simp add: keeps_def)
  have last: "holds b (andthen (multisig_loop env script sigs pubKeys vm) (\<lambda>(success, vm).
      if \<not> success \<and> hasFlag vm ScriptVerifyNullFail \<and> list_ex (\<lambda>s. length s > 0) signatures
      then Inl (ScriptErr ErrNullFail) else Inr (push_bool success vm))) (keeps b vm0)"
    if "keeps b vm0 vm" for script sigs pubKeys vm and signatures :: "bytes list"
    by (rule holds_bind [OF multisig_loop_keeps [OF r that]]) (simp add: push_bool_keeps split_beta)
  show ?thesis
    unfolding opcodeCheckMultiSig_def Let_def
    apply (rule holds_if, simp, rule popint_keeps [OF k], unfold prod.case, rule holds_if, simp)
    apply (rule holds_if, simp, rule pop_items_keeps, rule ops, assumption, simp, unfold prod.case)
    apply (rule popint_keeps, assumption, unfold prod.case, rule holds_if, simp)
    apply (rule pop_items_keeps, assumption, unfold prod.case, rule pop_keeps, assumption, unfold prod.case, rule holds_if, simp)
    apply (rule holds_bind [OF subScript_holds [OF r]], assumption, rule holds_bind [where P = "\<lambda>_. True"])
     apply (simp add: remove_signatures_holds)
    apply (erule last)
    done
qed

lemma sound_signatures:
  "sound_op v opcodeCodeSeparator" "sound_op v opcodeCheckSigAdd" "sound_op v opcodeCheckMultiSig" "sound_op v opcodeCheckMultiSigVerify"
  unfolding opcodeCheckMultiSigVerify_def [abs_def]
  by (intro sound_opI CodeSeparator_keeps CheckSigAdd_keeps CheckMultiSig_keeps holds_bind [OF CheckMultiSig_keeps] abstractVerify_keeps;
      assumption)+

subsection \<open>The table\<close>

lemmas sound_ops = sound_errors sound_constants sound_control sound_lock_times sound_alt_stack sound_stack_ops
  sound_stack_values sound_num1 sound_num2 sound_num_other sound_hashes sound_checksig sound_signatures

lemma sound_table: "list_all (\<lambda>(op, f). sound_op (op = 0xac \<or> op = 0xad) f) opcode_table"
  by (simp add: opcode_table_def sound_ops)

lemma op_func_sound: "op = 0 \<or> OP_PUSHDATA4 < op \<Longrightarrow> sound_op (op = 0xac \<or> op = 0xad) (op_func op)"
proof -
  assume op: "op = 0 \<or> OP_PUSHDATA4 < op"
  have "sound_op (op = 0xac \<or> op = 0xad) f" if "map_of opcode_table op = Some f" for f
    using map_of_SomeD [OF that] sound_table by (auto simp: list_all_iff)
  with op show ?thesis by (auto simp: op_func_def sound_ops split: option.split)
qed

section \<open>One opcode of the engine\<close>

lemma keeps_numOps: "keeps b vm0 vm \<Longrightarrow> n \<le> MaxOpsPerScript \<Longrightarrow> keeps b vm0 (vm\<lparr>vm_numOps := n\<rparr>)"
  by (simp add: keeps_def)

lemma push_not_counted: "(op :: byte) \<le> OP_PUSHDATA4 \<Longrightarrow> \<not> OP_16 < op"
  using order.strict_trans2 [of "OP_16" op "OP_PUSHDATA4"] by auto

lemma executeOpcode_keeps:
  assumes "ready b env vm0" "b \<Longrightarrow> op = 0xac \<or> op = 0xad \<Longrightarrow> verifier_ready vm0" "keeps b vm0 vm"
    and "b \<Longrightarrow> Depth (vm_dstack vm) < 2 ^ 63"
  shows "holds b (executeOpcode env op data vm) (keeps b vm0)"
proof -
  have counted: "holds b (count_op op data vm) (\<lambda>vm'. keeps b vm0 vm' \<and> vm_dstack vm' = vm_dstack vm \<and>
      (op \<le> OP_PUSHDATA4 \<longrightarrow> item_ok data))"
    using assms(3) by (auto simp: count_op_def keeps_numOps item_ok_def Let_def dest: push_not_counted)
  have run: "holds b (op_func op env op data vm') (keeps b vm0)"
    if "keeps b vm0 vm' \<and> vm_dstack vm' = vm_dstack vm \<and> (op \<le> OP_PUSHDATA4 \<longrightarrow> item_ok data)" for vm'
  proof (cases "op \<noteq> 0 \<and> op \<le> OP_PUSHDATA4")
    case True
    then show ?thesis using that by (simp add: op_func_def opcodePushData_def push_bytes_keeps)
  next
    case False
    then have "op = 0 \<or> OP_PUSHDATA4 < op" by auto
    from sound_opD [OF op_func_sound [OF this] assms(1,2)] show ?thesis using that assms(4) by simp
  qed
  show ?thesis
    unfolding executeOpcode_def
    by (intro holds_if holds_bind [OF counted]) (auto simp: holds_andthen holds_serr run)
qed

lemma executeOpcode_same: "executeOpcode env op data vm = Inr vm' \<Longrightarrow> same vm vm'"
  using executeOpcode_keeps [of False env vm op vm data] by (simp add: ready_def keeps_def same_def)

section \<open>Running\<close>

text \<open>A state in the middle of a script.\<close>

definition running :: "'d Engine \<Rightarrow> bool" where
  "running vm \<longleftrightarrow>
     placed vm \<and> vm_version vm = 0 \<and> tk_err (vm_tokenizer vm) = None \<and>
     tk_offset (vm_tokenizer vm) < length (tk_script (vm_tokenizer vm)) \<and>
     (length (vm_scripts vm) \<le> 2 \<or> length (vm_scripts vm) \<le> 4 \<and> length (vm_scripts vm) \<le> vm_scriptIdx vm + 1)"

abbreviation rest :: "'d Engine \<Rightarrow> bytes" where
  "rest vm \<equiv> drop (tk_offset (vm_tokenizer vm)) (tk_script (vm_tokenizer vm))"

definition advance :: "nat \<Rightarrow> byte \<Rightarrow> bytes option \<Rightarrow> 'd Engine \<Rightarrow> 'd Engine" where
  "advance k op data vm = vm\<lparr>vm_tokenizer := (vm_tokenizer vm)\<lparr>tk_opcodePos := tk_opcodePos (vm_tokenizer vm) + 1,
     tk_offset := tk_offset (vm_tokenizer vm) + k, tk_op := Some op, tk_data := data\<rparr>\<rparr>"

definition after_opcode :: "('d, 'k, 's, 'x) script_env \<Rightarrow> 'd Engine \<Rightarrow> engine_error + (bool \<times> 'd Engine)" where
  "after_opcode env vm =
     (if Depth (vm_dstack vm) + Depth (vm_astack vm) > int MaxStackSize then Inl (ScriptErr ErrStackOverflow)
      else if tk_Done (vm_tokenizer vm) then end_script env (vm\<lparr>vm_opcodeIdx := vm_opcodeIdx vm + 1\<rparr>)
      else Inr (False, vm\<lparr>vm_opcodeIdx := vm_opcodeIdx vm + 1\<rparr>))"

lemma Step_running:
  assumes "running vm"
  shows "Step env vm =
    (case step_token (rest vm) of None \<Rightarrow> Inl (ScriptErr ErrMalformedPush)
     | Some (k, op, data) \<Rightarrow>
         andthen (executeOpcode env op (case data of None \<Rightarrow> [] | Some d \<Rightarrow> d) (advance k op data vm)) (after_opcode env))"
proof -
  have err: "tk_err (vm_tokenizer vm) = None" "tk_offset (vm_tokenizer vm) < length (tk_script (vm_tokenizer vm))"
    "vm_scriptIdx vm < length (vm_scripts vm)"
    using assms by (auto simp: running_def placed_def)
  have after: "(\<lambda>vm. if Depth (vm_dstack vm) + Depth (vm_astack vm) > int MaxStackSize then Inl (ScriptErr ErrStackOverflow)
      else let vm = vm\<lparr>vm_opcodeIdx := vm_opcodeIdx vm + 1\<rparr>
           in if tk_Done (vm_tokenizer vm) then end_script env vm else Inr (False, vm)) = after_opcode env"
    by (simp add: after_opcode_def fun_eq_iff)
  show ?thesis
    using err(3)
    by (simp add: Step_def after checkValidPC_def serr_def tk_Next_step [OF err(1,2)] tk_Opcode_def advance_def split: option.split)
qed

section \<open>From one script to the next\<close>

lemma drop_all_eq: "drop_all s = s\<lparr>stk := []\<rparr>"
proof (cases "stk s = []")
  case True
  then show ?thesis by (simp add: drop_all_def DropN_def Depth_def)
next
  case False
  then have "DropN (int (length (stk s))) s = Inr (set_view [] s)"
    by (simp add: selecting_operations leaves_def view_def Suc_leI)
  then show ?thesis by (simp add: drop_all_def Depth_def set_view_def)
qed

lemma setStack_eq: "setStack data s = s\<lparr>stk := data\<rparr>"
proof -
  have "foldl (\<lambda>s so. PushByteArray so s) (s\<lparr>stk := xs\<rparr>) data = s\<lparr>stk := xs @ data\<rparr>" for xs
    by (induction data arbitrary: xs) (simp_all add: PushByteArray_def)
  from this [of "[]"] show ?thesis by (simp add: setStack_def drop_all_eq)
qed

lemma getStack_eq: "getStack s = stk s"
proof -
  have "map (\<lambda>i. case PeekByteArray (int i) s of Inl _ \<Rightarrow> [] | Inr so \<Rightarrow> so) [0..<length (stk s)] = view s"
    by (rule nth_equalityI) (simp_all add: PeekByteArray_view view_def)
  then show ?thesis by (simp add: getStack_def view_def)
qed

lemmas stack_arrays = drop_all_eq setStack_eq getStack_eq GetStack_def SetStack_def

text \<open>The scripts are only ever extended, by at most one script at a time.\<close>

definition moved :: "'d Engine \<Rightarrow> 'd Engine \<Rightarrow> bool" where
  "moved vm vm' \<longleftrightarrow>
     vm_scriptIdx vm' = vm_scriptIdx vm + 1 \<and> vm_version vm' = vm_version vm \<and>
     (vm_scripts vm' = vm_scripts vm \<or>
      (vm_scriptIdx vm = 1 \<or> vm_scriptIdx vm = 2) \<and> (\<exists>script. vm_scripts vm' = vm_scripts vm @ [script]))"

definition witness_moved :: "'d Engine \<Rightarrow> 'd Engine \<Rightarrow> bool" where
  "witness_moved vm vm' \<longleftrightarrow>
     vm_scriptIdx vm' = vm_scriptIdx vm \<and> vm_version vm' = vm_version vm \<and>
     (vm_scripts vm' = vm_scripts vm \<or> (\<exists>script. vm_scripts vm' = vm_scripts vm @ [script]))"

lemma check_witness_stack_same: "holds b (check_witness_stack vm) (\<lambda>vm'. vm' = vm)"
  by (simp add: check_witness_stack_def)

lemma v0_moved: "holds b (verify_v0_program env witness p vm) (witness_moved vm)"
  by (simp add: verify_v0_program_def witness_moved_def add_script_def stack_arrays holds_andthen holds_serr Let_def split: sum.split)

lemma VerifyTaprootKeySpend_cache:
  assumes "b \<Longrightarrow> env_ok env" "b \<Longrightarrow> input_ok vm"
  shows "holds b (VerifyTaprootKeySpend env p sig vm) (\<lambda>vm'. \<exists>c. vm' = vm\<lparr>vm_sigCache := c\<rparr>)"
  unfolding VerifyTaprootKeySpend_def Let_def
  by (rule holds_bind [OF newTaprootSigVerifier_holds], rule holds_bind [OF taproot_Verify_cache [OF assms]]) auto

lemma VerifyTaprootLeafCommitment_holds:
  assumes "b \<Longrightarrow> env_ok env"
  shows "holds b (andthen (ParseControlBlock env cb) (\<lambda>c. VerifyTaprootLeafCommitment env c p script)) (\<lambda>_. True)"
proof -
  have "env_schnorrParsePubKey env k = Some key \<Longrightarrow> env_schnorrParsePubKey env (env_schnorrSerializePubKey env key) = None \<Longrightarrow> \<not> b" for k key
    using assms by (fastforce simp: env_ok_def)
  then show ?thesis
    by (auto simp: ParseControlBlock_def VerifyTaprootLeafCommitment_def ComputeTaprootOutputKey_def split: option.splits)
qed

lemma verify_tapscript_holds:
  assumes "b \<Longrightarrow> env_ok env"
    and "\<And>c. Q (must_succeed ctx vm, True)"
    and "\<And>c. Q (SetStack (take (length w - 2) w) (add_script (w ! (length w - 2)) (vm\<lparr>vm_taprootCtx := Some (ctx\<lparr>cx_tapLeafHash := c\<rparr>)\<rparr>)), False)"
  shows "holds b (verify_tapscript env w p ctx vm) Q"
  using VerifyTaprootLeafCommitment_holds [OF assms(1), of b "last w" p "w ! (length w - 2)"] assms(2,3)
  by (auto simp: verify_tapscript_def holds_andthen holds_serr Let_def elim!: holds_mono)

lemma verify_taproot_moved:
  assumes "b \<Longrightarrow> env_ok env" "b \<Longrightarrow> input_ok vm"
  shows "holds b (verify_taproot_program env w p vm) (\<lambda>(vm', _). witness_moved vm vm')"
proof -
  have key: "holds b (VerifyTaprootKeySpend env p sig (vm\<lparr>vm_taprootCtx := c\<rparr>)) (\<lambda>vm'. \<exists>sc. vm' = vm\<lparr>vm_taprootCtx := c\<rparr>\<lparr>vm_sigCache := sc\<rparr>)" for sig c
    by (rule VerifyTaprootKeySpend_cache) (use assms in \<open>simp_all add: input_ok_def\<close>)
  show ?thesis
    unfolding verify_taproot_program_def Let_def
    by (auto simp: must_succeed_def witness_moved_def add_script_def stack_arrays assms(1) split_beta
        intro!: verify_tapscript_holds holds_bind [OF key])
qed

lemma verifyWitnessProgram_moved:
  assumes "b \<Longrightarrow> env_ok env" "b \<Longrightarrow> input_ok vm"
  shows "holds b (verifyWitnessProgram env w vm) (witness_moved vm)"
  unfolding verifyWitnessProgram_def Let_def
  by (auto simp: witness_moved_def intro!: holds_bind [OF v0_moved] holds_bind [OF verify_taproot_moved [OF assms]]
      holds_mono [OF check_witness_stack_same] split: prod.split)

lemma CheckErrorCondition_holds:
  "holds b (CheckErrorCondition final vm) (\<lambda>vm'. \<exists>s. vm' = vm\<lparr>vm_dstack := s\<rparr>)"
proof -
  have same: "\<exists>s. vm = vm\<lparr>vm_dstack := s\<rparr>" by (rule exI [of _ "vm_dstack vm"]) simp
  have "holds b (pop_with PopBool vm) (\<lambda>(v, vm'). \<exists>s. vm' = vm\<lparr>vm_dstack := s\<rparr>)"
    by (auto simp: pop_with_def holds_andthen holds_serr)
  then have "holds b (andthen (pop_with PopBool vm) (\<lambda>(v, vm). if \<not> v then Inl (ScriptErr ErrEvalFalse) else Inr vm)) (\<lambda>vm'. \<exists>s. vm' = vm\<lparr>vm_dstack := s\<rparr>)"
    by (rule holds_bind) auto
  then show ?thesis by (simp add: CheckErrorCondition_def same)
qed

text \<open>The stack of the signature script is not empty when the script hash has matched.\<close>

definition saved_ready :: "'d Engine \<Rightarrow> bool" where
  "saved_ready vm \<longleftrightarrow> (vm_bip16 vm \<and> vm_scriptIdx vm = 1 \<longrightarrow> vm_savedFirstStack vm \<noteq> [])"

lemma next_script_moved:
  assumes "b \<Longrightarrow> env_ok env" "b \<Longrightarrow> input_ok vm" "b \<Longrightarrow> saved_ready vm"
  shows "holds b (next_script env vm) (moved vm)"
proof -
  have wit: "holds b (verifyWitnessProgram env w (vm\<lparr>vm_scriptIdx := n\<rparr>)) (witness_moved (vm\<lparr>vm_scriptIdx := n\<rparr>))" for w n
    using assms(1,2) by (intro verifyWitnessProgram_moved) (simp_all add: input_ok_def)
  show ?thesis
    unfolding next_script_def
  proof (intro holds_if, goal_cases)
    case 2
    then show ?case
      using assms(3)
      by (auto simp: moved_def saved_ready_def add_script_def stack_arrays holds_serr holds_andthen Let_def
          intro!: holds_mono [OF CheckErrorCondition_holds])
  next
    case 3
    then show ?case by (intro holds_mono [OF wit]) (auto simp: moved_def witness_moved_def)
  qed (simp_all add: moved_def)
qed

lemma enter_script_running:
  assumes m: "moved vm0 vm" and v: "vm_version vm0 = 0"
    and l: "length (vm_scripts vm0) \<le> 2 \<or> length (vm_scripts vm0) \<le> 4 \<and> length (vm_scripts vm0) \<le> vm_scriptIdx vm0 + 1"
    and e: "enter_script vm = (False, vm')"
  shows "running vm' \<and>
         vm' = vm\<lparr>vm_lastCodeSep := 0, vm_tokenizer := MakeScriptTokenizer 0 (vm_scripts vm ! vm_scriptIdx vm)\<rparr>"
proof -
  define i where "i = vm_scriptIdx vm"
  define scripts where "scripts = vm_scripts vm"
  have idx: "i = vm_scriptIdx vm0 + 1" "vm_version vm = 0" using m v by (simp_all add: moved_def i_def)
  have len: "length scripts \<le> 2 \<or> length scripts \<le> 4 \<and> length scripts \<le> i + 1"
    using m l idx(1) by (auto simp: moved_def scripts_def)
  then have two: "length scripts \<le> i + 1" using idx(1) by auto
  show ?thesis
  proof (cases "i < length scripts \<and> scripts ! i \<noteq> []")
    case True
    then have "vm' = vm\<lparr>vm_lastCodeSep := 0, vm_tokenizer := MakeScriptTokenizer 0 (scripts ! i)\<rparr>"
      using e idx(2) by (simp add: enter_script_def i_def scripts_def)
    then show ?thesis
      using True len idx(2) by (simp add: running_def placed_def MakeScriptTokenizer_def i_def scripts_def)
  next
    case False
    then have "fst (enter_script vm)" using two by (auto simp: enter_script_def i_def scripts_def)
    with e show ?thesis by simp
  qed
qed

text \<open>A step within the script, or to the next one.\<close>

lemma after_opcode_progress:
  assumes "placed vm" "vm_version vm = 0" "tk_err (vm_tokenizer vm) = None"
    and l: "length (vm_scripts vm) \<le> 2 \<or> length (vm_scripts vm) \<le> 4 \<and> length (vm_scripts vm) \<le> vm_scriptIdx vm + 1"
    and "after_opcode env vm = Inr (False, vm')"
  shows "running vm' \<and> (vm_scriptIdx vm' = vm_scriptIdx vm \<and> vm_tokenizer vm' = vm_tokenizer vm \<or> vm_scriptIdx vm < vm_scriptIdx vm')"
proof (cases "tk_Done (vm_tokenizer vm)")
  case False
  then show ?thesis
    using assms by (auto simp: after_opcode_def running_def placed_def tk_Done_def split: if_splits)
next
  case True
  define vm1 where "vm1 = vm\<lparr>vm_opcodeIdx := vm_opcodeIdx vm + 1, vm_astack := drop_all (vm_astack vm), vm_numOps := 0\<rparr>\<lparr>vm_opcodeIdx := 0\<rparr>"
  obtain vm2 where vm2: "next_script env vm1 = Inr vm2" "enter_script vm2 = (False, vm')"
    using assms(5) True by (auto simp: after_opcode_def end_script_def vm1_def andthen_def split: if_splits sum.splits)
  have m: "moved vm1 vm2" using next_script_moved [of False env vm1] vm2(1) by simp
  have "running vm' \<and> vm' = vm2\<lparr>vm_lastCodeSep := 0, vm_tokenizer := MakeScriptTokenizer 0 (vm_scripts vm2 ! vm_scriptIdx vm2)\<rparr>"
    by (rule enter_script_running [OF m _ _ vm2(2)]) (use assms(2) l in \<open>simp_all add: vm1_def\<close>)
  with m show ?thesis by (auto simp: moved_def vm1_def)
qed

lemma Step_progress:
  assumes r: "running vm" and "Step env vm = Inr (False, vm')"
  shows "running vm'"
    and "vm_scriptIdx vm' = vm_scriptIdx vm \<and> tk_script (vm_tokenizer vm') = tk_script (vm_tokenizer vm) \<and>
           tk_offset (vm_tokenizer vm) < tk_offset (vm_tokenizer vm') \<or> vm_scriptIdx vm < vm_scriptIdx vm'"
proof -
  obtain k op data vm1 where st: "step_token (rest vm) = Some (k, op, data)"
    and ex: "executeOpcode env op (case data of None \<Rightarrow> [] | Some d \<Rightarrow> d) (advance k op data vm) = Inr vm1"
    and af: "after_opcode env vm1 = Inr (False, vm')"
    using assms by (auto simp: Step_running andthen_def split: option.splits sum.splits)
  have same: "same (advance k op data vm) vm1" using executeOpcode_same [OF ex] .
  have k: "0 < k" "k \<le> length (rest vm)"
    using step_token_consumes [OF _ st] r by (simp_all add: running_def)
  have "running vm' \<and> (vm_scriptIdx vm' = vm_scriptIdx vm1 \<and> vm_tokenizer vm' = vm_tokenizer vm1 \<or> vm_scriptIdx vm1 < vm_scriptIdx vm')"
    by (rule after_opcode_progress [OF _ _ _ _ af]) (use same r k in \<open>auto simp: same_def advance_def running_def placed_def\<close>)
  with same k show "running vm'"
    "vm_scriptIdx vm' = vm_scriptIdx vm \<and> tk_script (vm_tokenizer vm') = tk_script (vm_tokenizer vm) \<and>
       tk_offset (vm_tokenizer vm) < tk_offset (vm_tokenizer vm') \<or> vm_scriptIdx vm < vm_scriptIdx vm'"
    by (auto simp: same_def advance_def)
qed

section \<open>The loop\<close>

lemma execute_loop_rule:
  fixes vm :: "'d Engine"
  assumes "running vm" "I vm"
    and step: "\<And>vm vm'. running vm \<Longrightarrow> I vm \<Longrightarrow> Step env vm = Inr (False, vm') \<Longrightarrow> I vm'"
    and fails: "\<And>vm e. running vm \<Longrightarrow> I vm \<Longrightarrow> Step env vm = Inl e \<Longrightarrow> E e"
    and ends: "\<And>vm vm'. running vm \<Longrightarrow> I vm \<Longrightarrow> Step env vm = Inr (True, vm') \<Longrightarrow> F vm'"
  shows "\<exists>r. execute_loop env vm = Some r \<and> (case r of Inl e \<Rightarrow> E e | Inr vm' \<Rightarrow> F vm')"
proof -
  define R where "R = measures [\<lambda>vm :: 'd Engine. 4 - vm_scriptIdx vm, \<lambda>vm. length (rest vm)]"
  have "wf R" by (simp add: R_def)
  then show ?thesis
    using assms(1,2)
  proof (induction vm rule: wf_induct_rule)
    case (less vm)
    show ?case
    proof (cases "Step env vm")
      case (Inl e)
      then show ?thesis using fails [OF less.prems] by (subst execute_loop.simps) simp
    next
      case (Inr x)
      obtain d vm' where x: "x = (d, vm')" by (cases x)
      show ?thesis
      proof (cases d)
        case True
        then show ?thesis using ends [OF less.prems] Inr x by (subst execute_loop.simps) simp
      next
        case False
        then have st: "Step env vm = Inr (False, vm')" using Inr x by simp
        note p = Step_progress [OF less.prems(1) st]
        have "vm_scriptIdx vm' < 4" "tk_offset (vm_tokenizer vm') \<le> length (tk_script (vm_tokenizer vm'))"
          using p(1) by (auto simp: running_def placed_def)
        with p(2) have "(vm', vm) \<in> R" by (auto simp: R_def measures_less)
        from less.IH [OF this p(1) step [OF less.prems st]] st show ?thesis
          by (subst execute_loop.simps) simp
      qed
    qed
  qed
qed

lemma NewEngine_state:
  assumes "NewEngine scriptPubKey tx txIdx flags sigCache hashCache inputAmount assets prevOutFetcher = Inr vm"
  obtains version program where
    "0 \<le> txIdx" "nat txIdx < length (TxIns tx)"
    "vm_flags vm = flags" "vm_tx vm = tx" "vm_txIdx vm = nat txIdx" "vm_version vm = 0"
    "vm_bip16 vm = (flags AND ScriptBip16 = ScriptBip16 \<and> extractScriptHash scriptPubKey \<noteq> None)"
    "vm_hashCache vm = hashCache" "vm_prevOutFetcher vm = prevOutFetcher"
    "vm_scripts vm = [SignatureScript (TxIns tx ! nat txIdx), scriptPubKey]"
    "vm_scriptIdx vm = (if SignatureScript (TxIns tx ! nat txIdx) = [] then 1 else 0)"
    "vm_lastCodeSep vm = 0" "vm_tokenizer vm = MakeScriptTokenizer 0 (vm_scripts vm ! vm_scriptIdx vm)"
    "vm_savedFirstStack vm = []" "stk (vm_dstack vm) = []" "stk (vm_astack vm) = []" "vm_condStack vm = []" "vm_numOps vm = 0"
    "vm_taprootCtx vm = None" "vm_scripts vm ! vm_scriptIdx vm \<noteq> []"
    "verifyMinimalData (vm_dstack vm) = (flags AND ScriptVerifyMinimalData = ScriptVerifyMinimalData)"
    "vm_bip16 vm \<Longrightarrow> IsPushOnlyScript (SignatureScript (TxIns tx ! nat txIdx))"
    "vm_witnessProgram vm = None \<or>
       (\<exists>p. find_witness_program (SignatureScript (TxIns tx ! nat txIdx)) scriptPubKey (Witness (TxIns tx ! nat txIdx)) (vm_bip16 vm) = Inr (Some p) \<and>
            extractWitnessProgramInfo p = (vm_witnessVersion vm, vm_witnessProgram vm, True))"
  using assms that
  unfolding NewEngine_def set_witness_program_def Let_def
  by (auto simp: andthen_def serr_def hasFlag_def split: if_splits sum.splits option.splits prod.splits)

lemma NewEngine_running:
  "NewEngine scriptPubKey tx txIdx flags sigCache hashCache inputAmount assets prevOutFetcher = Inr vm \<Longrightarrow> running vm"
  by (erule NewEngine_state) (simp add: running_def placed_def MakeScriptTokenizer_def)

text \<open>
  C9 (the interpreter ends): For every transaction, input, script, set of flags and cache the loop
  of \<^verbatim>\<open>Execute\<close> returns: no script keeps the engine running, whatever the hashes and the
  signatures are.
\<close>

theorem engine_terminates:
  assumes "NewEngine scriptPubKey tx txIdx flags sigCache hashCache inputAmount assets prevOutFetcher = Inr vm"
  shows "\<exists>r. Execute env vm = Some r"
proof -
  have "\<exists>r. execute_loop env vm = Some r \<and> (case r of Inl _ \<Rightarrow> True | Inr _ \<Rightarrow> True)"
    by (rule execute_loop_rule [where I = "\<lambda>_. True"]) (simp_all add: NewEngine_running [OF assms])
  then show ?thesis by (auto simp: Execute_def)
qed

text \<open>A concrete environment and a new engine in it.\<close>

definition sample_env :: "(bytes, unit, unit, unit) script_env" where
  "sample_env =
     \<lparr>env_sha256 = (\<lambda>m. take 32 (m @ replicate 32 0)), env_ripemd160 = (\<lambda>m. take 20 (m @ replicate 20 0)),
      env_sha1 = (\<lambda>m. take 20 (m @ replicate 20 0)), env_decimal = string_decimal,
      env_ParsePubKey = (\<lambda>_. Some ()), env_ParseDERSignature = (\<lambda>_. Some ()), env_ParseSignature = (\<lambda>_. Some ()),
      env_Verify = (\<lambda>_ _ _. True), env_schnorrParsePubKey = (\<lambda>_. Some ()), env_schnorrParseSignature = (\<lambda>_. Some ()),
      env_schnorrVerify = (\<lambda>_ _ _. True), env_schnorrSerializePubKey = (\<lambda>_. replicate 32 0),
      env_SerializeCompressed = (\<lambda>_. 2 # replicate 32 0), env_tweak = (\<lambda>k _. k), env_halfOrder = 0, env_evict = (\<lambda>_. 0)\<rparr>"

definition sample_engine :: "bytes Engine" where
  "sample_engine =
     \<lparr>vm_flags = 0, vm_tx = sighash_sample, vm_txIdx = 0, vm_version = 0, vm_bip16 = False, vm_sigCache = None,
      vm_hashCache = Some \<lparr>HashPrevOutsV0 = [], HashSequenceV0 = [], HashOutputsV0 = [], HashPrevOutsV1 = [], HashSequenceV1 = [],
        HashOutputsV1 = [], HashInputScriptsV1 = [], HashInputAmountsV1 = []\<rparr>,
      vm_prevOutFetcher = taproot_sample_fetcher, vm_scripts = [[], [0x51]], vm_scriptIdx = 1, vm_opcodeIdx = 0, vm_lastCodeSep = 0,
      vm_tokenizer = MakeScriptTokenizer 0 [0x51], vm_savedFirstStack = [], vm_dstack = \<lparr>stk = [], verifyMinimalData = False\<rparr>,
      vm_astack = \<lparr>stk = [], verifyMinimalData = False\<rparr>, vm_condStack = [], vm_numOps = 0, vm_witnessVersion = 0,
      vm_witnessProgram = None, vm_inputAmount = 0, vm_txAssets = [], vm_taprootCtx = None\<rparr>"

lemma sample_engine_new:
  "NewEngine [0x51] sighash_sample 0 0 None (vm_hashCache sample_engine) 0 [] taproot_sample_fetcher = Inr sample_engine"
proof -
  have parses: "checkScriptParses 0 [] = Inr ()" "checkScriptParses 0 [0x51] = Inr ()" by code_simp+
  show ?thesis
    by (simp add: NewEngine_def sample_engine_def sighash_sample_def hasFlag_def check_scripts_def set_witness_program_def
        MaxScriptSize_def serr_def parses extractScriptHash_def)
qed

theorem engine_terminates_witness:
  "NewEngine [0x51] sighash_sample 0 0 None (vm_hashCache sample_engine) 0 [] taproot_sample_fetcher = Inr sample_engine \<and>
   (\<exists>r. Execute sample_env sample_engine = Some r)"
  using engine_terminates [OF sample_engine_new, of sample_env] sample_engine_new by blast

end
