(* ===== verification/Engine_Sound.thy ===== *)
theory Engine_Sound
  imports Engine_Safe
begin

text \<open>
  Type soundness of the script engine: the invariant that every state of a run satisfies, and the
  condition on the signature script of a nested witness program under which no run panics.
\<close>

section \<open>The shape of script hashes and witness programs\<close>

lemma opcode_length_smallint: "IsSmallInt v \<Longrightarrow> opcode_length v = 1"
proof -
  assume "IsSmallInt v"
  then have "v = 0 \<or> OP_16 \<ge> v \<and> v \<ge> OP_1" by (auto simp: IsSmallInt_def)
  then have "v = 0 \<or> 81 \<le> unat v" by (auto simp: word_le_nat_alt)
  then show ?thesis by (auto simp: opcode_length_def word_le_nat_alt)
qed

lemma opcode_length_direct: "1 \<le> unat n \<Longrightarrow> unat n \<le> 75 \<Longrightarrow> opcode_length n = int (unat n) + 1"
  by (simp add: opcode_length_def word_le_nat_alt)

lemma step_token_push:
  assumes "1 \<le> unat n" "opcode_length n = int (unat n) + 1"
  shows "step_token (n # d) = (if length d < unat n then None else Some (Suc (unat n), n, Some (take (unat n) d)))"
proof -
  define m where "m = unat n"
  have "opcode_length n = int m + 1" "1 \<le> m" using assms by (simp_all add: m_def)
  then have "step_token (n # d) = (if length d < m then None else Some (Suc m, n, Some (take m d)))"
    by (auto simp: step_token_def Let_def nat_add_distrib)
  then show ?thesis by (simp add: m_def)
qed

lemma step_token_direct:
  "unat n = length d \<Longrightarrow> 1 \<le> length d \<Longrightarrow> length d \<le> 75 \<Longrightarrow> step_token (n # d @ r) = Some (Suc (length d), n, Some d)"
  by (simp add: step_token_push opcode_length_direct)

lemma step_token_single: "opcode_length v = 1 \<Longrightarrow> step_token (v # r) = Some (1, v, None)"
  by (simp add: step_token_def)

text \<open>A witness program is a version and one direct push of 2 to 40 bytes.\<close>

lemma witness_program_shape:
  assumes "extractWitnessProgramInfo p = (version, program, True)"
  obtains v n d where "p = v # n # d" "IsSmallInt v" "unat n = length d" "2 \<le> length d" "length d \<le> 40"
    "version = AsSmallInt v" "program = Some d"
proof -
  have len: "4 \<le> length p" "length p \<le> 42" using assms by (auto simp: extractWitnessProgramInfo_def split: if_splits)
  then obtain v q where p: "p = v # q" by (cases p) auto
  then have ne: "p \<noteq> []" "q \<noteq> []" using len by auto
  define t0 where "t0 = MakeScriptTokenizer 0 p"
  have t0: "tk_err t0 = None" "tk_offset t0 = 0" "tk_script t0 = p" by (simp_all add: t0_def MakeScriptTokenizer_def)
  obtain k1 b1 d1 where s1: "step_token p = Some (k1, b1, d1)" and small: "IsSmallInt b1"
  proof (cases "step_token p")
    case None
    then have "fst (tk_Next t0) = False" using tk_Next_step [of t0] t0 ne by simp
    then show ?thesis using assms len by (simp add: extractWitnessProgramInfo_def t0_def split_beta)
  next
    case (Some a)
    then have "tk_Opcode (snd (tk_Next t0)) = fst (snd a)"
      using tk_Next_step [of t0] t0 ne by (simp add: tk_Opcode_def split_beta)
    moreover have "IsSmallInt (tk_Opcode (snd (tk_Next t0)))"
      using assms len by (simp add: extractWitnessProgramInfo_def t0_def split_beta split: if_splits)
    ultimately show ?thesis using that Some by (cases a) auto
  qed
  have "b1 = v" using s1 by (auto simp: p step_token_def Let_def split: if_splits)
  then have v: "IsSmallInt v" using small by simp
  then have s1: "step_token p = Some (1, v, None)" by (simp add: p step_token_single opcode_length_smallint)
  define t1 where "t1 = t0\<lparr>tk_opcodePos := tk_opcodePos t0 + 1, tk_offset := 1, tk_op := Some v, tk_data := None\<rparr>"
  have n1: "tk_Next t0 = (True, t1)" using tk_Next_step [of t0] t0 s1 ne by (simp add: t1_def)
  have t1: "tk_err t1 = None" "tk_offset t1 = 1" "tk_script t1 = p" "tk_Opcode t1 = v" using t0 by (simp_all add: t1_def tk_Opcode_def)
  obtain k n dd where s2: "step_token q = Some (k, n, dd)" and can: "isCanonicalPush n dd" and k: "k = length q"
      and res: "version = AsSmallInt v" "program = dd"
  proof (cases "step_token q")
    case None
    then have "fst (tk_Next t1) = False" using tk_Next_step [of t1] t1 ne by (simp add: p)
    then show ?thesis using assms len v n1 t1 by (simp add: extractWitnessProgramInfo_def t0_def split_beta)
  next
    case (Some a)
    obtain k n dd where a: "a = (k, n, dd)" by (cases a)
    have n2: "tk_Next t1 = (True, t1\<lparr>tk_opcodePos := tk_opcodePos t1 + 1, tk_offset := 1 + k, tk_op := Some n, tk_data := dd\<rparr>)"
      using tk_Next_step [of t1] t1 ne Some a by (simp add: p)
    have "\<not> (length p < 4 \<or> 42 < length p)" using len by simp
    then have "isCanonicalPush n dd \<and> length p \<le> 1 + k \<and> version = AsSmallInt v \<and> program = dd"
      using assms [unfolded extractWitnessProgramInfo_def, folded t0_def] v t1 n1 n2
      by (simp add: tk_Opcode_def tk_Done_def split: if_splits)
    moreover have "k \<le> length q" using step_token_consumes [of q k] ne(2) Some a by simp
    ultimately show ?thesis using that Some a by (simp add: p)
  qed
  obtain n' d where q: "q = n' # d" using len p by (cases q) auto
  have "n' = n" using s2 by (auto simp: q step_token_def Let_def split: if_splits)
  then have q: "q = n # d" using q by simp
  have "0 \<le> uint n" by simp
  then have direct: "\<not> uint n + 1 < 0" by linarith
  have "opcode_length n = 1 \<or> opcode_length n < 0 \<Longrightarrow> False"
  proof (elim disjE)
    assume "opcode_length n < 0"
    then have "n = OP_PUSHDATA1 \<or> n = OP_PUSHDATA2 \<or> n = OP_PUSHDATA4"
      using direct by (auto simp: opcode_length_def split: if_splits)
    moreover have "data_len dd \<le> length q" using s2 by (auto simp: step_token_def data_len_def Let_def split: if_splits)
    ultimately show False using can len p by (auto simp: isCanonicalPush_def Let_def)
  qed (use s2 k len p q in \<open>auto simp: step_token_def split: if_splits\<close>)
  then have ne: "opcode_length n \<noteq> 1" "\<not> opcode_length n < 0" by blast+
  then have l: "opcode_length n = int (unat n) + 1" "opcode_length n \<noteq> 1" by (auto simp: opcode_length_def split: if_splits)
  then have "1 \<le> unat n" by (cases "unat n") simp_all
  from s2 [unfolded q step_token_push [OF this l(1)]] have "unat n \<le> length d" "k = Suc (unat n)" "dd = Some (take (unat n) d)"
    by (auto split: if_splits)
  with k len p show ?thesis by (intro that [of v n d]) (auto simp: q v res)
qed

text \<open>Neither they nor a script hash contain a signature opcode.\<close>

definition no_sig :: "bytes \<Rightarrow> bool" where
  "no_sig bs \<longleftrightarrow> list_all (\<lambda>x. fst x \<noteq> 0xac \<and> fst x \<noteq> 0xad) (fst (scan bs))"

lemma step_token_next: "bs \<noteq> [] \<Longrightarrow> step_token bs = Some (k, x) \<Longrightarrow> next_token bs = Inr (x, drop k bs)"
  by (simp add: next_token_def)

lemma no_sig_step:
  "bs \<noteq> [] \<Longrightarrow> step_token bs = Some (k, op, d) \<Longrightarrow>
   no_sig bs \<longleftrightarrow> op \<noteq> 0xac \<and> op \<noteq> 0xad \<and> no_sig (drop k bs)"
  by (simp add: no_sig_def scan_step [OF step_token_next])

lemma no_sig_Nil [simp]: "no_sig []"
  by (simp add: no_sig_def)

lemma witness_program_no_sig: "extractWitnessProgramInfo p = (version, program, True) \<Longrightarrow> no_sig p"
proof (erule witness_program_shape)
  fix v n d assume p: "p = v # n # d" and v: "IsSmallInt v" and n: "unat n = length d" "2 \<le> length d" "length d \<le> 40"
  have "no_sig (n # d)"
    using no_sig_step [OF _ step_token_direct [OF n(1), of "[]"]] n by auto
  moreover have "v \<noteq> 0xac" "v \<noteq> 0xad" using v by (auto simp: IsSmallInt_def)
  ultimately show ?thesis
    using no_sig_step [OF _ step_token_single [OF opcode_length_smallint [OF v]], of "n # d"] by (simp add: p)
qed

lemma script_hash_shape:
  assumes "extractScriptHash s = Some h"
  shows "s = [0xa9, 0x14] @ h @ [0x87] \<and> length h = 20"
proof -
  have s: "length s = 23" "s ! 0 = 0xa9" "s ! 1 = 0x14" "s ! 22 = 0x87" "h = slice s 2 22"
    using assms by (auto simp: extractScriptHash_def split: if_splits)
  have "s = take 2 s @ take 20 (drop 2 s) @ drop 22 s"
    using append_take_drop_id [of 20 "drop 2 s"] by (simp add: append_assoc [symmetric] del: append_assoc)
  moreover have "take 2 s = [0xa9, 0x14]" "drop 22 s = [0x87]"
    using s by (auto intro!: nth_equalityI simp: less_Suc_eq numeral_2_eq_2)
  ultimately show ?thesis using s by (simp add: slice_def)
qed

lemma script_hash_no_sig: "extractScriptHash s = Some h \<Longrightarrow> no_sig s \<and> step_token s = Some (1, 0xa9, None)"
proof -
  assume "extractScriptHash s = Some h"
  then have s: "s = 0xa9 # 0x14 # h @ [0x87]" and h: "length h = 20" using script_hash_shape by fastforce+
  have len: "opcode_length 0xa9 = 1" "opcode_length 0x87 = 1" by (simp_all add: opcode_length_def)
  have "no_sig [0x87]" using no_sig_step [OF _ step_token_single [OF len(2), of "[]"]] by simp
  then have "no_sig (0x14 # h @ [0x87])"
    using no_sig_step [OF _ step_token_direct [of "0x14" h "[0x87]"]] h by simp
  then show ?thesis
    using no_sig_step [OF _ step_token_single [OF len(1), of "0x14 # h @ [0x87]"]] step_token_single [OF len(1)] by (simp add: s)
qed

section \<open>The invariant\<close>

abbreviation offset :: "'d Engine \<Rightarrow> nat" where
  "offset vm \<equiv> tk_offset (vm_tokenizer vm)"

abbreviation is_program :: "bytes \<Rightarrow> bool" where
  "is_program p \<equiv> (\<exists>version program. extractWitnessProgramInfo p = (version, program, True))"

text \<open>A witness program that is not of version 0 and is not yet spent by the taproot rules.\<close>

definition pending :: "'d Engine \<Rightarrow> bool" where
  "pending vm \<longleftrightarrow> vm_taprootCtx vm = None \<and> vm_witnessProgram vm \<noteq> None \<and> vm_witnessVersion vm \<noteq> 0"

text \<open>The parts of the invariant no opcode changes; \<open>hashed\<close> holds the facts about a script hash.\<close>

definition hashed :: "'d Engine \<Rightarrow> bool" where
  "hashed vm \<longleftrightarrow>
     (vm_bip16 vm \<longrightarrow> extractScriptHash (vm_scripts vm ! 1) \<noteq> None \<and> list_all item_ok (vm_savedFirstStack vm) \<and>
        length (vm_savedFirstStack vm) \<le> MaxStackSize)"

definition tapped :: "'d Engine \<Rightarrow> bool" where
  "tapped vm \<longleftrightarrow>
     (vm_taprootCtx vm \<noteq> None \<longrightarrow>
        vm_witnessProgram vm \<noteq> None \<and> vm_witnessVersion vm \<noteq> 0 \<and> 2 \<le> vm_scriptIdx vm \<and> \<not> vm_bip16 vm)"

definition fixed_part :: "'d Engine \<Rightarrow> bool" where
  "fixed_part vm \<longleftrightarrow>
     input_ok vm \<and> length (Witness (TxIns (vm_tx vm) ! vm_txIdx vm)) < 2 ^ 63 \<and> hashed vm \<and> tapped vm"

text \<open>Where a pending program comes from: the output script, or the script under the script hash.\<close>

definition origin :: "'d Engine \<Rightarrow> bool" where
  "origin vm \<longleftrightarrow>
     (if vm_bip16 vm then
        \<exists>p. is_program p \<and>
          (vm_scriptIdx vm = 0 \<and> offset vm = 0 \<and> stk (vm_dstack vm) = [] \<and>
             vm_scripts vm ! 0 = word_of_nat (length p) # p \<or>
           vm_scriptIdx vm = 1 \<and> vm_savedFirstStack vm = [p] \<or> vm_scriptIdx vm = 2)
      else vm_scriptIdx vm = 1)"

definition engine_inv :: "'d Engine \<Rightarrow> bool" where
  "engine_inv vm \<longleftrightarrow>
     fixed_part vm \<and> limits vm \<and> Depth (vm_dstack vm) < 2 ^ 63 \<and>
     (0 < offset vm \<longrightarrow> Depth (vm_dstack vm) + Depth (vm_astack vm) \<le> int MaxStackSize) \<and>
     (offset vm = 0 \<longrightarrow> vm_condStack vm = []) \<and>
     (vm_bip16 vm \<and> vm_scriptIdx vm = 1 \<longrightarrow>
        (if offset vm = 0 then stk (vm_dstack vm) = vm_savedFirstStack vm else vm_savedFirstStack vm \<noteq> [])) \<and>
     (pending vm \<longrightarrow> no_sig (rest vm) \<and> origin vm)"

text \<open>The state after an opcode, before the limit on the stack is checked.\<close>

definition after_inv :: "'d Engine \<Rightarrow> bool" where
  "after_inv vm \<longleftrightarrow>
     fixed_part vm \<and> limits vm \<and> 0 < offset vm \<and>
     (vm_bip16 vm \<and> vm_scriptIdx vm = 1 \<longrightarrow> vm_savedFirstStack vm \<noteq> []) \<and>
     (pending vm \<longrightarrow> no_sig (rest vm) \<and>
        (if vm_bip16 vm then
           \<exists>p. is_program p \<and>
             (vm_scriptIdx vm = 0 \<and> tk_Done (vm_tokenizer vm) \<and> stk (vm_dstack vm) = [p] \<or>
              vm_scriptIdx vm = 1 \<and> vm_savedFirstStack vm = [p] \<or> vm_scriptIdx vm = 2)
         else vm_scriptIdx vm = 1))"

text \<open>The state when the next script has been chosen.\<close>

definition next_inv :: "'d Engine \<Rightarrow> bool" where
  "next_inv vm \<longleftrightarrow>
     fixed_part vm \<and> list_all item_ok (stk (vm_dstack vm)) \<and> stk (vm_astack vm) = [] \<and> vm_numOps vm = 0 \<and>
     Depth (vm_dstack vm) < 2 ^ 63 \<and> vm_condStack vm = [] \<and>
     (vm_bip16 vm \<and> vm_scriptIdx vm = 1 \<longrightarrow> stk (vm_dstack vm) = vm_savedFirstStack vm) \<and>
     (pending vm \<and> vm_scriptIdx vm < length (vm_scripts vm) \<longrightarrow>
        no_sig (vm_scripts vm ! vm_scriptIdx vm) \<and> vm_bip16 vm \<and>
        (\<exists>p. is_program p \<and> (vm_scriptIdx vm = 1 \<and> vm_savedFirstStack vm = [p] \<or> vm_scriptIdx vm = 2)))"

lemma same_fixed: "same vm0 vm \<Longrightarrow> fixed_part vm = fixed_part vm0 \<and> pending vm = pending vm0"
  by (auto simp: same_def fixed_part_def input_ok_def hashed_def tapped_def pending_def)

lemma fixed_advance [simp]: "fixed_part (advance k op d vm) = fixed_part vm" "pending (advance k op d vm) = pending vm"
  by (simp_all add: advance_def fixed_part_def input_ok_def hashed_def tapped_def pending_def)

lemma verifier_unless_pending: "fixed_part vm \<Longrightarrow> \<not> pending vm \<Longrightarrow> verifier_ready vm"
  by (auto simp: verifier_ready_def fixed_part_def tapped_def pending_def)

subsection \<open>The two opcodes that matter\<close>

lemma hash160_needs_item:
  "vm_condStack vm = [] \<Longrightarrow> executeOpcode env 0xa9 data vm = Inr vm' \<Longrightarrow> stk (vm_dstack vm) \<noteq> []"
  by (auto simp: executeOpcode_def isOpcodeDisabled_def isOpcodeAlwaysIllegal_def count_op_def isBranchExecuting_def op_func_def
      opcode_table_def opcodeHash160_def hash1_def pop_view view_def andthen_def serr_def Let_def
      split: if_splits sum.splits list.splits)

lemma push_executes:
  assumes "vm_condStack vm = []" "op \<noteq> 0" "op \<le> OP_PUSHDATA4" "executeOpcode env op d vm = Inr vm'"
  shows "stk (vm_dstack vm') = stk (vm_dstack vm) @ [d]"
proof -
  have "\<not> OP_16 < op" using assms(3) by (rule push_not_counted)
  then show ?thesis
    using assms
    by (auto simp: executeOpcode_def count_op_def isBranchExecuting_def op_func_def opcodePushData_def push_bytes_def PushByteArray_def
        andthen_def split: if_splits sum.splits)
qed

lemma saved_after_first:
  assumes r: "running vm" and i: "engine_inv vm" and b: "vm_bip16 vm" "vm_scriptIdx vm = 1"
    and st: "step_token (rest vm) = Some (k, op, data)"
    and ex: "executeOpcode env op d (advance k op data vm) = Inr vm'"
  shows "vm_savedFirstStack vm \<noteq> []"
proof (cases "offset vm = 0")
  case False
  then show ?thesis using i b by (simp add: engine_inv_def)
next
  case True
  obtain h where h: "extractScriptHash (vm_scripts vm ! 1) = Some h"
    using i b by (auto simp: engine_inv_def fixed_part_def hashed_def)
  have "rest vm = vm_scripts vm ! 1" using True r b by (simp add: running_def placed_def)
  then have "op = 0xa9" using script_hash_no_sig [OF h] st by simp
  moreover have "vm_condStack (advance k op data vm) = []" using i True by (simp add: engine_inv_def advance_def)
  ultimately have "stk (vm_dstack (advance k op data vm)) \<noteq> []" using hash160_needs_item ex by blast
  then show ?thesis using i True b by (simp add: engine_inv_def advance_def)
qed

lemma nested_push:
  assumes r: "running vm" and i: "engine_inv vm" and b: "vm_bip16 vm" "vm_scriptIdx vm = 0" "pending vm"
    and st: "step_token (rest vm) = Some (k, op, data)"
    and ex: "executeOpcode env op (case data of None \<Rightarrow> [] | Some d \<Rightarrow> d) (advance k op data vm) = Inr vm'"
  shows "\<exists>p. is_program p \<and> tk_Done (vm_tokenizer vm') \<and> stk (vm_dstack vm') = [p]"
proof -
  obtain p where p: "is_program p" "offset vm = 0" "stk (vm_dstack vm) = []" "vm_scripts vm ! 0 = word_of_nat (length p) # p"
    using i b by (auto simp: engine_inv_def origin_def)
  obtain version program where info: "extractWitnessProgramInfo p = (version, program, True)" using p(1) by blast
  have len: "4 \<le> length p" "length p \<le> 42" by (rule witness_program_shape [OF info]; simp)+
  have n: "unat (word_of_nat (length p) :: byte) = length p" using len by (simp add: unat_of_nat take_bit_nat_eq_self)
  have rest: "rest vm = word_of_nat (length p) # p" using r p b by (simp add: running_def placed_def)
  have "step_token (rest vm) = Some (Suc (length p), word_of_nat (length p), Some p)"
    using step_token_direct [OF n, of "[]"] len by (simp add: rest)
  with st have tok: "k = Suc (length p)" "op = word_of_nat (length p)" "data = Some p" by simp_all
  have op: "op \<noteq> 0" "op \<le> OP_PUSHDATA4" using n len by (auto simp: tok word_le_nat_alt)
  have cond: "vm_condStack (advance k op data vm) = []" using i p(2) by (simp add: engine_inv_def advance_def)
  have "stk (vm_dstack vm') = [p]"
    using push_executes [OF cond op ex] p(3) by (simp add: tok advance_def)
  moreover have "tk_Done (vm_tokenizer vm')"
    using executeOpcode_same [OF ex] r b p(2,4) tok(1)
    by (auto simp: same_def advance_def tk_Done_def running_def placed_def)
  ultimately show ?thesis using p(1) by blast
qed

lemma opcode_step:
  assumes e: "env_ok env" and r: "running vm" and i: "engine_inv vm"
    and st: "step_token (rest vm) = Some (k, op, data)"
  shows "holds True (executeOpcode env op (case data of None \<Rightarrow> [] | Some d \<Rightarrow> d) (advance k op data vm))
    (\<lambda>vm'. after_inv vm' \<and> same (advance k op data vm) vm')"
    (is "holds True ?ex _")
proof -
  define vm0 where "vm0 = advance k op data vm"
  have k: "0 < k" "k \<le> length (rest vm)" using step_token_consumes [OF _ st] r by (simp_all add: running_def)
  have f: "fixed_part vm" "limits vm" "Depth (vm_dstack vm) < 2 ^ 63" using i by (simp_all add: engine_inv_def)
  have sig: "pending vm \<Longrightarrow> op \<noteq> 0xac \<and> op \<noteq> 0xad \<and> no_sig (rest vm0)"
    using no_sig_step [OF _ st] i r by (auto simp: engine_inv_def vm0_def advance_def running_def add.commute)
  have "holds True ?ex (keeps True vm0)"
  proof (rule executeOpcode_keeps)
    show "ready True env vm0" using e f(1) r k by (auto simp: ready_def vm0_def advance_def fixed_part_def input_ok_def running_def placed_def)
    show "op = 0xac \<or> op = 0xad \<Longrightarrow> verifier_ready vm0"
      using sig f(1) by (intro verifier_unless_pending) (auto simp: vm0_def)
    show "keeps True vm0 (advance k op data vm)" using f(2) by (simp add: keeps_def same_def vm0_def limits_def advance_def)
    show "Depth (vm_dstack (advance k op data vm)) < 2 ^ 63" using f(3) by (simp add: advance_def)
  qed
  moreover have "after_inv vm'" if ex: "?ex = Inr vm'" and kp: "keeps True vm0 vm'" for vm'
  proof -
    have s: "same vm0 vm'" "limits vm'" using kp by (simp_all add: keeps_def)
    have adv: "vm_bip16 vm' = vm_bip16 vm" "vm_scriptIdx vm' = vm_scriptIdx vm" "vm_savedFirstStack vm' = vm_savedFirstStack vm"
      "vm_tokenizer vm' = vm_tokenizer vm0" "fixed_part vm'" "pending vm' = pending vm"
      using s(1) same_fixed [OF s(1)] f(1) by (simp_all add: same_def vm0_def) (simp_all add: advance_def)
    have "offset vm' = offset vm + k" using adv(4) by (simp add: vm0_def advance_def)
    moreover have "vm_bip16 vm \<and> vm_scriptIdx vm = 1 \<longrightarrow> vm_savedFirstStack vm \<noteq> []"
      using saved_after_first [OF r i _ _ st ex] by blast
    moreover have "pending vm \<Longrightarrow> vm_bip16 vm \<Longrightarrow> \<exists>p. is_program p \<and>
        (vm_scriptIdx vm = 0 \<and> tk_Done (vm_tokenizer vm') \<and> stk (vm_dstack vm') = [p] \<or>
         vm_scriptIdx vm = 1 \<and> vm_savedFirstStack vm = [p] \<or> vm_scriptIdx vm = 2)"
      using nested_push [OF r i _ _ _ st ex] i by (auto simp: engine_inv_def origin_def)
    moreover have "pending vm \<Longrightarrow> \<not> vm_bip16 vm \<Longrightarrow> vm_scriptIdx vm = 1" using i by (simp add: engine_inv_def origin_def)
    ultimately show ?thesis using adv s(2) sig k(1) by (auto simp: after_inv_def)
  qed
  ultimately show ?thesis by (cases ?ex) (auto simp: keeps_def vm0_def)
qed

subsection \<open>Witness programs\<close>

lemma check_witness_stack_items:
  "isWitnessVersionActive vm 0 \<or> isWitnessVersionActive vm 1 \<Longrightarrow>
   holds True (check_witness_stack vm) (\<lambda>vm'. vm' = vm \<and> list_all item_ok (stk (vm_dstack vm)))"
  by (auto simp: check_witness_stack_def stack_arrays item_ok_def list_all_iff list_ex_iff not_less)

text \<open>The state in which a witness program is checked: the index is already that of the script to come.\<close>

definition at_witness :: "'d Engine \<Rightarrow> bool" where
  "at_witness vm \<longleftrightarrow>
     input_ok vm \<and> length (Witness (TxIns (vm_tx vm) ! vm_txIdx vm)) < 2 ^ 63 \<and> hashed vm \<and> vm_taprootCtx vm = None \<and>
     vm_witnessProgram vm \<noteq> None \<and> list_all item_ok (stk (vm_dstack vm)) \<and> stk (vm_astack vm) = [] \<and> vm_numOps vm = 0 \<and>
     Depth (vm_dstack vm) < 2 ^ 63 \<and> vm_condStack vm = [] \<and> 2 \<le> vm_scriptIdx vm \<and>
     2 \<le> length (vm_scripts vm) \<and> length (vm_scripts vm) \<le> vm_scriptIdx vm"

lemma at_witness_stack:
  assumes "at_witness vm" "length data \<le> length (Witness (TxIns (vm_tx vm) ! vm_txIdx vm))"
    and "list_all item_ok data" "ctx = None \<longrightarrow> vm_witnessVersion vm = 0" "ctx \<noteq> None \<longrightarrow> vm_witnessVersion vm = 1 \<and> \<not> vm_bip16 vm"
  shows "next_inv (SetStack data (add_script script (vm\<lparr>vm_taprootCtx := ctx\<rparr>)))"
  using assms
  by (auto simp: at_witness_def next_inv_def fixed_part_def input_ok_def hashed_def tapped_def pending_def add_script_def stack_arrays
      Depth_def nth_append)

lemma v0_next:
  assumes a: "at_witness vm" and v: "isWitnessVersionActive vm 0"
  shows "holds True (andthen (verify_v0_program env (Witness (TxIns (vm_tx vm) ! vm_txIdx vm)) p vm) check_witness_stack) next_inv"
proof -
  let ?w = "Witness (TxIns (vm_tx vm) ! vm_txIdx vm)"
  have "vm_taprootCtx vm = None" using a by (simp add: at_witness_def)
  then have untapped: "vm\<lparr>vm_taprootCtx := None\<rparr> = vm" by (cases vm) simp
  have set: "holds True (check_witness_stack (SetStack data (add_script script vm))) next_inv" if "length data \<le> length ?w" for data script
  proof -
    define vm' where "vm' = SetStack data (add_script script vm)"
    have "isWitnessVersionActive vm' 0" using v by (simp add: vm'_def isWitnessVersionActive_def add_script_def SetStack_def)
    then have "holds True (check_witness_stack vm') (\<lambda>x. x = vm' \<and> list_all item_ok data)"
      using check_witness_stack_items [of vm'] by (simp add: vm'_def stack_arrays)
    moreover have "next_inv vm'" if "list_all item_ok data"
      using at_witness_stack [OF a \<open>length data \<le> _\<close> that, of None script] v
      by (simp add: vm'_def isWitnessVersionActive_def untapped)
    ultimately show ?thesis by (auto simp: vm'_def elim: holds_mono)
  qed
  show ?thesis
    by (auto simp: verify_v0_program_def holds_andthen holds_serr Let_def set split: sum.split)
qed

lemma taproot_next:
  assumes e: "env_ok env" and a: "at_witness vm" and v: "isWitnessVersionActive vm 1" "\<not> vm_bip16 vm"
  shows "holds True (andthen (verify_taproot_program env (Witness (TxIns (vm_tx vm) ! vm_txIdx vm)) p vm)
    (\<lambda>(vm, returns). if returns then Inr vm else check_witness_stack vm)) next_inv"
proof -
  let ?w = "Witness (TxIns (vm_tx vm) ! vm_txIdx vm)"
  let ?f = "\<lambda>(vm, returns). if returns then Inr vm else check_witness_stack vm"
  have must: "next_inv (must_succeed ctx (vm\<lparr>vm_taprootCtx := c, vm_sigCache := sc\<rparr>))" for ctx c sc
    using a v by (auto simp: must_succeed_def at_witness_def next_inv_def fixed_part_def input_ok_def hashed_def tapped_def pending_def
        isWitnessVersionActive_def)
  have must': "next_inv (must_succeed ctx (vm\<lparr>vm_taprootCtx := c\<rparr>))" for ctx c
    using must [of ctx "vm_sigCache vm" c] by simp
  have set: "holds True (check_witness_stack (SetStack data (add_script script (vm\<lparr>vm_taprootCtx := Some ctx\<rparr>)))) next_inv"
    if "length data \<le> length ?w" for data script ctx
  proof -
    define vm' where "vm' = SetStack data (add_script script (vm\<lparr>vm_taprootCtx := Some ctx\<rparr>))"
    have "isWitnessVersionActive vm' 1" using v by (simp add: vm'_def isWitnessVersionActive_def add_script_def SetStack_def)
    then have "holds True (check_witness_stack vm') (\<lambda>x. x = vm' \<and> list_all item_ok data)"
      using check_witness_stack_items [of vm'] by (simp add: vm'_def stack_arrays)
    moreover have "next_inv vm'" if "list_all item_ok data"
      unfolding vm'_def using v by (intro at_witness_stack [OF a \<open>length data \<le> _\<close> that]) (simp_all add: isWitnessVersionActive_def)
    ultimately show ?thesis by (auto simp: vm'_def elim: holds_mono)
  qed
  have idle: "next_inv vm"
    using a by (auto simp: at_witness_def next_inv_def fixed_part_def hashed_def tapped_def)
  have tap: "holds True (andthen (verify_tapscript env w p ctx (vm\<lparr>vm_taprootCtx := c\<rparr>)) ?f) next_inv"
    if "length w \<le> length ?w" for w ctx c
    unfolding holds_andthen
    by (rule verify_tapscript_holds) (use e must' that in \<open>simp_all add: set\<close>)
  have key: "holds True (VerifyTaprootKeySpend env p sig (vm\<lparr>vm_taprootCtx := c\<rparr>)) (\<lambda>vm'. \<exists>sc. vm' = vm\<lparr>vm_taprootCtx := c\<rparr>\<lparr>vm_sigCache := sc\<rparr>)" for sig c
    by (rule VerifyTaprootKeySpend_cache) (use e a in \<open>simp_all add: at_witness_def input_ok_def\<close>)
  have one: "holds True (andthen (andthen (VerifyTaprootKeySpend env p sig (vm\<lparr>vm_taprootCtx := c\<rparr>)) (\<lambda>vm. Inr (must_succeed ctx vm, True))) ?f) next_inv"
    for sig c ctx
    unfolding holds_andthen by (rule holds_mono [OF key]) (auto simp: must)
  show ?thesis
    unfolding verify_taproot_program_def Let_def
    using one tap by (auto simp: idle split_beta)
qed

lemma verifyWitnessProgram_next:
  assumes "env_ok env" "at_witness vm"
  shows "holds True (verifyWitnessProgram env (Witness (TxIns (vm_tx vm) ! vm_txIdx vm)) vm) next_inv"
proof -
  have none: "next_inv (vm\<lparr>vm_witnessProgram := None\<rparr>)"
    using assms(2) by (auto simp: at_witness_def next_inv_def fixed_part_def input_ok_def hashed_def tapped_def pending_def)
  show ?thesis
    unfolding verifyWitnessProgram_def Let_def
    using v0_next [OF assms(2)] taproot_next [OF assms] none
    by (auto intro: holds_mono [OF check_witness_stack_same])
qed

subsection \<open>The next script\<close>

definition script_done :: "'d Engine \<Rightarrow> bool" where
  "script_done vm \<longleftrightarrow>
     after_inv vm \<and> tk_Done (vm_tokenizer vm) \<and> Depth (vm_dstack vm) \<le> int MaxStackSize \<and> stk (vm_astack vm) = [] \<and>
     vm_numOps vm = 0 \<and> vm_condStack vm = [] \<and> vm_scriptIdx vm < length (vm_scripts vm) \<and>
     (length (vm_scripts vm) \<le> 2 \<or> length (vm_scripts vm) \<le> 4 \<and> length (vm_scripts vm) \<le> vm_scriptIdx vm + 1)"

lemma items_stk: "list_all item_ok (view s) \<longleftrightarrow> list_all item_ok (stk s)"
  by (simp add: view_def list_all_iff)

lemma script_done_facts:
  assumes "script_done vm"
  shows "fixed_part vm" "list_all item_ok (stk (vm_dstack vm))" "length (stk (vm_dstack vm)) \<le> MaxStackSize"
    "Depth (vm_dstack vm) < 2 ^ 63" "stk (vm_astack vm) = []" "vm_numOps vm = 0" "vm_condStack vm = []"
    "1 \<le> vm_scriptIdx vm \<Longrightarrow> length (vm_scripts vm) = vm_scriptIdx vm + 1"
  using assms by (auto simp: script_done_def after_inv_def limits_def items_stk Depth_def MaxStackSize_def)

lemma first_next:
  assumes s: "script_done vm" and i: "vm_scriptIdx vm = 0" "vm_bip16 vm"
  shows "next_inv (vm\<lparr>vm_scriptIdx := 1, vm_savedFirstStack := stk (vm_dstack vm)\<rparr>)"
proof -
  note f = script_done_facts [OF s]
  obtain h where h: "extractScriptHash (vm_scripts vm ! 1) = Some h" using f(1) i by (auto simp: fixed_part_def hashed_def)
  have "pending vm \<Longrightarrow> \<exists>p. is_program p \<and> stk (vm_dstack vm) = [p]"
    using s i by (auto simp: script_done_def after_inv_def)
  then show ?thesis
    using f i script_hash_no_sig [OF h]
    by (auto simp: next_inv_def fixed_part_def input_ok_def hashed_def tapped_def pending_def)
qed

lemma second_next:
  assumes s: "script_done vm" and i: "vm_scriptIdx vm = 1" "vm_bip16 vm"
  shows "next_inv (SetStack (butlast (vm_savedFirstStack vm)) (add_script (last (vm_savedFirstStack vm))
           (vm\<lparr>vm_scriptIdx := 2, vm_dstack := st\<rparr>)))"
proof -
  note f = script_done_facts [OF s]
  have len: "length (vm_scripts vm) = 2" using f(8) i by simp
  have saved: "list_all item_ok (butlast (vm_savedFirstStack vm))" "length (vm_savedFirstStack vm) \<le> 1000"
    using f(1) i by (auto simp: fixed_part_def hashed_def list_all_iff MaxStackSize_def dest: in_set_butlastD)
  have "pending vm \<Longrightarrow> \<exists>p. is_program p \<and> vm_savedFirstStack vm = [p]"
    using s i by (auto simp: script_done_def after_inv_def)
  then have "pending vm \<Longrightarrow> no_sig (last (vm_savedFirstStack vm)) \<and> (\<exists>p. is_program p)"
    using witness_program_no_sig by fastforce
  then show ?thesis
    using f len saved i
    by (auto simp: next_inv_def fixed_part_def input_ok_def hashed_def tapped_def pending_def add_script_def stack_arrays Depth_def nth_append)
qed

lemma next_script_next:
  assumes e: "env_ok env" and s: "script_done vm"
  shows "holds True (next_script env vm) next_inv"
  unfolding next_script_def
proof (intro holds_if, goal_cases)
  case 1
  then show ?case using first_next [OF s] by (simp add: stack_arrays)
next
  case 2
  then have saved: "vm_savedFirstStack vm \<noteq> []" using s by (simp add: script_done_def after_inv_def)
  show ?case
    using 2 second_next [OF s] saved
    by (intro holds_bind [OF CheckErrorCondition_holds]) (auto simp: holds_andthen holds_serr Let_def numeral_2_eq_2)
next
  case 3
  note f = script_done_facts [OF s]
  have "at_witness (vm\<lparr>vm_scriptIdx := vm_scriptIdx vm + 1\<rparr>)"
    using 3 f by (auto simp: at_witness_def fixed_part_def input_ok_def hashed_def tapped_def)
  from verifyWitnessProgram_next [OF e this] show ?case by simp
next
  case 4
  note f = script_done_facts [OF s]
  have "\<not> pending vm"
  proof
    assume pend: "pending vm"
    then have "if vm_bip16 vm then vm_scriptIdx vm \<in> {0, 1, 2} else vm_scriptIdx vm = 1"
      using s by (auto simp: script_done_def after_inv_def)
    moreover have "vm_witnessProgram vm \<noteq> None" using pend by (simp add: pending_def)
    ultimately show False using 4 by (cases "vm_bip16 vm") auto
  qed
  then have "\<not> pending (vm\<lparr>vm_scriptIdx := vm_scriptIdx vm + 1\<rparr>)" by (simp add: pending_def)
  moreover have "fixed_part (vm\<lparr>vm_scriptIdx := vm_scriptIdx vm + 1\<rparr>)"
    using f(1) by (auto simp: fixed_part_def input_ok_def hashed_def tapped_def)
  ultimately show ?case using 4(1) f by (auto simp: next_inv_def)
qed

lemma enter_inv:
  assumes "next_inv vm" "vm_scriptIdx vm < length (vm_scripts vm)"
  shows "engine_inv (vm\<lparr>vm_lastCodeSep := 0, vm_tokenizer := MakeScriptTokenizer 0 (vm_scripts vm ! vm_scriptIdx vm)\<rparr>)"
  using assms
  by (auto simp: next_inv_def engine_inv_def origin_def fixed_part_def input_ok_def hashed_def tapped_def pending_def limits_def items_stk
      view_def MakeScriptTokenizer_def)

lemma after_opcode_inv:
  assumes e: "env_ok env" and a: "after_inv vm" and p: "placed vm" "vm_version vm = 0"
    and l: "length (vm_scripts vm) \<le> 2 \<or> length (vm_scripts vm) \<le> 4 \<and> length (vm_scripts vm) \<le> vm_scriptIdx vm + 1"
  shows "holds True (after_opcode env vm) (\<lambda>(d, vm'). \<not> d \<longrightarrow> engine_inv vm')"
proof (cases "Depth (vm_dstack vm) + Depth (vm_astack vm) > int MaxStackSize")
  case False
  show ?thesis
  proof (cases "tk_Done (vm_tokenizer vm)")
    case running: False
    have "fixed_part (vm\<lparr>vm_opcodeIdx := n\<rparr>) \<and> limits (vm\<lparr>vm_opcodeIdx := n\<rparr>) \<and> pending (vm\<lparr>vm_opcodeIdx := n\<rparr>) = pending vm" for n
      using a by (simp add: after_inv_def fixed_part_def input_ok_def hashed_def tapped_def limits_def pending_def)
    then have "engine_inv (vm\<lparr>vm_opcodeIdx := vm_opcodeIdx vm + 1\<rparr>)"
      using a False running by (auto simp: engine_inv_def after_inv_def origin_def Depth_def MaxStackSize_def)
    then show ?thesis using False running by (simp add: after_opcode_def)
  next
    case True
    define vm1 where "vm1 = vm\<lparr>vm_astack := drop_all (vm_astack vm), vm_numOps := 0, vm_opcodeIdx := 0\<rparr>"
    have "script_done vm1" if "vm_condStack vm = []"
      using a p l that True False
      by (auto simp: vm1_def script_done_def after_inv_def fixed_part_def input_ok_def hashed_def tapped_def pending_def limits_def items_stk
          placed_def drop_all_eq Depth_def)
    then have "holds True (next_script env vm1) (\<lambda>vm2. next_inv vm2 \<and> moved vm1 vm2)" if "vm_condStack vm = []"
      using next_script_next [OF e, of vm1] next_script_moved [of False env vm1] that by (cases "next_script env vm1") simp_all
    moreover have "engine_inv vm'" if n: "next_inv vm2" and m: "moved vm1 vm2" and enter: "enter_script vm2 = (False, vm')" for vm2 vm'
    proof -
      have r: "running vm' \<and> vm' = vm2\<lparr>vm_lastCodeSep := 0, vm_tokenizer := MakeScriptTokenizer 0 (vm_scripts vm2 ! vm_scriptIdx vm2)\<rparr>"
        by (rule enter_script_running [OF m _ _ enter]) (use p l in \<open>simp_all add: vm1_def\<close>)
      then have "vm_scriptIdx vm2 < length (vm_scripts vm2)" by (auto simp: running_def placed_def)
      from enter_inv [OF n this] r show ?thesis by simp
    qed
    moreover have "after_opcode env vm =
        (if vm_condStack vm \<noteq> [] then Inl (ScriptErr ErrUnbalancedConditional) else andthen (next_script env vm1) (\<lambda>vm. Inr (enter_script vm)))"
      using False True by (simp add: after_opcode_def end_script_def vm1_def)
    ultimately show ?thesis
      by (auto intro!: holds_bind [where P = "\<lambda>vm2. next_inv vm2 \<and> moved vm1 vm2"] split: prod.split)
  qed
qed (simp add: after_opcode_def)

lemma Step_inv:
  assumes e: "env_ok env" and r: "running vm" and i: "engine_inv vm"
  shows "holds True (Step env vm) (\<lambda>(d, vm'). \<not> d \<longrightarrow> engine_inv vm')"
proof (cases "step_token (rest vm)")
  case None
  then show ?thesis by (simp add: Step_running [OF r])
next
  case (Some x)
  obtain k op data where x: "x = (k, op, data)" by (cases x)
  have st: "step_token (rest vm) = Some (k, op, data)" using Some x by simp
  have k: "k \<le> length (rest vm)" using step_token_consumes [OF _ st] r by (simp add: running_def)
  have "holds True (after_opcode env vm') (\<lambda>(d, vm'). \<not> d \<longrightarrow> engine_inv vm')"
    if "after_inv vm' \<and> same (advance k op data vm) vm'" for vm'
    by (rule after_opcode_inv [OF e]) (use that r k in \<open>auto simp: same_def advance_def running_def placed_def\<close>)
  then have "holds True (andthen (executeOpcode env op (case data of None \<Rightarrow> [] | Some d \<Rightarrow> d) (advance k op data vm)) (after_opcode env))
      (\<lambda>(d, vm'). \<not> d \<longrightarrow> engine_inv vm')"
    by (rule holds_bind [OF opcode_step [OF e r i st]])
  then show ?thesis by (simp add: Step_running [OF r] Some x)
qed

section \<open>New engines\<close>

text \<open>A script that is one direct push of all its other bytes.\<close>

definition direct_push :: "bytes \<Rightarrow> bool" where
  "direct_push script \<longleftrightarrow> script \<noteq> [] \<and> unat (hd script) = length (tl script)"

text \<open>
  What the callers of the engine provide: the shared hashes of the transaction, the output that is
  spent, and a witness of a length that Go can represent.
\<close>

definition caller_ok :: "'d MsgTx \<Rightarrow> int \<Rightarrow> TxSigHashes option \<Rightarrow> 'd PrevOutputFetcher \<Rightarrow> bool" where
  "caller_ok tx txIdx hashCache prevOutFetcher \<longleftrightarrow>
     hashCache \<noteq> None \<and> prevOutFetcher (PreviousOutPoint (TxIns tx ! nat txIdx)) \<noteq> None \<and>
     length (Witness (TxIns tx ! nat txIdx)) < 2 ^ 63"

text \<open>The case that is left out: a script hash, a witness, and a signature script that is not one direct push.\<close>

definition nested_ok :: "bytes \<Rightarrow> TxIn \<Rightarrow> bool" where
  "nested_ok scriptPubKey txIn \<longleftrightarrow>
     (extractScriptHash scriptPubKey \<noteq> None \<and> Witness txIn \<noteq> [] \<longrightarrow> direct_push (SignatureScript txIn))"

lemma script_hash_no_program: "extractScriptHash s = Some h \<Longrightarrow> \<not> isWitnessProgramScript s"
proof
  assume h: "extractScriptHash s = Some h" and "isWitnessProgramScript s"
  then obtain version program where "extractWitnessProgramInfo s = (version, program, True)"
    by (cases "extractWitnessProgramInfo s") (auto simp: isWitnessProgramScript_def)
  then show False
    by (rule witness_program_shape) (use script_hash_shape [OF h] in \<open>auto simp: IsSmallInt_def\<close>)
qed

lemma direct_push_shape:
  assumes "direct_push s" "is_program (drop 1 s)"
  shows "s = word_of_nat (length (drop 1 s)) # drop 1 s \<and> no_sig s"
proof -
  obtain n d where s: "s = n # d" "unat n = length d" using assms(1) by (cases s) (auto simp: direct_push_def)
  obtain version program where "extractWitnessProgramInfo d = (version, program, True)" using assms(2) s by auto
  then have len: "4 \<le> length d" "length d \<le> 42" by (rule witness_program_shape; simp)+
  have n: "n = word_of_nat (length d)" by (simp flip: s(2))
  have "n \<noteq> 0xac" "n \<noteq> 0xad" using s(2) len by auto
  then have "no_sig s" using no_sig_step [OF _ step_token_direct [OF s(2), of "[]"]] len by (simp add: s)
  then show ?thesis using n by (simp add: s)
qed

lemma NewEngine_inv:
  assumes new: "NewEngine scriptPubKey tx txIdx flags sigCache hashCache inputAmount assets prevOutFetcher = Inr vm"
    and c: "caller_ok tx txIdx hashCache prevOutFetcher" and n: "nested_ok scriptPubKey (TxIns tx ! nat txIdx)"
  shows "engine_inv vm"
proof (rule NewEngine_state [OF new])
  fix version program
  let ?in = "TxIns tx ! nat txIdx"
  assume f: "nat txIdx < length (TxIns tx)" "vm_tx vm = tx" "vm_txIdx vm = nat txIdx"
    "vm_bip16 vm = (flags AND ScriptBip16 = ScriptBip16 \<and> extractScriptHash scriptPubKey \<noteq> None)"
    "vm_hashCache vm = hashCache" "vm_prevOutFetcher vm = prevOutFetcher" "vm_scripts vm = [SignatureScript ?in, scriptPubKey]"
    "vm_scriptIdx vm = (if SignatureScript ?in = [] then 1 else 0)" "vm_lastCodeSep vm = 0"
    "vm_tokenizer vm = MakeScriptTokenizer 0 (vm_scripts vm ! vm_scriptIdx vm)" "vm_savedFirstStack vm = []"
    "stk (vm_dstack vm) = []" "stk (vm_astack vm) = []" "vm_condStack vm = []" "vm_numOps vm = 0" "vm_taprootCtx vm = None"
    and prog: "vm_witnessProgram vm = None \<or>
       (\<exists>p. find_witness_program (SignatureScript ?in) scriptPubKey (Witness ?in) (vm_bip16 vm) = Inr (Some p) \<and>
            extractWitnessProgramInfo p = (vm_witnessVersion vm, vm_witnessProgram vm, True))"
  have tok: "offset vm = 0" "rest vm = vm_scripts vm ! vm_scriptIdx vm" using f(10) by (simp_all add: MakeScriptTokenizer_def)
  have "no_sig (rest vm) \<and> origin vm" if pend: "pending vm"
  proof -
    obtain p where p: "find_witness_program (SignatureScript ?in) scriptPubKey (Witness ?in) (vm_bip16 vm) = Inr (Some p)" "is_program p"
      using prog pend by (auto simp: pending_def)
    show ?thesis
    proof (cases "isWitnessProgramScript scriptPubKey")
      case True
      then have "SignatureScript ?in = []" "p = scriptPubKey" using p(1) by (auto simp: find_witness_program_def split: if_splits)
      moreover have "\<not> vm_bip16 vm" using True script_hash_no_program f(4) by auto
      ultimately show ?thesis using f(7,8) p(2) tok witness_program_no_sig by (auto simp: origin_def)
    next
      case False
      then have b: "vm_bip16 vm" "Witness ?in \<noteq> []" "p = drop 1 (SignatureScript ?in)"
        using p(1) by (auto simp: find_witness_program_def split: if_splits)
      then have "direct_push (SignatureScript ?in)" using n f(4) by (auto simp: nested_ok_def)
      from direct_push_shape [OF this] p(2) b(3)
      have s: "SignatureScript ?in = word_of_nat (length p) # p" "no_sig (SignatureScript ?in)" by auto
      then have "vm_scriptIdx vm = 0" "rest vm = SignatureScript ?in" using f(7,8) tok by simp_all
      then show ?thesis using s p(2) b(1) f(7,12) tok(1) by (auto simp: origin_def)
    qed
  qed
  then show ?thesis
    using f c tok
    by (auto simp: engine_inv_def fixed_part_def input_ok_def hashed_def tapped_def limits_def view_def caller_ok_def Depth_def)
qed

section \<open>Soundness\<close>

text \<open>The states of a run before its last step.\<close>

inductive reaches :: "('d, 'k, 's, 'x) script_env \<Rightarrow> 'd Engine \<Rightarrow> 'd Engine \<Rightarrow> bool" for env vm0 where
  start: "reaches env vm0 vm0"
| step: "reaches env vm0 vm \<Longrightarrow> Step env vm = Inr (False, vm') \<Longrightarrow> reaches env vm0 vm'"

lemma reaches_inv:
  assumes "reaches env vm0 vm" "env_ok env" "running vm0" "engine_inv vm0"
  shows "running vm \<and> engine_inv vm"
  using assms(1)
proof induction
  case (step vm vm')
  then show ?case using Step_progress(1) [of vm env vm'] Step_inv [OF assms(2), of vm] by simp
qed (use assms in simp)

lemma Step_no_panic: "env_ok env \<Longrightarrow> running vm \<Longrightarrow> engine_inv vm \<Longrightarrow> Step env vm \<noteq> Inl EnginePanic"
  using Step_inv [of env vm] by auto

lemma sample_ok:
  "env_ok sample_env" "caller_ok sighash_sample 0 (vm_hashCache sample_engine) taproot_sample_fetcher"
  "nested_ok [0x51] (TxIns sighash_sample ! nat 0)"
  by (simp_all add: env_ok_def sample_env_def caller_ok_def sample_engine_def sighash_sample_def taproot_sample_fetcher_def
      CannedPrevOutputFetcher_def nested_ok_def min_def)

text \<open>
  C7 (type soundness of the script engine): Let the caller provide the hash cache and the output
  the input spends (\<open>caller_ok\<close>), let digests have their lengths and keys parse again after they were
  serialized (\<open>env_ok\<close>), and let a witness under a script hash come with a signature script that is
  one direct push (\<open>nested_ok\<close>).  Then every state
  that a new engine reaches is well typed: the position is within the current script, every item on
  the two stacks has at most 520 bytes, at most 201 operations have been counted, once an opcode of
  the current script has run at most 1000 items are on the two stacks together, and the code separator
  lies in the script.  In such a state the next step is not a panic: no index is out of range and no
  nil verifier, key or output is used.
\<close>

theorem engine_type_sound:
  assumes "NewEngine scriptPubKey tx txIdx flags sigCache hashCache inputAmount assets prevOutFetcher = Inr vm"
    and "caller_ok tx txIdx hashCache prevOutFetcher" "nested_ok scriptPubKey (TxIns tx ! nat txIdx)" "env_ok env"
    and "reaches env vm vm'"
  shows "placed vm' \<and> list_all item_ok (view (vm_dstack vm')) \<and> list_all item_ok (view (vm_astack vm')) \<and>
         vm_numOps vm' \<le> MaxOpsPerScript \<and> vm_lastCodeSep vm' \<le> length (vm_scripts vm' ! vm_scriptIdx vm') \<and>
         (0 < tk_offset (vm_tokenizer vm') \<longrightarrow> Depth (vm_dstack vm') + Depth (vm_astack vm') \<le> int MaxStackSize) \<and>
         Step env vm' \<noteq> Inl EnginePanic"
proof -
  have "running vm'" "engine_inv vm'"
    using reaches_inv [OF assms(5,4) NewEngine_running [OF assms(1)] NewEngine_inv [OF assms(1-3)]] by simp_all
  then show ?thesis
    using Step_no_panic [OF assms(4)] by (auto simp: running_def engine_inv_def limits_def)
qed

theorem engine_type_sound_witness:
  "reaches sample_env sample_engine sample_engine \<and> placed sample_engine \<and> vm_numOps sample_engine \<le> MaxOpsPerScript \<and>
   Step sample_env sample_engine \<noteq> Inl EnginePanic"
  using engine_type_sound [OF sample_engine_new sample_ok(2,3,1) reaches.start] reaches.start by blast

text \<open>
  C8 (no panic): Under the same hypotheses \<^verbatim>\<open>Execute\<close> returns, and it returns an error value or
  success but never panics.
\<close>

theorem engine_no_panic:
  assumes "NewEngine scriptPubKey tx txIdx flags sigCache hashCache inputAmount assets prevOutFetcher = Inr vm"
    and "caller_ok tx txIdx hashCache prevOutFetcher" "nested_ok scriptPubKey (TxIns tx ! nat txIdx)" "env_ok env"
  shows "\<exists>r. Execute env vm = Some r \<and> r \<noteq> Inl EnginePanic"
proof -
  have "\<exists>r. execute_loop env vm = Some r \<and> holds True r (\<lambda>_. True)"
    unfolding holds_def
    by (rule execute_loop_rule [where I = engine_inv])
      (use NewEngine_running [OF assms(1)] NewEngine_inv [OF assms(1-3)] Step_inv [OF assms(4)] Step_no_panic [OF assms(4)]
        in \<open>auto dest: holds_InrD\<close>)
  then obtain r where r: "execute_loop env vm = Some r" "holds True r (\<lambda>_. True)" by blast
  have "holds True (andthen r (\<lambda>vm. andthen (CheckErrorCondition True vm) (\<lambda>_. Inr ()))) (\<lambda>_. True)"
    by (rule holds_bind [OF r(2)]) (auto simp: holds_andthen intro: holds_mono [OF CheckErrorCondition_holds])
  then show ?thesis using r(1) by (auto simp: Execute_def)
qed

theorem engine_no_panic_witness:
  "NewEngine [0x51] sighash_sample 0 0 None (vm_hashCache sample_engine) 0 [] taproot_sample_fetcher = Inr sample_engine \<and>
   (\<exists>r. Execute sample_env sample_engine = Some r \<and> r \<noteq> Inl EnginePanic)"
  using engine_no_panic [OF sample_engine_new sample_ok(2,3,1)] sample_engine_new by blast

end
