(* ===== verification/Engine_Run.thy ===== *)
theory Engine_Run
  imports Engine_Sound
begin

text \<open>
  Runs of the script engine on given scripts.  The state of such a run is written as an update of the
  engine it started from (\<open>state\<close>), and \<open>config\<close> leaves the tokenizer and the opcode counter open.
  The runs show what the engine accepts, and where it panics.
\<close>

section \<open>States of a run\<close>

definition state ::
    "'d Engine \<Rightarrow> bytes list \<Rightarrow> nat \<Rightarrow> bytes list \<Rightarrow> bytes list \<Rightarrow> nat \<Rightarrow> ScriptTokenizer \<Rightarrow> nat \<Rightarrow> 'd Engine" where
  "state vm0 scripts idx saved ds n t c = vm0\<lparr>vm_scripts := scripts, vm_scriptIdx := idx, vm_savedFirstStack := saved,
     vm_dstack := (vm_dstack vm0)\<lparr>stk := ds\<rparr>, vm_numOps := n, vm_tokenizer := t, vm_opcodeIdx := c\<rparr>"

text \<open>An engine that runs scripts outside of tapscript, between two opcodes and outside of conditionals.\<close>

definition plain :: "'d Engine \<Rightarrow> bool" where
  "plain vm0 \<longleftrightarrow> vm_condStack vm0 = [] \<and> stk (vm_astack vm0) = [] \<and> vm_taprootCtx vm0 = None \<and> vm_lastCodeSep vm0 = 0 \<and> vm_version vm0 = 0"

definition config :: "'d Engine \<Rightarrow> bytes list \<Rightarrow> nat \<Rightarrow> bytes list \<Rightarrow> bytes \<Rightarrow> bytes list \<Rightarrow> nat \<Rightarrow> 'd Engine \<Rightarrow> bool" where
  "config vm0 scripts idx saved r ds n vm \<longleftrightarrow>
     running vm \<and> rest vm = r \<and> (\<exists>t c. vm = state vm0 scripts idx saved ds n t c)"

lemma state_simps [simp]:
  "vm_flags (state vm0 scripts idx saved ds n t c) = vm_flags vm0"
  "vm_tx (state vm0 scripts idx saved ds n t c) = vm_tx vm0"
  "vm_txIdx (state vm0 scripts idx saved ds n t c) = vm_txIdx vm0"
  "vm_version (state vm0 scripts idx saved ds n t c) = vm_version vm0"
  "vm_bip16 (state vm0 scripts idx saved ds n t c) = vm_bip16 vm0"
  "vm_scripts (state vm0 scripts idx saved ds n t c) = scripts"
  "vm_scriptIdx (state vm0 scripts idx saved ds n t c) = idx"
  "vm_savedFirstStack (state vm0 scripts idx saved ds n t c) = saved"
  "vm_dstack (state vm0 scripts idx saved ds n t c) = (vm_dstack vm0)\<lparr>stk := ds\<rparr>"
  "vm_astack (state vm0 scripts idx saved ds n t c) = vm_astack vm0"
  "vm_condStack (state vm0 scripts idx saved ds n t c) = vm_condStack vm0"
  "vm_numOps (state vm0 scripts idx saved ds n t c) = n"
  "vm_tokenizer (state vm0 scripts idx saved ds n t c) = t"
  "vm_taprootCtx (state vm0 scripts idx saved ds n t c) = vm_taprootCtx vm0"
  "vm_witnessProgram (state vm0 scripts idx saved ds n t c) = vm_witnessProgram vm0"
  "vm_witnessVersion (state vm0 scripts idx saved ds n t c) = vm_witnessVersion vm0"
  "vm_lastCodeSep (state vm0 scripts idx saved ds n t c) = vm_lastCodeSep vm0"
  "vm_sigCache (state vm0 scripts idx saved ds n t c) = vm_sigCache vm0"
  "hasFlag (state vm0 scripts idx saved ds n t c) = hasFlag vm0"
  "isWitnessVersionActive (state vm0 scripts idx saved ds n t c) = isWitnessVersionActive vm0"
  by (simp_all add: state_def hasFlag_def isWitnessVersionActive_def fun_eq_iff)

lemma state_dstack [simp]:
  "state vm0 scripts idx saved ds n t c\<lparr>vm_dstack := s\<lparr>stk := ds'\<rparr>\<rparr> = state (vm0\<lparr>vm_dstack := s\<rparr>) scripts idx saved ds' n t c"
  "state vm0 scripts idx saved ds n t c\<lparr>vm_numOps := n'\<rparr> = state vm0 scripts idx saved ds n' t c"
  "state vm0 scripts idx saved ds n t c\<lparr>vm_opcodeIdx := c'\<rparr> = state vm0 scripts idx saved ds n t c'"
  "state (vm0\<lparr>vm_dstack := vm_dstack vm0\<rparr>) scripts idx saved ds n t c = state vm0 scripts idx saved ds n t c"
  by (simp_all add: state_def)

subsection \<open>Opcodes\<close>

lemma exec_counted:
  assumes "plain vm0" "op > OP_16" "n < MaxOpsPerScript" "\<not> isOpcodeDisabled op"
  shows "executeOpcode env op data (state vm0 scripts idx saved ds n t c) = op_func op env op data (state vm0 scripts idx saved ds (Suc n) t c)"
proof -
  have "\<not> op \<le> OP_PUSHDATA4" using assms(2) push_not_counted [of op] by blast
  moreover have "\<not> isOpcodeAlwaysIllegal op \<or> op_func op env op data = (\<lambda>_. Inl (ScriptErr ErrReservedOpcode))"
    by (auto simp: isOpcodeAlwaysIllegal_def op_func_def opcode_table_def opcodeReserved_def)
  ultimately show ?thesis
    using assms
    by (auto simp: executeOpcode_def count_op_def plain_def isBranchExecuting_def isOpcodeAlwaysIllegal_def op_func_def opcode_table_def
        opcodeReserved_def)
qed

lemma dstack_state_view: "view ((vm_dstack vm0)\<lparr>stk := ds @ [x]\<rparr>) = x # rev ds"
  by (simp add: view_def)

lemma set_view_state: "set_view (rev ds) ((vm_dstack vm0)\<lparr>stk := ds'\<rparr>) = (vm_dstack vm0)\<lparr>stk := ds\<rparr>"
  by (simp add: set_view_def)

lemma state_upd: "state vm0 scripts idx saved ds n t c\<lparr>vm_dstack := (vm_dstack vm0)\<lparr>stk := ds'\<rparr>\<rparr> = state vm0 scripts idx saved ds' n t c"
  by (simp add: state_def)

lemma pop_state:
  "pop_with PopByteArray (state vm0 scripts idx saved (ds @ [x]) n t c) = Inr (x, state vm0 scripts idx saved ds n t c)"
  by (simp add: pop_view dstack_state_view set_view_state state_upd)

lemma push_state:
  "push_bytes x (state vm0 scripts idx saved ds n t c) = state vm0 scripts idx saved (ds @ [x]) n t c"
  "push_bool v (state vm0 scripts idx saved ds n t c) = state vm0 scripts idx saved (ds @ [fromBool v]) n t c"
  by (simp_all add: push_bytes_def push_bool_def PushBool_def PushByteArray_def state_upd)

text \<open>A push is executed when it passes the check for minimal pushes, where that check is on.\<close>

definition push_allowed :: "'d Engine \<Rightarrow> byte \<Rightarrow> bytes \<Rightarrow> bool" where
  "push_allowed vm0 op d \<longleftrightarrow> (verifyMinimalData (vm_dstack vm0) \<longrightarrow> checkMinimalDataPush op d = Inr ())"

lemma exec_push:
  assumes "plain vm0" "op \<noteq> 0" "op \<le> OP_PUSHDATA4" "length d \<le> MaxScriptElementSize" "push_allowed vm0 op d"
  shows "executeOpcode env op d (state vm0 scripts idx saved ds n t c) = Inr (state vm0 scripts idx saved (ds @ [d]) n t c)"
proof -
  have op: "\<not> OP_16 < op" using assms(3) by (rule push_not_counted)
  have le: "op \<noteq> v" if "\<not> v \<le> OP_PUSHDATA4" for v using that assms(3) by auto
  have "\<not> isOpcodeDisabled op" "\<not> isOpcodeAlwaysIllegal op"
    using le by (auto simp: isOpcodeDisabled_def isOpcodeAlwaysIllegal_def)
  then show ?thesis
    using assms op
    by (auto simp: executeOpcode_def count_op_def plain_def isBranchExecuting_def push_allowed_def serr_def op_func_def opcodePushData_def push_state)
qed

lemma exec_smallint:
  assumes "plain vm0" "op = 0x51 \<or> op = 0x52"
  shows "executeOpcode env op [] (state vm0 scripts idx saved ds n t c) = Inr (state vm0 scripts idx saved (ds @ [[op - 0x50]]) n t c)"
proof -
  have f: "op_func op env = opcodeN env" "\<not> isOpcodeDisabled op" "\<not> isOpcodeAlwaysIllegal op" "\<not> OP_16 < op" "\<not> op \<le> OP_PUSHDATA4"
    using assms(2) by (auto simp: op_func_def isOpcodeDisabled_def isOpcodeAlwaysIllegal_def)
  have "scriptNum_Bytes 1 = Some [1]" "scriptNum_Bytes 2 = Some [2]" by code_simp+
  then have "scriptNum_Bytes (ucast (op - (OP_1 - 1))) = Some [op - 0x50]" using assms(2) by auto
  then have "opcodeN env op [] (state vm0 scripts idx saved ds n t c) = Inr (state vm0 scripts idx saved (ds @ [[op - 0x50]]) n t c)"
    by (simp add: opcodeN_def push_int_def PushInt_def PushByteArray_def state_upd)
  then show ?thesis
    using assms(1) f by (simp add: executeOpcode_def count_op_def plain_def isBranchExecuting_def)
qed

lemma exec_hash160:
  assumes "plain vm0" "n < MaxOpsPerScript"
  shows "executeOpcode env 0xa9 [] (state vm0 scripts idx saved (ds @ [x]) n t c) =
         Inr (state vm0 scripts idx saved (ds @ [env_ripemd160 env (env_sha256 env x)]) (Suc n) t c)"
  using assms
  by (simp add: exec_counted isOpcodeDisabled_def op_func_def opcode_table_def opcodeHash160_def hash1_def pop_state push_state)

lemma exec_equal:
  assumes "plain vm0" "n < MaxOpsPerScript"
  shows "executeOpcode env 0x87 [] (state vm0 scripts idx saved (ds @ [x, y]) n t c) =
         Inr (state vm0 scripts idx saved (ds @ [fromBool (x = y)]) (Suc n) t c)"
proof -
  have "pop_with PopByteArray (state vm0 scripts idx saved (ds @ [x, y]) n t c) = Inr (y, state vm0 scripts idx saved (ds @ [x]) n t c)" for n
    using pop_state [where ds = "ds @ [x]" and x = y] by simp
  then show ?thesis
    using assms by (simp add: exec_counted isOpcodeDisabled_def op_func_def opcode_table_def opcodeEqual_def pop_state push_state eq_commute [of y x])
qed

subsection \<open>Steps\<close>

lemma advance_state: "advance k op d (state vm0 scripts idx saved ds n t c) =
    state vm0 scripts idx saved ds n (t\<lparr>tk_opcodePos := tk_opcodePos t + 1, tk_offset := tk_offset t + k, tk_op := Some op, tk_data := d\<rparr>) c"
  by (simp add: advance_def state_def)

lemma config_step:
  assumes cfg: "config vm0 scripts idx saved r ds n vm" and p: "plain vm0"
    and st: "step_token r = Some (k, op, d)" "k < length r"
    and ex: "\<And>t c. executeOpcode env op (case d of None \<Rightarrow> [] | Some d \<Rightarrow> d) (state vm0 scripts idx saved ds n t c) =
               Inr (state vm0 scripts idx saved ds' n' t c)"
    and l: "length ds' \<le> MaxStackSize"
  obtains vm' where "Step env vm = Inr (False, vm')" "config vm0 scripts idx saved (drop k r) ds' n' vm'"
proof -
  obtain t c where vm: "vm = state vm0 scripts idx saved ds n t c" "running vm" "rest vm = r" using cfg by (auto simp: config_def)
  define t' where "t' = t\<lparr>tk_opcodePos := tk_opcodePos t + 1, tk_offset := tk_offset t + k, tk_op := Some op, tk_data := d\<rparr>"
  define vm' where "vm' = state vm0 scripts idx saved ds' n' t' (Suc c)"
  have more: "\<not> tk_Done t'" using vm st(2) by (auto simp: t'_def tk_Done_def running_def)
  have "Depth ((vm_dstack vm0)\<lparr>stk := ds'\<rparr>) + Depth (vm_astack vm0) \<le> int MaxStackSize" using l p by (simp add: Depth_def plain_def)
  moreover have "vm_opcodeIdx (state vm0 scripts idx saved ds' n' t' c) + 1 = Suc c" by (simp add: state_def)
  ultimately have "Step env vm = Inr (False, vm')"
    using vm st(1) ex more
    by (simp add: Step_running advance_state t'_def [symmetric] after_opcode_def vm'_def)
  moreover have "rest vm' = drop k (rest vm)" by (simp add: vm(1) vm'_def t'_def add.commute)
  moreover have "running vm'" using vm st(2) by (auto simp: vm'_def t'_def running_def placed_def)
  ultimately show ?thesis using that vm(3) by (auto simp: config_def vm'_def)
qed

lemma loop_step: "Step env vm = Inr (False, vm') \<Longrightarrow> execute_loop env vm = execute_loop env vm'"
  by (subst execute_loop.simps) simp

lemma config_last:
  assumes cfg: "config vm0 scripts idx saved r ds n vm" and p: "plain vm0"
    and st: "step_token r = Some (length r, op, d)"
    and ex: "\<And>t c. executeOpcode env op (case d of None \<Rightarrow> [] | Some d \<Rightarrow> d) (state vm0 scripts idx saved ds n t c) =
               Inr (state vm0 scripts idx saved ds' n' t c)"
    and l: "length ds' \<le> MaxStackSize"
  obtains t c where "Step env vm = end_script env (state vm0 scripts idx saved ds' n' t c)"
proof -
  obtain t c where vm: "vm = state vm0 scripts idx saved ds n t c" "running vm" "rest vm = r" using cfg by (auto simp: config_def)
  define t' where "t' = t\<lparr>tk_opcodePos := tk_opcodePos t + 1, tk_offset := tk_offset t + length r, tk_op := Some op, tk_data := d\<rparr>"
  have "tk_Done t'" using vm by (auto simp: t'_def tk_Done_def running_def)
  moreover have "Depth ((vm_dstack vm0)\<lparr>stk := ds'\<rparr>) + Depth (vm_astack vm0) \<le> int MaxStackSize" using l p by (simp add: Depth_def plain_def)
  ultimately have "Step env vm = end_script env (state vm0 scripts idx saved ds' n' t' (vm_opcodeIdx (state vm0 scripts idx saved ds' n' t' c) + 1))"
    using vm st ex by (simp add: Step_running advance_state t'_def [symmetric] after_opcode_def)
  then show ?thesis by (rule that)
qed

lemma drop_empty: "stk s = [] \<Longrightarrow> drop_all s = s"
  by (cases s) (simp add: drop_all_eq)

lemma reset_state:
  "plain vm0 \<Longrightarrow> state vm0 scripts idx saved ds n t c\<lparr>vm_astack := drop_all (vm_astack vm0), vm_numOps := 0, vm_opcodeIdx := 0\<rparr> =
   state vm0 scripts idx saved ds 0 t 0"
  by (simp add: plain_def drop_empty) (simp add: state_def)

lemma state_config:
  "running (state vm0 scripts idx saved ds n (MakeScriptTokenizer 0 s) 0) \<Longrightarrow>
   config vm0 scripts idx saved s ds n (state vm0 scripts idx saved ds n (MakeScriptTokenizer 0 s) 0)"
  by (auto simp: config_def MakeScriptTokenizer_def)

lemma end_first:
  assumes p: "plain vm0" and "vm_bip16 vm0" "length scripts = 2" "scripts ! 1 \<noteq> []"
  obtains vm' where "end_script env (state vm0 scripts 0 saved ds n t c) = Inr (False, vm')"
    "config vm0 scripts 1 ds (scripts ! 1) ds 0 vm'"
proof -
  let ?vm = "state vm0 scripts 1 ds ds 0 (MakeScriptTokenizer 0 (scripts ! 1)) 0"
  have "next_script env (state vm0 scripts 0 saved ds 0 t 0) = Inr (state vm0 scripts 1 ds ds 0 t 0)"
    using assms(2) by (simp add: next_script_def stack_arrays) (simp add: state_def)
  moreover have "enter_script (state vm0 scripts 1 ds ds 0 t 0) = (False, ?vm)"
    using assms by (simp add: enter_script_def plain_def) (simp add: state_def)
  ultimately have "end_script env (state vm0 scripts 0 saved ds n t c) = Inr (False, ?vm)"
    using p by (simp add: end_script_def reset_state) (simp add: plain_def)
  moreover have "running ?vm" using assms by (simp add: running_def placed_def plain_def MakeScriptTokenizer_def)
  ultimately show ?thesis using that state_config by blast
qed

lemma end_second:
  assumes p: "plain vm0" and b: "vm_bip16 vm0" and l: "length scripts = 2" and s: "s \<noteq> []" "checkScriptParses 0 s = Inr ()" and x: "asBool x"
  obtains vm' where "end_script env (state vm0 scripts 1 (ys @ [s]) (ds @ [x]) n t c) = Inr (False, vm')"
    "config vm0 (scripts @ [s]) 2 (ys @ [s]) s ys 0 vm'"
proof -
  let ?vm = "state vm0 (scripts @ [s]) 2 (ys @ [s]) ys 0 (MakeScriptTokenizer 0 s) 0"
  have "pop_with PopBool (state vm0 scripts 2 (ys @ [s]) (ds @ [x]) 0 t 0) = Inr (True, state vm0 scripts 2 (ys @ [s]) ds 0 t 0)"
    using x by (simp add: pop_with_def PopBool_def PopByteArray_view dstack_state_view set_view_state state_upd serr_def)
  then have "CheckErrorCondition False (state vm0 scripts 2 (ys @ [s]) (ds @ [x]) 0 t 0) = Inr (state vm0 scripts 2 (ys @ [s]) ds 0 t 0)"
    using p l by (simp add: CheckErrorCondition_def plain_def Depth_def)
  moreover have "state vm0 scripts 1 (ys @ [s]) (ds @ [x]) 0 t 0\<lparr>vm_scriptIdx := 2\<rparr> = state vm0 scripts 2 (ys @ [s]) (ds @ [x]) 0 t 0"
    by (simp add: state_def)
  moreover have "SetStack ys (add_script s (state vm0 scripts 2 (ys @ [s]) ds 0 t 0)) = state vm0 (scripts @ [s]) 2 (ys @ [s]) ys 0 t 0"
    by (simp add: stack_arrays add_script_def) (simp add: state_def)
  ultimately have "next_script env (state vm0 scripts 1 (ys @ [s]) (ds @ [x]) 0 t 0) = Inr (state vm0 (scripts @ [s]) 2 (ys @ [s]) ys 0 t 0)"
    using b p s by (simp add: next_script_def plain_def serr_def numeral_2_eq_2)
  moreover have "enter_script (state vm0 (scripts @ [s]) 2 (ys @ [s]) ys 0 t 0) = (False, ?vm)"
    using p l s by (simp add: enter_script_def plain_def nth_append) (simp add: state_def)
  ultimately have "end_script env (state vm0 scripts 1 (ys @ [s]) (ds @ [x]) n t c) = Inr (False, ?vm)"
    using p by (simp add: end_script_def reset_state) (simp add: plain_def)
  moreover have "running ?vm" using p l s by (simp add: running_def placed_def plain_def MakeScriptTokenizer_def nth_append)
  ultimately show ?thesis using that state_config by blast
qed

section \<open>A signature script that is not one push\<close>

text \<open>
  The check for a nested witness program looks at the bytes after the first opcode of the signature script,
  but not at the first opcode: with a small integer in front, what is found there is not what the
  script pushes.
\<close>

definition loose_redeem :: bytes where "loose_redeem = [0xac, 0x61]"
definition loose_script :: bytes where "loose_script = [0x51, 0x52, 0x02, 0xac, 0x61]"

definition p2sh_script :: "('d, 'k, 's, 'x) script_env \<Rightarrow> bytes \<Rightarrow> bytes" where
  "p2sh_script env script = [0xa9, 0x14] @ env_ripemd160 env (env_sha256 env script) @ [0x87]"

lemma p2sh_tokens:
  assumes "length h = 20"
  shows "step_token ([0xa9, 0x14] @ h @ [0x87]) = Some (1, 0xa9, None)"
    "step_token (0x14 # h @ [0x87]) = Some (21, 0x14, Some h)" "step_token [0x87] = Some (1, 0x87, None)"
    "checkScriptParses 0 ([0xa9, 0x14] @ h @ [0x87]) = Inr ()" "extractScriptHash ([0xa9, 0x14] @ h @ [0x87]) = Some h"
proof -
  show t1: "step_token ([0xa9, 0x14] @ h @ [0x87]) = Some (1, 0xa9, None)"
    using step_token_single [of "0xa9"] by (simp add: opcode_length_def)
  show t2: "step_token (0x14 # h @ [0x87]) = Some (21, 0x14, Some h)"
    using step_token_direct [of "0x14" h "[0x87]"] assms by simp
  show t3: "step_token [0x87] = Some (1, 0x87, None)" using step_token_single [of "0x87"] by (simp add: opcode_length_def)
  have "snd (scan [0x87]) = []" using scan_step [OF step_token_next [OF _ t3]] by simp
  then have "snd (scan (0x14 # h @ [0x87])) = []" using scan_step [OF step_token_next [OF _ t2]] assms by simp
  then have "snd (scan ([0xa9, 0x14] @ h @ [0x87])) = []" using scan_step [OF step_token_next [OF _ t1]] by simp
  then show "checkScriptParses 0 ([0xa9, 0x14] @ h @ [0x87]) = Inr ()" by (simp only: checkScriptParses_scan scan_err_def) simp
  show "extractScriptHash ([0xa9, 0x14] @ h @ [0x87]) = Some h"
    using assms by (simp add: extractScriptHash_def slice_def nth_append)
qed

lemma loose_engine:
  assumes "0 \<le> txIdx" "txIdx < int (length (TxIns tx))"
    and f: "flags AND ScriptBip16 = ScriptBip16" "flags AND ScriptVerifyWitness = ScriptVerifyWitness"
    and i: "SignatureScript (TxIns tx ! nat txIdx) = loose_script" "Witness (TxIns tx ! nat txIdx) \<noteq> []"
    and h: "length (env_ripemd160 env (env_sha256 env loose_redeem)) = 20"
  obtains vm where
    "NewEngine (p2sh_script env loose_redeem) tx txIdx flags sigCache hashCache inputAmount assets prevOutFetcher = Inr vm"
    "plain vm" "vm_bip16 vm" "vm_witnessProgram vm = Some loose_redeem" "vm_witnessVersion vm = 2"
    "config vm [loose_script, p2sh_script env loose_redeem] 0 [] loose_script [] 0 vm"
proof -
  note pk = p2sh_tokens(4,5) [OF h]
  have facts: "checkScriptParses 0 loose_script = Inr ()" "IsPushOnlyScript loose_script"
    "extractWitnessProgramInfo (drop 1 loose_script) = (2, Some loose_redeem, True)" "isCanonicalPush (loose_script ! 0) (Some (drop 1 loose_script))"
    by code_simp+
  have no: "\<not> isWitnessProgramScript (p2sh_script env loose_redeem)" unfolding p2sh_script_def by (rule script_hash_no_program [OF pk(2)])
  have len: "length loose_script = 5" "loose_script \<noteq> []" "isWitnessProgramScript (drop 1 loose_script)"
    using facts(3) by (simp_all add: loose_script_def isWitnessProgramScript_def)
  define vm where "vm = \<lparr>vm_flags = flags, vm_tx = tx, vm_txIdx = nat txIdx, vm_version = 0, vm_bip16 = True, vm_sigCache = sigCache,
    vm_hashCache = hashCache, vm_prevOutFetcher = prevOutFetcher, vm_scripts = [loose_script, p2sh_script env loose_redeem], vm_scriptIdx = 0,
    vm_opcodeIdx = 0, vm_lastCodeSep = 0, vm_tokenizer = MakeScriptTokenizer 0 loose_script, vm_savedFirstStack = [],
    vm_dstack = \<lparr>stk = [], verifyMinimalData = (flags AND ScriptVerifyMinimalData = ScriptVerifyMinimalData)\<rparr>,
    vm_astack = \<lparr>stk = [], verifyMinimalData = (flags AND ScriptVerifyMinimalData = ScriptVerifyMinimalData)\<rparr>,
    vm_condStack = [], vm_numOps = 0, vm_witnessVersion = 2, vm_witnessProgram = Some loose_redeem, vm_inputAmount = inputAmount,
    vm_txAssets = assets, vm_taprootCtx = None\<rparr>"
  have new: "NewEngine (p2sh_script env loose_redeem) tx txIdx flags sigCache hashCache inputAmount assets prevOutFetcher = Inr vm"
    using assms facts no len pk
    by (simp add: NewEngine_def hasFlag_def set_witness_program_def find_witness_program_def check_scripts_def MaxScriptSize_def serr_def
        vm_def p2sh_script_def Let_def)
  have "vm = state vm [loose_script, p2sh_script env loose_redeem] 0 [] [] 0 (MakeScriptTokenizer 0 loose_script) 0"
    by (simp add: state_def vm_def)
  then have "config vm [loose_script, p2sh_script env loose_redeem] 0 [] loose_script [] 0 vm"
    using NewEngine_running [OF new] state_config by metis
  then show ?thesis using new by (intro that) (simp_all add: vm_def plain_def)
qed

lemma push_allowed_hash: "length h = 20 \<Longrightarrow> push_allowed vm0 0x14 h"
  by (simp add: push_allowed_def checkMinimalDataPush_def Let_def)

text \<open>A script hash that matches leads to the script that was pushed last.\<close>

lemma p2sh_run:
  assumes p: "plain vm0" and b: "vm_bip16 vm0" and h: "length (env_ripemd160 env (env_sha256 env s)) = 20"
    and s: "s \<noteq> []" "checkScriptParses 0 s = Inr ()" and l: "length ys \<le> 998"
    and cfg: "config vm0 [a, p2sh_script env s] 1 (ys @ [s]) (p2sh_script env s) (ys @ [s]) 0 vm"
  obtains vm' where "execute_loop env vm = execute_loop env vm'"
    "config vm0 [a, p2sh_script env s, s] 2 (ys @ [s]) s ys 0 vm'"
proof -
  let ?h = "env_ripemd160 env (env_sha256 env s)" and ?pk = "p2sh_script env s"
  note pk = p2sh_tokens(1-3) [OF h]
  obtain vm1 where 1: "Step env vm = Inr (False, vm1)" "config vm0 [a, ?pk] 1 (ys @ [s]) (0x14 # ?h @ [0x87]) (ys @ [?h]) 1 vm1"
    by (rule config_step [OF cfg p, of 1 "0xa9" None env "ys @ [?h]" 1])
      (use p pk l in \<open>simp_all add: exec_hash160 MaxStackSize_def MaxOpsPerScript_def p2sh_script_def\<close>)
  obtain vm2 where 2: "Step env vm1 = Inr (False, vm2)" "config vm0 [a, ?pk] 1 (ys @ [s]) [0x87] (ys @ [?h, ?h]) 1 vm2"
    by (rule config_step [OF 1(2) p, of 21 "0x14" "Some ?h" env "ys @ [?h, ?h]" 1])
      (use p h pk l push_allowed_hash [OF h, of vm0] in \<open>simp_all add: exec_push MaxStackSize_def MaxScriptElementSize_def\<close>)
  obtain t c where 3: "Step env vm2 = end_script env (state vm0 [a, ?pk] 1 (ys @ [s]) (ys @ [[1]]) 2 t c)"
    by (rule config_last [OF 2(2) p, of "0x87" None env "ys @ [[1]]" 2])
      (use p pk l in \<open>simp_all add: exec_equal MaxStackSize_def MaxOpsPerScript_def fromBool_def numeral_2_eq_2\<close>)
  obtain vm3 where 4: "Step env vm2 = Inr (False, vm3)" "config vm0 [a, ?pk, s] 2 (ys @ [s]) s ys 0 vm3"
    by (rule end_second [OF p b _ s, of "[a, ?pk]" "[1]" env ys ys 2 t c]) (simp_all add: 3)
  show ?thesis using that [of vm3] 4(2) loop_step [OF 1(1)] loop_step [OF 2(1)] loop_step [OF 4(1)] by simp
qed

lemma exec_checksig_panics:
  assumes "plain vm0" "vm_witnessProgram vm0 = Some p" "vm_witnessVersion vm0 \<noteq> 0" "sig \<noteq> []"
  shows "executeOpcode env 0xac [] (state vm0 scripts idx saved (ds @ [sig, pk]) 0 t c) = Inl EnginePanic"
proof -
  have "pop_with PopByteArray (state vm0 scripts idx saved (ds @ [sig, pk]) n t c) = Inr (pk, state vm0 scripts idx saved (ds @ [sig]) n t c)" for n
    using pop_state [where ds = "ds @ [sig]" and x = pk] by simp
  then show ?thesis
    using assms
    by (simp add: exec_counted MaxOpsPerScript_def isOpcodeDisabled_def op_func_def opcode_table_def opcodeCheckSig_def pop_state
        isWitnessVersionActive_def) (simp add: plain_def)
qed

lemma loose_tokens:
  "step_token loose_script = Some (1, 0x51, None)" "step_token (drop 1 loose_script) = Some (1, 0x52, None)"
  "step_token (drop 2 loose_script) = Some (3, 0x02, Some loose_redeem)" "step_token loose_redeem = Some (1, 0xac, None)"
  "checkScriptParses 0 loose_redeem = Inr ()"
  by code_simp+

lemma push_allowed_redeem: "push_allowed vm0 0x02 loose_redeem"
  by (simp add: push_allowed_def loose_redeem_def checkMinimalDataPush_def Let_def)

text \<open>
  C21 (a witness under a script hash can crash the node): Let an output pay to the hash of the script
  \<^verbatim>\<open>OP_CHECKSIG OP_NOP\<close> and let the input that spends it have the signature script
  \<^verbatim>\<open>OP_1 OP_2 <OP_CHECKSIG OP_NOP>\<close> and any witness that is not empty.  \<^verbatim>\<open>NewEngine\<close> accepts the
  signature script as the push of a witness program of version 2, and when \<^verbatim>\<open>Execute\<close> reaches
  \<^verbatim>\<open>OP_CHECKSIG\<close> no signature verifier is set and the call on nil panics, for every transaction,
  every hash function with digests of 20 bytes and all flags with P2SH and witness rules.
\<close>

theorem nested_witness_panics:
  assumes "0 \<le> txIdx" "txIdx < int (length (TxIns tx))"
    and "flags AND ScriptBip16 = ScriptBip16" "flags AND ScriptVerifyWitness = ScriptVerifyWitness"
    and "SignatureScript (TxIns tx ! nat txIdx) = loose_script" "Witness (TxIns tx ! nat txIdx) \<noteq> []"
    and h: "length (env_ripemd160 env (env_sha256 env loose_redeem)) = 20"
  shows "\<exists>vm. NewEngine (p2sh_script env loose_redeem) tx txIdx flags sigCache hashCache inputAmount assets prevOutFetcher = Inr vm \<and>
              Execute env vm = Some (Inl EnginePanic)"
proof -
  let ?pk = "p2sh_script env loose_redeem"
  obtain vm where new: "NewEngine ?pk tx txIdx flags sigCache hashCache inputAmount assets prevOutFetcher = Inr vm"
    and p: "plain vm" and b: "vm_bip16 vm" and w: "vm_witnessProgram vm = Some loose_redeem" "vm_witnessVersion vm = 2"
    and cfg: "config vm [loose_script, ?pk] 0 [] loose_script [] 0 vm"
    by (rule loose_engine [OF assms])
  have len: "length loose_script = 5" "loose_redeem \<noteq> []" "length loose_redeem = 2" by (simp_all add: loose_script_def loose_redeem_def)
  obtain vm1 where 1: "Step env vm = Inr (False, vm1)" "config vm [loose_script, ?pk] 0 [] (drop 1 loose_script) [[1]] 0 vm1"
    by (rule config_step [OF cfg p loose_tokens(1), of env "[[1]]" 0]) (use p len in \<open>simp_all add: exec_smallint [where ds = "[]", simplified] MaxStackSize_def\<close>)
  obtain vm2 where 2: "Step env vm1 = Inr (False, vm2)" "config vm [loose_script, ?pk] 0 [] (drop 2 loose_script) [[1], [2]] 0 vm2"
    by (rule config_step [OF 1(2) p loose_tokens(2), of env "[[1], [2]]" 0])
      (use p len in \<open>simp_all add: exec_smallint [where ds = "[[1]]", simplified] MaxStackSize_def numeral_2_eq_2\<close>)
  obtain t c where 3: "Step env vm2 = end_script env (state vm [loose_script, ?pk] 0 [] [[1], [2], loose_redeem] 0 t c)"
    by (rule config_last [OF 2(2) p, of "0x02" "Some loose_redeem" env "[[1], [2], loose_redeem]" 0])
      (use p len loose_tokens(3) push_allowed_redeem [of vm] in \<open>simp_all add: exec_push [where ds = "[[1], [2]]", simplified] MaxStackSize_def MaxScriptElementSize_def\<close>)
  obtain vm3 where 4: "Step env vm2 = Inr (False, vm3)" "config vm [loose_script, ?pk] 1 [[1], [2], loose_redeem] ?pk [[1], [2], loose_redeem] 0 vm3"
    by (rule end_first [OF p b, of "[loose_script, ?pk]" env "[]" "[[1], [2], loose_redeem]" 0 t c]) (simp_all add: 3 p2sh_script_def)
  obtain vm6 where 5: "execute_loop env vm3 = execute_loop env vm6"
      "config vm [loose_script, ?pk, loose_redeem] 2 [[1], [2], loose_redeem] loose_redeem [[1], [2]] 0 vm6"
    by (rule p2sh_run [OF p b h len(2) loose_tokens(5), of "[[1], [2]]" loose_script vm3]) (use 4(2) in simp_all)
  have "Step env vm6 = Inl EnginePanic"
    using 5(2) exec_checksig_panics [OF p w(1), where env = env and ds = "[]" and sig = "[1]" and pk = "[2]", simplified] w(2)
    by (auto simp: config_def Step_running loose_tokens(4) advance_state)
  then have "execute_loop env vm6 = Some (Inl EnginePanic)" by (subst execute_loop.simps) simp
  moreover have "execute_loop env vm = execute_loop env vm6"
    using loop_step [OF 1(1)] loop_step [OF 2(1)] loop_step [OF 4(1)] 5(1) by simp
  ultimately show ?thesis using new p by (auto simp: Execute_def plain_def)
qed

theorem nested_witness_panics_witness:
  "\<exists>vm. NewEngine (p2sh_script sample_env loose_redeem)
        (sighash_sample\<lparr>TxIns := [\<lparr>PreviousOutPoint = \<lparr>Hash = replicate 32 7, Index = 1\<rparr>, SignatureScript = loose_script,
           Witness = [[]], Sequence = 5\<rparr>]\<rparr>) 0 0x1001 None None 0 [] taproot_sample_fetcher = Inr vm \<and>
        Execute sample_env vm = Some (Inl EnginePanic)"
  by (rule nested_witness_panics) (simp_all add: sample_env_def loose_redeem_def min_def)

end
