(* ===== verification/Compress.thy ===== *)
theory Compress
  imports Wire_Tx Script_Standard
begin

text \<open>
  \<^verbatim>\<open>blockchain/compress.go\<close>: variable-length quantities, the compression of scripts and
  amounts, and the compressed transaction outputs the UTXO set and the spend journal store.
  A \<^verbatim>\<open>put\<close> function of the source fills a slice its caller sized with the matching
  \<^verbatim>\<open>size\<close> function; here it returns the bytes, and the lemmas show that the sizes agree, so
  that no write is out of range.  \<^verbatim>\<open>int\<close> is 64 bits wide.  The public keys of
  \<^verbatim>\<open>btcec\<close> are those of an external package: \<open>pubkey_ops\<close> is a parameter.
\<close>

unbundle bit_operations_syntax

section \<open>Variable-length quantities\<close>

lemma unat_vlq_next:
  assumes "(0x7f::u64) < n"
  shows "Suc (unat (drop_bit 7 n - 1)) = unat n div 128"
proof -
  have "128 \<le> unat n" using assms by (simp add: word_less_nat_alt)
  then have "1 \<le> unat n div 128" by simp
  moreover have "unat (drop_bit 7 n) = unat n div 128" by (simp add: drop_bit_eq_div unat_div)
  ultimately show ?thesis by (subst unat_minus_one) (auto simp: unat_eq_0 [symmetric])
qed

lemma vlq_decreases: "(0x7f::u64) < n \<Longrightarrow> unat (drop_bit 7 n - 1) < unat n"
  using unat_vlq_next [of n] div_le_dividend [of "unat n" 128] by linarith

function serializeSizeVLQ :: "u64 \<Rightarrow> nat" where
  "serializeSizeVLQ n = (if n > 0x7f then Suc (serializeSizeVLQ (drop_bit 7 n - 1)) else 1)"
  by pat_completeness auto
termination by (relation "measure unat") (simp_all add: vlq_decreases)

text \<open>The first loop of \<^verbatim>\<open>putVLQ\<close>, least significant group first; the second one reverses.\<close>

function putVLQ_loop :: "byte \<Rightarrow> u64 \<Rightarrow> bytes" where
  "putVLQ_loop highBitMask n =
     (ucast (n AND 0x7f) OR highBitMask) #
     (if n \<le> 0x7f then [] else putVLQ_loop 0x80 (drop_bit 7 n - 1))"
  by pat_completeness auto
termination
  by (relation "measure (\<lambda>(_, n). unat n)") (simp_all add: vlq_decreases not_le)

declare serializeSizeVLQ.simps [simp del] putVLQ_loop.simps [simp del]

definition putVLQ :: "u64 \<Rightarrow> bytes" where
  "putVLQ n = rev (putVLQ_loop 0 n)"

fun deserializeVLQ_loop :: "bytes \<Rightarrow> u64 \<Rightarrow> nat \<Rightarrow> u64 \<times> nat" where
  "deserializeVLQ_loop [] n sz = (n, sz)"
| "deserializeVLQ_loop (val # serialized) n sz =
     (let n = push_bit 7 n OR ucast (val AND 0x7f)
      in if val AND 0x80 \<noteq> 0x80 then (n, sz + 1)
         else deserializeVLQ_loop serialized (n + 1) (sz + 1))"

definition deserializeVLQ :: "bytes \<Rightarrow> u64 \<times> nat" where
  "deserializeVLQ serialized = deserializeVLQ_loop serialized 0 0"

subsection \<open>Round trip\<close>

lemma putVLQ_loop_small: "n \<le> 0x7f \<Longrightarrow> putVLQ_loop h n = [ucast (n AND 0x7f) OR h]"
  by (subst putVLQ_loop.simps) simp

lemma putVLQ_loop_large:
  "\<not> n \<le> 0x7f \<Longrightarrow>
   putVLQ_loop h n = (ucast (n AND 0x7f) OR h) # putVLQ_loop 0x80 (drop_bit 7 n - 1)"
  by (subst putVLQ_loop.simps) simp

lemma serializeSizeVLQ_small: "n \<le> 0x7f \<Longrightarrow> serializeSizeVLQ n = 1"
  by (subst serializeSizeVLQ.simps) (simp add: not_less [symmetric])

lemma serializeSizeVLQ_large:
  "\<not> n \<le> 0x7f \<Longrightarrow> serializeSizeVLQ n = Suc (serializeSizeVLQ (drop_bit 7 n - 1))"
  by (subst serializeSizeVLQ.simps) (simp add: not_le)

lemmas vlq_small = putVLQ_loop_small serializeSizeVLQ_small
lemmas vlq_large = putVLQ_loop_large serializeSizeVLQ_large

lemma length_putVLQ_loop: "length (putVLQ_loop h n) = serializeSizeVLQ n"
proof (induction h n rule: putVLQ_loop.induct)
  case (1 h n)
  then show ?case by (cases "n \<le> 0x7f") (simp_all add: vlq_small vlq_large)
qed

lemma bit_80: "bit (0x80::byte) k \<longleftrightarrow> k = 7" "bit (0x80::int) k \<longleftrightarrow> k = 7"
proof -
  have "bit (2 ^ 7 :: byte) k \<longleftrightarrow> k = 7" "bit (2 ^ 7 :: int) k \<longleftrightarrow> k = 7"
    by (auto simp only: bit_exp_iff possible_bit_word) simp_all
  then show "bit (0x80::byte) k \<longleftrightarrow> k = 7" "bit (0x80::int) k \<longleftrightarrow> k = 7" by simp_all
qed

lemma mask_7f: "(0x7f::u64) = mask 7" "(0x7f::byte) = mask 7"
  by (simp_all add: mask_eq_exp_minus_1)

lemma vlq_group:
  "ucast ((ucast ((n::u64) AND 0x7f) OR 0x80 :: byte) AND 0x7f) = n AND 0x7f"
  "ucast ((ucast ((n::u64) AND 0x7f) :: byte) AND 0x7f) = n AND 0x7f"
  "(ucast ((n::u64) AND 0x7f) OR 0x80 :: byte) AND 0x80 = 0x80"
  "(ucast ((n::u64) AND 0x7f) :: byte) AND 0x80 = 0"
  unfolding mask_7f by (rule bit_word_eqI, auto simp: bit_simps bit_80)+

lemma vlq_join: "push_bit 7 (drop_bit 7 n) OR (n AND 0x7f) = (n::u64)"
  unfolding mask_7f by (rule bit_word_eqI) (auto simp: bit_simps)

lemma vlq_single: "n \<le> 0x7f \<Longrightarrow> n AND 0x7f = (n::u64)"
proof -
  assume "n \<le> 0x7f"
  then have "unat n < 2 ^ 7" by (simp add: word_le_nat_alt)
  then have "take_bit 7 n = n" by (simp add: word_unat_eq_iff unsigned_take_bit_eq take_bit_nat_eq_self)
  then show ?thesis by (simp add: take_bit_eq_mask mask_eq_exp_minus_1)
qed

lemma deserializeVLQ_high:
  "deserializeVLQ_loop (rev (putVLQ_loop 0x80 m) @ rest) 0 sz =
   deserializeVLQ_loop rest (m + 1) (sz + serializeSizeVLQ m)"
proof (induction "0x80 :: byte" m arbitrary: rest sz rule: putVLQ_loop.induct)
  case (1 m)
  show ?case
  proof (cases "m \<le> 0x7f")
    case True
    then show ?thesis
      using vlq_group [of m, unfolded vlq_single [OF True]] by (simp add: vlq_small vlq_single)
  next
    case False
    then show ?thesis using 1 [OF False] by (simp add: vlq_large vlq_group vlq_join)
  qed
qed

lemma deserialize_putVLQ: "deserializeVLQ (putVLQ n @ rest) = (n, serializeSizeVLQ n)"
proof (cases "n \<le> 0x7f")
  case True
  then show ?thesis
    using vlq_group [of n, unfolded vlq_single [OF True]]
    by (simp add: putVLQ_def deserializeVLQ_def vlq_small vlq_single)
next
  case False
  then show ?thesis
    by (simp add: putVLQ_def deserializeVLQ_def vlq_large vlq_group vlq_join deserializeVLQ_high)
qed

lemma length_putVLQ [size_simps]: "length (putVLQ n) = serializeSizeVLQ n"
  by (simp add: putVLQ_def length_putVLQ_loop)

section \<open>Amounts\<close>

text \<open>The loop that strips up to nine trailing zeros.\<close>

function stripTens :: "u64 \<Rightarrow> u64 \<Rightarrow> u64 \<times> u64" where
  "stripTens amount exponent =
     (if amount mod 10 = 0 \<and> exponent < 9 then stripTens (amount div 10) (exponent + 1)
      else (amount, exponent))"
  by pat_completeness auto
termination
proof (relation "measure (\<lambda>(_, e). 9 - unat e)", simp, clarsimp)
  fix e :: u64
  assume e: "e < 9"
  then have "unat e < 9" by (simp add: word_less_nat_alt)
  moreover from this have "unat (e + 1) = unat e + 1" by (simp add: unat_word_ariths)
  ultimately show "9 - unat (e + 1) < 9 - unat e" by simp
qed

definition compressTxOutAmount :: "u64 \<Rightarrow> u64" where
  "compressTxOutAmount amount =
     (if amount = 0 then 0
      else case stripTens amount 0 of (amount, exponent) \<Rightarrow>
        if exponent < 9 then
          let lastDigit = amount mod 10; amount = amount div 10
          in 1 + 10 * (9 * amount + lastDigit - 1) + exponent
        else 10 + 10 * (amount - 1))"

text \<open>The loop that applies the exponent.\<close>

lemma Suc_unat_pred: "(0::u64) < e \<Longrightarrow> unat e = Suc (unat (e - 1))"
  by (simp add: unat_minus_one word_gt_0 unat_gt_0)

function applyTens :: "u64 \<Rightarrow> u64 \<Rightarrow> u64" where
  "applyTens n exponent = (if exponent > 0 then applyTens (n * 10) (exponent - 1) else n)"
  by pat_completeness auto
termination
proof (relation "measure (\<lambda>(_, e). unat e)", simp)
  fix n e :: u64
  assume "e > 0"
  then show "((n * 10, e - 1), n, e) \<in> measure (\<lambda>(_, e). unat e)"
    using Suc_unat_pred [of e] by simp
qed

declare stripTens.simps [simp del] applyTens.simps [simp del]

definition decompressTxOutAmount :: "u64 \<Rightarrow> u64" where
  "decompressTxOutAmount amount =
     (if amount = 0 then 0
      else
        let amount = amount - 1; exponent = amount mod 10; amount = amount div 10;
            n = (if exponent < 9 then
                   let lastDigit = amount mod 9 + 1; amount = amount div 9
                   in amount * 10 + lastDigit
                 else amount + 1)
        in applyTens n exponent)"

subsection \<open>Round trip\<close>

lemma applyTens_eq: "applyTens n e = n * 10 ^ unat e"
proof (induction n e rule: applyTens.induct)
  case (1 n e)
  show ?case
  proof (cases "e > 0")
    case True
    from 1 [OF True] show ?thesis
      by (subst applyTens.simps) (simp only: True if_True Suc_unat_pred [OF True] power_Suc mult.assoc)
  next
    case False
    then have "e = 0" by (simp add: word_gt_0)
    then show ?thesis by (subst applyTens.simps) simp
  qed
qed

lemma stripTens_eq:
  "stripTens a e = (a', e') \<Longrightarrow> e \<le> 9 \<Longrightarrow>
     e \<le> e' \<and> e' \<le> 9 \<and> unat a = unat a' * 10 ^ (unat e' - unat e) \<and> (e' < 9 \<longrightarrow> a' mod 10 \<noteq> 0)"
proof (induction a e rule: stripTens.induct)
  case (1 a e)
  show ?case
  proof (cases "a mod 10 = 0 \<and> e < 9")
    case True
    then have e: "unat e < 9" by (simp add: word_less_nat_alt)
    then have e1: "unat (e + 1) = unat e + 1" by (simp add: unat_word_ariths)
    have "unat (a mod 10) = 0" using True by simp
    then have a: "unat a = 10 * (unat a div 10)" by (auto simp: unat_mod)
    have "stripTens (a div 10) (e + 1) = (a', e')" using 1(2) True by (subst (asm) stripTens.simps) simp
    moreover have "e + 1 \<le> 9" using e e1 by (simp add: word_le_nat_alt)
    ultimately have IH: "e + 1 \<le> e'" "e' \<le> 9" "e' < 9 \<longrightarrow> a' mod 10 \<noteq> 0"
      and ad: "unat a div 10 = unat a' * 10 ^ (unat e' - unat (e + 1))"
      using 1(1) [OF True] by (auto simp: unat_div)
    from IH(1) e1 have ee: "unat e + 1 \<le> unat e'" by (simp add: word_le_nat_alt)
    then have "unat e' - unat e = Suc (unat e' - unat (e + 1))" using e1 by simp
    then have "unat a = unat a' * 10 ^ (unat e' - unat e)" using a ad by simp
    then show ?thesis using IH ee by (simp add: word_le_nat_alt)
  next
    case False
    then have "a' = a \<and> e' = e" using 1(2) by (subst (asm) stripTens.simps) auto
    then show ?thesis using False 1(3) by auto
  qed
qed

lemma unat_u64: "n < 2 ^ 64 \<Longrightarrow> unat (word_of_nat n :: u64) = n"
  by (simp add: unsigned_of_nat take_bit_nat_eq_self)

lemma word_of_nat_div_mod:
  assumes "C < 2 ^ 64" "0 < k" "k < 2 ^ 64"
  shows "(word_of_nat C :: u64) div word_of_nat k = word_of_nat (C div k)"
    and "(word_of_nat C :: u64) mod word_of_nat k = word_of_nat (C mod k)"
proof -
  have "C div k < 2 ^ 64" "C mod k < 2 ^ 64"
    using assms(1) by (meson div_le_dividend mod_less_eq_dividend le_less_trans)+
  then show "(word_of_nat C :: u64) div word_of_nat k = word_of_nat (C div k)"
    "(word_of_nat C :: u64) mod word_of_nat k = word_of_nat (C mod k)"
    using assms by (simp_all only: word_unat_eq_iff unat_div unat_mod unat_u64)
qed

lemma decompress_nat:
  assumes C: "Suc C < 2 ^ 64"
  shows "decompressTxOutAmount (word_of_nat (Suc C)) =
    word_of_nat ((if C mod 10 < 9 then C div 10 div 9 * 10 + (C div 10 mod 9 + 1) else C div 10 + 1) *
      10 ^ (C mod 10))"
proof -
  let ?w = "word_of_nat C :: u64"
  have u: "unat ?w = C" using C by (intro unat_u64) simp
  have "unat (word_of_nat (Suc C) :: u64) = Suc C" using C by (rule unat_u64)
  then have nz: "(word_of_nat (Suc C) :: u64) \<noteq> 0" by (metis nat.distinct(1) unat_0)
  have m: "unat (?w mod 10) = C mod 10" by (simp add: unat_mod u)
  then have l: "?w mod 10 < 9 \<longleftrightarrow> C mod 10 < 9" by (simp add: word_less_nat_alt)
  have C': "C < 2 ^ 64" "C div 10 < 2 ^ 64" using C by (auto intro: le_less_trans [OF div_le_dividend])
  have d: "?w div 10 = word_of_nat (C div 10)" "word_of_nat (C div 10) div (9::u64) = word_of_nat (C div 10 div 9)"
    "word_of_nat (C div 10) mod (9::u64) = word_of_nat (C div 10 mod 9)"
    using word_of_nat_div_mod [OF C'(1), of 10] word_of_nat_div_mod [OF C'(2), of 9] by simp_all
  have w: "word_of_nat (Suc C) - 1 = ?w" by simp
  show ?thesis
    unfolding decompressTxOutAmount_def Let_def w applyTens_eq m d l if_not_P [OF nz]
    by (cases "C mod 10 < 9") (simp_all only: if_True if_False of_nat_mult of_nat_add of_nat_power of_nat_numeral of_nat_1)
qed

text \<open>The compressed amount less one, over the natural numbers.\<close>

definition packed :: "nat \<Rightarrow> nat \<Rightarrow> nat" where
  "packed A e = (if e < 9 then 10 * (9 * (A div 10) + (A mod 10 - 1)) + e else 10 * (A - 1) + 9)"

lemma divmod_10:
  fixes s :: nat
  assumes "s < 10"
  shows "(10 * x + s) div 10 = x" "(10 * x + s) mod 10 = s"
  using assms by simp_all

lemma packed_digit: "e < 9 \<Longrightarrow> r < 9 \<Longrightarrow> packed (10 * q + Suc r) e = 10 * (9 * q + r) + e"
proof -
  assume e: "e < 9" and r: "r < 9"
  have "Suc r < 10" using r by simp
  then show ?thesis unfolding packed_def using e by (simp only: divmod_10 if_True diff_Suc_1)
qed

lemma last_digit: "A mod 10 \<noteq> 0 \<Longrightarrow> (\<And>q r. A = 10 * q + Suc r \<Longrightarrow> r < 9 \<Longrightarrow> P) \<Longrightarrow> P" for A :: nat
proof -
  assume A: "A mod 10 \<noteq> 0" and P: "\<And>q r. A = 10 * q + Suc r \<Longrightarrow> r < 9 \<Longrightarrow> P"
  have "A = 10 * (A div 10) + Suc (A mod 10 - 1)" "A mod 10 - 1 < 9" using A by simp_all
  then show P by (rule P)
qed

lemma packed_bound:
  assumes "0 < A" "e < 9 \<longrightarrow> A mod 10 \<noteq> 0" "e \<le> 9"
  shows "Suc (packed A e) \<le> 9 * (A * 10 ^ e)"
proof (cases "e < 9")
  case True
  then have "A mod 10 \<noteq> 0" using assms by simp
  then obtain q r where A: "A = 10 * q + Suc r" "r < 9" by (rule last_digit)
  have "Suc e \<le> 10 ^ e" by (induction e) simp_all
  then have e: "A * Suc e \<le> A * 10 ^ e" by (rule mult_le_mono2)
  have "Suc (packed A e) \<le> 9 * A + e" unfolding A(1) packed_digit [OF True A(2)] using A(2) by simp
  also have "\<dots> \<le> 9 * (A * Suc e)" using assms(1) by (cases A) simp_all
  finally show ?thesis using e by simp
next
  case False
  then have "e = 9" using assms(3) by simp
  then show ?thesis using assms(1) by (simp add: packed_def)
qed

lemma unpacked:
  assumes "0 < A" "e < 9 \<longrightarrow> A mod 10 \<noteq> 0" "e \<le> 9"
  shows "packed A e mod 10 = e"
    "(if packed A e mod 10 < 9 then packed A e div 10 div 9 * 10 + (packed A e div 10 mod 9 + 1)
      else packed A e div 10 + 1) = A"
proof -
  have "packed A e mod 10 = e \<and>
    (if e < 9 then packed A e div 10 div 9 * 10 + (packed A e div 10 mod 9 + 1)
      else packed A e div 10 + 1) = A"
  proof (cases "e < 9")
    case True
    then have "A mod 10 \<noteq> 0" using assms by simp
    then obtain q r where A: "A = 10 * q + Suc r" "r < 9" by (rule last_digit)
    have m: "packed A e mod 10 = e" "packed A e div 10 = 9 * q + r"
      unfolding A(1) packed_digit [OF True A(2)] using True by (intro divmod_10; simp)+
    have "(9 * q + r) div 9 = q" "(9 * q + r) mod 9 = r" using A(2) by simp_all
    with m True A(1) show ?thesis by simp
  next
    case False
    with assms show ?thesis by (auto simp: packed_def)
  qed
  then show "packed A e mod 10 = e"
    "(if packed A e mod 10 < 9 then packed A e div 10 div 9 * 10 + (packed A e div 10 mod 9 + 1)
      else packed A e div 10 + 1) = A"
    by simp_all
qed

lemma compress_packed:
  assumes "a \<noteq> 0"
  obtains A e where "unat a = A * 10 ^ e" "0 < A" "e < 9 \<longrightarrow> A mod 10 \<noteq> 0" "e \<le> 9"
    "compressTxOutAmount a = word_of_nat (Suc (packed A e))"
proof -
  obtain a' e' where s: "stripTens a 0 = (a', e')" by fastforce
  then have e: "e' \<le> 9" and a: "unat a = unat a' * 10 ^ unat e'" and d: "e' < 9 \<longrightarrow> a' mod 10 \<noteq> 0"
    using stripTens_eq [OF s] by auto
  have e9: "unat e' \<le> 9" using e by (simp add: word_le_nat_alt)
  have l: "e' < 9 \<longleftrightarrow> unat e' < 9" by (simp add: word_less_nat_alt)
  have A: "0 < unat a'" using a assms by (metis mult_is_0 neq0_conv unat_eq_zero)
  have u10: "unat (a' mod 10) = unat a' mod 10" by (simp add: unat_mod)
  have d': "unat e' < 9 \<longrightarrow> unat a' mod 10 \<noteq> 0"
    using d l u10 by (metis unat_eq_zero)
  have w: "a' div 10 = word_of_nat (unat a' div 10)" "a' mod 10 = word_of_nat (unat a' mod 10)"
    using word_of_nat_div_mod [of "unat a'" 10] unat_less_width(4) [of a'] by simp_all
  have "compressTxOutAmount a = word_of_nat (Suc (packed (unat a') (unat e')))"
  proof (cases "e' < 9")
    case True
    then have d1: "1 \<le> unat a' mod 10" using d' l by simp
    have "compressTxOutAmount a = 1 + 10 * (9 * (a' div 10) + a' mod 10 - 1) + e'"
      using assms True by (simp add: compressTxOutAmount_def s Let_def)
    also have "\<dots> = 1 + (10 * (9 * word_of_nat (unat a' div 10) + word_of_nat (unat a' mod 10 - 1)) + word_of_nat (unat e'))"
      by (simp only: w of_nat_diff [OF d1]) (simp add: algebra_simps)
    also have "\<dots> = word_of_nat (Suc (packed (unat a') (unat e')))"
      using True l by (simp add: packed_def)
    finally show ?thesis .
  next
    case False
    have "compressTxOutAmount a = 10 + 10 * (a' - 1)"
      using assms False by (simp add: compressTxOutAmount_def s)
    also have "\<dots> = 10 + 10 * word_of_nat (unat a' - 1)"
      using A by (simp add: of_nat_diff Suc_le_eq)
    also have "\<dots> = word_of_nat (Suc (packed (unat a') (unat e')))"
      using False l by (simp add: packed_def)
    finally show ?thesis .
  qed
  from that [OF a A d' e9 this] show thesis .
qed

lemma decompress_compress:
  assumes "9 * unat a < 2 ^ 64"
  shows "decompressTxOutAmount (compressTxOutAmount a) = a"
proof (cases "a = 0")
  case True
  then show ?thesis by (simp add: compressTxOutAmount_def decompressTxOutAmount_def)
next
  case False
  obtain A e where A: "unat a = A * 10 ^ e" "0 < A" "e < 9 \<longrightarrow> A mod 10 \<noteq> 0" "e \<le> 9"
    and c: "compressTxOutAmount a = word_of_nat (Suc (packed A e))"
    using compress_packed [OF False] by blast
  have "Suc (packed A e) < 2 ^ 64" using packed_bound [OF A(2-4)] assms A(1) by simp
  then have "decompressTxOutAmount (compressTxOutAmount a) = word_of_nat (A * 10 ^ e)"
    unfolding c by (simp only: decompress_nat unpacked(2) [OF A(2-4)]) (simp only: unpacked(1) [OF A(2-4)])
  also have "\<dots> = a" by (simp flip: A(1))
  finally show ?thesis .
qed

section \<open>Scripts\<close>

text \<open>
  \<^verbatim>\<open>btcec.ParsePubKey\<close> and \<^verbatim>\<open>PublicKey.SerializeUncompressed\<close>.  \<open>pubkeys_recover\<close> is what the
  compression relies on: the x coordinate and the oddness of y determine a valid key.
\<close>

record 'k pubkey_ops =
  ParsePubKey :: "bytes \<Rightarrow> 'k option"
  SerializeUncompressed :: "'k \<Rightarrow> bytes"

definition pubkeys_recover :: "'k pubkey_ops \<Rightarrow> bool" where
  "pubkeys_recover kops \<longleftrightarrow>
     (\<forall>s. length s = 65 \<longrightarrow> s ! 0 = 0x04 \<longrightarrow> ParsePubKey kops s \<noteq> None \<longrightarrow>
        map_option (SerializeUncompressed kops)
          (ParsePubKey kops ((0x02 OR (s ! 64 AND 0x01)) # slice s 1 33)) = Some s)"

definition numSpecialScripts :: nat where
  "numSpecialScripts = 6"

definition isPubKeyHash :: "bytes \<Rightarrow> bytes option" where
  "isPubKeyHash script =
     (if length script = 25 \<and> script ! 0 = OP_DUP \<and> script ! 1 = OP_HASH160 \<and>
         script ! 2 = OP_DATA_20 \<and> script ! 23 = OP_EQUALVERIFY \<and> script ! 24 = OP_CHECKSIG
      then Some (slice script 3 23) else None)"

definition isScriptHash :: "bytes \<Rightarrow> bytes option" where
  "isScriptHash script =
     (if length script = 23 \<and> script ! 0 = OP_HASH160 \<and> script ! 1 = OP_DATA_20 \<and>
         script ! 22 = OP_EQUAL
      then Some (slice script 2 22) else None)"

definition isPubKey :: "'k pubkey_ops \<Rightarrow> bytes \<Rightarrow> bytes option" where
  "isPubKey kops script =
     (if length script = 35 \<and> script ! 0 = OP_DATA_33 \<and> script ! 34 = OP_CHECKSIG \<and>
         (script ! 1 = 0x02 \<or> script ! 1 = 0x03) \<and> ParsePubKey kops (slice script 1 34) \<noteq> None
      then Some (slice script 1 34)
      else if length script = 67 \<and> script ! 0 = OP_DATA_65 \<and> script ! 66 = OP_CHECKSIG \<and>
         script ! 1 = 0x04 \<and> ParsePubKey kops (slice script 1 66) \<noteq> None
      then Some (slice script 1 66) else None)"

definition compressedScriptSize :: "'k pubkey_ops \<Rightarrow> bytes \<Rightarrow> nat" where
  "compressedScriptSize kops pkScript =
     (if isPubKeyHash pkScript \<noteq> None then 21
      else if isScriptHash pkScript \<noteq> None then 21
      else if isPubKey kops pkScript \<noteq> None then 33
      else serializeSizeVLQ (word_of_nat (length pkScript + numSpecialScripts)) + length pkScript)"

definition decodeCompressedScriptSize :: "bytes \<Rightarrow> int" where
  "decodeCompressedScriptSize serialized =
     (case deserializeVLQ serialized of (scriptSize, bytesRead) \<Rightarrow>
        if bytesRead = 0 then 0
        else if scriptSize = 0 then 21
        else if scriptSize = 1 then 21
        else if scriptSize \<in> {2, 3, 4, 5} then 33
        else sint (scriptSize - word_of_nat numSpecialScripts + word_of_nat bytesRead))"

text \<open>The encoding the source gives every script that is not one of the special ones.\<close>

definition put_general :: "bytes \<Rightarrow> bytes" where
  "put_general pkScript = putVLQ (word_of_nat (length pkScript + numSpecialScripts)) @ pkScript"

definition putCompressedScript :: "'k pubkey_ops \<Rightarrow> bytes \<Rightarrow> bytes" where
  "putCompressedScript kops pkScript =
     (case isPubKeyHash pkScript of Some hash \<Rightarrow> 0 # hash | None \<Rightarrow>
      case isScriptHash pkScript of Some hash \<Rightarrow> 1 # hash | None \<Rightarrow>
      case isPubKey kops pkScript of Some serializedPubKey \<Rightarrow>
        (let pubKeyFormat = serializedPubKey ! 0
         in if pubKeyFormat = 0x02 \<or> pubKeyFormat = 0x03 then pubKeyFormat # slice serializedPubKey 1 33
            else if pubKeyFormat = 0x04 then
              (pubKeyFormat OR (serializedPubKey ! 64 AND 0x01)) # slice serializedPubKey 1 33
            else put_general pkScript)
      | None \<Rightarrow> put_general pkScript)"

text \<open>
  The copy of \<open>src\<close> into a zeroed slice of length \<open>n\<close>, and the panic of a slice expression
  that reaches beyond the data (\<open>None\<close>).
\<close>

definition copied :: "nat \<Rightarrow> bytes \<Rightarrow> bytes" where
  "copied n src = take n (src @ replicate n 0)"

definition slice_checked :: "bytes \<Rightarrow> nat \<Rightarrow> nat \<Rightarrow> bytes option" where
  "slice_checked s i j = (if i \<le> j \<and> j \<le> length s then Some (slice s i j) else None)"

definition decompressScript :: "'k pubkey_ops \<Rightarrow> bytes \<Rightarrow> bytes option" where
  "decompressScript kops compressedPkScript =
     (if compressedPkScript = [] then Some []
      else case deserializeVLQ compressedPkScript of (encodedScriptSize, bytesRead) \<Rightarrow>
        if encodedScriptSize = 0 then
          map_option (\<lambda>h. [OP_DUP, OP_HASH160, OP_DATA_20] @ h @ [OP_EQUALVERIFY, OP_CHECKSIG])
            (slice_checked compressedPkScript bytesRead (bytesRead + 20))
        else if encodedScriptSize = 1 then
          map_option (\<lambda>h. [OP_HASH160, OP_DATA_20] @ h @ [OP_EQUAL])
            (slice_checked compressedPkScript bytesRead (bytesRead + 20))
        else if encodedScriptSize \<in> {2, 3} then
          map_option (\<lambda>x. [OP_DATA_33, ucast encodedScriptSize] @ x @ [OP_CHECKSIG])
            (slice_checked compressedPkScript bytesRead (bytesRead + 32))
        else if encodedScriptSize \<in> {4, 5} then
          (case ParsePubKey kops (ucast (encodedScriptSize - 2) # copied 32 (drop 1 compressedPkScript)) of
             None \<Rightarrow> Some []
           | Some key \<Rightarrow> Some ([OP_DATA_65] @ copied 65 (SerializeUncompressed kops key) @ [OP_CHECKSIG]))
        else
          let scriptSize = sint (encodedScriptSize - word_of_nat numSpecialScripts)
          in if scriptSize < 0 then None
             else slice_checked compressedPkScript bytesRead (bytesRead + nat scriptSize))"

section \<open>Strings\<close>

datatype deser_error = errDeserialize string | DecimalError | Panic

definition serializeSizeString :: "bytes \<Rightarrow> nat" where
  "serializeSizeString content = serializeSizeVLQ (word_of_nat (length content)) + length content"

definition putString :: "bytes \<Rightarrow> bytes" where
  "putString content = putVLQ (word_of_nat (length content)) @ content"

definition deserializeStringChecked :: "bytes \<Rightarrow> (deser_error \<times> nat) + (bytes \<times> nat)" where
  "deserializeStringChecked compressedString =
     (if compressedString = [] then
        Inl (errDeserialize ''unexpected end of data before string size'', 0)
      else case deserializeVLQ compressedString of (stringSize, bytesRead) \<Rightarrow>
        let e = sint (word_of_nat bytesRead + stringSize)
        in if e < int bytesRead \<or> e > int (length compressedString) then
             Inl (errDeserialize ''unexpected end of data in string'', bytesRead)
           else Inr (slice compressedString bytesRead (nat e), nat e))"

section \<open>Compressed transaction outputs\<close>

definition compressedAssetSize :: "'d decimal_ops \<Rightarrow> 'd AssetInfo \<Rightarrow> nat" where
  "compressedAssetSize dops asset =
     serializeSizeString (Protocol (AssetInfo_Name asset)) +
     serializeSizeString (AssetType (AssetInfo_Name asset)) +
     serializeSizeString (Ticker (AssetInfo_Name asset)) +
     serializeSizeString (ToFormatString dops (Amount asset)) +
     serializeSizeVLQ (ucast (BindingSat asset))"

definition compressedTxOutSize ::
    "'d decimal_ops \<Rightarrow> 'k pubkey_ops \<Rightarrow> u64 \<Rightarrow> 'd TxAssets \<Rightarrow> bytes \<Rightarrow> nat" where
  "compressedTxOutSize dops kops amount assets pkScript =
     serializeSizeVLQ (compressTxOutAmount amount) +
     (serializeSizeVLQ (word_of_nat (length assets)) + sum_list (map (compressedAssetSize dops) assets)) +
     compressedScriptSize kops pkScript"

definition putCompressedAsset :: "'d decimal_ops \<Rightarrow> 'd AssetInfo \<Rightarrow> bytes" where
  "putCompressedAsset dops asset =
     putString (Protocol (AssetInfo_Name asset)) @
     putString (AssetType (AssetInfo_Name asset)) @
     putString (Ticker (AssetInfo_Name asset)) @
     putString (ToFormatString dops (Amount asset)) @
     putVLQ (ucast (BindingSat asset))"

definition putCompressedTxOut ::
    "'d decimal_ops \<Rightarrow> 'k pubkey_ops \<Rightarrow> u64 \<Rightarrow> 'd TxAssets \<Rightarrow> bytes \<Rightarrow> bytes" where
  "putCompressedTxOut dops kops amount assets pkScript =
     putVLQ (compressTxOutAmount amount) @
     putVLQ (word_of_nat (length assets)) @
     concat (map (putCompressedAsset dops) assets) @
     putCompressedScript kops pkScript"

text \<open>One string of an asset: read it, move the offset, and require more data to follow.\<close>

definition next_string :: "bytes \<Rightarrow> string \<Rightarrow> nat \<Rightarrow> (deser_error \<times> nat) + (bytes \<times> nat)" where
  "next_string serialized msg offset =
     (case deserializeStringChecked (drop offset serialized) of
        Inl (err, bytesRead) \<Rightarrow> Inl (err, offset + bytesRead)
      | Inr (content, bytesRead) \<Rightarrow>
          let offset = offset + bytesRead
          in if offset \<ge> length serialized then Inl (errDeserialize msg, offset) else Inr (content, offset))"

text \<open>The body of the loop over the assets.\<close>

definition decodeCompressedAsset ::
    "'d decimal_ops \<Rightarrow> bytes \<Rightarrow> nat \<Rightarrow> (deser_error \<times> nat) + ('d AssetInfo \<times> nat)" where
  "decodeCompressedAsset dops serialized offset =
     andthen (next_string serialized ''unexpected end of data after asset name protocol'' offset) (\<lambda>(assetProtocol, offset).
     andthen (next_string serialized ''unexpected end of data after asset name type'' offset) (\<lambda>(assetType, offset).
     andthen (next_string serialized ''unexpected end of data after asset name ticker'' offset) (\<lambda>(assetTicker, offset).
     andthen (next_string serialized ''unexpected end of data after asset amount'' offset) (\<lambda>(assetAmount, offset).
       case deserializeVLQ (drop offset serialized) of (assetBindingSat, bytesRead) \<Rightarrow>
       let offset = offset + bytesRead in
       if offset \<ge> length serialized then
         Inl (errDeserialize ''unexpected end of data after asset bindingsat'', offset)
       else case NewDecimalFromFormatString dops assetAmount of
         None \<Rightarrow> Inl (DecimalError, offset)
       | Some amt \<Rightarrow> Inr (
           \<lparr>AssetInfo_Name = \<lparr>Protocol = assetProtocol, AssetType = assetType, Ticker = assetTicker\<rparr>,
            Amount = amt, BindingSat = ucast assetBindingSat\<rparr>, offset)))))"

definition decodeCompressedTxOut ::
    "'d decimal_ops \<Rightarrow> 'k pubkey_ops \<Rightarrow> bytes \<Rightarrow>
     (deser_error \<times> nat) + (u64 \<times> 'd TxAssets \<times> bytes \<times> nat)" where
  "decodeCompressedTxOut dops kops serialized =
     (case deserializeVLQ serialized of (compressedAmount, bytesRead) \<Rightarrow>
      if bytesRead \<ge> length serialized then
        Inl (errDeserialize ''unexpected end of data after compressed amount'', bytesRead)
      else let offset = bytesRead in
      case deserializeVLQ (drop offset serialized) of (assetsCount, bytesRead) \<Rightarrow>
      let offset = offset + bytesRead in
      if offset \<ge> length serialized then
        Inl (errDeserialize ''unexpected end of data after assets count'', offset)
      else andthen (repeat_read (nat (sint assetsCount)) (decodeCompressedAsset dops serialized) offset)
        (\<lambda>(txAssets, offset).
          let scriptSize = decodeCompressedScriptSize (drop offset serialized) in
          if int (length serialized - offset) < scriptSize then
            Inl (errDeserialize ''unexpected end of data after script size'', offset)
          else if scriptSize < 0 then Inl (Panic, offset)
          else case decompressScript kops (slice serialized offset (offset + nat scriptSize)) of
            None \<Rightarrow> Inl (Panic, offset)
          | Some script \<Rightarrow>
              Inr (decompressTxOutAmount compressedAmount, txAssets, script, offset + nat scriptSize)))"

subsection \<open>Scripts round trip\<close>

lemma deserializeVLQ_byte: "b AND 0x80 = 0 \<Longrightarrow> deserializeVLQ (b # r) = (ucast (b AND 0x7f), 1)"
  by (simp add: deserializeVLQ_def)

lemma deserializeVLQ_special:
  "deserializeVLQ (0 # r) = (0, 1)" "deserializeVLQ (1 # r) = (1, 1)" "deserializeVLQ (2 # r) = (2, 1)"
  "deserializeVLQ (3 # r) = (3, 1)" "deserializeVLQ (4 # r) = (4, 1)" "deserializeVLQ (5 # r) = (5, 1)"
  by (simp_all add: deserializeVLQ_byte)

text \<open>The form of each special script.\<close>

lemma framed:
  assumes "i \<le> j" "j \<le> length s"
  shows "s = take i s @ slice s i j @ drop j s"
  using append_take_drop_id [of "j - i" "drop i s"] append_take_drop_id [of i s] assms
  by (simp add: slice_def)

lemma isPubKeyHash_form:
  assumes "isPubKeyHash s = Some h"
  shows "length h = 20" "s = [OP_DUP, OP_HASH160, OP_DATA_20] @ h @ [OP_EQUALVERIFY, OP_CHECKSIG]"
proof -
  have *: "length s = 25" "s ! 0 = OP_DUP" "s ! 1 = OP_HASH160" "s ! 2 = OP_DATA_20"
    "s ! 23 = OP_EQUALVERIFY" "s ! 24 = OP_CHECKSIG" "h = slice s 3 23"
    using assms by (auto simp: isPubKeyHash_def split: if_splits)
  moreover have "take 3 s = [s ! 0, s ! 1, s ! 2]" "drop 23 s = [s ! 23, s ! 24]"
    using *(1) by (auto simp: list_eq_iff_nth_eq less_Suc_eq numeral_2_eq_2 numeral_3_eq_3 nth_Cons')
  ultimately show "length h = 20" "s = [OP_DUP, OP_HASH160, OP_DATA_20] @ h @ [OP_EQUALVERIFY, OP_CHECKSIG]"
    using framed [of 3 23 s] by (simp_all add: slice_def)
qed

lemma isScriptHash_form:
  assumes "isScriptHash s = Some h"
  shows "length h = 20" "s = [OP_HASH160, OP_DATA_20] @ h @ [OP_EQUAL]"
proof -
  have *: "length s = 23" "s ! 0 = OP_HASH160" "s ! 1 = OP_DATA_20" "s ! 22 = OP_EQUAL" "h = slice s 2 22"
    using assms by (auto simp: isScriptHash_def split: if_splits)
  moreover have "take 2 s = [s ! 0, s ! 1]" "drop 22 s = [s ! 22]"
    using *(1) by (auto simp: list_eq_iff_nth_eq less_Suc_eq numeral_2_eq_2 nth_Cons')
  ultimately show "length h = 20" "s = [OP_HASH160, OP_DATA_20] @ h @ [OP_EQUAL]"
    using framed [of 2 22 s] by (simp_all add: slice_def)
qed

lemma isPubKey_form:
  assumes "isPubKey kops s = Some k"
  shows "length k = 33 \<and> k ! 0 \<in> {2, 3} \<and> s = [OP_DATA_33] @ k @ [OP_CHECKSIG] \<or>
    length k = 65 \<and> k ! 0 = 4 \<and> ParsePubKey kops k \<noteq> None \<and> s = [OP_DATA_65] @ k @ [OP_CHECKSIG]"
proof -
  have ends: "take 1 s = [s ! 0]" "drop n s = [s ! n]" if "length s = Suc n" for n
    using that by (auto simp: list_eq_iff_nth_eq)
  have k0: "k ! 0 = s ! 1" if "k = slice s 1 j" "1 < j" "j \<le> length s" for j
    using that by (simp add: slice_def)
  from assms consider
    (comp) "length s = 35" "s ! 0 = OP_DATA_33" "s ! 34 = OP_CHECKSIG" "s ! 1 \<in> {2, 3}" "k = slice s 1 34"
  | (full) "length s = 67" "s ! 0 = OP_DATA_65" "s ! 66 = OP_CHECKSIG" "s ! 1 = 4" "k = slice s 1 66"
      "ParsePubKey kops k \<noteq> None"
    by (auto simp: isPubKey_def split: if_splits)
  then show ?thesis
  proof cases
    case comp
    then show ?thesis using framed [of 1 34 s] ends [of 34] k0 [of 34] by (simp add: slice_def)
  next
    case full
    then show ?thesis using framed [of 1 66 s] ends [of 66] k0 [of 66] by (simp add: slice_def)
  qed
qed

text \<open>How a compressed script starts, and so how both decoders read it.\<close>

lemma general_size:
  assumes "length s < 2 ^ 62"
  defines "n \<equiv> word_of_nat (length s + numSpecialScripts) :: u64"
  shows "unat n = length s + 6" "n \<noteq> 0" "n \<noteq> 1" "n \<notin> {2, 3}" "n \<notin> {4, 5}" "n \<notin> {2, 3, 4, 5}"
    "sint (n - word_of_nat numSpecialScripts) = int (length s)"
proof -
  show u: "unat n = length s + 6" using assms by (simp add: n_def numSpecialScripts_def unat_u64 del: of_nat_add)
  then have "\<And>k. n = k \<Longrightarrow> 6 \<le> unat k" by auto
  from this [of 0] this [of 1] this [of 2] this [of 3] this [of 4] this [of 5]
  show "n \<noteq> 0" "n \<noteq> 1" "n \<notin> {2, 3}" "n \<notin> {4, 5}" "n \<notin> {2, 3, 4, 5}" by auto
  have "n - word_of_nat numSpecialScripts = word_of_int (int (length s))" by (simp add: n_def numSpecialScripts_def)
  then show "sint (n - word_of_nat numSpecialScripts) = int (length s)"
    using assms by (simp only:) (subst sint_word_of_int_i64, simp_all)
qed

lemma serializeSizeVLQ_le: "serializeSizeVLQ n \<le> Suc (unat n div 128)"
proof (induction n rule: serializeSizeVLQ.induct)
  case (1 n)
  show ?case
  proof (cases "n \<le> 0x7f")
    case True
    then show ?thesis by (simp add: vlq_small)
  next
    case False
    then have n: "0x7f < n" by simp
    have "serializeSizeVLQ (drop_bit 7 n - 1) \<le> Suc (unat (drop_bit 7 n - 1) div 128)" by (rule 1 [OF n])
    also have "\<dots> \<le> Suc (unat (drop_bit 7 n - 1))" by simp
    also have "\<dots> = unat n div 128" by (rule unat_vlq_next [OF n])
    finally show ?thesis using False by (simp add: vlq_large)
  qed
qed

lemma serializeSizeVLQ_bound: "serializeSizeVLQ n \<le> 2 ^ 57"
proof -
  have "unat n div 128 < 2 ^ 57" using unat_less_width(4) [of n] by (simp add: less_mult_imp_div_less)
  then show ?thesis using serializeSizeVLQ_le [of n] by linarith
qed

lemma serializeSizeVLQ_pos: "0 < serializeSizeVLQ n"
  by (subst serializeSizeVLQ.simps) simp

lemma slice_prefix: "slice (a @ b) 0 (length a) = a"
  by (simp add: slice_def)

lemma put_general_size:
  assumes "length s < 2 ^ 62"
  shows "decodeCompressedScriptSize (put_general s @ r) = int (length (put_general s))"
proof -
  let ?n = "word_of_nat (length s + numSpecialScripts) :: u64"
  have "sint (?n - word_of_nat numSpecialScripts + word_of_nat (serializeSizeVLQ ?n)) =
      sint (word_of_int (int (length s + serializeSizeVLQ ?n)) :: u64)"
    by (simp add: numSpecialScripts_def)
  also have "\<dots> = int (length s + serializeSizeVLQ ?n)"
  proof (rule sint_word_of_int_i64)
    have "length s + serializeSizeVLQ ?n < 2 ^ 63"
      using assms serializeSizeVLQ_bound [of ?n] by simp
    then have "int (length s + serializeSizeVLQ ?n) < int (2 ^ 63)" by (simp only: of_nat_less_iff)
    then show "int (length s + serializeSizeVLQ ?n) < 2 ^ 63" by simp
  qed simp
  finally show ?thesis
    using general_size [OF assms] serializeSizeVLQ_pos [of ?n]
    by (simp add: put_general_def decodeCompressedScriptSize_def deserialize_putVLQ size_simps)
qed

lemma put_general_decompress:
  assumes "length s < 2 ^ 62"
  shows "decompressScript kops (put_general s) = Some s"
proof -
  let ?n = "word_of_nat (length s + numSpecialScripts) :: u64"
  have "putVLQ ?n \<noteq> []" using length_putVLQ [of ?n] serializeSizeVLQ_pos [of ?n] by auto
  then show ?thesis
    using general_size [OF assms] deserialize_putVLQ [of ?n s] length_putVLQ [of ?n]
    by (simp add: put_general_def decompressScript_def Let_def slice_checked_def slice_def)
qed

lemma putCompressedScript_cases:
  obtains (pkh) h where "isPubKeyHash s = Some h" "putCompressedScript kops s = 0 # h"
      "compressedScriptSize kops s = 21"
  | (sh) h where "isScriptHash s = Some h" "putCompressedScript kops s = 1 # h"
      "compressedScriptSize kops s = 21"
  | (comp) k where "length k = 33" "k ! 0 \<in> {2, 3}" "s = [OP_DATA_33] @ k @ [OP_CHECKSIG]"
      "putCompressedScript kops s = k" "compressedScriptSize kops s = 33"
  | (full) k where "length k = 65" "k ! 0 = 4" "ParsePubKey kops k \<noteq> None" "s = [OP_DATA_65] @ k @ [OP_CHECKSIG]"
      "putCompressedScript kops s = (4 OR (k ! 64 AND 1)) # slice k 1 33" "compressedScriptSize kops s = 33"
  | (general) "putCompressedScript kops s = put_general s"
      "compressedScriptSize kops s = length (put_general s)"
proof (cases "isPubKeyHash s")
  case (Some h)
  then show thesis by (intro pkh) (simp_all add: putCompressedScript_def compressedScriptSize_def)
next
  case nh: None
  show thesis
  proof (cases "isScriptHash s")
    case (Some h)
    with nh show thesis by (intro sh) (simp_all add: putCompressedScript_def compressedScriptSize_def)
  next
    case ns: None
    show thesis
    proof (cases "isPubKey kops s")
      case (Some k)
      have k: "length k = 33 \<Longrightarrow> k ! 0 # slice k 1 33 = k"
        using Cons_nth_drop_Suc [of 0 k] by (simp add: slice_def)
      from isPubKey_form [OF Some] show thesis
      proof (elim disjE conjE)
        assume "length k = 33" "k ! 0 \<in> {2, 3}" "s = [OP_DATA_33] @ k @ [OP_CHECKSIG]"
        with k nh ns Some show thesis
          by (intro comp) (auto simp: putCompressedScript_def compressedScriptSize_def)
      next
        assume "length k = 65" "k ! 0 = 4" "ParsePubKey kops k \<noteq> None" "s = [OP_DATA_65] @ k @ [OP_CHECKSIG]"
        with nh ns Some show thesis
          by (intro full) (auto simp: putCompressedScript_def compressedScriptSize_def)
      qed
    next
      case None
      with nh ns show thesis
        by (intro general)
          (simp_all add: putCompressedScript_def compressedScriptSize_def put_general_def size_simps)
    qed
  qed
qed

lemma oddness: "(b::byte) AND 1 = 0 \<or> b AND 1 = 1"
  by (cases "even b") (simp_all add: and_one_eq even_iff_mod_2_eq_zero odd_iff_mod_2_eq_one)

lemma compressed_script_size:
  assumes "length s < 2 ^ 62"
  shows "length (putCompressedScript kops s) = compressedScriptSize kops s"
    "decodeCompressedScriptSize (putCompressedScript kops s @ r) = int (compressedScriptSize kops s)"
proof -
  have "length (putCompressedScript kops s) = compressedScriptSize kops s \<and>
    decodeCompressedScriptSize (putCompressedScript kops s @ r) = int (compressedScriptSize kops s)"
  proof (cases rule: putCompressedScript_cases [of s kops])
    case (pkh h)
    then show ?thesis
      using isPubKeyHash_form(1) [OF pkh(1)] by (simp add: decodeCompressedScriptSize_def deserializeVLQ_special)
  next
    case (sh h)
    then show ?thesis
      using isScriptHash_form(1) [OF sh(1)] by (simp add: decodeCompressedScriptSize_def deserializeVLQ_special)
  next
    case (comp k)
    then obtain b x where "k = b # x" "b = 2 \<or> b = 3" by (cases k) auto
    with comp show ?thesis by (auto simp: decodeCompressedScriptSize_def deserializeVLQ_special)
  next
    case (full k)
    then show ?thesis
      using oddness [of "k ! 64"]
      by (auto simp: decodeCompressedScriptSize_def deserializeVLQ_special slice_def)
  next
    case general
    then show ?thesis by (simp add: put_general_size [OF assms])
  qed
  then show "length (putCompressedScript kops s) = compressedScriptSize kops s"
    "decodeCompressedScriptSize (putCompressedScript kops s @ r) = int (compressedScriptSize kops s)" by simp_all
qed

lemma decompress_compressed_script:
  assumes len: "length s < 2 ^ 62" and keys: "pubkeys_recover kops"
  shows "decompressScript kops (putCompressedScript kops s) = Some s"
proof (cases rule: putCompressedScript_cases [of s kops])
  case (pkh h)
  then show ?thesis using isPubKeyHash_form [OF pkh(1)]
    by (simp add: decompressScript_def deserializeVLQ_special slice_checked_def slice_def)
next
  case (sh h)
  then show ?thesis using isScriptHash_form [OF sh(1)]
    by (simp add: decompressScript_def deserializeVLQ_special slice_checked_def slice_def)
next
  case (comp k)
  then obtain b x where "k = b # x" "b = 2 \<or> b = 3" by (cases k) auto
  with comp show ?thesis
    by (auto simp: decompressScript_def deserializeVLQ_special slice_checked_def slice_def)
next
  case (full k)
  have "map_option (SerializeUncompressed kops)
      (ParsePubKey kops ((2 OR (k ! 64 AND 1)) # slice k 1 33)) = Some k"
    using keys full(1-3) unfolding pubkeys_recover_def by blast
  then obtain key where key: "ParsePubKey kops ((2 OR (k ! 64 AND 1)) # slice k 1 33) = Some key"
    "SerializeUncompressed kops key = k"
    unfolding map_option_eq_Some by blast
  have "copied 32 (slice k 1 33) = slice k 1 33" "copied 65 k = k"
    using full(1) by (simp_all add: copied_def slice_def)
  with key full oddness [of "k ! 64"] show ?thesis
    by (auto simp: decompressScript_def deserializeVLQ_special)
next
  case general
  then show ?thesis by (simp add: put_general_decompress [OF len])
qed

subsection \<open>Outputs round trip\<close>

lemma length_putString [size_simps]: "length (putString s) = serializeSizeString s"
  by (simp add: putString_def serializeSizeString_def size_simps)

lemma deserializeStringChecked_put:
  assumes "length s < 2 ^ 62"
  shows "deserializeStringChecked (putString s @ r) = Inr (s, length (putString s))"
proof -
  let ?n = "word_of_nat (length s) :: u64"
  have e: "sint (word_of_nat (serializeSizeVLQ ?n) + ?n) = int (serializeSizeVLQ ?n + length s)"
  proof -
    have "serializeSizeVLQ ?n + length s < 2 ^ 63" using assms serializeSizeVLQ_bound [of ?n] by simp
    then have "int (serializeSizeVLQ ?n + length s) < int (2 ^ 63)" by (simp only: of_nat_less_iff)
    then have "sint (word_of_int (int (serializeSizeVLQ ?n + length s)) :: u64) = int (serializeSizeVLQ ?n + length s)"
      by (intro sint_word_of_int_i64) simp_all
    then show ?thesis by simp
  qed
  have ne: "putString s @ r \<noteq> []"
    using length_putVLQ [of ?n] serializeSizeVLQ_pos [of ?n] by (auto simp: putString_def)
  have d: "deserializeVLQ (putString s @ r) = (?n, serializeSizeVLQ ?n)"
    by (simp add: putString_def deserialize_putVLQ)
  have sl: "slice (putString s @ r) (serializeSizeVLQ ?n) (serializeSizeVLQ ?n + length s) = s"
    by (simp add: slice_def putString_def length_putVLQ)
  show ?thesis
    unfolding deserializeStringChecked_def d using ne e sl
    by (simp add: size_simps serializeSizeString_def Let_def nat_add_distrib)
qed

lemma next_string_put:
  assumes "length s < 2 ^ 62" "r \<noteq> []"
  shows "next_string (p @ putString s @ r) msg (length p) = Inr (s, length p + length (putString s))"
  using assms by (simp add: next_string_def deserializeStringChecked_put)

text \<open>An asset the store can hold: strings of a possible length, and an amount that can be read back.\<close>

definition storable :: "'d decimal_ops \<Rightarrow> 'd AssetInfo \<Rightarrow> bool" where
  "storable dops a \<longleftrightarrow>
     length (Protocol (AssetInfo_Name a)) < 2 ^ 62 \<and> length (AssetType (AssetInfo_Name a)) < 2 ^ 62 \<and>
     length (Ticker (AssetInfo_Name a)) < 2 ^ 62 \<and> length (ToFormatString dops (Amount a)) < 2 ^ 62 \<and>
     NewDecimalFromFormatString dops (ToFormatString dops (Amount a)) = Some (Amount a)"

lemma ucast_bindingsat: "ucast (ucast (b::u32) :: u64) = b"
  by (simp add: ucast_down_up)

lemma decode_asset_put:
  assumes a: "storable dops a" and r: "r \<noteq> []"
  shows "decodeCompressedAsset dops (p @ putCompressedAsset dops a @ r) (length p) =
    Inr (a, length p + length (putCompressedAsset dops a))"
proof -
  define s1 s2 s3 s4 where s: "s1 = putString (Protocol (AssetInfo_Name a))"
    "s2 = putString (AssetType (AssetInfo_Name a))" "s3 = putString (Ticker (AssetInfo_Name a))"
    "s4 = putString (ToFormatString dops (Amount a))"
  define v where "v = putVLQ (ucast (BindingSat a))"
  have put: "putCompressedAsset dops a = s1 @ s2 @ s3 @ s4 @ v"
    by (simp add: putCompressedAsset_def s v_def)
  have v: "deserializeVLQ (v @ r) = (ucast (BindingSat a), length v)"
    by (simp add: v_def deserialize_putVLQ size_simps)
  have len: "length (Protocol (AssetInfo_Name a)) < 2 ^ 62" "length (AssetType (AssetInfo_Name a)) < 2 ^ 62"
    "length (Ticker (AssetInfo_Name a)) < 2 ^ 62" "length (ToFormatString dops (Amount a)) < 2 ^ 62"
    and amt: "NewDecimalFromFormatString dops (ToFormatString dops (Amount a)) = Some (Amount a)"
    using a by (simp_all add: storable_def)
  define b where "b = p @ s1 @ s2 @ s3 @ s4 @ v @ r"
  have n1: "\<And>msg. next_string b msg (length p) = Inr (Protocol (AssetInfo_Name a), length p + length s1)"
    using next_string_put [OF len(1), of "s2 @ s3 @ s4 @ v @ r" p] r by (simp add: s b_def)
  have n2: "\<And>msg. next_string b msg (length p + length s1) =
      Inr (AssetType (AssetInfo_Name a), length p + length s1 + length s2)"
    using next_string_put [OF len(2), of "s3 @ s4 @ v @ r" "p @ s1"] r by (simp add: s b_def)
  have n3: "\<And>msg. next_string b msg (length p + length s1 + length s2) =
      Inr (Ticker (AssetInfo_Name a), length p + length s1 + length s2 + length s3)"
    using next_string_put [OF len(3), of "s4 @ v @ r" "p @ s1 @ s2"] r by (simp add: s b_def add.assoc)
  have n4: "\<And>msg. next_string b msg (length p + length s1 + length s2 + length s3) =
      Inr (ToFormatString dops (Amount a), length p + length s1 + length s2 + length s3 + length s4)"
    using next_string_put [OF len(4), of "v @ r" "p @ s1 @ s2 @ s3"] r by (simp add: s b_def add.assoc)
  have d: "drop (length p + length s1 + length s2 + length s3 + length s4) b = v @ r"
    by (simp add: b_def add.assoc)
  have l: "length p + length s1 + length s2 + length s3 + length s4 + length v < length b"
    using r by (simp add: b_def)
  have "decodeCompressedAsset dops b (length p) =
      Inr (a, length p + length s1 + length s2 + length s3 + length s4 + length v)"
    using l by (simp add: decodeCompressedAsset_def n1 n2 n3 n4 d v amt ucast_bindingsat)
  then show ?thesis unfolding put b_def by (simp add: add.assoc)
qed

lemma decode_assets_put:
  assumes "\<forall>a \<in> set as. storable dops a" "r \<noteq> []"
  shows "repeat_read (length as) (decodeCompressedAsset dops (p @ concat (map (putCompressedAsset dops) as) @ r))
      (length p) = Inr (as, length p + length (concat (map (putCompressedAsset dops) as)))"
  using assms
proof (induction as arbitrary: p)
  case Nil
  then show ?case by simp
next
  case (Cons a as)
  let ?rest = "concat (map (putCompressedAsset dops) as) @ r"
  have "decodeCompressedAsset dops (p @ putCompressedAsset dops a @ ?rest) (length p) =
      Inr (a, length p + length (putCompressedAsset dops a))"
    using Cons.prems by (intro decode_asset_put) simp_all
  with Cons.IH [of "p @ putCompressedAsset dops a"] Cons.prems show ?case by (simp add: add.assoc)
qed

text \<open>
  A 64-bit number written by \<^verbatim>\<open>putVLQ\<close> takes the bytes
  \<^verbatim>\<open>serializeSizeVLQ\<close> announces, and \<^verbatim>\<open>deserializeVLQ\<close> reads it back with that size,
  whatever follows.
\<close>

lemma vlq_roundtrip:
  "deserializeVLQ (putVLQ n @ rest) = (n, serializeSizeVLQ n) \<and> length (putVLQ n) = serializeSizeVLQ n"
  by (simp add: deserialize_putVLQ length_putVLQ)

text \<open>
  Below a ninth of the 64-bit range, far above any amount
  of satoshis, decompressing a compressed amount gives the amount back.
\<close>

lemma amount_roundtrip:
  assumes "9 * unat amount < 2 ^ 64"
  shows "decompressTxOutAmount (compressTxOutAmount amount) = amount"
  using assms by (rule decompress_compress)

lemma length_putCompressedAsset: "length (putCompressedAsset dops a) = compressedAssetSize dops a"
  by (simp add: putCompressedAsset_def compressedAssetSize_def size_simps)

lemma length_putCompressedTxOut:
  assumes "length pkScript < 2 ^ 62"
  shows "length (putCompressedTxOut dops kops amount assets pkScript) =
    compressedTxOutSize dops kops amount assets pkScript"
  using compressed_script_size(1) [OF assms]
  by (simp add: putCompressedTxOut_def compressedTxOutSize_def size_simps length_concat comp_def
      length_putCompressedAsset)

lemma decode_put_txout:
  assumes "9 * unat amount < 2 ^ 64" and assets: "length assets < 2 ^ 62" "\<forall>a \<in> set assets. storable dops a"
    and script: "length pkScript < 2 ^ 62" and keys: "pubkeys_recover kops"
  shows "decodeCompressedTxOut dops kops (putCompressedTxOut dops kops amount assets pkScript @ rest) =
      Inr (amount, assets, pkScript, compressedTxOutSize dops kops amount assets pkScript)"
proof -
  define v1 v2 as sc where d: "v1 = putVLQ (compressTxOutAmount amount)"
    "v2 = putVLQ (word_of_nat (length assets))" "as = concat (map (putCompressedAsset dops) assets)"
    "sc = putCompressedScript kops pkScript"
  define b where "b = v1 @ v2 @ as @ sc @ rest"
  have size: "length (putCompressedTxOut dops kops amount assets pkScript) =
      compressedTxOutSize dops kops amount assets pkScript"
    by (rule length_putCompressedTxOut [OF script])
  have put: "putCompressedTxOut dops kops amount assets pkScript @ rest = b"
    "length (putCompressedTxOut dops kops amount assets pkScript) = length v1 + length v2 + length as + length sc"
    by (simp_all add: putCompressedTxOut_def b_def d)
  have sc: "length sc = compressedScriptSize kops pkScript" "0 < length sc"
    using compressed_script_size [OF script, of kops] serializeSizeVLQ_pos
    by (auto simp: d compressedScriptSize_def)
  have 1: "deserializeVLQ b = (compressTxOutAmount amount, length v1)"
    by (simp add: b_def d deserialize_putVLQ size_simps)
  have 2: "deserializeVLQ (drop (length v1) b) = (word_of_nat (length assets), length v2)"
    by (simp add: b_def d deserialize_putVLQ size_simps)
  have "sint (word_of_int (int (length assets)) :: u64) = int (length assets)"
    using assets(1) by (intro sint_word_of_int_i64) simp_all
  then have n: "nat (sint (word_of_nat (length assets) :: u64)) = length assets" by simp
  have 3: "repeat_read (length assets) (decodeCompressedAsset dops b) (length v1 + length v2) =
      Inr (assets, length v1 + length v2 + length as)"
    using decode_assets_put [OF assets(2), of "sc @ rest" "v1 @ v2"] sc(2) by (simp add: b_def d add.assoc)
  have 4: "drop (length v1 + length v2 + length as) b = sc @ rest" by (simp add: b_def)
  have 5: "slice b (length v1 + length v2 + length as) (length v1 + length v2 + length as + length sc) = sc"
    by (simp add: slice_def 4)
  have l: "length b = length v1 + length v2 + length as + length sc + length rest" by (simp add: b_def)
  have 6: "decodeCompressedScriptSize (sc @ rest) = int (length sc)"
    unfolding sc(1) by (simp add: d compressed_script_size(2) [OF script])
  have 7: "decompressScript kops sc = Some pkScript"
    by (simp add: d decompress_compressed_script [OF script keys])
  have "decodeCompressedTxOut dops kops b =
      Inr (amount, assets, pkScript, length v1 + length v2 + length as + length sc)"
    unfolding decodeCompressedTxOut_def 1 2 prod.case Let_def n 3 andthen_simps 4 6 nat_int 5 7 option.case
    using l sc(2) decompress_compress [OF assms(1)] by (simp add: decompress_compress)
  then show ?thesis unfolding put size [symmetric] by simp
qed

text \<open>
  C16 (stored outputs round trip): an output written to the UTXO set takes the bytes
  \<^verbatim>\<open>compressedTxOutSize\<close> announces, and decoding it, whatever follows, gives back the amount,
  every asset with its name, amount and binding, the script, and the number of bytes read.
\<close>

theorem compressed_txout_roundtrip:
  assumes "9 * unat amount < 2 ^ 64" and "length assets < 2 ^ 62" "\<forall>a \<in> set assets. storable dops a"
    and "length pkScript < 2 ^ 62" and "pubkeys_recover kops"
  shows "length (putCompressedTxOut dops kops amount assets pkScript) =
      compressedTxOutSize dops kops amount assets pkScript \<and>
    decodeCompressedTxOut dops kops (putCompressedTxOut dops kops amount assets pkScript @ rest) =
      Inr (amount, assets, pkScript, compressedTxOutSize dops kops amount assets pkScript)"
  using assms by (simp add: length_putCompressedTxOut decode_put_txout)

text \<open>
  A curve on which every x has the two points with y = 0 and y = 1, and amounts that are
  their own strings.
\<close>

definition flat_keys :: "bytes pubkey_ops" where
  "flat_keys = \<lparr>
     ParsePubKey = (\<lambda>s.
       if length s = 65 \<and> s ! 0 = 4 \<and> drop 33 s \<in> {replicate 31 0 @ [0], replicate 31 0 @ [1]} then Some s
       else if length s = 33 \<and> s ! 0 \<in> {2, 3} then Some (4 # drop 1 s @ replicate 31 0 @ [s ! 0 AND 1])
       else None),
     SerializeUncompressed = (\<lambda>k. k)\<rparr>"

lemma flat_keys_recover: "pubkeys_recover flat_keys"
  unfolding pubkeys_recover_def
proof (intro allI impI)
  fix s :: bytes
  assume s: "length s = 65" "s ! 0 = 4" "ParsePubKey flat_keys s \<noteq> None"
  then obtain b where b: "drop 33 s = replicate 31 0 @ [b]" "b = 0 \<or> b = 1"
    by (auto simp: flat_keys_def split: if_splits)
  have "s ! 64 = drop 33 s ! 31" using s(1) by simp
  then have 64: "s ! 64 = b" by (simp add: b(1) nth_append)
  have "s = take 1 s @ slice s 1 33 @ drop 33 s" using s(1) by (intro framed) simp_all
  moreover have "take 1 s = [4]" using s by (cases s) simp_all
  ultimately have "s = 4 # slice s 1 33 @ replicate 31 0 @ [b]" by (simp add: b(1))
  moreover have "length (slice s 1 33) = 32" using s(1) by (simp add: slice_def)
  ultimately show "map_option (SerializeUncompressed flat_keys)
      (ParsePubKey flat_keys ((2 OR (s ! 64 AND 1)) # slice s 1 33)) = Some s"
    using b(2) by (auto simp: flat_keys_def 64)
qed

definition plain_amounts :: "bytes decimal_ops" where
  "plain_amounts = \<lparr>Validate = (\<lambda>_. True), ToFormatString = (\<lambda>s. s), NewDecimalFromFormatString = Some\<rparr>"

definition example_asset :: "bytes AssetInfo" where
  "example_asset = \<lparr>AssetInfo_Name = \<lparr>Protocol = [0x6f], AssetType = [0x66], Ticker = [0x61, 0x62]\<rparr>,
     Amount = [0x31, 0x30], BindingSat = 1000\<rparr>"

theorem compressed_txout_roundtrip_witness:
  "length (putCompressedTxOut plain_amounts flat_keys 5000 [example_asset]
       ([0x41, 4] @ replicate 63 0 @ [1, 0xac])) =
     compressedTxOutSize plain_amounts flat_keys 5000 [example_asset] ([0x41, 4] @ replicate 63 0 @ [1, 0xac]) \<and>
   decodeCompressedTxOut plain_amounts flat_keys
     (putCompressedTxOut plain_amounts flat_keys 5000 [example_asset]
       ([0x41, 4] @ replicate 63 0 @ [1, 0xac]) @ [7]) =
   Inr (5000, [example_asset], [0x41, 4] @ replicate 63 0 @ [1, 0xac],
     compressedTxOutSize plain_amounts flat_keys 5000 [example_asset] ([0x41, 4] @ replicate 63 0 @ [1, 0xac]))"
  by (rule compressed_txout_roundtrip)
     (simp_all add: flat_keys_recover storable_def example_asset_def plain_amounts_def)

text \<open>
  A script size that is negative as a 64-bit
  integer passes the length check of \<^verbatim>\<open>decodeCompressedTxOut\<close> and the slice expression that
  follows panics, where every other malformed field is an error.
\<close>

lemma script_size_panics:
  assumes "2 ^ 63 + 6 \<le> uint n" "uint n < 2 ^ 63 + 2 ^ 62"
  shows "decodeCompressedTxOut dops kops (0 # 0 # putVLQ n) = Inl (Panic, 2)"
proof -
  define br where "br = serializeSizeVLQ n"
  have br: "0 < br" "br \<le> 2 ^ 57" unfolding br_def by (rule serializeSizeVLQ_pos serializeSizeVLQ_bound)+
  have "\<And>k. n = k \<Longrightarrow> 2 ^ 63 + 6 \<le> uint k" using assms(1) by simp
  from this [of 0] this [of 1] this [of 2] this [of 3] this [of 4] this [of 5]
  have special: "n \<noteq> 0" "n \<noteq> 1" "n \<notin> {2, 3, 4, 5}" by auto
  have "n - 6 + word_of_nat br = word_of_int (uint n - 6 + int br - 2 ^ 64)"
    by (simp add: word_of_int_2p_len)
  moreover have "sint (word_of_int (uint n - 6 + int br - 2 ^ 64) :: u64) = uint n - 6 + int br - 2 ^ 64"
    using assms br by (intro sint_word_of_int_i64) simp_all
  moreover have "uint n - 6 + int br - 2 ^ 64 < 0" using assms(2) br(2) by simp
  ultimately have neg: "sint (n - 6 + word_of_nat br) < 0" by (simp only:)
  have size: "decodeCompressedScriptSize (putVLQ n) = sint (n - 6 + word_of_nat br)"
    using special br(1) deserialize_putVLQ [of n "[]"]
    by (simp add: decodeCompressedScriptSize_def numSpecialScripts_def br_def)
  have "length (putVLQ n) = br" by (simp add: size_simps br_def)
  then show ?thesis
    using neg br(1)
    by (simp add: decodeCompressedTxOut_def deserializeVLQ_special size Let_def numeral_2_eq_2)
qed

end
