(* ===== verification/Utxo_View.thy ===== *)
theory Utxo_View
  imports Compress
begin

text \<open>
  The view of the unspent outputs (\<^verbatim>\<open>blockchain/utxoviewpoint.go\<close>), the classification of
  transactions it relies on (\<^verbatim>\<open>blockchain/validate.go\<close>) and the record of a spent output
  (\<^verbatim>\<open>blockchain/chainio.go\<close>).

  The map of a view holds pointers that may be nil: its values are options, \<open>Some None\<close> an
  explicit nil.  No two outpoints share an entry, so an entry is a value here.  \<^verbatim>\<open>Clone\<close> of
  an asset list is a deep copy, that is, the same value.  \<open>txid\<close> stands for \<^verbatim>\<open>tx.Hash()\<close>,
  the cached \<^verbatim>\<open>TxHash\<close> of the transaction; what is shown holds for every such function.
\<close>

unbundle bit_operations_syntax

section \<open>Classification of transactions\<close>

definition zeroHash :: bytes where
  "zeroHash = replicate 32 0"

definition isNullOutpoint :: "OutPoint \<Rightarrow> bool" where
  "isNullOutpoint outpoint \<longleftrightarrow> Index outpoint = 0xffffffff \<and> Hash outpoint = zeroHash"

definition IsCoinBaseTx :: "'d MsgTx \<Rightarrow> bool" where
  "IsCoinBaseTx msgTx =
     (if length (TxIns msgTx) \<noteq> 1 then False
      else let prevOut = PreviousOutPoint (TxIns msgTx ! 0)
           in \<not> (Index prevOut \<noteq> 0xffffffff \<or> Hash prevOut \<noteq> zeroHash))"

definition IsAnchorTx :: "'d MsgTx \<Rightarrow> bool" where
  "IsAnchorTx msgTx =
     (if length (TxIns msgTx) \<noteq> 1 then False
      else let prevOut = PreviousOutPoint (TxIns msgTx ! 0)
           in \<not> (Index prevOut \<noteq> AnchorTxOutIndex \<or> Hash prevOut \<noteq> zeroHash))"

text \<open>The transactions of a block are never nil.\<close>

definition transactionConsumesSpendJournal :: "'d MsgTx \<Rightarrow> bool \<Rightarrow> bool" where
  "transactionConsumesSpendJournal tx isCoinbase \<longleftrightarrow> \<not> isCoinbase \<and> \<not> IsAnchorTx tx"

section \<open>Entries\<close>

abbreviation (input) tfCoinBase :: byte where "tfCoinBase \<equiv> 0x01"
abbreviation (input) tfSpent :: byte where "tfSpent \<equiv> 0x02"
abbreviation (input) tfModified :: byte where "tfModified \<equiv> 0x04"
abbreviation (input) tfFresh :: byte where "tfFresh \<equiv> 0x08"

record 'd UtxoEntry =
  ue_amount :: i64
  ue_txAssets :: "'d TxAssets"
  ue_pkScript :: bytes
  ue_blockHeight :: i32
  ue_packedFlags :: byte

definition isModified :: "'d UtxoEntry \<Rightarrow> bool" where
  "isModified entry \<longleftrightarrow> ue_packedFlags entry AND tfModified = tfModified"

definition isFresh :: "'d UtxoEntry \<Rightarrow> bool" where
  "isFresh entry \<longleftrightarrow> ue_packedFlags entry AND tfFresh = tfFresh"

definition ue_IsCoinBase :: "'d UtxoEntry \<Rightarrow> bool" where
  "ue_IsCoinBase entry \<longleftrightarrow> ue_packedFlags entry AND tfCoinBase = tfCoinBase"

definition IsSpent :: "'d UtxoEntry \<Rightarrow> bool" where
  "IsSpent entry \<longleftrightarrow> ue_packedFlags entry AND tfSpent = tfSpent"

definition Spend :: "'d UtxoEntry \<Rightarrow> 'd UtxoEntry" where
  "Spend entry =
     (if IsSpent entry then entry
      else entry\<lparr>ue_packedFlags := ue_packedFlags entry OR (tfSpent OR tfModified)\<rparr>)"

definition NewUtxoEntry :: "'d TxOut \<Rightarrow> i32 \<Rightarrow> bool \<Rightarrow> 'd UtxoEntry" where
  "NewUtxoEntry txOut blockHeight isCoinbase =
     \<lparr>ue_amount = Value txOut, ue_txAssets = Assets txOut, ue_pkScript = PkScript txOut,
      ue_blockHeight = blockHeight, ue_packedFlags = (if isCoinbase then tfCoinBase else 0)\<rparr>"

record 'd SpentTxOut =
  st_Amount :: i64
  st_Assets :: "'d TxAssets"
  st_PkScript :: bytes
  st_Height :: i32
  st_IsCoinBase :: bool

section \<open>The view\<close>

record 'd UtxoViewpoint =
  vw_entries :: "OutPoint \<Rightarrow> 'd UtxoEntry option option"
  vw_bestHash :: bytes

datatype utxo_error =
  AssertError string
| DeserializeErr
| CorruptionErr
| NotInMainChainErr
| RecoverErr string
| AnchorErr
| UtxoPanic

definition NewUtxoViewpoint :: "'d UtxoViewpoint" where
  "NewUtxoViewpoint = \<lparr>vw_entries = (\<lambda>_. None), vw_bestHash = zeroHash\<rparr>"

definition put_entry :: "OutPoint \<Rightarrow> 'd UtxoEntry \<Rightarrow> 'd UtxoViewpoint \<Rightarrow> 'd UtxoViewpoint" where
  "put_entry op e view = view\<lparr>vw_entries := (vw_entries view)(op := Some (Some e))\<rparr>"

definition LookupEntry :: "'d UtxoViewpoint \<Rightarrow> OutPoint \<Rightarrow> 'd UtxoEntry option" where
  "LookupEntry view outpoint = (case vw_entries view outpoint of None \<Rightarrow> None | Some e \<Rightarrow> e)"

definition FetchPrevOutput :: "'d UtxoViewpoint \<Rightarrow> OutPoint \<Rightarrow> 'd TxOut option" where
  "FetchPrevOutput view op = (case LookupEntry view op of None \<Rightarrow> None
     | Some prevOut \<Rightarrow> Some \<lparr>Value = ue_amount prevOut, Assets = ue_txAssets prevOut,
         PkScript = ue_pkScript prevOut\<rparr>)"

text \<open>The entry both the view and the cache store for a new output.\<close>

definition new_output_entry :: "'d TxOut \<Rightarrow> bool \<Rightarrow> i32 \<Rightarrow> 'd UtxoEntry" where
  "new_output_entry txOut isCoinBase blockHeight =
     \<lparr>ue_amount = Value txOut, ue_txAssets = Assets txOut, ue_pkScript = PkScript txOut,
      ue_blockHeight = blockHeight,
      ue_packedFlags = (let f = tfFresh OR tfModified in if isCoinBase then f OR tfCoinBase else f)\<rparr>"

definition view_addTxOut ::
    "OutPoint \<Rightarrow> 'd TxOut \<Rightarrow> bool \<Rightarrow> i32 \<Rightarrow> 'd UtxoViewpoint \<Rightarrow> 'd UtxoViewpoint" where
  "view_addTxOut outpoint txOut isCoinBase blockHeight view =
     (if IsUnspendable (PkScript txOut) then view
      else put_entry outpoint (new_output_entry txOut isCoinBase blockHeight) view)"

text \<open>The outpoints and outputs of a transaction, in order.\<close>

definition tx_outputs :: "('d MsgTx \<Rightarrow> bytes) \<Rightarrow> 'd MsgTx \<Rightarrow> (OutPoint \<times> 'd TxOut) list" where
  "tx_outputs txid tx =
     map (\<lambda>(txOutIdx, txOut). (\<lparr>Hash = txid tx, Index = word_of_nat txOutIdx\<rparr>, txOut))
       (enumerate 0 (TxOuts tx))"

definition view_AddTxOut ::
    "('d MsgTx \<Rightarrow> bytes) \<Rightarrow> 'd MsgTx \<Rightarrow> u32 \<Rightarrow> i32 \<Rightarrow> 'd UtxoViewpoint \<Rightarrow> 'd UtxoViewpoint" where
  "view_AddTxOut txid tx txOutIdx blockHeight view =
     (if txOutIdx \<ge> word_of_nat (length (TxOuts tx)) then view
      else view_addTxOut \<lparr>Hash = txid tx, Index = txOutIdx\<rparr> (TxOuts tx ! unat txOutIdx)
             (IsCoinBaseTx tx) blockHeight view)"

definition view_AddTxOuts ::
    "('d MsgTx \<Rightarrow> bytes) \<Rightarrow> 'd MsgTx \<Rightarrow> i32 \<Rightarrow> 'd UtxoViewpoint \<Rightarrow> 'd UtxoViewpoint" where
  "view_AddTxOuts txid tx blockHeight view =
     fold (\<lambda>(prevOut, txOut). view_addTxOut prevOut txOut (IsCoinBaseTx tx) blockHeight)
       (tx_outputs txid tx) view"

definition spent_of :: "'d UtxoEntry \<Rightarrow> 'd SpentTxOut" where
  "spent_of entry = \<lparr>st_Amount = ue_amount entry, st_Assets = ue_txAssets entry,
     st_PkScript = ue_pkScript entry, st_Height = ue_blockHeight entry, st_IsCoinBase = ue_IsCoinBase entry\<rparr>"

text \<open>The loop over the inputs; the spent outputs collect in order.\<close>

fun view_spend_inputs ::
    "TxIn list \<Rightarrow> 'd UtxoViewpoint \<times> 'd SpentTxOut list \<Rightarrow> utxo_error + 'd UtxoViewpoint \<times> 'd SpentTxOut list" where
  "view_spend_inputs [] (view, stxos) = Inr (view, stxos)"
| "view_spend_inputs (txIn # txIns) (view, stxos) =
     (case LookupEntry view (PreviousOutPoint txIn) of
        None \<Rightarrow> Inl (AssertError ''view missing input'')
      | Some entry \<Rightarrow>
          view_spend_inputs txIns
            (put_entry (PreviousOutPoint txIn) (Spend entry) view, stxos @ [spent_of entry]))"

definition view_connectTransaction ::
    "('d MsgTx \<Rightarrow> bytes) \<Rightarrow> 'd MsgTx \<Rightarrow> i32 \<Rightarrow> 'd UtxoViewpoint \<times> 'd SpentTxOut list \<Rightarrow>
     utxo_error + 'd UtxoViewpoint \<times> 'd SpentTxOut list" where
  "view_connectTransaction txid tx blockHeight = (\<lambda>(view, stxos).
     if \<not> transactionConsumesSpendJournal tx (IsCoinBaseTx tx) then
       Inr (view_AddTxOuts txid tx blockHeight view, stxos)
     else andthen (view_spend_inputs (TxIns tx) (view, stxos)) (\<lambda>(view, stxos).
       Inr (view_AddTxOuts txid tx blockHeight view, stxos)))"

text \<open>A block with its height, hash and previous hash.\<close>

record 'd Block =
  bl_Transactions :: "'d MsgTx list"
  bl_Height :: i32
  bl_Hash :: bytes
  bl_PrevBlock :: bytes

fun connect_txs :: "('d MsgTx \<Rightarrow> bytes) \<Rightarrow> i32 \<Rightarrow> 'd MsgTx list \<Rightarrow> 'd UtxoViewpoint \<times> 'd SpentTxOut list \<Rightarrow>
     utxo_error + 'd UtxoViewpoint \<times> 'd SpentTxOut list" where
  "connect_txs txid height [] s = Inr s"
| "connect_txs txid height (tx # txs) s =
     andthen (view_connectTransaction txid tx height s) (connect_txs txid height txs)"

definition view_connectTransactions ::
    "('d MsgTx \<Rightarrow> bytes) \<Rightarrow> 'd Block \<Rightarrow> 'd UtxoViewpoint \<times> 'd SpentTxOut list \<Rightarrow>
     utxo_error + 'd UtxoViewpoint \<times> 'd SpentTxOut list" where
  "view_connectTransactions txid block s =
     andthen (connect_txs txid (bl_Height block) (bl_Transactions block) s) (\<lambda>(view, stxos).
       Inr (view\<lparr>vw_bestHash := bl_Hash block\<rparr>, stxos))"

text \<open>
  \<^verbatim>\<open>fetchEntryByHash\<close>: the first entry of the view for the hash, else what the database finds
  (\<open>dbFetch\<close>, the call of \<^verbatim>\<open>dbFetchUtxoEntryByHash\<close> in a database transaction).
\<close>

definition MaxOutputsPerBlock :: nat where
  "MaxOutputsPerBlock = 4000000 div (4 * 9)"

definition fetchEntryByHash ::
    "(bytes \<Rightarrow> utxo_error + 'd UtxoEntry option) \<Rightarrow> bytes \<Rightarrow> 'd UtxoViewpoint \<Rightarrow> utxo_error + 'd UtxoEntry option" where
  "fetchEntryByHash dbFetch hash view =
     (case List.find (\<lambda>idx. LookupEntry view \<lparr>Hash = hash, Index = word_of_nat idx\<rparr> \<noteq> None)
        [0..<MaxOutputsPerBlock] of
        Some idx \<Rightarrow> Inr (LookupEntry view \<lparr>Hash = hash, Index = word_of_nat idx\<rparr>)
      | None \<Rightarrow> dbFetch hash)"

definition countSpentOutputs :: "'d Block \<Rightarrow> nat" where
  "countSpentOutputs block =
     sum_list (map (\<lambda>(txIndex, tx).
       if \<not> transactionConsumesSpendJournal tx (txIndex = 0) then 0 else length (TxIns tx))
       (enumerate 0 (bl_Transactions block)))"

text \<open>Mark the output of a disconnected transaction as spent, adding it when the view lacks it.\<close>

definition unadd_output :: "byte \<Rightarrow> i32 \<Rightarrow> OutPoint \<times> 'd TxOut \<Rightarrow> 'd UtxoViewpoint \<Rightarrow> 'd UtxoViewpoint" where
  "unadd_output packedFlags height = (\<lambda>(prevOut, txOut) view.
     if IsUnspendable (PkScript txOut) then view
     else let entry = (case LookupEntry view prevOut of
            None \<Rightarrow> \<lparr>ue_amount = Value txOut, ue_txAssets = Assets txOut, ue_pkScript = PkScript txOut,
                     ue_blockHeight = height, ue_packedFlags = packedFlags\<rparr>
          | Some entry \<Rightarrow> entry)
        in put_entry prevOut (Spend entry) view)"

definition restored :: "'d SpentTxOut \<Rightarrow> 'd UtxoEntry" where
  "restored stxo = \<lparr>ue_amount = st_Amount stxo, ue_txAssets = st_Assets stxo, ue_pkScript = st_PkScript stxo,
     ue_blockHeight = st_Height stxo,
     ue_packedFlags = (if st_IsCoinBase stxo then tfModified OR tfCoinBase else tfModified)\<rparr>"

definition empty_entry :: "'d UtxoEntry" where
  "empty_entry = \<lparr>ue_amount = 0, ue_txAssets = [], ue_pkScript = [], ue_blockHeight = 0, ue_packedFlags = 0\<rparr>"

text \<open>
  The loop over the inputs of a disconnected transaction, given from last to first, as are the
  spent outputs that remain.
\<close>

fun restore_inputs ::
    "(bytes \<Rightarrow> utxo_error + 'd UtxoEntry option) \<Rightarrow> bytes \<Rightarrow> TxIn list \<Rightarrow>
     'd UtxoViewpoint \<times> 'd SpentTxOut list \<Rightarrow> utxo_error + 'd UtxoViewpoint \<times> 'd SpentTxOut list" where
  "restore_inputs dbFetch txHash [] s = Inr s"
| "restore_inputs dbFetch txHash (txIn # txIns) (view, []) = Inl UtxoPanic"
| "restore_inputs dbFetch txHash (txIn # txIns) (view, stxo # stxos) =
     (let originOut = PreviousOutPoint txIn;
          view = (if LookupEntry view originOut = None then put_entry originOut empty_entry view else view)
      in andthen
        (if st_Height stxo = 0 then
           andthen (fetchEntryByHash dbFetch txHash view) (\<lambda>utxo.
             case utxo of
               None \<Rightarrow> Inl (AssertError ''unable to resurrect legacy stxo'')
             | Some utxo \<Rightarrow> Inr (stxo\<lparr>st_Height := ue_blockHeight utxo, st_IsCoinBase := ue_IsCoinBase utxo\<rparr>))
         else Inr stxo)
        (\<lambda>stxo. restore_inputs dbFetch txHash txIns (put_entry originOut (restored stxo) view, stxos)))"

text \<open>The loop over the transactions, given from last to first with their positions.\<close>

fun disconnect_txs ::
    "('d MsgTx \<Rightarrow> bytes) \<Rightarrow> (bytes \<Rightarrow> utxo_error + 'd UtxoEntry option) \<Rightarrow> i32 \<Rightarrow> (nat \<times> 'd MsgTx) list \<Rightarrow>
     'd UtxoViewpoint \<times> 'd SpentTxOut list \<Rightarrow> utxo_error + 'd UtxoViewpoint \<times> 'd SpentTxOut list" where
  "disconnect_txs txid dbFetch height [] s = Inr s"
| "disconnect_txs txid dbFetch height ((txIdx, tx) # txs) (view, stxos) =
     (let isCoinBase = (txIdx = 0);
          packedFlags = (if isCoinBase then tfCoinBase else 0);
          view = fold (unadd_output packedFlags height) (tx_outputs txid tx) view
      in if \<not> transactionConsumesSpendJournal tx isCoinBase then
           disconnect_txs txid dbFetch height txs (view, stxos)
         else andthen (restore_inputs dbFetch (txid tx) (rev (TxIns tx)) (view, stxos))
           (disconnect_txs txid dbFetch height txs))"

definition view_disconnectTransactions ::
    "('d MsgTx \<Rightarrow> bytes) \<Rightarrow> (bytes \<Rightarrow> utxo_error + 'd UtxoEntry option) \<Rightarrow> 'd Block \<Rightarrow> 'd SpentTxOut list \<Rightarrow>
     'd UtxoViewpoint \<Rightarrow> utxo_error + 'd UtxoViewpoint" where
  "view_disconnectTransactions txid dbFetch block stxos view =
     (if length stxos \<noteq> countSpentOutputs block then
        Inl (AssertError ''disconnectTransactions called with bad spent transaction out information'')
      else andthen (disconnect_txs txid dbFetch (bl_Height block)
              (rev (enumerate 0 (bl_Transactions block))) (view, rev stxos))
        (\<lambda>(view, stxos). Inr (view\<lparr>vw_bestHash := bl_PrevBlock block\<rparr>)))"

definition RemoveEntry :: "OutPoint \<Rightarrow> 'd UtxoViewpoint \<Rightarrow> 'd UtxoViewpoint" where
  "RemoveEntry outpoint view = view\<lparr>vw_entries := (vw_entries view)(outpoint := None)\<rparr>"

definition view_commit :: "'d UtxoViewpoint \<Rightarrow> 'd UtxoViewpoint" where
  "view_commit view = view\<lparr>vw_entries := (\<lambda>outpoint.
     case vw_entries view outpoint of
       None \<Rightarrow> None
     | Some None \<Rightarrow> None
     | Some (Some entry) \<Rightarrow>
         if isModified entry \<and> IsSpent entry then None
         else Some (Some (entry\<lparr>ue_packedFlags := ue_packedFlags entry XOR tfModified\<rparr>)))\<rparr>"

text \<open>
  The inputs a block needs from outside: the outputs of earlier transactions of the block are
  added to the view instead.  \<open>txInFlight\<close> maps an id to the last position that has it.
\<close>

definition txInFlight :: "('d MsgTx \<Rightarrow> bytes) \<Rightarrow> 'd MsgTx list \<Rightarrow> bytes \<Rightarrow> nat option" where
  "txInFlight txid txs = foldl (\<lambda>m (i, tx). m(txid tx \<mapsto> i)) Map.empty (enumerate 0 txs)"

fun find_inputs ::
    "('d MsgTx \<Rightarrow> bytes) \<Rightarrow> 'd Block \<Rightarrow> nat \<Rightarrow> TxIn list \<Rightarrow> 'd UtxoViewpoint \<times> bool list \<times> OutPoint list \<Rightarrow>
     'd UtxoViewpoint \<times> bool list \<times> OutPoint list" where
  "find_inputs txid block i [] s = s"
| "find_inputs txid block i (txIn # txIns) (view, loadedParents, needed) =
     find_inputs txid block i txIns
      (let skip = (if vw_entries view (PreviousOutPoint txIn) \<noteq> None then (view, loadedParents, needed)
                   else (view, loadedParents, needed @ [PreviousOutPoint txIn]))
       in case txInFlight txid (bl_Transactions block) (Hash (PreviousOutPoint txIn)) of
            None \<Rightarrow> skip
          | Some inFlightIndex \<Rightarrow>
              if i \<ge> inFlightIndex then
                if \<not> loadedParents ! inFlightIndex then
                  (view_AddTxOuts txid (bl_Transactions block ! inFlightIndex) (bl_Height block) view,
                   loadedParents[inFlightIndex := True], needed)
                else (view, loadedParents, needed)
              else skip)"

text \<open>\<^verbatim>\<open>transactions[1:]\<close> panics on a block without transactions.\<close>

definition findInputsToFetch ::
    "('d MsgTx \<Rightarrow> bytes) \<Rightarrow> 'd Block \<Rightarrow> 'd UtxoViewpoint \<Rightarrow> utxo_error + 'd UtxoViewpoint \<times> OutPoint list" where
  "findInputsToFetch txid block view =
     (if bl_Transactions block = [] then Inl UtxoPanic
      else let (view, loadedParents, needed) =
             fold (\<lambda>(i, tx) s.
                 if \<not> transactionConsumesSpendJournal tx False then s
                 else find_inputs txid block i (TxIns tx) s)
               (enumerate 0 (tl (bl_Transactions block)))
               (view, replicate (length (bl_Transactions block)) False, [])
           in Inr (view, needed))"

section \<open>The unspent outputs of a view\<close>

text \<open>The abstraction: the outputs a view offers for spending.\<close>

definition unspent :: "'d UtxoViewpoint \<Rightarrow> OutPoint \<Rightarrow> 'd SpentTxOut option" where
  "unspent view op = (case LookupEntry view op of None \<Rightarrow> None
     | Some e \<Rightarrow> if IsSpent e then None else Some (spent_of e))"

subsection \<open>Flags\<close>

lemma and_flag:
  "(f::byte) AND 0x01 = 0x01 \<longleftrightarrow> bit f 0" "f AND 0x02 = 0x02 \<longleftrightarrow> bit f 1"
  "f AND 0x04 = 0x04 \<longleftrightarrow> bit f 2" "f AND 0x08 = 0x08 \<longleftrightarrow> bit f 3"
proof -
  have *: "f AND 2 ^ n = 2 ^ n \<longleftrightarrow> bit f n" if "n < 8" for n
  proof
    assume "f AND 2 ^ n = 2 ^ n"
    then have "bit (f AND 2 ^ n) n" using that by (simp add: bit_exp_iff)
    then show "bit f n" by (simp add: bit_and_iff)
  next
    assume "bit f n"
    then show "f AND 2 ^ n = 2 ^ n" by (intro bit_word_eqI) (auto simp: bit_and_iff bit_exp_iff)
  qed
  show "f AND 0x01 = 0x01 \<longleftrightarrow> bit f 0" "f AND 0x02 = 0x02 \<longleftrightarrow> bit f 1"
    "f AND 0x04 = 0x04 \<longleftrightarrow> bit f 2" "f AND 0x08 = 0x08 \<longleftrightarrow> bit f 3"
    using * [of 0] * [of 1] * [of 2] * [of 3] by simp_all
qed

lemmas flag_defs = isModified_def isFresh_def ue_IsCoinBase_def IsSpent_def and_flag

lemma bit_flags:
  "bit (0x01::byte) k \<longleftrightarrow> k = 0" "bit (0x02::byte) k \<longleftrightarrow> k = 1"
  "bit (0x04::byte) k \<longleftrightarrow> k = 2" "bit (0x08::byte) k \<longleftrightarrow> k = 3"
proof -
  have "bit (2 ^ n :: byte) k \<longleftrightarrow> k = n" if "n < 8" for n
    using that by (auto simp: bit_exp_iff)
  from this [of 0] this [of 1] this [of 2] this [of 3]
  show "bit (0x01::byte) k \<longleftrightarrow> k = 0" "bit (0x02::byte) k \<longleftrightarrow> k = 1"
    "bit (0x04::byte) k \<longleftrightarrow> k = 2" "bit (0x08::byte) k \<longleftrightarrow> k = 3" by simp_all
qed

lemma Spend_simps [simp]:
  "IsSpent (Spend e)" "ue_IsCoinBase (Spend e) \<longleftrightarrow> ue_IsCoinBase e" "isFresh (Spend e) \<longleftrightarrow> isFresh e"
  "ue_amount (Spend e) = ue_amount e" "ue_txAssets (Spend e) = ue_txAssets e"
  "ue_pkScript (Spend e) = ue_pkScript e" "ue_blockHeight (Spend e) = ue_blockHeight e"
  by (auto simp: Spend_def flag_defs bit_or_iff bit_flags)

lemma new_output_entry_simps [simp]:
  "\<not> IsSpent (new_output_entry out cb h)" "isModified (new_output_entry out cb h)"
  "isFresh (new_output_entry out cb h)" "ue_IsCoinBase (new_output_entry out cb h) \<longleftrightarrow> cb"
  by (simp_all add: new_output_entry_def flag_defs bit_or_iff bit_flags Let_def)

lemma restored_simps [simp]:
  "\<not> IsSpent (restored c)" "isModified (restored c)" "\<not> isFresh (restored c)" "spent_of (restored c) = c"
  by (simp_all add: restored_def spent_of_def flag_defs bit_or_iff bit_flags)

subsection \<open>What each operation does to the unspent outputs\<close>

definition coin_of :: "'d TxOut \<Rightarrow> bool \<Rightarrow> i32 \<Rightarrow> 'd SpentTxOut" where
  "coin_of out cb h = \<lparr>st_Amount = Value out, st_Assets = Assets out, st_PkScript = PkScript out,
     st_Height = h, st_IsCoinBase = cb\<rparr>"

lemma spent_of_new_output [simp]: "spent_of (new_output_entry out cb h) = coin_of out cb h"
  by (simp add: spent_of_def coin_of_def) (simp add: new_output_entry_def)

lemma LookupEntry_put [simp]: "LookupEntry (put_entry op e v) = (LookupEntry v)(op \<mapsto> e)"
  by (auto simp: LookupEntry_def put_entry_def)

lemma unspent_put [simp]:
  "unspent (put_entry op e v) = (unspent v)(op := if IsSpent e then None else Some (spent_of e))"
  by (auto simp: unspent_def)

lemma unspent_bestHash [simp]: "unspent (v\<lparr>vw_bestHash := h\<rparr>) = unspent v"
  by (simp add: unspent_def LookupEntry_def fun_eq_iff)

type_synonym 'd utxo_set = "OutPoint \<Rightarrow> 'd SpentTxOut option"

definition spendable :: "(OutPoint \<times> 'd TxOut) list \<Rightarrow> (OutPoint \<times> 'd TxOut) list" where
  "spendable outs = filter (\<lambda>(op, out). \<not> IsUnspendable (PkScript out)) outs"

definition add_coins :: "bool \<Rightarrow> i32 \<Rightarrow> (OutPoint \<times> 'd TxOut) list \<Rightarrow> 'd utxo_set \<Rightarrow> 'd utxo_set" where
  "add_coins cb h outs U = fold (\<lambda>(op, out) U. U(op \<mapsto> coin_of out cb h)) (spendable outs) U"

lemma unspent_AddTxOuts:
  "unspent (view_AddTxOuts txid tx h v) = add_coins (IsCoinBaseTx tx) h (tx_outputs txid tx) (unspent v)"
proof -
  have "unspent (fold (\<lambda>(op, out). view_addTxOut op out cb h) outs v) = add_coins cb h outs (unspent v)"
    for cb outs v
    by (induction outs arbitrary: v) (auto simp: add_coins_def spendable_def view_addTxOut_def)
  then show ?thesis by (simp add: view_AddTxOuts_def)
qed

lemma add_coins_other:
  "op \<notin> fst ` set (spendable outs) \<Longrightarrow> add_coins cb h outs U op = U op"
proof -
  have "op \<notin> fst ` set xs \<Longrightarrow> fold (\<lambda>(op, out) U. U(op \<mapsto> coin_of out cb h)) xs U op = U op" for xs
    by (induction xs arbitrary: U) auto
  then show "op \<notin> fst ` set (spendable outs) \<Longrightarrow> ?thesis" by (simp add: add_coins_def)
qed

lemma unspent_unadd:
  "unspent (fold (unadd_output f h) outs v) op = (if op \<in> fst ` set (spendable outs) then None else unspent v op)"
proof (induction outs arbitrary: v)
  case Nil
  then show ?case by (simp add: spendable_def)
next
  case (Cons x outs)
  obtain o1 out where x: "x = (o1, out)" by force
  have "unspent (unadd_output f h x v) = (if IsUnspendable (PkScript out) then unspent v else (unspent v)(o1 := None))"
    by (simp add: unadd_output_def x Let_def)
  with Cons.IH [of "unadd_output f h x v"] show ?case by (auto simp: spendable_def x)
qed

lemma view_spend_unspent:
  assumes "distinct (map PreviousOutPoint ins)" "\<forall>i \<in> set ins. unspent v (PreviousOutPoint i) \<noteq> None"
  obtains v' where
    "view_spend_inputs ins (v, stxos) = Inr (v', stxos @ map (\<lambda>i. the (unspent v (PreviousOutPoint i))) ins)"
    "unspent v' = (\<lambda>op. if op \<in> PreviousOutPoint ` set ins then None else unspent v op)"
  using assms
proof (induction ins arbitrary: v stxos thesis)
  case Nil
  then show ?case by simp
next
  case (Cons i ins)
  let ?op = "PreviousOutPoint i"
  obtain e where e: "LookupEntry v ?op = Some e" "\<not> IsSpent e" "unspent v ?op = Some (spent_of e)"
    using Cons.prems(3) by (auto simp: unspent_def split: option.splits if_splits)
  define w where "w = put_entry ?op (Spend e) v"
  have w: "unspent w = (unspent v)(?op := None)" by (simp add: w_def)
  have other: "PreviousOutPoint j \<noteq> ?op" if "j \<in> set ins" for j
    using Cons.prems(2) that by (auto simp: image_iff)
  obtain v' where v': "view_spend_inputs ins (w, stxos @ [spent_of e]) =
      Inr (v', (stxos @ [spent_of e]) @ map (\<lambda>i. the (unspent w (PreviousOutPoint i))) ins)"
    "unspent v' = (\<lambda>op. if op \<in> PreviousOutPoint ` set ins then None else unspent w op)"
    using Cons.IH [of w "stxos @ [spent_of e]"] Cons.prems(2,3) other by (auto simp: w)
  have m: "map (\<lambda>i. the (unspent w (PreviousOutPoint i))) ins = map (\<lambda>i. the (unspent v (PreviousOutPoint i))) ins"
    using other by (simp add: w)
  show ?case
  proof (rule Cons.prems(1))
    show "view_spend_inputs (i # ins) (v, stxos) =
        Inr (v', stxos @ map (\<lambda>i. the (unspent v (PreviousOutPoint i))) (i # ins))"
      using v'(1) m e by (simp add: w_def)
    show "unspent v' = (\<lambda>op. if op \<in> PreviousOutPoint ` set (i # ins) then None else unspent v op)"
      by (auto simp: v'(2) w)
  qed
qed

lemma restore_unspent:
  assumes "\<forall>i \<in> set ins. \<exists>c. U (PreviousOutPoint i) = Some c \<and> st_Height c \<noteq> 0"
  obtains v' where
    "restore_inputs db hash ins (v, map (\<lambda>i. the (U (PreviousOutPoint i))) ins @ rest) = Inr (v', rest)"
    "unspent v' = (\<lambda>op. if op \<in> PreviousOutPoint ` set ins then U op else unspent v op)"
  using assms
proof (induction ins arbitrary: v thesis)
  case Nil
  then show ?case by simp
next
  case (Cons i ins)
  obtain c where c: "U (PreviousOutPoint i) = Some c" "st_Height c \<noteq> 0" using Cons.prems by auto
  define w where "w = put_entry (PreviousOutPoint i) (restored c)
    (if LookupEntry v (PreviousOutPoint i) = None then put_entry (PreviousOutPoint i) empty_entry v else v)"
  have w: "unspent w = (unspent v)(PreviousOutPoint i \<mapsto> c)" by (simp add: w_def)
  obtain v' where v': "restore_inputs db hash ins (w, map (\<lambda>i. the (U (PreviousOutPoint i))) ins @ rest) = Inr (v', rest)"
    "unspent v' = (\<lambda>op. if op \<in> PreviousOutPoint ` set ins then U op else unspent w op)"
    using Cons.IH [of w] Cons.prems(2) by auto
  show ?case
  proof (rule Cons.prems(1))
    show "restore_inputs db hash (i # ins) (v, map (\<lambda>i. the (U (PreviousOutPoint i))) (i # ins) @ rest) = Inr (v', rest)"
      using v'(1) c by (simp add: w_def Let_def)
    show "unspent v' = (\<lambda>op. if op \<in> PreviousOutPoint ` set (i # ins) then U op else unspent v op)"
      by (auto simp: v'(2) w c)
  qed
qed

section \<open>Blocks as updates of the UTXO set\<close>

text \<open>
  The specification: a transaction that consumes outputs needs them unspent and distinct, no
  output of it may be unspent before; it removes its inputs and adds its spendable outputs.
\<close>

definition tx_ins :: "'d MsgTx \<Rightarrow> OutPoint list" where
  "tx_ins tx = (if transactionConsumesSpendJournal tx (IsCoinBaseTx tx) then map PreviousOutPoint (TxIns tx) else [])"

definition tx_fits :: "('d MsgTx \<Rightarrow> bytes) \<Rightarrow> 'd utxo_set \<Rightarrow> 'd MsgTx \<Rightarrow> bool" where
  "tx_fits txid U tx \<longleftrightarrow> distinct (tx_ins tx) \<and> list_all (\<lambda>op. U op \<noteq> None) (tx_ins tx) \<and>
     list_all (\<lambda>(op, out). U op = None) (spendable (tx_outputs txid tx))"

definition tx_apply :: "('d MsgTx \<Rightarrow> bytes) \<Rightarrow> i32 \<Rightarrow> 'd utxo_set \<Rightarrow> 'd MsgTx \<Rightarrow> 'd utxo_set" where
  "tx_apply txid h U tx =
     add_coins (IsCoinBaseTx tx) h (tx_outputs txid tx) (\<lambda>op. if op \<in> set (tx_ins tx) then None else U op)"

definition tx_undo :: "'d utxo_set \<Rightarrow> 'd MsgTx \<Rightarrow> 'd SpentTxOut list" where
  "tx_undo U tx = map (\<lambda>op. the (U op)) (tx_ins tx)"

fun txs_fit :: "('d MsgTx \<Rightarrow> bytes) \<Rightarrow> i32 \<Rightarrow> 'd utxo_set \<Rightarrow> 'd MsgTx list \<Rightarrow> bool" where
  "txs_fit txid h U [] = True"
| "txs_fit txid h U (tx # txs) = (tx_fits txid U tx \<and> txs_fit txid h (tx_apply txid h U tx) txs)"

fun txs_undo :: "('d MsgTx \<Rightarrow> bytes) \<Rightarrow> i32 \<Rightarrow> 'd utxo_set \<Rightarrow> 'd MsgTx list \<Rightarrow> 'd SpentTxOut list" where
  "txs_undo txid h U [] = []"
| "txs_undo txid h U (tx # txs) = tx_undo U tx @ txs_undo txid h (tx_apply txid h U tx) txs"

lemma connect_tx_inputs:
  assumes "distinct (tx_ins tx)" "list_all (\<lambda>op. unspent v op \<noteq> None) (tx_ins tx)"
  obtains v' where "view_connectTransaction txid tx h (v, stxos) = Inr (v', stxos @ tx_undo (unspent v) tx)"
    "unspent v' = tx_apply txid h (unspent v) tx"
proof (cases "transactionConsumesSpendJournal tx (IsCoinBaseTx tx)")
  case True
  then have "distinct (map PreviousOutPoint (TxIns tx))"
    "\<forall>i \<in> set (TxIns tx). unspent v (PreviousOutPoint i) \<noteq> None"
    using assms by (auto simp: tx_ins_def list_all_iff)
  then obtain w where w: "view_spend_inputs (TxIns tx) (v, stxos) =
      Inr (w, stxos @ map (\<lambda>i. the (unspent v (PreviousOutPoint i))) (TxIns tx))"
    "unspent w = (\<lambda>op. if op \<in> PreviousOutPoint ` set (TxIns tx) then None else unspent v op)"
    by (rule view_spend_unspent)
  show thesis
  proof (rule that)
    show "view_connectTransaction txid tx h (v, stxos) = Inr (view_AddTxOuts txid tx h w, stxos @ tx_undo (unspent v) tx)"
      using True w(1) by (simp add: view_connectTransaction_def tx_undo_def tx_ins_def comp_def)
    show "unspent (view_AddTxOuts txid tx h w) = tx_apply txid h (unspent v) tx"
      using True by (simp add: unspent_AddTxOuts w(2) tx_apply_def tx_ins_def)
  qed
next
  case False
  then show thesis
    by (intro that [of "view_AddTxOuts txid tx h v"])
       (simp_all add: view_connectTransaction_def tx_undo_def tx_ins_def unspent_AddTxOuts tx_apply_def)
qed

lemma connect_tx_refines:
  assumes "tx_fits txid (unspent v) tx"
  obtains v' where "view_connectTransaction txid tx h (v, stxos) = Inr (v', stxos @ tx_undo (unspent v) tx)"
    "unspent v' = tx_apply txid h (unspent v) tx"
  using assms unfolding tx_fits_def by (blast intro: connect_tx_inputs)

lemma connect_txs_refines:
  assumes "txs_fit txid h (unspent v) txs"
  obtains v' where "connect_txs txid h txs (v, stxos) = Inr (v', stxos @ txs_undo txid h (unspent v) txs)"
    "unspent v' = foldl (tx_apply txid h) (unspent v) txs"
  using assms
proof (induction txs arbitrary: v stxos thesis)
  case Nil
  then show ?case by simp
next
  case (Cons tx txs)
  obtain w where w: "view_connectTransaction txid tx h (v, stxos) = Inr (w, stxos @ tx_undo (unspent v) tx)"
    "unspent w = tx_apply txid h (unspent v) tx"
    using connect_tx_refines [of txid v tx h stxos] Cons.prems(2) by auto
  obtain v' where "connect_txs txid h txs (w, stxos @ tx_undo (unspent v) tx) =
      Inr (v', (stxos @ tx_undo (unspent v) tx) @ txs_undo txid h (unspent w) txs)"
    "unspent v' = foldl (tx_apply txid h) (unspent w) txs"
    using Cons.IH [of w "stxos @ tx_undo (unspent v) tx"] Cons.prems(2) w(2) by auto
  with w show ?case by (intro Cons.prems(1)) simp_all
qed

text \<open>Undoing a transaction that fitted restores the set.\<close>

lemma tx_unapply:
  assumes "tx_fits txid U tx"
  shows "(if op \<in> set (tx_ins tx) then U op
      else if op \<in> fst ` set (spendable (tx_outputs txid tx)) then None
      else tx_apply txid h U tx op) = U op"
  using assms by (auto simp: tx_fits_def list_all_iff tx_apply_def add_coins_other)

definition tall :: "'d utxo_set \<Rightarrow> bool" where
  "tall U \<longleftrightarrow> (\<forall>op c. U op = Some c \<longrightarrow> st_Height c \<noteq> 0)"

lemma tall_upd: "tall U \<Longrightarrow> h \<noteq> 0 \<Longrightarrow> tall (U(op \<mapsto> coin_of out cb h))"
  by (auto simp: tall_def coin_of_def)

lemma tall_apply: "tall U \<Longrightarrow> h \<noteq> 0 \<Longrightarrow> tall (tx_apply txid h U tx)"
proof -
  assume U: "tall U" and h: "h \<noteq> 0"
  have "tall V \<Longrightarrow> tall (fold (\<lambda>(op, out) U. U(op \<mapsto> coin_of out cb h)) xs V)" for cb xs and V :: "'a utxo_set"
    using h by (induction xs arbitrary: V) (auto simp: tall_upd)
  moreover have "tall (\<lambda>op. if op \<in> set (tx_ins tx) then None else U op)" using U by (simp add: tall_def)
  ultimately show ?thesis by (simp add: tx_apply_def add_coins_def)
qed

lemma disconnect_append:
  "disconnect_txs txid db h (xs @ ys) s = andthen (disconnect_txs txid db h xs s) (disconnect_txs txid db h ys)"
proof (induction xs arbitrary: s)
  case Nil
  then show ?case by simp
next
  case (Cons x xs)
  obtain i tx where x: "x = (i, tx)" by force
  obtain v st where s: "s = (v, st)" by force
  show ?case
    using Cons.IH by (auto simp: x s Let_def andthen_def split: sum.splits)
qed

lemma disconnect_tx_refines:
  assumes "unspent v = tx_apply txid h U tx" "tx_fits txid U tx" "tall U" "IsCoinBaseTx tx \<longleftrightarrow> i = 0"
  obtains v' where "disconnect_txs txid db h [(i, tx)] (v, rev (tx_undo U tx) @ rest) = Inr (v', rest)"
    "unspent v' = U"
proof -
  define w where "w = fold (unadd_output (if i = 0 then tfCoinBase else 0) h) (tx_outputs txid tx) v"
  have w: "unspent w op = (if op \<in> fst ` set (spendable (tx_outputs txid tx)) then None else tx_apply txid h U tx op)" for op
    by (simp add: w_def unspent_unadd assms(1))
  show thesis
  proof (cases "transactionConsumesSpendJournal tx (i = 0)")
    case True
    then have ins: "tx_ins tx = map PreviousOutPoint (TxIns tx)" using assms(4) by (simp add: tx_ins_def)
    have "\<forall>i \<in> set (rev (TxIns tx)). \<exists>c. U (PreviousOutPoint i) = Some c \<and> st_Height c \<noteq> 0"
      using assms(2,3) by (auto simp: tx_fits_def list_all_iff ins tall_def)
    then obtain v' where v': "restore_inputs db (txid tx) (rev (TxIns tx))
        (w, map (\<lambda>i. the (U (PreviousOutPoint i))) (rev (TxIns tx)) @ rest) = Inr (v', rest)"
      "unspent v' = (\<lambda>op. if op \<in> PreviousOutPoint ` set (rev (TxIns tx)) then U op else unspent w op)"
      by (rule restore_unspent)
    have "unspent v' op = U op" for op
      using tx_unapply [OF assms(2), of op h] by (simp add: v'(2) w ins split: if_split_asm)
    then have "unspent v' = U" by (rule ext)
    with v'(1) True show thesis
      by (intro that [of v']) (simp_all add: w_def Let_def tx_undo_def ins rev_map comp_def)
  next
    case False
    then have ins: "tx_ins tx = []" using assms(4) by (simp add: tx_ins_def)
    have "unspent w op = U op" for op
      using tx_unapply [OF assms(2), of op h] by (simp add: w ins split: if_split_asm)
    then have "unspent w = U" by (rule ext)
    with False show thesis
      by (intro that [of w]) (simp_all add: w_def Let_def tx_undo_def ins)
  qed
qed

lemma disconnect_txs_refines:
  assumes "unspent v = foldl (tx_apply txid h) U (map snd its)" "txs_fit txid h U (map snd its)" "tall U" "h \<noteq> 0"
    "\<forall>(i, tx) \<in> set its. IsCoinBaseTx tx \<longleftrightarrow> i = 0"
  obtains v' where
    "disconnect_txs txid db h (rev its) (v, rev (txs_undo txid h U (map snd its)) @ rest) = Inr (v', rest)"
    "unspent v' = U"
  using assms
proof (induction its arbitrary: U rest thesis)
  case Nil
  then show ?case by simp
next
  case (Cons x its)
  obtain i tx where x: "x = (i, tx)" by force
  let ?U = "tx_apply txid h U tx"
  obtain w where w: "disconnect_txs txid db h (rev its)
      (v, rev (txs_undo txid h ?U (map snd its)) @ rev (tx_undo U tx) @ rest) = Inr (w, rev (tx_undo U tx) @ rest)"
    "unspent w = ?U"
    using Cons.IH [of ?U "rev (tx_undo U tx) @ rest"] Cons.prems(2-) by (auto simp: x tall_apply)
  obtain v' where "disconnect_txs txid db h [(i, tx)] (w, rev (tx_undo U tx) @ rest) = Inr (v', rest)" "unspent v' = U"
    using disconnect_tx_refines [OF w(2), of i db rest] Cons.prems(2-) by (auto simp: x)
  with w(1) show ?case
    by (intro Cons.prems(1)) (simp_all add: x disconnect_append del: disconnect_txs.simps)
qed

lemma length_txs_undo:
  assumes "\<forall>(i, tx) \<in> set its. IsCoinBaseTx tx \<longleftrightarrow> i = 0"
  shows "length (txs_undo txid h U (map snd its)) =
    sum_list (map (\<lambda>(i, tx). if \<not> transactionConsumesSpendJournal tx (i = 0) then 0 else length (TxIns tx)) its)"
  using assms by (induction its arbitrary: U) (auto simp: tx_undo_def tx_ins_def)

text \<open>
  C13 (connecting a block updates the UTXO set): when every transaction of the block spends
  distinct unspent outputs and overwrites none, connecting succeeds, and the view offers exactly
  the outputs the transactions leave: inputs removed, spendable outputs added with their assets.
\<close>

theorem connect_block:
  assumes "txs_fit txid (bl_Height block) (unspent view) (bl_Transactions block)"
  shows "\<exists>view' stxos. view_connectTransactions txid block (view, []) = Inr (view', stxos) \<and>
    unspent view' = foldl (tx_apply txid (bl_Height block)) (unspent view) (bl_Transactions block) \<and>
    vw_bestHash view' = bl_Hash block"
proof -
  obtain v' where "connect_txs txid (bl_Height block) (bl_Transactions block) (view, []) =
      Inr (v', [] @ txs_undo txid (bl_Height block) (unspent view) (bl_Transactions block))"
    "unspent v' = foldl (tx_apply txid (bl_Height block)) (unspent view) (bl_Transactions block)"
    using assms by (rule connect_txs_refines)
  then show ?thesis by (simp add: view_connectTransactions_def)
qed

text \<open>A coinbase, a transaction that spends an output with an asset, and one that spends its output.\<close>

definition ex_txid :: "bytes MsgTx \<Rightarrow> bytes" where
  "ex_txid tx = word_of_nat (unat (LockTime tx)) # replicate 31 0"

definition ex_in :: "byte \<Rightarrow> TxIn" where
  "ex_in b = \<lparr>PreviousOutPoint = \<lparr>Hash = b # replicate 31 0, Index = 0\<rparr>, SignatureScript = [], Witness = [], Sequence = 0\<rparr>"

definition ex_out :: "bytes TxOut" where
  "ex_out = \<lparr>Value = 10, Assets = [example_asset], PkScript = []\<rparr>"

definition ex_block :: "bytes Block" where
  "ex_block = \<lparr>bl_Transactions =
     [\<lparr>Version = 1, TxIns = [\<lparr>PreviousOutPoint = \<lparr>Hash = zeroHash, Index = 0xffffffff\<rparr>, SignatureScript = [],
          Witness = [], Sequence = 0\<rparr>], TxOuts = [ex_out], LockTime = 1\<rparr>,
      \<lparr>Version = 1, TxIns = [ex_in 9], TxOuts = [ex_out], LockTime = 2\<rparr>,
      \<lparr>Version = 1, TxIns = [ex_in 2], TxOuts = [ex_out, ex_out], LockTime = 3\<rparr>],
     bl_Height = 5, bl_Hash = [5], bl_PrevBlock = [4]\<rparr>"

definition ex_view :: "bytes UtxoViewpoint" where
  "ex_view = put_entry (PreviousOutPoint (ex_in 9)) (new_output_entry ex_out False 3) NewUtxoViewpoint"

lemma ex_spendable: "spendable [(op, ex_out)] = [(op, ex_out)]" "spendable [(op, ex_out), (op', ex_out)] = [(op, ex_out), (op', ex_out)]"
proof -
  have "\<not> IsUnspendable []"
    unfolding IsUnspendable_cases by (auto intro: exI [of _ "[]"])
  then show "spendable [(op, ex_out)] = [(op, ex_out)]" "spendable [(op, ex_out), (op', ex_out)] = [(op, ex_out), (op', ex_out)]"
    by (simp_all add: spendable_def ex_out_def)
qed

lemma unspent_ex_view: "unspent ex_view = [PreviousOutPoint (ex_in 9) \<mapsto> coin_of ex_out False 3]"
  by (auto simp: ex_view_def NewUtxoViewpoint_def unspent_def LookupEntry_def put_entry_def)

lemma zeroHash_Cons: "zeroHash = 0 # replicate 31 0"
  by (simp add: zeroHash_def replicate_app_Cons_same [symmetric] flip: replicate_Suc)

lemma ex_block_fits: "txs_fit ex_txid (bl_Height ex_block) (unspent ex_view) (bl_Transactions ex_block)"
  by (simp add: unspent_ex_view ex_block_def ex_in_def ex_txid_def tx_fits_def tx_ins_def tx_apply_def tx_outputs_def
      ex_spendable add_coins_def transactionConsumesSpendJournal_def IsCoinBaseTx_def IsAnchorTx_def AnchorTxOutIndex_def
      zeroHash_Cons)

theorem connect_block_witness:
  "\<exists>view' stxos. view_connectTransactions ex_txid ex_block (ex_view, []) = Inr (view', stxos) \<and>
    unspent view' = foldl (tx_apply ex_txid (bl_Height ex_block)) (unspent ex_view) (bl_Transactions ex_block) \<and>
    vw_bestHash view' = bl_Hash ex_block"
  by (rule connect_block) (rule ex_block_fits)

text \<open>
  C10 (a reorganisation restores the UTXO set): disconnecting a block that was connected, with
  the spent outputs the connection recorded, succeeds and gives back exactly the outputs that
  were unspent before, with their assets, heights and coinbase flags, on the previous block.
  Outputs of the genesis block are excluded: height 0 marks a legacy record.
\<close>

theorem disconnect_connected_block:
  assumes fit: "txs_fit txid (bl_Height block) (unspent view) (bl_Transactions block)"
    and height: "bl_Height block \<noteq> 0" "tall (unspent view)"
    and coinbase: "\<forall>(i, tx) \<in> set (enumerate 0 (bl_Transactions block)). IsCoinBaseTx tx \<longleftrightarrow> i = 0"
  shows "\<exists>view' stxos view''. view_connectTransactions txid block (view, []) = Inr (view', stxos) \<and>
    view_disconnectTransactions txid db block stxos view' = Inr view'' \<and>
    unspent view'' = unspent view \<and> vw_bestHash view'' = bl_PrevBlock block"
proof -
  define h its where h: "h = bl_Height block" and its: "its = enumerate 0 (bl_Transactions block)"
  have txs: "bl_Transactions block = map snd its" by (simp add: its)
  obtain v' where c: "connect_txs txid h (map snd its) (view, []) =
      Inr (v', [] @ txs_undo txid h (unspent view) (map snd its))"
    "unspent v' = foldl (tx_apply txid h) (unspent view) (map snd its)"
    using fit unfolding h txs by (rule connect_txs_refines)
  define view' stxos where s: "view' = v'\<lparr>vw_bestHash := bl_Hash block\<rparr>"
    "stxos = txs_undo txid h (unspent view) (map snd its)"
  have connected: "view_connectTransactions txid block (view, []) = Inr (view', stxos)"
    using c(1) by (simp add: view_connectTransactions_def h txs s)
  obtain v'' where "disconnect_txs txid db h (rev its) (view', rev (txs_undo txid h (unspent view) (map snd its)) @ []) =
      Inr (v'', [])" "unspent v'' = unspent view"
  proof (rule disconnect_txs_refines [of view' txid h "unspent view" its db "[]"])
    show "txs_fit txid h (unspent view) (map snd its)" "h \<noteq> 0" "tall (unspent view)"
      "\<forall>(i, tx) \<in> set its. IsCoinBaseTx tx \<longleftrightarrow> i = 0"
      "unspent view' = foldl (tx_apply txid h) (unspent view) (map snd its)"
      using fit height coinbase c(2) by (simp_all add: s h its)
  qed
  moreover have "length stxos = countSpentOutputs block"
    using length_txs_undo [of its txid h "unspent view"] coinbase by (simp add: s its countSpentOutputs_def)
  ultimately have "view_disconnectTransactions txid db block stxos view' = Inr (v''\<lparr>vw_bestHash := bl_PrevBlock block\<rparr>)"
    "unspent (v''\<lparr>vw_bestHash := bl_PrevBlock block\<rparr>) = unspent view"
    by (simp_all add: view_disconnectTransactions_def s h its)
  then have "\<exists>v. view_disconnectTransactions txid db block stxos view' = Inr v \<and> unspent v = unspent view \<and>
      vw_bestHash v = bl_PrevBlock block" by (intro exI [of _ "v''\<lparr>vw_bestHash := bl_PrevBlock block\<rparr>"]) simp
  with connected show ?thesis by blast
qed

theorem disconnect_connected_block_witness:
  "\<exists>view' stxos view''. view_connectTransactions ex_txid ex_block (ex_view, []) = Inr (view', stxos) \<and>
    view_disconnectTransactions ex_txid (\<lambda>_. Inr None) ex_block stxos view' = Inr view'' \<and>
    unspent view'' = unspent ex_view \<and> vw_bestHash view'' = bl_PrevBlock ex_block"
  by (rule disconnect_connected_block [OF ex_block_fits])
     (auto simp: unspent_ex_view ex_block_def ex_in_def tall_def coin_of_def IsCoinBaseTx_def zeroHash_def split: if_splits)

lemma fetchEntryByHash_first:
  assumes "LookupEntry view \<lparr>Hash = hash, Index = 0\<rparr> = Some e"
  shows "fetchEntryByHash db hash view = Inr (Some e)"
proof -
  have "[0..<MaxOutputsPerBlock] = 0 # [1..<MaxOutputsPerBlock]"
    using upt_conv_Cons [of 0 MaxOutputsPerBlock] by (simp add: MaxOutputsPerBlock_def del: upt_rec_numeral)
  then show ?thesis using assms by (simp add: fetchEntryByHash_def)
qed

text \<open>
  For a spent output recorded without its height,
  \<^verbatim>\<open>disconnectTransactions\<close> looks for an entry with the hash of the spending transaction, not
  of the transaction that created the output.  The first output of the spender was just put in
  the view, so the restored output gets the height and the coinbase flag of the spender.
\<close>

lemma legacy_height_from_spender:
  assumes "st_Height stxo = 0"
    and "LookupEntry view \<lparr>Hash = txHash, Index = 0\<rparr> = Some own"
    and "PreviousOutPoint txIn \<noteq> \<lparr>Hash = txHash, Index = 0\<rparr>"
  shows "\<exists>view' e. restore_inputs db txHash [txIn] (view, [stxo]) = Inr (view', []) \<and>
    LookupEntry view' (PreviousOutPoint txIn) = Some e \<and> ue_amount e = st_Amount stxo \<and>
    ue_blockHeight e = ue_blockHeight own \<and> ue_IsCoinBase e = ue_IsCoinBase own"
proof -
  define w where "w = (if LookupEntry view (PreviousOutPoint txIn) = None
    then put_entry (PreviousOutPoint txIn) empty_entry view else view)"
  have "LookupEntry w \<lparr>Hash = txHash, Index = 0\<rparr> = Some own" using assms(2,3) by (simp add: w_def)
  then have "fetchEntryByHash db txHash w = Inr (Some own)" by (rule fetchEntryByHash_first)
  then show ?thesis
    using assms(1) by (simp add: Let_def flip: w_def) (simp add: restored_def flag_defs bit_or_iff bit_flags)
qed

end
