(* ===== verification/Merkle.thy ===== *)
theory Merkle
  imports Utxo_View
begin

text \<open>
  Merkle trees and the witness commitment (\<^verbatim>\<open>blockchain/merkle.go\<close>,
  \<^verbatim>\<open>blockchain/rolling_merkle.go\<close>), with the codes of rule violations
  (\<^verbatim>\<open>blockchain/error.go\<close>).  \<open>sha\<close> is SHA-256, \<open>txid\<close> and \<open>wtxid\<close> are the cached hashes of a
  transaction, \<open>log2\<close> is the rounded-down floating-point logarithm.  Numbers of leaves are natural
  numbers: they count transactions held in memory.
\<close>

unbundle bit_operations_syntax

section \<open>Rule violations\<close>

datatype RuleErrorCode =
  ErrDuplicateBlock | ErrBlockTooBig | ErrBlockWeightTooHigh | ErrBlockVersionTooOld | ErrInvalidTime
| ErrTimeTooOld | ErrTimeTooNew | ErrDifficultyTooLow | ErrUnexpectedDifficulty | ErrHighHash
| ErrBadMerkleRoot | ErrBadCheckpoint | ErrForkTooOld | ErrCheckpointTimeTooOld | ErrNoTransactions
| ErrNoTxInputs | ErrNoTxOutputs | ErrTxTooBig | ErrBadTxOutValue | ErrDuplicateTxInputs | ErrBadTxInput
| ErrMissingTxOut | ErrUnfinalizedTx | ErrDuplicateTx | ErrOverwriteTx | ErrImmatureSpend | ErrSpendTooHigh
| ErrBadFees | ErrTooManySigOps | ErrFirstTxNotCoinbase | ErrMultipleCoinbases | ErrBadCoinbaseScriptLen
| ErrBadCoinbaseValue | ErrMissingCoinbaseHeight | ErrBadCoinbaseHeight | ErrScriptMalformed
| ErrScriptValidation | ErrUnexpectedWitness | ErrInvalidWitnessCommitment | ErrWitnessCommitmentMismatch
| ErrPreviousBlockUnknown | ErrInvalidAncestorBlock | ErrPrevBlockNotBest | ErrTimewarpAttack
| ErrAnchorTXVerifyFailed | ErrInvalidEVMBlock | ErrOrdinalsNotAllowed

text \<open>
  The errors of validation: a rule violation, an error of the UTXO state, an error of a part that
  is a parameter of the model, or a panic.
\<close>

datatype chain_error = RuleErr RuleErrorCode | StateErr utxo_error | OtherErr string | ChainPanic

section \<open>The tree as an array\<close>

definition nextPowerOfTwo :: "(nat \<Rightarrow> nat) \<Rightarrow> nat \<Rightarrow> nat" where
  "nextPowerOfTwo log2 n = (if n AND (n - 1) = 0 then n else let exponent = log2 n + 1 in push_bit exponent 1)"

definition HashMerkleBranches :: "(bytes \<Rightarrow> bytes) \<Rightarrow> bytes \<Rightarrow> bytes \<Rightarrow> bytes" where
  "HashMerkleBranches sha left right = DoubleHashRaw sha (left @ right, None)"

text \<open>The hash of the transaction at index \<open>i\<close> as a leaf.\<close>

definition merkle_leaf :: "('t \<Rightarrow> bytes) \<Rightarrow> ('t \<Rightarrow> bytes) \<Rightarrow> bool \<Rightarrow> nat \<Rightarrow> 't \<Rightarrow> bytes" where
  "merkle_leaf txid wtxid witness i tx =
     (if witness \<and> i = 0 then zeroHash else if witness then wtxid tx else txid tx)"

definition merkle_parent :: "(bytes \<Rightarrow> bytes) \<Rightarrow> bytes option \<Rightarrow> bytes option \<Rightarrow> bytes option" where
  "merkle_parent sha left right = (case left of
     None \<Rightarrow> None
   | Some l \<Rightarrow> (case right of None \<Rightarrow> Some (HashMerkleBranches sha l l) | Some r \<Rightarrow> Some (HashMerkleBranches sha l r)))"

text \<open>The loop over pairs of nodes; a nil entry of the array is None.\<close>

function merkle_loop :: "(bytes \<Rightarrow> bytes) \<Rightarrow> nat \<Rightarrow> nat \<Rightarrow> nat \<Rightarrow> bytes option list \<Rightarrow> bytes option list" where
  "merkle_loop sha arraySize i offset merkles =
     (if i < arraySize - 1 then
        merkle_loop sha arraySize (i + 2) (offset + 1)
          (merkles[offset := merkle_parent sha (merkles ! i) (merkles ! (i + 1))])
      else merkles)"
  by auto
termination by (relation "measure (\<lambda>(sha, arraySize, i, offset, merkles). arraySize - i)") auto

declare merkle_loop.simps [simp del]

text \<open>Making an array of length -1 panics: a list without transactions has no tree.\<close>

definition BuildMerkleTreeStore ::
    "(bytes \<Rightarrow> bytes) \<Rightarrow> (nat \<Rightarrow> nat) \<Rightarrow> ('t \<Rightarrow> bytes) \<Rightarrow> ('t \<Rightarrow> bytes) \<Rightarrow> 't list \<Rightarrow> bool \<Rightarrow> bytes option list option" where
  "BuildMerkleTreeStore sha log2 txid wtxid transactions witness =
     (let nextPoT = nextPowerOfTwo log2 (length transactions) in
      if nextPoT * 2 < 1 then None
      else let arraySize = nextPoT * 2 - 1;
               merkles = foldl (\<lambda>m (i, tx). m[i := Some (merkle_leaf txid wtxid witness i tx)])
                 (replicate arraySize None) (enumerate 0 transactions)
           in Some (merkle_loop sha arraySize 0 nextPoT merkles))"

section \<open>The rolling computation\<close>

record rollingMerkleTreeStore =
  rm_roots :: "bytes list"
  rm_numLeaves :: nat

definition newRollingMerkleTreeStore :: "nat \<Rightarrow> rollingMerkleTreeStore" where
  "newRollingMerkleTreeStore sz = \<lparr>rm_roots = [], rm_numLeaves = 0\<rparr>"

text \<open>The loop of \<^verbatim>\<open>add\<close>; popping from an empty slice panics.\<close>

function rm_add_loop :: "(bytes \<Rightarrow> bytes) \<Rightarrow> nat \<Rightarrow> nat \<Rightarrow> bytes list \<Rightarrow> bytes \<Rightarrow> bytes list option" where
  "rm_add_loop sha numLeaves h roots newRoot =
     (if drop_bit h numLeaves AND 1 = 1 then
        if roots = [] then None
        else rm_add_loop sha numLeaves (h + 1) (butlast roots) (HashMerkleBranches sha (last roots) newRoot)
      else Some (roots @ [newRoot]))"
  by auto
termination
proof (relation "measure (\<lambda>(sha, numLeaves, h, roots, newRoot). length roots)")
qed (auto simp: length_greater_0_conv [symmetric] simp del: length_greater_0_conv)

declare rm_add_loop.simps [simp del]

definition rm_add :: "(bytes \<Rightarrow> bytes) \<Rightarrow> bytes \<Rightarrow> rollingMerkleTreeStore \<Rightarrow> rollingMerkleTreeStore option" where
  "rm_add sha add s =
     map_option (\<lambda>roots. \<lparr>rm_roots = roots, rm_numLeaves = rm_numLeaves s + 1\<rparr>)
       (rm_add_loop sha (rm_numLeaves s) 0 (rm_roots s) add)"

fun rm_add_all :: "(bytes \<Rightarrow> bytes) \<Rightarrow> bytes list \<Rightarrow> rollingMerkleTreeStore \<Rightarrow> rollingMerkleTreeStore option" where
  "rm_add_all sha [] s = Some s"
| "rm_add_all sha (x # xs) s = Option.bind (rm_add sha x s) (rm_add_all sha xs)"

text \<open>
  The two loops after the leaves: the inner one never ends on a count of zero, the outer one ends
  only when a single root is left, so both may fail to return.
\<close>

partial_function (option) rm_shift :: "nat \<Rightarrow> nat \<Rightarrow> nat \<Rightarrow> nat option" where
  "rm_shift currentLeaves h numLeaves =
     (if drop_bit h currentLeaves AND 1 = 0 then rm_shift currentLeaves (h + 1) (drop_bit 1 numLeaves)
      else Some numLeaves)"

partial_function (option) rm_finish :: "(bytes \<Rightarrow> bytes) \<Rightarrow> rollingMerkleTreeStore \<Rightarrow> rollingMerkleTreeStore option" where
  "rm_finish sha s =
     (if length (rm_roots s) > 1 then
        Option.bind (rm_shift (rm_numLeaves s) 0 (rm_numLeaves s)) (\<lambda>n.
        Option.bind (rm_add sha (last (rm_roots s)) (s\<lparr>rm_numLeaves := n\<rparr>)) (rm_finish sha))
      else Some s)"

definition rm_calcMerkleRoot ::
    "(bytes \<Rightarrow> bytes) \<Rightarrow> ('t \<Rightarrow> bytes) \<Rightarrow> ('t \<Rightarrow> bytes) \<Rightarrow> 't list \<Rightarrow> bool \<Rightarrow> rollingMerkleTreeStore \<Rightarrow> bytes option" where
  "rm_calcMerkleRoot sha txid wtxid adds witness s =
     Option.bind (rm_add_all sha (map (\<lambda>(i, tx). merkle_leaf txid wtxid witness i tx) (enumerate 0 adds)) s) (\<lambda>s.
     if rm_numLeaves s = 1 then Some (rm_roots s ! 0)
     else Option.bind
       (if length adds > 0 \<and> length adds mod 2 \<noteq> 0 then
          rm_add sha (if witness then wtxid (last adds) else txid (last adds)) s
        else Some s) (\<lambda>s.
     Option.bind (rm_finish sha s) (\<lambda>s.
       case rm_roots s of [] \<Rightarrow> None | r # _ \<Rightarrow> Some r)))"

definition CalcMerkleRoot ::
    "(bytes \<Rightarrow> bytes) \<Rightarrow> ('t \<Rightarrow> bytes) \<Rightarrow> ('t \<Rightarrow> bytes) \<Rightarrow> 't list \<Rightarrow> bool \<Rightarrow> bytes option" where
  "CalcMerkleRoot sha txid wtxid transactions witness =
     rm_calcMerkleRoot sha txid wtxid transactions witness (newRollingMerkleTreeStore (length transactions))"

section \<open>The witness commitment\<close>

definition CoinbaseWitnessDataLen :: nat where "CoinbaseWitnessDataLen = 32"

definition CoinbaseWitnessPkScriptLength :: nat where "CoinbaseWitnessPkScriptLength = 38"

definition WitnessMagicBytes :: bytes where "WitnessMagicBytes = [0x6a, 0x24, 0xaa, 0x21, 0xa9, 0xed]"

text \<open>The outputs are searched from the last one down.\<close>

definition ExtractWitnessCommitment :: "'d MsgTx \<Rightarrow> bytes option" where
  "ExtractWitnessCommitment tx =
     (if \<not> IsCoinBaseTx tx then None
      else map_option (\<lambda>out. take (CoinbaseWitnessPkScriptLength - length WitnessMagicBytes)
          (drop (length WitnessMagicBytes) (PkScript out)))
        (find (\<lambda>out. length (PkScript out) \<ge> CoinbaseWitnessPkScriptLength \<and>
            take (length WitnessMagicBytes) (PkScript out) = WitnessMagicBytes) (rev (TxOuts tx))))"

definition DoubleHashB :: "(bytes \<Rightarrow> bytes) \<Rightarrow> bytes \<Rightarrow> bytes" where
  "DoubleHashB sha b = sha (sha b)"

definition validateWitnessCommitment ::
    "(bytes \<Rightarrow> bytes) \<Rightarrow> ('d MsgTx \<Rightarrow> bytes) \<Rightarrow> ('d MsgTx \<Rightarrow> bytes) \<Rightarrow> 'd MsgTx list \<Rightarrow> nat \<Rightarrow> bool \<Rightarrow> chain_error + unit" where
  "validateWitnessCommitment sha txid wtxid txs witnessItems required =
     (case txs of [] \<Rightarrow> Inl (RuleErr ErrNoTransactions)
      | coinbaseTx # _ \<Rightarrow>
        if TxIns coinbaseTx = [] then Inl (RuleErr ErrNoTxInputs)
        else case ExtractWitnessCommitment coinbaseTx of
          None \<Rightarrow>
            if required then Inl (RuleErr ErrInvalidWitnessCommitment)
            else if list_ex HasWitness txs then Inl (RuleErr ErrUnexpectedWitness)
            else Inr ()
        | Some witnessCommitment \<Rightarrow>
            let coinbaseWitness = Witness (TxIns coinbaseTx ! 0) in
            if length coinbaseWitness \<noteq> witnessItems then Inl (RuleErr ErrInvalidWitnessCommitment)
            else if coinbaseWitness = [] then Inl ChainPanic
            else let witnessNonce = coinbaseWitness ! 0 in
            if length witnessNonce \<noteq> CoinbaseWitnessDataLen then Inl (RuleErr ErrInvalidWitnessCommitment)
            else case CalcMerkleRoot sha txid wtxid txs True of
              None \<Rightarrow> Inl ChainPanic
            | Some witnessMerkleRoot \<Rightarrow>
                if DoubleHashB sha (witnessMerkleRoot @ witnessNonce) \<noteq> witnessCommitment
                then Inl (RuleErr ErrWitnessCommitmentMismatch)
                else Inr ())"

definition ValidateWitnessCommitment ::
    "(bytes \<Rightarrow> bytes) \<Rightarrow> ('d MsgTx \<Rightarrow> bytes) \<Rightarrow> ('d MsgTx \<Rightarrow> bytes) \<Rightarrow> 'd MsgTx list \<Rightarrow> chain_error + unit" where
  "ValidateWitnessCommitment sha txid wtxid txs = validateWitnessCommitment sha txid wtxid txs 1 False"

definition ValidatePOSWitnessCommitment ::
    "(bytes \<Rightarrow> bytes) \<Rightarrow> ('d MsgTx \<Rightarrow> bytes) \<Rightarrow> ('d MsgTx \<Rightarrow> bytes) \<Rightarrow> 'd MsgTx list \<Rightarrow> bool \<Rightarrow> chain_error + unit" where
  "ValidatePOSWitnessCommitment sha txid wtxid txs proposal =
     validateWitnessCommitment sha txid wtxid txs (if proposal then 1 else 2) True"

section \<open>The root as a recursive function\<close>

text \<open>One row above another, with the last node doubled when it has no neighbour.\<close>

fun row_above :: "(bytes \<Rightarrow> bytes) \<Rightarrow> bytes list \<Rightarrow> bytes list" where
  "row_above sha [] = []"
| "row_above sha [x] = [HashMerkleBranches sha x x]"
| "row_above sha (x # y # xs) = HashMerkleBranches sha x y # row_above sha xs"

lemma length_row_above [simp]: "length (row_above sha xs) = (length xs + 1) div 2"
  by (induction sha xs rule: row_above.induct) auto

fun merkle_root :: "(bytes \<Rightarrow> bytes) \<Rightarrow> bytes list \<Rightarrow> bytes" where
  "merkle_root sha [] = zeroHash"
| "merkle_root sha [x] = x"
| "merkle_root sha (x # y # xs) = merkle_root sha (row_above sha (x # y # xs))"

declare merkle_root.simps(3) [simp del]

lemma merkle_root_step: "length xs \<ge> 2 \<Longrightarrow> merkle_root sha xs = merkle_root sha (row_above sha xs)"
  by (cases "(sha, xs)" rule: merkle_root.cases) (auto simp: merkle_root.simps(3))

lemma row_above_pair:
  "even (length xs) \<Longrightarrow> row_above sha (xs @ [x, y]) = row_above sha xs @ [HashMerkleBranches sha x y]"
  by (induction sha xs rule: row_above.induct) auto

lemma row_above_twin: "odd (length xs) \<Longrightarrow> row_above sha (xs @ [last xs]) = row_above sha xs"
  by (induction sha xs rule: row_above.induct) auto

lemma merkle_root_twin:
  assumes "odd (length xs)" "length xs \<ge> 2"
  shows "merkle_root sha (xs @ [last xs]) = merkle_root sha xs"
  using merkle_root_step [of "xs @ [last xs]" sha] merkle_root_step [OF assms(2)] row_above_twin [OF assms(1)] assms(2)
  by simp

section \<open>The rolling computation gives the root\<close>

text \<open>The roots of the complete subtrees, from the highest row down.\<close>

function peaks :: "(bytes \<Rightarrow> bytes) \<Rightarrow> bytes list \<Rightarrow> bytes list" where
  "peaks sha xs = (if xs = [] then []
     else if even (length xs) then peaks sha (row_above sha xs)
     else peaks sha (row_above sha (butlast xs)) @ [last xs])"
  by auto
termination
proof (relation "measure (\<lambda>(sha, xs). length xs)")
  fix sha :: "bytes \<Rightarrow> bytes" and xs :: "bytes list"
  assume "xs \<noteq> []" "even (length xs)"
  then show "((sha, row_above sha xs), sha, xs) \<in> measure (\<lambda>(sha, xs). length xs)" by (cases xs) (auto elim!: oddE)
next
  fix sha :: "bytes \<Rightarrow> bytes" and xs :: "bytes list"
  assume "xs \<noteq> []"
  then show "((sha, row_above sha (butlast xs)), sha, xs) \<in> measure (\<lambda>(sha, xs). length xs)" by (cases xs) auto
qed simp

declare peaks.simps [simp del]

lemma peaks_Nil [simp]: "peaks sha [] = []"
  by (simp add: peaks.simps)

lemma peaks_even: "even (length xs) \<Longrightarrow> peaks sha xs = peaks sha (row_above sha xs)"
  by (cases "xs = []") (simp_all add: peaks.simps [of sha xs])

lemma peaks_odd: "odd (length xs) \<Longrightarrow> peaks sha xs = peaks sha (row_above sha (butlast xs)) @ [last xs]"
  by (subst peaks.simps) auto

lemma add_loop_peaks:
  "length xs = drop_bit h n \<Longrightarrow> rm_add_loop sha n h (peaks sha xs) x = Some (peaks sha (xs @ [x]))"
proof (induction xs arbitrary: h x rule: length_induct)
  case (1 xs)
  show ?case
  proof (cases "odd (length xs)")
    case False
    then have "peaks sha (xs @ [x]) = peaks sha xs @ [x]" by (simp add: peaks_odd peaks_even [of xs])
    moreover have "drop_bit h n AND 1 \<noteq> 1" using False 1(2) by (simp add: and_one_eq mod_2_eq_odd)
    ultimately show ?thesis by (subst rm_add_loop.simps) simp
  next
    case True
    then have ne: "xs \<noteq> []" by auto
    let ?ys = "row_above sha (butlast xs)" and ?x = "HashMerkleBranches sha (last xs) x"
    have "drop_bit (h + 1) n = length xs div 2"
      by (simp only: 1(2) drop_bit_eq_div power_add power_one_right div_mult2_eq)
    moreover have "length ?ys = length xs div 2" "length ?ys < length xs" using True ne by (auto elim!: oddE)
    ultimately have len: "length ?ys = drop_bit (h + 1) n" "length ?ys < length xs" by simp_all
    have xs: "xs @ [x] = butlast xs @ [last xs, x]" using append_butlast_last_id [OF ne] by simp
    have "row_above sha (xs @ [x]) = ?ys @ [?x]"
      unfolding xs using True by (intro row_above_pair) simp
    then have "peaks sha (xs @ [x]) = peaks sha (?ys @ [?x])" using True by (simp add: peaks_even)
    moreover have "drop_bit h n AND 1 = 1" using True 1(2) by (simp add: and_one_eq mod_2_eq_odd)
    moreover have "rm_add_loop sha n (h + 1) (peaks sha ?ys) ?x = Some (peaks sha (?ys @ [?x]))"
      using 1(1) len by blast
    ultimately show ?thesis by (subst rm_add_loop.simps) (simp add: peaks_odd [OF True])
  qed
qed

text \<open>The store after the leaves \<open>xs\<close>.\<close>

definition rolled :: "(bytes \<Rightarrow> bytes) \<Rightarrow> bytes list \<Rightarrow> rollingMerkleTreeStore" where
  "rolled sha xs = \<lparr>rm_roots = peaks sha xs, rm_numLeaves = length xs\<rparr>"

lemma rolled_sel [simp]: "rm_roots (rolled sha xs) = peaks sha xs" "rm_numLeaves (rolled sha xs) = length xs"
  by (simp_all add: rolled_def)

lemma rm_add_rolled [simp]: "rm_add sha x (rolled sha xs) = Some (rolled sha (xs @ [x]))"
  by (simp add: rm_add_def rolled_def add_loop_peaks)

lemma rm_add_all_rolled: "rm_add_all sha ys (rolled sha xs) = Some (rolled sha (xs @ ys))"
  by (induction ys arbitrary: xs) simp_all

lemma last_peaks: "odd (length xs) \<Longrightarrow> last (peaks sha xs) = last xs"
  by (simp add: peaks_odd)

lemma row_above_eq_Nil [simp]: "row_above sha xs = [] \<longleftrightarrow> xs = []"
  by (cases "(sha, xs)" rule: row_above.cases) auto

lemma peaks_eq_Nil: "peaks sha xs = [] \<longleftrightarrow> xs = []"
proof (induction sha xs rule: peaks.induct)
  case (1 sha xs)
  then show ?case by (subst peaks.simps) auto
qed

lemma peaks_single: "length (peaks sha xs) = 1 \<Longrightarrow> peaks sha xs = [merkle_root sha xs]"
proof (induction xs rule: length_induct)
  case (1 xs)
  show ?case
  proof (cases "odd (length xs)")
    case True
    then have e: "peaks sha (row_above sha (butlast xs)) = []" using 1(2) by (simp add: peaks_odd)
    then have "butlast xs = []" by (simp add: peaks_eq_Nil)
    then obtain x where "xs = [x]" using True by (cases xs) (auto split: if_splits)
    then show ?thesis by (simp add: peaks.simps)
  next
    case False
    have "xs \<noteq> []" using 1(2) by auto
    then have l: "length xs \<ge> 2" using False by (cases xs) (auto simp: Suc_le_eq elim!: oddE)
    then show ?thesis
      using 1 False merkle_root_step [OF l, of sha] by (simp add: peaks_even [of xs])
  qed
qed

text \<open>The lowest row above with an odd number of nodes.\<close>

function odd_row :: "(bytes \<Rightarrow> bytes) \<Rightarrow> bytes list \<Rightarrow> bytes list" where
  "odd_row sha xs = (if xs \<noteq> [] \<and> even (length xs) then odd_row sha (row_above sha xs) else xs)"
  by auto
termination
proof (relation "measure (\<lambda>(sha, xs). length xs)")
  fix sha :: "bytes \<Rightarrow> bytes" and xs :: "bytes list"
  assume "xs \<noteq> [] \<and> even (length xs)"
  then show "((sha, row_above sha xs), sha, xs) \<in> measure (\<lambda>(sha, xs). length xs)" by (cases xs) (auto elim!: oddE)
qed simp

declare odd_row.simps [simp del]

lemma odd_row_correct:
  "xs \<noteq> [] \<Longrightarrow> odd (length (odd_row sha xs)) \<and> peaks sha (odd_row sha xs) = peaks sha xs \<and>
    merkle_root sha (odd_row sha xs) = merkle_root sha xs \<and> length (odd_row sha xs) \<le> length xs"
proof (induction sha xs rule: odd_row.induct)
  case (1 sha xs)
  show ?case
  proof (cases "even (length xs)")
    case True
    then have l: "length xs \<ge> 2" using 1(2) by (cases xs) (auto simp: Suc_le_eq elim!: oddE)
    have "(length xs + 1) div 2 \<le> length xs" using l by simp
    then show ?thesis
      using 1 True merkle_root_step [OF l, of sha] by (auto simp: odd_row.simps [of sha xs] peaks_even [of xs])
  next
    case False
    then show ?thesis by (simp add: odd_row.simps [of sha xs])
  qed
qed

lemma odd_row_half: "xs \<noteq> [] \<Longrightarrow> even (length xs) \<Longrightarrow> 2 * length (odd_row sha xs) \<le> length xs"
  using odd_row_correct [of "row_above sha xs" sha] by (simp add: odd_row.simps [of sha xs]) linarith

lemma rm_shift_odd_row:
  "xs \<noteq> [] \<Longrightarrow> length xs = drop_bit h n \<Longrightarrow> rm_shift n h (length xs) = Some (length (odd_row sha xs))"
proof (induction sha xs arbitrary: h rule: odd_row.induct)
  case (1 sha xs)
  show ?case
  proof (cases "even (length xs)")
    case True
    have half: "drop_bit (h + 1) n = length xs div 2"
      by (simp only: 1(3) drop_bit_eq_div power_add power_one_right div_mult2_eq)
    have row: "length (row_above sha xs) = length xs div 2" using True by auto
    have "drop_bit h n AND 1 = 0" using True 1(3) by (simp add: and_one_eq mod_2_eq_odd)
    then have "rm_shift n h (length xs) = rm_shift n (h + 1) (length (row_above sha xs))"
      by (subst rm_shift.simps) (simp add: row drop_bit_Suc del: length_row_above)
    also have "\<dots> = Some (length (odd_row sha (row_above sha xs)))"
      using 1(1) [of "h + 1"] 1(2) True half row by (simp del: length_row_above)
    finally show ?thesis using 1(2) True by (simp add: odd_row.simps [of sha xs])
  next
    case False
    then have "drop_bit h n AND 1 \<noteq> 0" using 1(3) by (simp add: and_one_eq mod_2_eq_odd)
    then show ?thesis using False by (subst rm_shift.simps) (simp add: odd_row.simps [of sha xs])
  qed
qed

lemma rm_finish_root:
  "xs \<noteq> [] \<Longrightarrow> even (length xs) \<Longrightarrow> \<exists>s. rm_finish sha (rolled sha xs) = Some s \<and> rm_roots s = [merkle_root sha xs]"
proof (induction xs rule: length_induct)
  case (1 xs)
  let ?ys = "odd_row sha xs"
  have ys: "odd (length ?ys)" "peaks sha ?ys = peaks sha xs" "merkle_root sha ?ys = merkle_root sha xs"
    using odd_row_correct [OF 1(2)] by simp_all
  show ?case
  proof (cases "length (peaks sha xs) > 1")
    case False
    then have "length (peaks sha xs) = 1" using 1(2) peaks_eq_Nil [of sha xs] by (cases "peaks sha xs") auto
    then show ?thesis by (subst rm_finish.simps) (simp add: rolled_def peaks_single)
  next
    case True
    have "length ?ys \<noteq> 1"
    proof
      assume "length ?ys = 1"
      then obtain y where "?ys = [y]" by (cases ?ys) auto
      then have "peaks sha ?ys = [y]" by (simp add: peaks_odd)
      then show False using True ys(2) by simp
    qed
    then have l: "length ?ys \<ge> 2" using ys(1) by (cases "length ?ys") auto
    have "rm_finish sha (rolled sha xs) = rm_finish sha (rolled sha (?ys @ [last ?ys]))"
    proof -
      have "rm_shift (length xs) 0 (length xs) = Some (length ?ys)" using 1(2) by (intro rm_shift_odd_row) simp_all
      moreover have "(rolled sha xs)\<lparr>rm_numLeaves := length ?ys\<rparr> = rolled sha ?ys" by (simp add: rolled_def ys(2))
      moreover have "last (peaks sha xs) = last ?ys" using last_peaks [OF ys(1), of sha] by (simp only: ys(2))
      ultimately show ?thesis using True by (subst rm_finish.simps) simp
    qed
    moreover have "length (?ys @ [last ?ys]) < length xs" using odd_row_half [OF 1(2,3), of sha] l by simp
    moreover have "merkle_root sha (?ys @ [last ?ys]) = merkle_root sha xs"
      using merkle_root_twin [OF ys(1) l] ys(3) by simp
    ultimately show ?thesis using 1(1) [rule_format, of "?ys @ [last ?ys]"] ys(1) by simp
  qed
qed

definition leaves :: "('t \<Rightarrow> bytes) \<Rightarrow> ('t \<Rightarrow> bytes) \<Rightarrow> bool \<Rightarrow> 't list \<Rightarrow> bytes list" where
  "leaves txid wtxid witness txs = map (\<lambda>(i, tx). merkle_leaf txid wtxid witness i tx) (enumerate 0 txs)"

lemma length_leaves [simp]: "length (leaves txid wtxid witness txs) = length txs"
  by (simp add: leaves_def)

lemma last_leaves:
  assumes "length txs > 1"
  shows "last (leaves txid wtxid witness txs) = (if witness then wtxid (last txs) else txid (last txs))"
proof -
  have ne: "txs \<noteq> []" "leaves txid wtxid witness txs \<noteq> []" using assms by (auto simp flip: length_greater_0_conv)
  have "last (leaves txid wtxid witness txs) = leaves txid wtxid witness txs ! (length txs - 1)" using ne by (simp add: last_conv_nth)
  also have "\<dots> = merkle_leaf txid wtxid witness (length txs - 1) (txs ! (length txs - 1))"
    using assms by (simp add: leaves_def nth_enumerate_eq)
  finally show ?thesis using assms ne by (simp add: merkle_leaf_def last_conv_nth)
qed

lemma CalcMerkleRoot_root:
  assumes "txs \<noteq> []"
  shows "CalcMerkleRoot sha txid wtxid txs witness = Some (merkle_root sha (leaves txid wtxid witness txs))"
proof -
  let ?xs = "leaves txid wtxid witness txs"
  have new: "newRollingMerkleTreeStore n = rolled sha []" for n by (simp add: newRollingMerkleTreeStore_def rolled_def)
  have add: "rm_add_all sha ?xs (rolled sha []) = Some (rolled sha ?xs)" using rm_add_all_rolled [of sha ?xs "[]"] by simp
  note defs = CalcMerkleRoot_def rm_calcMerkleRoot_def new leaves_def [symmetric] add
  consider "length txs = 1" | "length txs > 1" "even (length txs)" | "length txs > 1" "odd (length txs)"
    using assms by (cases txs) auto
  then show ?thesis
  proof cases
    case 1
    then obtain t where "txs = [t]" by (cases txs) auto
    then have "?xs = [merkle_leaf txid wtxid witness 0 t]" by (simp add: leaves_def)
    then show ?thesis by (simp add: defs) (simp add: rolled_def peaks_odd)
  next
    case 2
    then have "?xs \<noteq> []" "rm_numLeaves (rolled sha ?xs) \<noteq> 1" by (auto simp: rolled_def simp flip: length_greater_0_conv)
    then show ?thesis using rm_finish_root [of ?xs sha] 2 by (auto simp: defs)
  next
    case 3
    let ?ys = "?xs @ [last ?xs]"
    have "rm_numLeaves (rolled sha ?xs) \<noteq> 1" using 3 by (simp add: rolled_def)
    moreover obtain s where "rm_finish sha (rolled sha ?ys) = Some s" "rm_roots s = [merkle_root sha ?xs]"
      using rm_finish_root [of ?ys sha] merkle_root_twin [of ?xs sha] 3 by auto
    ultimately show ?thesis using 3 last_leaves [of txs txid wtxid witness] assms by (simp add: defs odd_iff_mod_2_eq_one)
  qed
qed

section \<open>The array ends in the root\<close>

lemma and_pred_power:
  fixes n :: nat
  assumes "n AND (n - 1) = 0" "n > 0"
  shows "\<exists>k. n = 2 ^ k"
  using assms
proof (induction n rule: less_induct)
  case (less n)
  show ?case
  proof (cases "even n")
    case True
    then obtain m where m: "n = 2 * Suc m" using less.prems(2) by (metis evenE gr0_implies_Suc nat_0_less_mult_iff)
    have "n AND (n - 1) = 2 * (Suc m AND m)" by (subst and_rec) (simp add: m)
    then have "Suc m AND (Suc m - 1) = 0" using less.prems(1) by simp
    then obtain k where "Suc m = 2 ^ k" using less.IH [of "Suc m"] m by auto
    then show ?thesis using m by (intro exI [of _ "k + 1"]) simp
  next
    case False
    then obtain m where m: "n = 2 * m + 1" by (auto elim!: oddE)
    have "n AND (n - 1) = 2 * m" using m by (subst and_rec) simp
    then show ?thesis using less.prems(1) m by (intro exI [of _ 0]) simp
  qed
qed

text \<open>What the logarithm must give.\<close>

definition log2_ok :: "(nat \<Rightarrow> nat) \<Rightarrow> nat \<Rightarrow> bool" where
  "log2_ok log2 n \<longleftrightarrow> 2 ^ log2 n \<le> n \<and> n < 2 ^ (log2 n + 1)"

lemma nextPowerOfTwo_bounds:
  assumes "n > 0" "log2_ok log2 n"
  obtains k where "nextPowerOfTwo log2 n = 2 ^ k" "n \<le> 2 ^ k" "2 ^ k < 2 * n"
proof (cases "n AND (n - 1) = 0")
  case True
  then obtain k where "n = 2 ^ k" using and_pred_power assms(1) by blast
  then show thesis using that [of k] True assms(1) by (simp add: nextPowerOfTwo_def)
next
  case False
  have "2 ^ log2 n \<noteq> n"
  proof
    assume n: "2 ^ log2 n = n"
    have "(2 ^ m :: nat) AND (2 ^ m - 1) = 0" for m
      by (simp only: mask_eq_exp_minus_1 [symmetric]) (rule bit_eqI, auto simp: bit_and_iff bit_exp_iff bit_mask_iff)
    from this [of "log2 n"] False show False by (simp add: n)
  qed
  then have "2 ^ (log2 n + 1) < 2 * n" using assms(2) by (simp add: log2_ok_def)
  then show thesis using that [of "log2 n + 1"] False assms(2) by (simp add: nextPowerOfTwo_def log2_ok_def push_bit_eq_mult)
qed

lemma fill_leaves:
  assumes "length txs \<le> m"
  shows "foldl (\<lambda>m (i, tx). m[i := Some (f i tx)]) (replicate m None) (enumerate 0 txs) =
    map (\<lambda>(i, tx). Some (f i tx)) (enumerate 0 txs) @ replicate (m - length txs) None"
proof -
  have "foldl (\<lambda>m (i, tx). m[i := Some (f i tx)]) (ys @ replicate k None) (enumerate (length ys) txs) =
      ys @ map (\<lambda>(i, tx). Some (f i tx)) (enumerate (length ys) txs) @ replicate (k - length txs) None"
    if "length txs \<le> k" for ys k
    using that
  proof (induction txs arbitrary: ys k)
    case (Cons t txs)
    then obtain k' where k: "k = Suc k'" by (cases k) auto
    show ?case using Cons.IH [of k' "ys @ [Some (f (length ys) t)]"] Cons.prems by (simp add: k list_update_append)
  qed simp
  from this [OF assms, of "[]"] show ?thesis by simp
qed

text \<open>The array the loop leaves: every node above the leaves is the parent of its two nodes.\<close>

lemma merkle_loop_parents:
  assumes "length merkles = 2 * p - 1" "p \<le> off" "off \<le> 2 * p - 1" "i = 2 * (off - p)"
    and "\<And>j. p \<le> j \<Longrightarrow> j < off \<Longrightarrow> merkles ! j = merkle_parent sha (merkles ! (2 * (j - p))) (merkles ! (2 * (j - p) + 1))"
    and "r = merkle_loop sha (2 * p - 1) i off merkles"
  shows "length r = 2 * p - 1 \<and> take p r = take p merkles \<and>
    (\<forall>j. p \<le> j \<and> j < 2 * p - 1 \<longrightarrow> r ! j = merkle_parent sha (r ! (2 * (j - p))) (r ! (2 * (j - p) + 1)))"
  using assms
proof (induction "2 * p - 1 - off" arbitrary: off i merkles)
  case 0
  then have "\<not> i < 2 * p - 1 - 1" by auto
  then have "r = merkles" using 0 by (simp add: merkle_loop.simps)
  then show ?case using 0 by auto
next
  case (Suc x)
  let ?m = "merkles[off := merkle_parent sha (merkles ! i) (merkles ! (i + 1))]"
  have lt: "i < 2 * p - 1 - 1" "i + 1 < off" using Suc.hyps(2) Suc.prems by auto
  have r: "r = merkle_loop sha (2 * p - 1) (i + 2) (off + 1) ?m"
    using Suc.prems(6) lt by (subst (asm) merkle_loop.simps) simp
  have par: "?m ! j = merkle_parent sha (?m ! (2 * (j - p))) (?m ! (2 * (j - p) + 1))" if "p \<le> j" "j < off + 1" for j
  proof (cases "j = off")
    case True
    have e: "2 * (off - p) = i" and len: "off < length merkles" using Suc.hyps(2) Suc.prems(1,4) by simp_all
    show ?thesis unfolding True e using lt(2) len by simp
  next
    case False
    then have "j < off" "2 * (j - p) \<noteq> off" "2 * (j - p) + 1 \<noteq> off" using that Suc.prems(3) by auto
    then show ?thesis using Suc.prems(5) [OF that(1)] False by simp
  qed
  have "length r = 2 * p - 1 \<and> take p r = take p ?m \<and>
    (\<forall>j. p \<le> j \<and> j < 2 * p - 1 \<longrightarrow> r ! j = merkle_parent sha (r ! (2 * (j - p))) (r ! (2 * (j - p) + 1)))"
    using Suc.hyps(2) Suc.prems(1-4) lt by (intro Suc.hyps(1) [of "off + 1" ?m "i + 2"] par r) auto
  then show ?case using Suc.prems(2) by (simp add: take_update_cancel)
qed

fun parents :: "(bytes \<Rightarrow> bytes) \<Rightarrow> bytes option list \<Rightarrow> bytes option list" where
  "parents sha (x # y # xs) = merkle_parent sha x y # parents sha xs"
| "parents sha _ = []"

definition padded :: "nat \<Rightarrow> bytes list \<Rightarrow> bytes option list" where
  "padded m xs = map Some xs @ replicate (m - length xs) None"

lemma parents_None: "parents sha (replicate (2 * m) None) = replicate m None"
  by (induction m) (simp_all add: merkle_parent_def)

lemma parents_padded: "length xs \<le> 2 * m \<Longrightarrow> parents sha (padded (2 * m) xs) = padded m (row_above sha xs)"
proof (induction sha xs arbitrary: m rule: row_above.induct)
  case (1 sha)
  then show ?case by (simp add: padded_def parents_None)
next
  case (2 sha x)
  then obtain k where k: "m = Suc k" by (cases m) auto
  show ?case using parents_None [of sha k] by (simp add: padded_def k merkle_parent_def)
next
  case (3 sha x y xs)
  then obtain k where k: "m = Suc k" by (cases m) auto
  show ?case using 3 by (simp add: padded_def k merkle_parent_def)
qed

lemma nth_parents:
  "even (length xs) \<Longrightarrow> t < length xs div 2 \<Longrightarrow> parents sha xs ! t = merkle_parent sha (xs ! (2 * t)) (xs ! (2 * t + 1))"
proof (induction sha xs arbitrary: t rule: parents.induct)
  case (1 sha x y xs)
  then show ?case by (cases t) auto
qed auto

lemma length_parents: "length (parents sha xs) = length xs div 2"
  by (induction sha xs rule: parents.induct) auto

text \<open>The row of height \<open>k\<close> in an array of \<open>2 ^ K\<close> leaves.\<close>

definition array_row :: "bytes option list \<Rightarrow> nat \<Rightarrow> nat \<Rightarrow> bytes option list" where
  "array_row r K k = map (\<lambda>t. r ! (2 ^ (K + 1) - 2 ^ (K + 1 - k) + t)) [0..<2 ^ (K - k)]"

lemma array_row_parents:
  assumes "\<forall>j. 2 ^ K \<le> j \<and> j < 2 * 2 ^ K - 1 \<longrightarrow> r ! j = merkle_parent sha (r ! (2 * (j - 2 ^ K))) (r ! (2 * (j - 2 ^ K) + 1))"
    and "k < K"
  shows "array_row r K (k + 1) = parents sha (array_row r K k)"
proof (rule nth_equalityI)
  define b c :: nat where bc: "b = 2 ^ (K - (k + 1))" "c = 2 ^ K"
  have two: "2 ^ (K - k) = 2 * b" "2 ^ (K + 1 - k) = 4 * b" "2 ^ (K + 1 - (k + 1)) = 2 * b" "2 ^ (K + 1) = 2 * c" "2 * b \<le> c"
  proof -
    obtain d where d: "K = k + 1 + d" using assms(2) by (auto simp: less_eq_Suc_le le_iff_add)
    show "2 ^ (K - k) = 2 * b" "2 ^ (K + 1 - k) = 4 * b" "2 ^ (K + 1 - (k + 1)) = 2 * b" "2 ^ (K + 1) = 2 * c" "2 * b \<le> c"
      by (simp_all add: bc d power_add)
  qed
  have len: "length (array_row r K k) = 2 * b" by (simp add: array_row_def two)
  then show "length (array_row r K (k + 1)) = length (parents sha (array_row r K k))"
    by (simp add: length_parents) (simp add: array_row_def bc)
  fix t assume "t < length (array_row r K (k + 1))"
  then have t: "t < b" by (simp add: array_row_def bc)
  define j where "j = 2 * c - 2 * b + t"
  have j: "c \<le> j" "j < 2 * c - 1" "2 * (j - c) = 2 * c - 4 * b + 2 * t"
    unfolding j_def using t two(5) by arith+
  have "array_row r K (k + 1) ! t = r ! j"
    using t by (simp only: array_row_def two j_def bc(1) [symmetric]) simp
  also have "\<dots> = merkle_parent sha (r ! (2 * c - 4 * b + 2 * t)) (r ! (2 * c - 4 * b + 2 * t + 1))"
    using assms(1) [rule_format, of j, folded bc(2)] j by (simp only: j(3))
  also have "\<dots> = merkle_parent sha (array_row r K k ! (2 * t)) (array_row r K k ! (2 * t + 1))"
    using t by (simp only: array_row_def two) (simp add: add.assoc)
  also have "\<dots> = parents sha (array_row r K k) ! t" using nth_parents [of "array_row r K k" t sha] t len by simp
  finally show "array_row r K (k + 1) ! t = parents sha (array_row r K k) ! t" .
qed

lemma array_rows:
  assumes "\<forall>j. 2 ^ K \<le> j \<and> j < 2 * 2 ^ K - 1 \<longrightarrow> r ! j = merkle_parent sha (r ! (2 * (j - 2 ^ K))) (r ! (2 * (j - 2 ^ K) + 1))"
    and "array_row r K 0 = padded (2 ^ K) xs" "length xs \<le> 2 ^ K" "2 ^ K < 2 * length xs" "k \<le> K"
  shows "\<exists>ys. array_row r K k = padded (2 ^ (K - k)) ys \<and> length ys \<le> 2 ^ (K - k) \<and> 2 ^ (K - k) < 2 * length ys \<and>
    merkle_root sha ys = merkle_root sha xs"
  using assms(5)
proof (induction k)
  case 0
  then show ?case using assms by auto
next
  case (Suc k)
  then obtain ys where ys: "array_row r K k = padded (2 ^ (K - k)) ys" "length ys \<le> 2 ^ (K - k)" "2 ^ (K - k) < 2 * length ys"
    "merkle_root sha ys = merkle_root sha xs" by auto
  have two: "2 ^ (K - k) = 2 * (2::nat) ^ (K - Suc k)"
    using Suc.prems by (metis Suc_diff_Suc Suc_le_lessD power_Suc)
  have "array_row r K (Suc k) = padded (2 ^ (K - Suc k)) (row_above sha ys)"
    using array_row_parents [OF assms(1), of k] Suc.prems parents_padded [of ys "2 ^ (K - Suc k)" sha] ys(1,2) by (simp add: two)
  moreover have "length ys \<ge> 2" using ys(3) two by (metis One_nat_def Suc_leI less_2_cases_iff linorder_not_less mult_le_mono2 nat_mult_1_right one_le_numeral one_le_power order.strict_trans1 mult.right_neutral le_less_trans less_le_not_le numeral_2_eq_2)
  ultimately show ?case
    using ys(2-4) two merkle_root_step [of ys sha] by (intro exI [of _ "row_above sha ys"]) auto
qed

lemma BuildMerkleTreeStore_root:
  assumes "txs \<noteq> []" "log2_ok log2 (length txs)"
  obtains m where "BuildMerkleTreeStore sha log2 txid wtxid txs witness = Some m"
    "last m = Some (merkle_root sha (leaves txid wtxid witness txs))"
proof -
  let ?xs = "leaves txid wtxid witness txs"
  obtain K where K: "nextPowerOfTwo log2 (length txs) = 2 ^ K" "length txs \<le> 2 ^ K" "2 ^ K < 2 * length txs"
    using nextPowerOfTwo_bounds [OF _ assms(2)] assms(1) by blast
  define m0 where "m0 = foldl (\<lambda>m (i, tx). m[i := Some (merkle_leaf txid wtxid witness i tx)])
    (replicate (2 * 2 ^ K - 1) None) (enumerate 0 txs)"
  define m where "m = merkle_loop sha (2 * 2 ^ K - 1) 0 (2 ^ K) m0"
  have "length txs \<le> 2 * 2 ^ K - 1" using K(2) one_le_power [of "2::nat" K] by linarith
  from fill_leaves [OF this, of "\<lambda>i tx. merkle_leaf txid wtxid witness i tx"]
  have m0: "m0 = map Some ?xs @ replicate (2 * 2 ^ K - 1 - length txs) None"
    by (simp add: m0_def leaves_def case_prod_unfold comp_def)
  have "length m = 2 * 2 ^ K - 1 \<and> take (2 ^ K) m = take (2 ^ K) m0 \<and>
    (\<forall>j. 2 ^ K \<le> j \<and> j < 2 * 2 ^ K - 1 \<longrightarrow> m ! j = merkle_parent sha (m ! (2 * (j - 2 ^ K))) (m ! (2 * (j - 2 ^ K) + 1)))"
    using \<open>length txs \<le> 2 * 2 ^ K - 1\<close> by (rule_tac merkle_loop_parents [where merkles = m0 and off = "2 ^ K" and i = 0]) (auto simp: m0 m_def)
  then have m: "length m = 2 * 2 ^ K - 1" "take (2 ^ K) m = take (2 ^ K) m0"
    "\<forall>j. 2 ^ K \<le> j \<and> j < 2 * 2 ^ K - 1 \<longrightarrow> m ! j = merkle_parent sha (m ! (2 * (j - 2 ^ K))) (m ! (2 * (j - 2 ^ K) + 1))"
    by blast+
  have "array_row m K 0 = take (2 ^ K) m" using m(1) by (intro nth_equalityI) (simp_all add: array_row_def)
  also have "\<dots> = padded (2 ^ K) ?xs" using K(2) by (simp add: m(2) m0 padded_def min_def)
  finally have "array_row m K 0 = padded (2 ^ K) ?xs" .
  from array_rows [OF m(3) this, of K] K obtain ys where
    ys: "array_row m K K = padded 1 ys" "length ys \<le> 1" "1 < 2 * length ys" "merkle_root sha ys = merkle_root sha ?xs" by auto
  then obtain y where y: "ys = [y]" by (cases ys) auto
  have "array_row m K K = [m ! (2 * 2 ^ K - 2)]" by (simp add: array_row_def)
  then have "m ! (2 * 2 ^ K - 2) = Some (merkle_root sha ?xs)" using ys(1,4) y by (simp add: padded_def)
  moreover have "last m = m ! (2 * 2 ^ K - 2)"
  proof -
    have "length m > 0" "length m - 1 = 2 * 2 ^ K - 2" using m(1) one_le_power [of "2::nat" K] by linarith+
    then have "m \<noteq> []" "length m - 1 = 2 * 2 ^ K - 2" by auto
    then show ?thesis by (simp add: last_conv_nth)
  qed
  ultimately show thesis using that [of m] by (simp add: BuildMerkleTreeStore_def K(1) m_def m0_def Let_def mult.commute)
qed

text \<open>
  C30 (the two merkle computations): for every non-empty list of transactions and both kinds of
  leaf hashes the rolling computation returns, and it returns the last node of the tree built as an
  array; both are the root of the recursive definition, in which a row of odd length repeats its
  last node.
\<close>

theorem merkle_roots_agree:
  assumes "txs \<noteq> []" "log2_ok log2 (length txs)"
  shows "CalcMerkleRoot sha txid wtxid txs witness = Some (merkle_root sha (leaves txid wtxid witness txs)) \<and>
    map_option last (BuildMerkleTreeStore sha log2 txid wtxid txs witness) = Some (CalcMerkleRoot sha txid wtxid txs witness)"
  using BuildMerkleTreeStore_root [OF assms, of sha txid wtxid witness] CalcMerkleRoot_root [OF assms(1), of sha txid wtxid witness]
  by (metis option.map(2))

theorem merkle_roots_agree_witness:
  "CalcMerkleRoot (take 32) id id [[1], [2], [3]] False = Some (merkle_root (take 32) (leaves id id False [[1], [2], [3 :: byte]])) \<and>
    map_option last (BuildMerkleTreeStore (take 32) (\<lambda>n. 1) id id [[1], [2], [3]] False) =
    Some (CalcMerkleRoot (take 32) id id [[1], [2], [3]] False)"
  by (rule merkle_roots_agree) (simp_all add: log2_ok_def)

text \<open>
  The byte strings that are hashed on the way to the root: for every two nodes their concatenation
  and, as the hash is applied twice, its digest.
\<close>

definition branch_inputs :: "(bytes \<Rightarrow> bytes) \<Rightarrow> bytes \<Rightarrow> bytes \<Rightarrow> bytes list" where
  "branch_inputs sha l r = [l @ r, sha (l @ r)]"

fun row_inputs :: "(bytes \<Rightarrow> bytes) \<Rightarrow> bytes list \<Rightarrow> bytes list" where
  "row_inputs sha [] = []"
| "row_inputs sha [x] = branch_inputs sha x x"
| "row_inputs sha (x # y # xs) = branch_inputs sha x y @ row_inputs sha xs"

fun tree_inputs :: "(bytes \<Rightarrow> bytes) \<Rightarrow> bytes list \<Rightarrow> bytes list" where
  "tree_inputs sha [] = []"
| "tree_inputs sha [x] = []"
| "tree_inputs sha (x # y # xs) = row_inputs sha (x # y # xs) @ tree_inputs sha (row_above sha (x # y # xs))"

declare tree_inputs.simps(3) [simp del]

lemma tree_inputs_step: "length xs \<ge> 2 \<Longrightarrow> tree_inputs sha xs = row_inputs sha xs @ tree_inputs sha (row_above sha xs)"
  by (cases "(sha, xs)" rule: tree_inputs.cases) (auto simp: tree_inputs.simps(3))

text \<open>Two different strings, one of each list, with the same digest.\<close>

definition collides :: "(bytes \<Rightarrow> bytes) \<Rightarrow> bytes list \<Rightarrow> bytes list \<Rightarrow> bool" where
  "collides sha xs ys \<longleftrightarrow> list_ex (\<lambda>x. list_ex (\<lambda>y. x \<noteq> y \<and> sha x = sha y) ys) xs"

lemma collides_append:
  "collides sha xs ys \<Longrightarrow> collides sha (xs @ xs') (ys @ ys')" "collides sha xs' ys' \<Longrightarrow> collides sha (xs @ xs') (ys @ ys')"
  by (auto simp: collides_def list_ex_iff)

lemma branches_inj:
  "HashMerkleBranches sha a b = HashMerkleBranches sha c d \<Longrightarrow> length a = 32 \<Longrightarrow> length c = 32 \<Longrightarrow>
   a = c \<and> b = d \<or> collides sha (branch_inputs sha a b) (branch_inputs sha c d)"
  by (auto simp: HashMerkleBranches_def DoubleHashRaw_def collides_def branch_inputs_def)

text \<open>Two rows of the same length with the same row above them are equal, or the hash collides between them.\<close>

lemma row_above_inj:
  "row_above sha xs = row_above sha ys \<Longrightarrow> length xs = length ys \<Longrightarrow> list_all (\<lambda>x. length x = 32) xs \<Longrightarrow>
   list_all (\<lambda>x. length x = 32) ys \<Longrightarrow> xs = ys \<or> collides sha (row_inputs sha xs) (row_inputs sha ys)"
proof (induction sha xs arbitrary: ys rule: row_above.induct)
  case (2 sha x)
  then obtain y where "ys = [y]" by (cases ys) auto
  then show ?case using 2 branches_inj [of sha x x y y] by auto
next
  case (3 sha x x' xs)
  then obtain y y' ys' where "ys = y # y' # ys'" by (metis length_Suc_conv)
  then show ?case using 3 branches_inj [of sha x x' y y'] by (auto intro: collides_append)
qed auto

lemma merkle_root_inj:
  assumes "\<And>b. length (sha b) = 32"
  shows "length xs = length ys \<Longrightarrow> list_all (\<lambda>x. length x = 32) xs \<Longrightarrow> list_all (\<lambda>x. length x = 32) ys \<Longrightarrow>
    merkle_root sha xs = merkle_root sha ys \<Longrightarrow> xs = ys \<or> collides sha (tree_inputs sha xs) (tree_inputs sha ys)"
proof (induction xs arbitrary: ys rule: length_induct)
  case (1 xs)
  show ?case
  proof (cases "length xs \<ge> 2")
    case True
    have row: "list_all (\<lambda>x. length x = 32) (row_above sha zs)" for zs
      using assms by (induction sha zs rule: row_above.induct) (simp_all add: HashMerkleBranches_def DoubleHashRaw_def)
    have "merkle_root sha (row_above sha xs) = merkle_root sha (row_above sha ys)"
      using 1(2,5) True merkle_root_step [of xs sha] merkle_root_step [of ys sha] by simp
    then have "row_above sha xs = row_above sha ys \<or>
        collides sha (tree_inputs sha (row_above sha xs)) (tree_inputs sha (row_above sha ys))"
      using True 1(2) by (intro 1(1) [rule_format] row) auto
    then have "xs = ys \<or> collides sha (row_inputs sha xs) (row_inputs sha ys) \<or>
        collides sha (tree_inputs sha (row_above sha xs)) (tree_inputs sha (row_above sha ys))"
      using row_above_inj 1(2-4) by blast
    then show ?thesis
      using True 1(2) by (auto simp: tree_inputs_step intro: collides_append)
  next
    case False
    then consider "xs = []" | x where "xs = [x]" by (cases xs) (auto simp: not_le less_Suc_eq)
    then show ?thesis
    proof cases
      case (2 x)
      then obtain y where "ys = [y]" using 1(2) by (cases ys) auto
      then show ?thesis using 1(5) 2 by simp
    qed (use 1(2) in simp)
  qed
qed

lemma leaves_txid: "leaves txid wtxid False txs = map txid txs"
  by (rule nth_equalityI) (simp_all add: leaves_def nth_enumerate_eq merkle_leaf_def)

text \<open>
  C31 (the merkle root binds the transactions): two blocks with the same number of transactions
  and the same merkle root have the same transaction ids in the same order, or the hash has a
  collision between a string hashed on the way to the first root and one hashed on the way to the
  second, so that two such blocks give the collision.
\<close>

theorem merkle_root_binds:
  assumes "\<And>b. length (sha b) = 32" "list_all (\<lambda>tx. length (txid tx) = 32) (txs @ txs')" "length txs = length txs'"
    and "CalcMerkleRoot sha txid wtxid txs False = CalcMerkleRoot sha txid wtxid txs' False"
  shows "map txid txs = map txid txs' \<or> collides sha (tree_inputs sha (map txid txs)) (tree_inputs sha (map txid txs'))"
proof (cases "txs = []")
  case False
  then have "txs' \<noteq> []" using assms(3) by auto
  with False have "merkle_root sha (map txid txs) = merkle_root sha (map txid txs')"
    using assms(3,4) CalcMerkleRoot_root [of txs sha txid wtxid False] CalcMerkleRoot_root [of txs' sha txid wtxid False]
    by (auto simp: leaves_txid)
  then show ?thesis using assms by (intro merkle_root_inj) (auto simp: list_all_iff)
qed (use assms(3) in simp)

text \<open>A hash that keeps the first 32 bytes, and two lists of ids with the same root.\<close>

definition first_bytes :: "bytes \<Rightarrow> bytes" where
  "first_bytes b = take 32 (b @ replicate 32 0)"

theorem merkle_root_binds_witness:
  "CalcMerkleRoot first_bytes (replicate 32) (replicate 32) [1, 2 :: byte] False =
     CalcMerkleRoot first_bytes (replicate 32) (replicate 32) [1, 3] False \<and>
   collides first_bytes (tree_inputs first_bytes (map (replicate 32) [1, 2 :: byte])) (tree_inputs first_bytes (map (replicate 32) [1, 3]))"
proof -
  have eq: "CalcMerkleRoot first_bytes (replicate 32) (replicate 32) [1, 2 :: byte] False =
      CalcMerkleRoot first_bytes (replicate 32) (replicate 32) [1, 3] False"
    by (simp add: CalcMerkleRoot_root leaves_txid merkle_root.simps(3) HashMerkleBranches_def DoubleHashRaw_def first_bytes_def)
  have "map (replicate 32) [1, 2 :: byte] \<noteq> map (replicate 32) [1, 3]" by simp
  with merkle_root_binds [OF _ _ _ eq] eq show ?thesis by (simp add: first_bytes_def)
qed

end
