(* ===== verification/Utxo_Store.thy ===== *)
theory Utxo_Store
  imports Utxo_View
begin

text \<open>
  How the chain state is stored (\<^verbatim>\<open>blockchain/chainio.go\<close>,
  \<^verbatim>\<open>blockchain/spend_journal_legacy.go\<close>): the spend journal, the UTXO set, the block index
  and the best state.  A bucket of the database is a map from byte strings to byte strings; a
  database transaction that fails is rolled back as a whole, so its errors are not modelled.
  A panic of the output decoder is the error \<open>UtxoPanic\<close>.
\<close>

unbundle bit_operations_syntax

type_synonym bucket = "bytes \<Rightarrow> bytes option"

section \<open>The spend journal\<close>

definition spentTxOutHeaderCode :: "'d SpentTxOut \<Rightarrow> u64" where
  "spentTxOutHeaderCode stxo =
     (let headerCode = push_bit 1 (scast (st_Height stxo))
      in if st_IsCoinBase stxo then headerCode OR 0x01 else headerCode)"

definition spentTxOutSerializeSize :: "'d decimal_ops \<Rightarrow> 'k pubkey_ops \<Rightarrow> 'd SpentTxOut \<Rightarrow> nat" where
  "spentTxOutSerializeSize dops kops stxo =
     serializeSizeVLQ (spentTxOutHeaderCode stxo) +
     (if sint (st_Height stxo) > 0 then serializeSizeVLQ 0 else 0) +
     compressedTxOutSize dops kops (st_Amount stxo) (st_Assets stxo) (st_PkScript stxo)"

definition putSpentTxOut :: "'d decimal_ops \<Rightarrow> 'k pubkey_ops \<Rightarrow> 'd SpentTxOut \<Rightarrow> bytes" where
  "putSpentTxOut dops kops stxo =
     putVLQ (spentTxOutHeaderCode stxo) @
     (if sint (st_Height stxo) > 0 then putVLQ 0 else []) @
     putCompressedTxOut dops kops (st_Amount stxo) (st_Assets stxo) (st_PkScript stxo)"

text \<open>The error of the output decoder as these functions report it.\<close>

definition wrap_deser :: "deser_error \<Rightarrow> utxo_error" where
  "wrap_deser e = (if e = Panic then UtxoPanic else DeserializeErr)"

definition decodeSpentTxOut ::
    "'d decimal_ops \<Rightarrow> 'k pubkey_ops \<Rightarrow> bytes \<Rightarrow> utxo_error + ('d SpentTxOut \<times> nat)" where
  "decodeSpentTxOut dops kops serialized =
     (if serialized = [] then Inl DeserializeErr
      else case deserializeVLQ serialized of (code, offset) \<Rightarrow>
      if offset \<ge> length serialized then Inl DeserializeErr
      else let isCoinBase = (code AND 0x01 \<noteq> 0); height = ucast (drop_bit 1 code) :: i32 in
      andthen
        (if sint height > 0 then
           case deserializeVLQ (drop offset serialized) of (_, bytesRead) \<Rightarrow>
           let offset = offset + bytesRead
           in if offset \<ge> length serialized then Inl DeserializeErr else Inr offset
         else Inr offset)
        (\<lambda>offset. case decodeCompressedTxOut dops kops (drop offset serialized) of
            Inl (err, bytesRead) \<Rightarrow> Inl (wrap_deser err)
          | Inr (amount, assets, pkScript, bytesRead) \<Rightarrow>
              Inr (\<lparr>st_Amount = amount, st_Assets = assets, st_PkScript = pkScript, st_Height = height,
                    st_IsCoinBase = isCoinBase\<rparr>, offset + bytesRead)))"

definition count_stxos :: "'d MsgTx list \<Rightarrow> nat" where
  "count_stxos txns = sum_list (map (\<lambda>tx. length (TxIns tx))
     (filter (\<lambda>tx. transactionConsumesSpendJournal tx False) txns))"

text \<open>
  The inner loop over the inputs of one transaction, from the last; the array of spent outputs
  fills from its end, so a new one goes in front.
\<close>

fun read_stxos ::
    "'d decimal_ops \<Rightarrow> 'k pubkey_ops \<Rightarrow> bytes \<Rightarrow> TxIn list \<Rightarrow> nat \<times> 'd SpentTxOut list \<Rightarrow>
     utxo_error + (nat \<times> 'd SpentTxOut list)" where
  "read_stxos dops kops serialized [] s = Inr s"
| "read_stxos dops kops serialized (txIn # txIns) (offset, stxos) =
     andthen (decodeSpentTxOut dops kops (drop offset serialized)) (\<lambda>(stxo, n).
       read_stxos dops kops serialized txIns (offset + n, stxo # stxos))"

fun read_journal ::
    "'d decimal_ops \<Rightarrow> 'k pubkey_ops \<Rightarrow> bytes \<Rightarrow> 'd MsgTx list \<Rightarrow> nat \<times> 'd SpentTxOut list \<Rightarrow>
     utxo_error + (nat \<times> 'd SpentTxOut list)" where
  "read_journal dops kops serialized [] s = Inr s"
| "read_journal dops kops serialized (tx # txns) s =
     (if \<not> transactionConsumesSpendJournal tx False then read_journal dops kops serialized txns s
      else andthen (read_stxos dops kops serialized (rev (TxIns tx)) s) (read_journal dops kops serialized txns))"

definition deserializeSpendJournalEntry ::
    "'d decimal_ops \<Rightarrow> 'k pubkey_ops \<Rightarrow> bytes \<Rightarrow> 'd MsgTx list \<Rightarrow> utxo_error + 'd SpentTxOut list" where
  "deserializeSpendJournalEntry dops kops serialized txns =
     (if serialized = [] then
        if count_stxos txns \<noteq> 0 then Inl (AssertError ''mismatched spend journal serialization'') else Inr []
      else andthen (read_journal dops kops serialized (rev txns) (0, [])) (\<lambda>(offset, stxos). Inr stxos))"

definition serializeSpendJournalEntry :: "'d decimal_ops \<Rightarrow> 'k pubkey_ops \<Rightarrow> 'd SpentTxOut list \<Rightarrow> bytes" where
  "serializeSpendJournalEntry dops kops stxos =
     (if stxos = [] then [] else concat (map (putSpentTxOut dops kops) (rev stxos)))"

definition spendJournalAssetsKey :: "bytes \<Rightarrow> bytes" where
  "spendJournalAssetsKey hash = hash @ [1]"

text \<open>A missing journal entry is a nil slice, which has length 0.\<close>

definition dbFetchSpendJournalEntry ::
    "'d decimal_ops \<Rightarrow> 'k pubkey_ops \<Rightarrow> bucket \<Rightarrow> 'd Block \<Rightarrow> utxo_error + 'd SpentTxOut list" where
  "dbFetchSpendJournalEntry dops kops spendBucket block =
     (let serialized = (case spendBucket (bl_Hash block) of None \<Rightarrow> [] | Some b \<Rightarrow> b)
      in if bl_Transactions block = [] then Inl UtxoPanic
         else case deserializeSpendJournalEntry dops kops serialized (tl (bl_Transactions block)) of
           Inl err \<Rightarrow> Inl (if err = DeserializeErr then CorruptionErr else err)
         | Inr stxos \<Rightarrow> Inr stxos)"

definition dbPutSpendJournalEntry ::
    "'d decimal_ops \<Rightarrow> 'k pubkey_ops \<Rightarrow> bytes \<Rightarrow> 'd SpentTxOut list \<Rightarrow> bucket \<Rightarrow> bucket" where
  "dbPutSpendJournalEntry dops kops blockHash stxos spendBucket =
     spendBucket(blockHash \<mapsto> serializeSpendJournalEntry dops kops stxos, spendJournalAssetsKey blockHash \<mapsto> [1])"

definition dbRemoveSpendJournalEntry :: "bytes \<Rightarrow> bucket \<Rightarrow> bucket" where
  "dbRemoveSpendJournalEntry blockHash spendBucket =
     spendBucket(blockHash := None, spendJournalAssetsKey blockHash := None)"

definition dbPruneSpendJournalEntry :: "bytes list \<Rightarrow> bucket \<Rightarrow> bucket" where
  "dbPruneSpendJournalEntry blockHashes spendBucket =
     fold (\<lambda>blockHash b. b(blockHash := None, spendJournalAssetsKey blockHash := None)) blockHashes spendBucket"

section \<open>The UTXO set\<close>

definition outpointKey :: "OutPoint \<Rightarrow> bytes" where
  "outpointKey outpoint = Hash outpoint @ putVLQ (ucast (Index outpoint))"

definition utxoEntryHeaderCode :: "'d UtxoEntry \<Rightarrow> utxo_error + u64" where
  "utxoEntryHeaderCode entry =
     (if IsSpent entry then Inl (AssertError ''attempt to serialize spent utxo header'')
      else let headerCode = push_bit 1 (scast (ue_blockHeight entry))
           in Inr (if ue_IsCoinBase entry then headerCode OR 0x01 else headerCode))"

definition serializeUtxoEntry ::
    "'d decimal_ops \<Rightarrow> 'k pubkey_ops \<Rightarrow> 'd UtxoEntry \<Rightarrow> utxo_error + bytes" where
  "serializeUtxoEntry dops kops entry =
     (if IsSpent entry then Inr []
      else andthen (utxoEntryHeaderCode entry) (\<lambda>headerCode.
        Inr (putVLQ headerCode @
          putCompressedTxOut dops kops (ue_amount entry) (ue_txAssets entry) (ue_pkScript entry))))"

definition deserializeUtxoEntry ::
    "'d decimal_ops \<Rightarrow> 'k pubkey_ops \<Rightarrow> bytes \<Rightarrow> utxo_error + 'd UtxoEntry" where
  "deserializeUtxoEntry dops kops serialized =
     (case deserializeVLQ serialized of (code, offset) \<Rightarrow>
      if offset \<ge> length serialized then Inl DeserializeErr
      else case decodeCompressedTxOut dops kops (drop offset serialized) of
        Inl (err, _) \<Rightarrow> Inl (wrap_deser err)
      | Inr (amount, txAssets, pkScript, _) \<Rightarrow>
          Inr \<lparr>ue_amount = amount, ue_txAssets = txAssets, ue_pkScript = pkScript,
               ue_blockHeight = ucast (drop_bit 1 code),
               ue_packedFlags = (if code AND 0x01 \<noteq> 0 then tfCoinBase else 0)\<rparr>)"

text \<open>\<open>seek\<close> is the cursor of the database: the first key that is not less, with its value.\<close>

definition dbFetchUtxoEntryByHash ::
    "'d decimal_ops \<Rightarrow> 'k pubkey_ops \<Rightarrow> (bytes \<Rightarrow> (bytes \<times> bytes) option) \<Rightarrow> bytes \<Rightarrow>
     utxo_error + 'd UtxoEntry option" where
  "dbFetchUtxoEntryByHash dops kops seek hash =
     (case seek (outpointKey \<lparr>Hash = hash, Index = 0\<rparr>) of
        None \<Rightarrow> Inr None
      | Some (cursorKey, v) \<Rightarrow>
          if length cursorKey < 32 then Inr None
          else if hash \<noteq> take 32 cursorKey then Inr None
          else andthen (deserializeUtxoEntry dops kops v) (\<lambda>e. Inr (Some e)))"

definition dbFetchUtxoEntry ::
    "'d decimal_ops \<Rightarrow> 'k pubkey_ops \<Rightarrow> bucket \<Rightarrow> OutPoint \<Rightarrow> utxo_error + 'd UtxoEntry option" where
  "dbFetchUtxoEntry dops kops utxoBucket outpoint =
     (case utxoBucket (outpointKey outpoint) of
        None \<Rightarrow> Inr None
      | Some serializedUtxo \<Rightarrow>
          if serializedUtxo = [] then Inl (AssertError ''database contains entry for spent tx output'')
          else case deserializeUtxoEntry dops kops serializedUtxo of
            Inl err \<Rightarrow> Inl (if err = DeserializeErr then CorruptionErr else err)
          | Inr entry \<Rightarrow> Inr (Some entry))"

definition dbDeleteUtxoEntry :: "OutPoint \<Rightarrow> bucket \<Rightarrow> bucket" where
  "dbDeleteUtxoEntry outpoint utxoBucket = utxoBucket(outpointKey outpoint := None)"

definition dbPutUtxoEntry ::
    "'d decimal_ops \<Rightarrow> 'k pubkey_ops \<Rightarrow> OutPoint \<Rightarrow> 'd UtxoEntry option \<Rightarrow> bucket \<Rightarrow> utxo_error + bucket" where
  "dbPutUtxoEntry dops kops outpoint entry utxoBucket =
     (case entry of
        None \<Rightarrow> Inl (AssertError ''trying to store nil or spent entry'')
      | Some entry \<Rightarrow>
          if IsSpent entry then Inl (AssertError ''trying to store nil or spent entry'')
          else andthen (serializeUtxoEntry dops kops entry) (\<lambda>serialized.
            Inr (utxoBucket(outpointKey outpoint \<mapsto> serialized))))"

text \<open>The range over the map of a view, in some order: \<open>items\<close> lists its entries.\<close>

fun dbPutUtxoView ::
    "'d decimal_ops \<Rightarrow> 'k pubkey_ops \<Rightarrow> (OutPoint \<times> 'd UtxoEntry option) list \<Rightarrow> bucket \<Rightarrow> utxo_error + bucket" where
  "dbPutUtxoView dops kops [] utxoBucket = Inr utxoBucket"
| "dbPutUtxoView dops kops ((outpoint, entry) # items) utxoBucket =
     (case entry of
        None \<Rightarrow> dbPutUtxoView dops kops items utxoBucket
      | Some e \<Rightarrow>
          if \<not> isModified e then dbPutUtxoView dops kops items utxoBucket
          else if IsSpent e then dbPutUtxoView dops kops items (dbDeleteUtxoEntry outpoint utxoBucket)
          else andthen (dbPutUtxoEntry dops kops outpoint entry utxoBucket) (dbPutUtxoView dops kops items))"

section \<open>The block index and the best state\<close>

definition dbPutBlockIndex :: "bytes \<Rightarrow> i32 \<Rightarrow> bucket \<times> bucket \<Rightarrow> bucket \<times> bucket" where
  "dbPutBlockIndex hash height = (\<lambda>(hashIndex, heightIndex).
     (hashIndex(hash \<mapsto> PutUint32 LittleEndian height), heightIndex(PutUint32 LittleEndian height \<mapsto> hash)))"

definition dbRemoveBlockIndex :: "bytes \<Rightarrow> i32 \<Rightarrow> bucket \<times> bucket \<Rightarrow> bucket \<times> bucket" where
  "dbRemoveBlockIndex hash height = (\<lambda>(hashIndex, heightIndex).
     (hashIndex(hash := None), heightIndex(PutUint32 LittleEndian height := None)))"

definition dbFetchHeightByHash :: "bytes \<Rightarrow> bucket \<times> bucket \<Rightarrow> utxo_error + i32" where
  "dbFetchHeightByHash hash = (\<lambda>(hashIndex, heightIndex).
     case hashIndex hash of None \<Rightarrow> Inl NotInMainChainErr
     | Some serializedHeight \<Rightarrow>
         if length serializedHeight < 4 then Inl UtxoPanic
         else Inr (word_of_nat (get_le (take 4 serializedHeight))))"

definition dbFetchHashByHeight :: "i32 \<Rightarrow> bucket \<times> bucket \<Rightarrow> utxo_error + bytes" where
  "dbFetchHashByHeight height = (\<lambda>(hashIndex, heightIndex).
     case heightIndex (PutUint32 LittleEndian height) of None \<Rightarrow> Inl NotInMainChainErr
     | Some hashBytes \<Rightarrow> Inr (copied 32 hashBytes))"

text \<open>\<^verbatim>\<open>big.Int.Bytes\<close> and \<^verbatim>\<open>SetBytes\<close>: big-endian without leading zeros.\<close>

definition big_Bytes :: "nat \<Rightarrow> bytes" where
  "big_Bytes n = rev (le_digits n)"

definition big_SetBytes :: "bytes \<Rightarrow> nat" where
  "big_SetBytes bs = get_le (rev bs)"

record bestChainState =
  bs_hash :: bytes
  bs_height :: u32
  bs_totalTxns :: u64
  bs_workSum :: nat

definition serializeBestChainState :: "bestChainState \<Rightarrow> bytes" where
  "serializeBestChainState state =
     (let workSumBytes = big_Bytes (bs_workSum state)
      in bs_hash state @ PutUint32 LittleEndian (bs_height state) @ PutUint64 LittleEndian (bs_totalTxns state) @
         PutUint32 LittleEndian (word_of_nat (length workSumBytes)) @ workSumBytes)"

definition deserializeBestChainState :: "bytes \<Rightarrow> utxo_error + bestChainState" where
  "deserializeBestChainState serializedData =
     (if length serializedData < 32 + 16 then Inl CorruptionErr
      else let height = word_of_nat (get_le (slice serializedData 32 36));
               totalTxns = word_of_nat (get_le (slice serializedData 36 44));
               workSumBytesLen = word_of_nat (get_le (slice serializedData 44 48)) :: u32
           in if word_of_nat (length (drop 48 serializedData)) < workSumBytesLen then Inl CorruptionErr
              else Inr \<lparr>bs_hash = take 32 serializedData, bs_height = height, bs_totalTxns = totalTxns,
                bs_workSum = big_SetBytes (slice serializedData 48 (48 + unat workSumBytesLen))\<rparr>)"

section \<open>Round trips\<close>

text \<open>The header code keeps the height, at any sign, and the coinbase flag.\<close>

definition header_code :: "i32 \<Rightarrow> bool \<Rightarrow> u64" where
  "header_code h cb = (if cb then push_bit 1 (scast h) OR 1 else push_bit 1 (scast h))"

lemma header_code:
  "ucast (drop_bit 1 (header_code h cb)) = h" "header_code h cb AND 1 \<noteq> 0 \<longleftrightarrow> cb"
proof -
  have p: "bit (push_bit 1 (scast h :: u64)) (Suc n) \<longleftrightarrow> bit h n" if "n < 32" for n
    using that by (subst bit_push_bit_iff) (auto simp: bit_simps)
  have "bit (header_code h cb) (Suc n) \<longleftrightarrow> bit h n" if "n < 32" for n
    using p [OF that] by (simp add: header_code_def bit_or_iff bit_1_iff del: push_bit_Suc)
  then show "ucast (drop_bit 1 (header_code h cb)) = h"
    by (intro bit_word_eqI) (auto simp: bit_unsigned_iff bit_drop_bit_eq)
  have "w AND 1 \<noteq> 0 \<longleftrightarrow> odd w" for w :: u64 by (simp add: and_one_eq even_iff_mod_2_eq_zero)
  then show "header_code h cb AND 1 \<noteq> 0 \<longleftrightarrow> cb" by (simp add: header_code_def even_or_iff)
qed

lemmas header_code_decode = header_code header_code(1) [unfolded One_nat_def]

lemma headers:
  "spentTxOutHeaderCode c = header_code (st_Height c) (st_IsCoinBase c)"
  "\<not> IsSpent e \<Longrightarrow> utxoEntryHeaderCode e = Inr (header_code (ue_blockHeight e) (ue_IsCoinBase e))"
  by (simp_all add: spentTxOutHeaderCode_def utxoEntryHeaderCode_def header_code_def)

text \<open>An output the store can hold, and the keys it can be stored with.\<close>

definition coin_storable :: "'d decimal_ops \<Rightarrow> 'd SpentTxOut \<Rightarrow> bool" where
  "coin_storable dops c \<longleftrightarrow> 9 * unat (st_Amount c) < 2 ^ 64 \<and> length (st_Assets c) < 2 ^ 62 \<and>
     (\<forall>a \<in> set (st_Assets c). storable dops a) \<and> length (st_PkScript c) < 2 ^ 62"

lemma decode_put_coin:
  assumes "coin_storable dops c" "pubkeys_recover kops"
  shows "decodeCompressedTxOut dops kops (putCompressedTxOut dops kops (st_Amount c) (st_Assets c) (st_PkScript c) @ r) =
    Inr (st_Amount c, st_Assets c, st_PkScript c,
      length (putCompressedTxOut dops kops (st_Amount c) (st_Assets c) (st_PkScript c)))"
  using assms by (simp add: coin_storable_def decode_put_txout length_putCompressedTxOut)

lemma putVLQ_ne [simp]: "putVLQ n \<noteq> []"
  using length_putVLQ [of n] serializeSizeVLQ_pos [of n] by auto

lemma put_txout_ne: "putCompressedTxOut dops kops a as s \<noteq> []"
  by (simp add: putCompressedTxOut_def)

lemma decode_put_stxo:
  assumes "coin_storable dops c" "pubkeys_recover kops"
  shows "decodeSpentTxOut dops kops (putSpentTxOut dops kops c @ r) = Inr (c, length (putSpentTxOut dops kops c))"
proof -
  define code out where d: "code = putVLQ (spentTxOutHeaderCode c)"
    "out = putCompressedTxOut dops kops (st_Amount c) (st_Assets c) (st_PkScript c)"
  have code: "deserializeVLQ (code @ x) = (header_code (st_Height c) (st_IsCoinBase c), length code)" for x
    by (simp add: d deserialize_putVLQ headers size_simps)
  have res: "deserializeVLQ (putVLQ 0 @ x) = (0, length (putVLQ 0))" for x
    by (simp add: deserialize_putVLQ size_simps)
  have out: "decodeCompressedTxOut dops kops (out @ r) = Inr (st_Amount c, st_Assets c, st_PkScript c, length out)"
    unfolding d by (rule decode_put_coin [OF assms])
  have ne: "code \<noteq> []" "out \<noteq> []" by (simp_all add: d put_txout_ne)
  show ?thesis
    using ne out code [of "out @ r"] code [of "putVLQ 0 @ out @ r"] res [of "out @ r"]
    by (simp add: decodeSpentTxOut_def putSpentTxOut_def header_code_decode Let_def flip: d)
qed

lemma read_stxos_put:
  assumes "\<forall>c \<in> set cs. coin_storable dops c" "pubkeys_recover kops" "length ins = length cs"
  shows "read_stxos dops kops (p @ concat (map (putSpentTxOut dops kops) cs) @ r) ins (length p, acc) =
    Inr (length p + length (concat (map (putSpentTxOut dops kops) cs)), rev cs @ acc)"
  using assms
proof (induction cs arbitrary: ins p acc)
  case Nil
  then show ?case by simp
next
  case (Cons c cs)
  then obtain i ins' where ins: "ins = i # ins'" by (cases ins) auto
  have "decodeSpentTxOut dops kops (putSpentTxOut dops kops c @ concat (map (putSpentTxOut dops kops) cs) @ r) =
      Inr (c, length (putSpentTxOut dops kops c))"
    using Cons.prems by (intro decode_put_stxo) simp_all
  with Cons.IH [of ins' "p @ putSpentTxOut dops kops c" "c # acc"] Cons.prems show ?case
    by (simp add: ins add.assoc)
qed

lemma read_journal_put:
  assumes "\<forall>c \<in> set cs. coin_storable dops c" "pubkeys_recover kops" "length cs = count_stxos txns"
  shows "read_journal dops kops (p @ concat (map (putSpentTxOut dops kops) cs) @ r) txns (length p, acc) =
    Inr (length p + length (concat (map (putSpentTxOut dops kops) cs)), rev cs @ acc)"
  using assms
proof (induction txns arbitrary: cs p acc)
  case Nil
  then show ?case by (simp add: count_stxos_def)
next
  case (Cons tx txns)
  show ?case
  proof (cases "transactionConsumesSpendJournal tx False")
    case False
    with Cons show ?thesis by (simp add: count_stxos_def)
  next
    case True
    define n where "n = length (TxIns tx)"
    have n: "length cs = n + count_stxos txns" using Cons.prems(3) True by (simp add: count_stxos_def n_def)
    define as bs where "as = take n cs" and "bs = drop n cs"
    then have cs: "cs = as @ bs" "length as = n" "length bs = count_stxos txns" using n by simp_all
    have "read_stxos dops kops (p @ concat (map (putSpentTxOut dops kops) as) @
          (concat (map (putSpentTxOut dops kops) bs) @ r)) (rev (TxIns tx)) (length p, acc) =
        Inr (length p + length (concat (map (putSpentTxOut dops kops) as)), rev as @ acc)"
      using Cons.prems(1,2) by (intro read_stxos_put) (simp_all add: cs n_def)
    with Cons.IH [of bs "p @ concat (map (putSpentTxOut dops kops) as)" "rev as @ acc"] Cons.prems True cs
    show ?thesis by (simp add: add.assoc)
  qed
qed

lemma count_stxos_rev [simp]: "count_stxos (rev txns) = count_stxos txns"
  by (simp add: count_stxos_def rev_filter [symmetric] rev_map [symmetric])

text \<open>
  C12 (the spend journal round trips): the spent outputs stored for a block, one for each input
  its transactions consume, are read back in the same order with their assets.
\<close>

theorem spend_journal_roundtrip:
  assumes "bl_Transactions block \<noteq> []" and n: "length stxos = count_stxos (tl (bl_Transactions block))"
    and stored: "\<forall>c \<in> set stxos. coin_storable dops c" and keys: "pubkeys_recover kops"
  shows "dbFetchSpendJournalEntry dops kops
      (dbPutSpendJournalEntry dops kops (bl_Hash block) stxos spendBucket) block = Inr stxos"
proof -
  have "deserializeSpendJournalEntry dops kops (serializeSpendJournalEntry dops kops stxos)
      (tl (bl_Transactions block)) = Inr stxos"
  proof (cases "stxos = []")
    case True
    then show ?thesis using n by (simp add: deserializeSpendJournalEntry_def serializeSpendJournalEntry_def)
  next
    case False
    then have "concat (map (putSpentTxOut dops kops) (rev stxos)) \<noteq> []"
      by (cases stxos rule: rev_cases) (simp_all add: putSpentTxOut_def)
    moreover have "read_journal dops kops ([] @ concat (map (putSpentTxOut dops kops) (rev stxos)) @ [])
        (rev (tl (bl_Transactions block))) (length ([] :: bytes), []) =
        Inr (length ([] :: bytes) + length (concat (map (putSpentTxOut dops kops) (rev stxos))), rev (rev stxos) @ [])"
      using stored n by (intro read_journal_put [OF _ keys]) simp_all
    ultimately show ?thesis using False
      by (simp add: deserializeSpendJournalEntry_def serializeSpendJournalEntry_def)
  qed
  then show ?thesis
    using assms(1) by (simp add: dbFetchSpendJournalEntry_def dbPutSpendJournalEntry_def spendJournalAssetsKey_def)
qed

lemma ex_coin_storable: "coin_storable plain_amounts (coin_of ex_out cb h)"
  by (simp add: coin_storable_def coin_of_def ex_out_def storable_def example_asset_def plain_amounts_def)

theorem spend_journal_roundtrip_witness:
  "dbFetchSpendJournalEntry plain_amounts flat_keys
     (dbPutSpendJournalEntry plain_amounts flat_keys (bl_Hash ex_block) [coin_of ex_out False 3, coin_of ex_out False 5] Map.empty)
     ex_block = Inr [coin_of ex_out False 3, coin_of ex_out False 5]"
  by (rule spend_journal_roundtrip)
     (simp_all add: flat_keys_recover ex_block_def count_stxos_def transactionConsumesSpendJournal_def IsAnchorTx_def
       ex_in_def zeroHash_Cons AnchorTxOutIndex_def ex_coin_storable)

subsection \<open>The UTXO set as a map\<close>

definition op_ok :: "OutPoint \<Rightarrow> bool" where
  "op_ok op \<longleftrightarrow> length (Hash op) = 32"

lemma outpointKey_inj:
  assumes "op_ok a" "op_ok b"
  shows "outpointKey a = outpointKey b \<longleftrightarrow> a = b"
proof
  assume "outpointKey a = outpointKey b"
  then have h: "Hash a = Hash b" and v: "putVLQ (ucast (Index a)) = putVLQ (ucast (Index b))"
    using assms by (auto simp: outpointKey_def op_ok_def)
  have "fst (deserializeVLQ (putVLQ (ucast (Index a)) @ [])) = fst (deserializeVLQ (putVLQ (ucast (Index b)) @ []))"
    by (simp only: v)
  then have "ucast (Index a) = (ucast (Index b) :: u64)" by (simp only: deserialize_putVLQ fst_conv)
  then have "Index a = Index b" by (metis ucast_bindingsat)
  with h show "a = b" by simp
qed simp

text \<open>What is read back: the entry with only its coinbase flag.\<close>

definition loaded :: "'d SpentTxOut \<Rightarrow> 'd UtxoEntry" where
  "loaded c = \<lparr>ue_amount = st_Amount c, ue_txAssets = st_Assets c, ue_pkScript = st_PkScript c,
     ue_blockHeight = st_Height c, ue_packedFlags = (if st_IsCoinBase c then tfCoinBase else 0)\<rparr>"

lemma loaded_simps [simp]:
  "spent_of (loaded c) = c" "\<not> IsSpent (loaded c)" "\<not> isModified (loaded c)" "\<not> isFresh (loaded c)"
  by (simp_all add: loaded_def spent_of_def flag_defs bit_flags)

lemma spent_of_sel [simp]:
  "st_Amount (spent_of e) = ue_amount e" "st_Assets (spent_of e) = ue_txAssets e"
  "st_PkScript (spent_of e) = ue_pkScript e" "st_Height (spent_of e) = ue_blockHeight e"
  "st_IsCoinBase (spent_of e) = ue_IsCoinBase e"
  by (simp_all add: spent_of_def)

lemma utxo_entry_roundtrip:
  assumes "\<not> IsSpent e" "coin_storable dops (spent_of e)" "pubkeys_recover kops"
  obtains b where "serializeUtxoEntry dops kops e = Inr b" "b \<noteq> []"
    "deserializeUtxoEntry dops kops b = Inr (loaded (spent_of e))"
proof -
  define code out where d: "code = putVLQ (header_code (ue_blockHeight e) (ue_IsCoinBase e))"
    "out = putCompressedTxOut dops kops (ue_amount e) (ue_txAssets e) (ue_pkScript e)"
  have code: "deserializeVLQ (code @ out) = (header_code (ue_blockHeight e) (ue_IsCoinBase e), length code)"
    by (simp add: d deserialize_putVLQ size_simps)
  have out: "decodeCompressedTxOut dops kops out = Inr (ue_amount e, ue_txAssets e, ue_pkScript e, length out)"
    using decode_put_coin [OF assms(2,3), of "[]"] by (simp add: d)
  have ne: "code \<noteq> []" "out \<noteq> []" by (simp_all add: d put_txout_ne)
  show thesis
  proof (rule that)
    show "serializeUtxoEntry dops kops e = Inr (code @ out)"
      using assms(1) by (simp add: serializeUtxoEntry_def headers d)
    show "deserializeUtxoEntry dops kops (code @ out) = Inr (loaded (spent_of e))"
      using code out ne by (simp add: deserializeUtxoEntry_def header_code_decode loaded_def)
  qed (simp add: ne)
qed

text \<open>The set a bucket stores, and the buckets every entry of which can be read.\<close>

definition stored_set :: "'d decimal_ops \<Rightarrow> 'k pubkey_ops \<Rightarrow> bucket \<Rightarrow> 'd utxo_set" where
  "stored_set dops kops b op =
     (case dbFetchUtxoEntry dops kops b op of Inr (Some e) \<Rightarrow> Some (spent_of e) | _ \<Rightarrow> None)"

definition bucket_ok :: "'d decimal_ops \<Rightarrow> 'k pubkey_ops \<Rightarrow> bucket \<Rightarrow> bool" where
  "bucket_ok dops kops b \<longleftrightarrow> (\<forall>op. op_ok op \<longrightarrow>
     dbFetchUtxoEntry dops kops b op = Inr (map_option loaded (stored_set dops kops b op)))"

lemma dbFetch_other:
  "op_ok op \<Longrightarrow> op_ok op' \<Longrightarrow> op' \<noteq> op \<Longrightarrow>
   dbFetchUtxoEntry dops kops (b(outpointKey op := x)) op' = dbFetchUtxoEntry dops kops b op'"
  by (simp add: dbFetchUtxoEntry_def outpointKey_inj)

lemma db_delete:
  assumes "op_ok op" "bucket_ok dops kops b"
  shows "bucket_ok dops kops (dbDeleteUtxoEntry op b)"
    "op_ok op' \<Longrightarrow> stored_set dops kops (dbDeleteUtxoEntry op b) op' = ((stored_set dops kops b)(op := None)) op'"
proof -
  have same: "dbFetchUtxoEntry dops kops (dbDeleteUtxoEntry op b) op = Inr None"
    by (simp add: dbFetchUtxoEntry_def dbDeleteUtxoEntry_def)
  have other: "dbFetchUtxoEntry dops kops (dbDeleteUtxoEntry op b) op' = dbFetchUtxoEntry dops kops b op'"
    if "op_ok op'" "op' \<noteq> op" for op' using assms(1) that by (simp add: dbFetch_other dbDeleteUtxoEntry_def)
  show s: "op_ok op' \<Longrightarrow> stored_set dops kops (dbDeleteUtxoEntry op b) op' = ((stored_set dops kops b)(op := None)) op'" for op'
    using same other [of op'] by (simp add: stored_set_def)
  show "bucket_ok dops kops (dbDeleteUtxoEntry op b)"
    using assms(2) same other s unfolding bucket_ok_def by (metis fun_upd_apply option.map(1))
qed

lemma db_put:
  assumes "op_ok op" "bucket_ok dops kops b" "\<not> IsSpent e" "coin_storable dops (spent_of e)" "pubkeys_recover kops"
  obtains b' where "dbPutUtxoEntry dops kops op (Some e) b = Inr b'" "bucket_ok dops kops b'"
    "\<And>op'. op_ok op' \<Longrightarrow> stored_set dops kops b' op' = ((stored_set dops kops b)(op \<mapsto> spent_of e)) op'"
proof -
  obtain x where x: "serializeUtxoEntry dops kops e = Inr x" "x \<noteq> []"
    "deserializeUtxoEntry dops kops x = Inr (loaded (spent_of e))"
    using assms(3-5) by (rule utxo_entry_roundtrip)
  define b' where "b' = b(outpointKey op \<mapsto> x)"
  have same: "dbFetchUtxoEntry dops kops b' op = Inr (Some (loaded (spent_of e)))"
    using x by (simp add: dbFetchUtxoEntry_def b'_def)
  have other: "dbFetchUtxoEntry dops kops b' op' = dbFetchUtxoEntry dops kops b op'"
    if "op_ok op'" "op' \<noteq> op" for op' using assms(1) that by (simp add: dbFetch_other b'_def)
  have s: "stored_set dops kops b' op' = ((stored_set dops kops b)(op \<mapsto> spent_of e)) op'" if "op_ok op'" for op'
    using same other [of op'] that by (simp add: stored_set_def)
  show thesis
  proof (rule that)
    show "dbPutUtxoEntry dops kops op (Some e) b = Inr b'" using x(1) assms(3) by (simp add: dbPutUtxoEntry_def b'_def)
    show "bucket_ok dops kops b'"
      unfolding bucket_ok_def
    proof (intro allI impI)
      fix op' assume ok: "op_ok op'"
      show "dbFetchUtxoEntry dops kops b' op' = Inr (map_option loaded (stored_set dops kops b' op'))"
        using assms(2) ok same other s [OF ok] unfolding bucket_ok_def by (cases "op' = op") simp_all
    qed
  qed (rule s)
qed

text \<open>What the entry of a view asks of the store: nothing, unless it was modified.\<close>

definition entry_update :: "'d UtxoEntry option option \<Rightarrow> 'd SpentTxOut option \<Rightarrow> 'd SpentTxOut option" where
  "entry_update x old = (case x of
     Some (Some e) \<Rightarrow> if isModified e then if IsSpent e then None else Some (spent_of e) else old
   | _ \<Rightarrow> old)"

lemma put_view_entries:
  assumes "distinct (map fst items)" "list_all (\<lambda>(op, e). op_ok op) items"
    and "list_all (\<lambda>(op, e). case e of Some e \<Rightarrow> \<not> IsSpent e \<longrightarrow> coin_storable dops (spent_of e) | None \<Rightarrow> True) items"
    and "bucket_ok dops kops b" "pubkeys_recover kops"
  obtains b' where "dbPutUtxoView dops kops items b = Inr b'" "bucket_ok dops kops b'"
    "\<And>op. op_ok op \<Longrightarrow> stored_set dops kops b' op = entry_update (map_of items op) (stored_set dops kops b op)"
  using assms
proof (induction items arbitrary: b thesis)
  case Nil
  then show ?case by (simp add: entry_update_def)
next
  case (Cons x items)
  obtain op e where x: "x = (op, e)" by force
  have op: "op_ok op" "op \<notin> fst ` set items" using Cons.prems by (simp_all add: x)
  have "\<exists>c. bucket_ok dops kops c \<and> dbPutUtxoView dops kops (x # items) b = dbPutUtxoView dops kops items c \<and>
      (\<forall>op'. op_ok op' \<longrightarrow> stored_set dops kops c op' =
        (if op' = op then entry_update (Some e) (stored_set dops kops b op) else stored_set dops kops b op'))"
  proof (cases "\<exists>e'. e = Some e' \<and> isModified e'")
    case False
    with Cons.prems(5) show ?thesis
      by (intro exI [of _ b]) (auto simp: x entry_update_def split: option.splits)
  next
    case True
    then obtain e' where e': "e = Some e'" "isModified e'" by blast
    show ?thesis
    proof (cases "IsSpent e'")
      case True
      then show ?thesis
        using db_delete [OF op(1) Cons.prems(5)] e'
        by (intro exI [of _ "dbDeleteUtxoEntry op b"]) (simp add: x entry_update_def)
    next
      case False
      then have "coin_storable dops (spent_of e')" using Cons.prems(4) e' by (simp add: x)
      from db_put [OF op(1) Cons.prems(5) False this Cons.prems(6)] obtain c where
        "dbPutUtxoEntry dops kops op (Some e') b = Inr c" "bucket_ok dops kops c"
        "\<And>op'. op_ok op' \<Longrightarrow> stored_set dops kops c op' = ((stored_set dops kops b)(op \<mapsto> spent_of e')) op'"
        by metis
      then show ?thesis using e' False by (intro exI [of _ c]) (simp add: x entry_update_def)
    qed
  qed
  then obtain c where c: "bucket_ok dops kops c" "dbPutUtxoView dops kops (x # items) b = dbPutUtxoView dops kops items c"
    and sc: "\<And>op'. op_ok op' \<Longrightarrow> stored_set dops kops c op' =
      (if op' = op then entry_update (Some e) (stored_set dops kops b op) else stored_set dops kops b op')"
    by blast
  have "distinct (map fst items)" "list_all (\<lambda>(op, e). op_ok op) items"
    "list_all (\<lambda>(op, e). case e of Some e \<Rightarrow> \<not> IsSpent e \<longrightarrow> coin_storable dops (spent_of e) | None \<Rightarrow> True) items"
    using Cons.prems by simp_all
  then obtain b' where b': "dbPutUtxoView dops kops items c = Inr b'" "bucket_ok dops kops b'"
    "\<And>op. op_ok op \<Longrightarrow> stored_set dops kops b' op = entry_update (map_of items op) (stored_set dops kops c op)"
    using Cons.IH [of c] c(1) Cons.prems(6) by metis
  have "map_of items op = None" using op(2) by (simp add: map_of_eq_None_iff)
  then have "stored_set dops kops b' op' = entry_update (map_of (x # items) op') (stored_set dops kops b op')"
    if "op_ok op'" for op'
    using b'(3) [OF that] sc [OF that] by (cases "op' = op") (simp_all add: x entry_update_def)
  moreover have "dbPutUtxoView dops kops (x # items) b = Inr b'" using b'(1) c(2) by simp
  ultimately show ?case using b'(2) by (intro Cons.prems(1))
qed

text \<open>
  C15 (writing a view): whatever order the map of a view is ranged over, storing it succeeds
  and changes the stored UTXO set at exactly the modified entries: spent ones are deleted,
  unspent ones are stored so that they read back with the same amount, assets, script, height
  and coinbase flag.
\<close>

theorem store_view:
  assumes "distinct (map fst items)" "list_all (\<lambda>(op, e). op_ok op) items"
    and "list_all (\<lambda>(op, e). case e of Some e \<Rightarrow> \<not> IsSpent e \<longrightarrow> coin_storable dops (spent_of e) | None \<Rightarrow> True) items"
    and "bucket_ok dops kops b" "pubkeys_recover kops"
  shows "\<exists>b'. dbPutUtxoView dops kops items b = Inr b' \<and> bucket_ok dops kops b' \<and>
    (\<forall>op. op_ok op \<longrightarrow> stored_set dops kops b' op = entry_update (map_of items op) (stored_set dops kops b op))"
  using put_view_entries [OF assms] by metis

lemma bucket_ok_empty: "bucket_ok dops kops Map.empty"
  by (simp add: bucket_ok_def stored_set_def dbFetchUtxoEntry_def)

theorem store_view_witness:
  "\<exists>b'. dbPutUtxoView plain_amounts flat_keys
       [(PreviousOutPoint (ex_in 1), Some (new_output_entry ex_out True 5)),
        (PreviousOutPoint (ex_in 2), Some (Spend (new_output_entry ex_out False 5))), (PreviousOutPoint (ex_in 3), None)]
       Map.empty = Inr b' \<and> bucket_ok plain_amounts flat_keys b' \<and>
    (\<forall>op. op_ok op \<longrightarrow> stored_set plain_amounts flat_keys b' op =
       entry_update (map_of [(PreviousOutPoint (ex_in 1), Some (new_output_entry ex_out True 5)),
        (PreviousOutPoint (ex_in 2), Some (Spend (new_output_entry ex_out False 5))), (PreviousOutPoint (ex_in 3), None)] op)
        (stored_set plain_amounts flat_keys Map.empty op))"
  by (rule store_view)
     (simp_all add: flat_keys_recover bucket_ok_empty ex_in_def op_ok_def ex_coin_storable)

lemma get_le_PutUint32 [simp]: "word_of_nat (get_le (PutUint32 LittleEndian v)) = v"
  by (simp add: PutUint32_def codec_simps)

lemma get_le_PutUint64 [simp]: "word_of_nat (get_le (PutUint64 LittleEndian v)) = v"
  by (simp add: PutUint64_def codec_simps)

text \<open>
  The stored best state reads back with its hash, height,
  transaction count and total work, when the work has less than \<open>2 ^ 32\<close> bytes.
\<close>

lemma best_state_roundtrip:
  assumes "length (bs_hash state) = 32" "length (big_Bytes (bs_workSum state)) < 2 ^ 32"
  shows "deserializeBestChainState (serializeBestChainState state) = Inr state"
proof -
  define w where "w = big_Bytes (bs_workSum state)"
  define n where "n = (word_of_nat (length w) :: u32)"
  have n: "unat n = length w" using assms(2) by (simp add: n_def w_def unsigned_of_nat take_bit_nat_eq_self)
  define s where "s = serializeBestChainState state"
  have s: "s = bs_hash state @ PutUint32 LittleEndian (bs_height state) @ PutUint64 LittleEndian (bs_totalTxns state) @
      PutUint32 LittleEndian n @ w"
    by (simp add: s_def serializeBestChainState_def w_def n_def Let_def)
  have parts: "take 32 s = bs_hash state" "slice s 32 36 = PutUint32 LittleEndian (bs_height state)"
    "slice s 36 44 = PutUint64 LittleEndian (bs_totalTxns state)" "slice s 44 48 = PutUint32 LittleEndian n"
    "drop 48 s = w" "slice s 48 (48 + length w) = w" "length s = 48 + length w"
    using assms(1) by (simp_all add: s slice_def)
  have "big_SetBytes w = bs_workSum state" by (simp add: w_def big_SetBytes_def big_Bytes_def)
  then show ?thesis
    unfolding s_def [symmetric] deserializeBestChainState_def Let_def parts get_le_PutUint32 get_le_PutUint64 n
    by (simp flip: n_def)
qed

section \<open>Legacy journals\<close>

text \<open>
  Journals written without assets are completed from the blocks that created the outputs.
  \<open>fetchBlock\<close> reads and decodes a stored block.  The maps of the transactions of a block by
  their hashes are kept by height.
\<close>

definition tx_map :: "('d MsgTx \<Rightarrow> bytes) \<Rightarrow> 'd MsgTx list \<Rightarrow> bytes \<Rightarrow> 'd MsgTx option" where
  "tx_map txid txs = foldl (\<lambda>m tx. m(txid tx \<mapsto> tx)) Map.empty txs"

definition origin_transactions ::
    "('d MsgTx \<Rightarrow> bytes) \<Rightarrow> bucket \<times> bucket \<Rightarrow> (bytes \<Rightarrow> utxo_error + 'd MsgTx list) \<Rightarrow> 'd Block \<Rightarrow> i32 \<Rightarrow>
     utxo_error + (bytes \<Rightarrow> 'd MsgTx option)" where
  "origin_transactions txid index fetchBlock block height =
     (case dbFetchHashByHeight height index of
        Inl err \<Rightarrow> Inl (RecoverErr ''recover legacy spend assets at height'')
      | Inr hash \<Rightarrow>
          if hash \<noteq> bl_Hash block then andthen (fetchBlock hash) (\<lambda>txs. Inr (tx_map txid txs))
          else Inr (tx_map txid (bl_Transactions block)))"

definition recover_assets ::
    "('d MsgTx \<Rightarrow> bytes) \<Rightarrow> bucket \<times> bucket \<Rightarrow> (bytes \<Rightarrow> utxo_error + 'd MsgTx list) \<Rightarrow> 'd Block \<Rightarrow> OutPoint \<Rightarrow>
     (i32 \<Rightarrow> (bytes \<Rightarrow> 'd MsgTx option) option) \<Rightarrow> 'd SpentTxOut \<Rightarrow>
     utxo_error + (i32 \<Rightarrow> (bytes \<Rightarrow> 'd MsgTx option) option) \<times> 'd SpentTxOut" where
  "recover_assets txid index fetchBlock block outpoint blocks stxo =
     (if st_Assets stxo \<noteq> [] then Inr (blocks, stxo)
      else if sint (st_Height stxo) \<le> 0 then Inl (RecoverErr ''missing origin height'')
      else andthen
        (case blocks (st_Height stxo) of
           Some transactions \<Rightarrow> Inr (blocks, transactions)
         | None \<Rightarrow> andthen (origin_transactions txid index fetchBlock block (st_Height stxo)) (\<lambda>transactions.
             Inr (blocks(st_Height stxo \<mapsto> transactions), transactions)))
        (\<lambda>(blocks, transactions).
          case transactions (Hash outpoint) of
            None \<Rightarrow> Inl (RecoverErr ''output missing'')
          | Some originTx \<Rightarrow>
              if unat (Index outpoint) \<ge> length (TxOuts originTx) then Inl (RecoverErr ''output missing'')
              else let output = TxOuts originTx ! unat (Index outpoint)
                   in if Value output \<noteq> st_Amount stxo \<or> PkScript output \<noteq> st_PkScript stxo \<or>
                         IsCoinBaseTx originTx \<noteq> st_IsCoinBase stxo
                      then Inl (RecoverErr ''journal disagrees with output'')
                      else Inr (blocks, stxo\<lparr>st_Assets := Assets output\<rparr>)))"

text \<open>The loops over the inputs: the index into the spent outputs runs along.\<close>

fun recover_inputs ::
    "('d MsgTx \<Rightarrow> bytes) \<Rightarrow> bucket \<times> bucket \<Rightarrow> (bytes \<Rightarrow> utxo_error + 'd MsgTx list) \<Rightarrow> 'd Block \<Rightarrow> OutPoint list \<Rightarrow>
     (i32 \<Rightarrow> (bytes \<Rightarrow> 'd MsgTx option) option) \<Rightarrow> 'd SpentTxOut list \<Rightarrow> utxo_error + 'd SpentTxOut list" where
  "recover_inputs txid index fetchBlock block [] blocks stxos = Inr stxos"
| "recover_inputs txid index fetchBlock block (outpoint # ins) blocks [] = Inl UtxoPanic"
| "recover_inputs txid index fetchBlock block (outpoint # ins) blocks (stxo # stxos) =
     andthen (recover_assets txid index fetchBlock block outpoint blocks stxo) (\<lambda>(blocks, stxo).
     andthen (recover_inputs txid index fetchBlock block ins blocks stxos) (\<lambda>stxos. Inr (stxo # stxos)))"

definition consumed_inputs :: "'d MsgTx list \<Rightarrow> OutPoint list" where
  "consumed_inputs txs = concat (map (\<lambda>tx. map PreviousOutPoint (TxIns tx))
     (filter (\<lambda>tx. transactionConsumesSpendJournal tx False) txs))"

definition restoreLegacySpendJournalAssets ::
    "('d MsgTx \<Rightarrow> bytes) \<Rightarrow> bucket \<times> bucket \<Rightarrow> (bytes \<Rightarrow> utxo_error + 'd MsgTx list) \<Rightarrow> 'd Block \<Rightarrow>
     'd SpentTxOut list \<Rightarrow> utxo_error + 'd SpentTxOut list" where
  "restoreLegacySpendJournalAssets txid index fetchBlock block stxos =
     (let blocks = (if sint (bl_Height block) > 0
                    then [bl_Height block \<mapsto> tx_map txid (bl_Transactions block)] else Map.empty)
      in if bl_Transactions block = [] then Inl UtxoPanic
         else recover_inputs txid index fetchBlock block (consumed_inputs (tl (bl_Transactions block))) blocks stxos)"

definition dbFetchSpendJournalEntryForDisconnect ::
    "'d decimal_ops \<Rightarrow> 'k pubkey_ops \<Rightarrow> ('d MsgTx \<Rightarrow> bytes) \<Rightarrow> bucket \<times> bucket \<Rightarrow>
     (bytes \<Rightarrow> utxo_error + 'd MsgTx list) \<Rightarrow> bucket \<Rightarrow> 'd Block \<Rightarrow> utxo_error + 'd SpentTxOut list" where
  "dbFetchSpendJournalEntryForDisconnect dops kops txid index fetchBlock spendBucket block =
     andthen (dbFetchSpendJournalEntry dops kops spendBucket block) (\<lambda>stxos.
       if spendBucket (spendJournalAssetsKey (bl_Hash block)) \<noteq> Some [1]
       then restoreLegacySpendJournalAssets txid index fetchBlock block stxos
       else Inr stxos)"

text \<open>The transactions of the block at a height, as the recovery finds them.\<close>

definition origin :: "('d MsgTx \<Rightarrow> bytes) \<Rightarrow> bucket \<times> bucket \<Rightarrow> (bytes \<Rightarrow> utxo_error + 'd MsgTx list) \<Rightarrow>
    'd Block \<Rightarrow> i32 \<Rightarrow> utxo_error + (bytes \<Rightarrow> 'd MsgTx option)" where
  "origin txid index fetchBlock block h =
     (if h = bl_Height block then Inr (tx_map txid (bl_Transactions block))
      else origin_transactions txid index fetchBlock block h)"

text \<open>The spent output is the one its outpoint names in the chain.\<close>

definition in_chain :: "('d MsgTx \<Rightarrow> bytes) \<Rightarrow> bucket \<times> bucket \<Rightarrow> (bytes \<Rightarrow> utxo_error + 'd MsgTx list) \<Rightarrow>
    'd Block \<Rightarrow> OutPoint \<Rightarrow> 'd SpentTxOut \<Rightarrow> bool" where
  "in_chain txid index fetchBlock block op c \<longleftrightarrow> sint (st_Height c) > 0 \<and>
     (case origin txid index fetchBlock block (st_Height c) of Inl _ \<Rightarrow> False
      | Inr m \<Rightarrow> (case m (Hash op) of None \<Rightarrow> False
         | Some tx \<Rightarrow> unat (Index op) < length (TxOuts tx) \<and>
             c = coin_of (TxOuts tx ! unat (Index op)) (IsCoinBaseTx tx) (st_Height c)))"

lemma recover_assets_correct:
  assumes "in_chain txid index fetchBlock block op c" "l = c \<or> l = c\<lparr>st_Assets := []\<rparr>"
    and blocks: "\<forall>h m. blocks h = Some m \<longrightarrow> origin txid index fetchBlock block h = Inr m"
      "blocks (bl_Height block) \<noteq> None \<or> sint (bl_Height block) \<le> 0"
  obtains blocks' where "recover_assets txid index fetchBlock block op blocks l = Inr (blocks', c)"
    "\<forall>h m. blocks' h = Some m \<longrightarrow> origin txid index fetchBlock block h = Inr m"
    "blocks' (bl_Height block) \<noteq> None \<or> sint (bl_Height block) \<le> 0"
proof (cases "st_Assets l = []")
  case False
  with assms that show thesis by (auto simp: recover_assets_def)
next
  case True
  obtain m tx where h: "sint (st_Height c) > 0"
    and m: "origin txid index fetchBlock block (st_Height c) = Inr m" "m (Hash op) = Some tx"
      "unat (Index op) < length (TxOuts tx)"
    and c: "c = coin_of (TxOuts tx ! unat (Index op)) (IsCoinBaseTx tx) (st_Height c)"
    using assms(1) by (auto simp: in_chain_def split: sum.splits option.splits)
  have l: "st_Height l = st_Height c" "st_Amount l = st_Amount c" "st_PkScript l = st_PkScript c"
    "st_IsCoinBase l = st_IsCoinBase c" "l\<lparr>st_Assets := st_Assets c\<rparr> = c" using assms(2) by auto
  have sel: "st_Amount c = Value (TxOuts tx ! unat (Index op))" "st_Assets c = Assets (TxOuts tx ! unat (Index op))"
    "st_PkScript c = PkScript (TxOuts tx ! unat (Index op))" "st_IsCoinBase c = IsCoinBaseTx tx"
    by (subst c, simp add: coin_of_def)+
  show thesis
  proof (cases "blocks (st_Height c)")
    case (Some m')
    then have "m' = m" using blocks(1) m(1) by auto
    with Some show thesis
      using h m l sel blocks True by (intro that [of blocks]) (simp_all add: recover_assets_def Let_def not_le)
  next
    case None
    then have "st_Height c \<noteq> bl_Height block" using blocks(2) h by auto
    then have "origin_transactions txid index fetchBlock block (st_Height c) = Inr m" using m(1) by (simp add: origin_def)
    with None show thesis
      using h m l sel blocks True
      by (intro that [of "blocks(st_Height c \<mapsto> m)"]) (simp_all add: recover_assets_def Let_def not_le)
  qed
qed

lemma recover_inputs_correct:
  assumes "list_all2 (in_chain txid index fetchBlock block) ins cs"
    and "list_all2 (\<lambda>l c. l = c \<or> l = c\<lparr>st_Assets := []\<rparr>) ls cs"
    and "\<forall>h m. blocks h = Some m \<longrightarrow> origin txid index fetchBlock block h = Inr m"
    and "blocks (bl_Height block) \<noteq> None \<or> sint (bl_Height block) \<le> 0"
  shows "recover_inputs txid index fetchBlock block ins blocks ls = Inr cs"
  using assms
proof (induction ins arbitrary: cs ls blocks)
  case Nil
  then show ?case by simp
next
  case (Cons op ins)
  then obtain c cs' l ls' where cs: "cs = c # cs'" "ls = l # ls'" "in_chain txid index fetchBlock block op c"
    "l = c \<or> l = c\<lparr>st_Assets := []\<rparr>" by (auto simp: list_all2_Cons1 list_all2_Cons2)
  obtain blocks' where "recover_assets txid index fetchBlock block op blocks l = Inr (blocks', c)"
    "\<forall>h m. blocks' h = Some m \<longrightarrow> origin txid index fetchBlock block h = Inr m"
    "blocks' (bl_Height block) \<noteq> None \<or> sint (bl_Height block) \<le> 0"
    using recover_assets_correct [OF cs(3,4) Cons.prems(3,4)] by metis
  with Cons.IH [of cs' ls' blocks'] Cons.prems(1,2) show ?case by (simp add: cs)
qed

text \<open>
  C24 (legacy journals are completed): when every spent output is the one the stored blocks
  name at its height, the recovery succeeds on journal records some or all of which lost their
  assets, and gives back the spent outputs with their assets.
\<close>

theorem legacy_assets_restored:
  assumes "bl_Transactions block \<noteq> []"
    and "list_all2 (in_chain txid index fetchBlock block) (consumed_inputs (tl (bl_Transactions block))) stxos"
    and "list_all2 (\<lambda>l c. l = c \<or> l = c\<lparr>st_Assets := []\<rparr>) legacy stxos"
  shows "restoreLegacySpendJournalAssets txid index fetchBlock block legacy = Inr stxos"
proof -
  have "recover_inputs txid index fetchBlock block (consumed_inputs (tl (bl_Transactions block)))
      (if sint (bl_Height block) > 0 then [bl_Height block \<mapsto> tx_map txid (bl_Transactions block)] else Map.empty)
      legacy = Inr stxos"
    by (rule recover_inputs_correct [OF assms(2,3)]) (auto simp: origin_def)
  then show ?thesis using assms(1) by (simp add: restoreLegacySpendJournalAssets_def)
qed

theorem legacy_assets_restored_witness:
  "restoreLegacySpendJournalAssets ex_txid
     (Map.empty, [PutUint32 LittleEndian 3 \<mapsto> 4 # 4 # replicate 30 3])
     (\<lambda>hash. Inr [\<lparr>Version = 1, TxIns = [], TxOuts = [ex_out], LockTime = 9\<rparr>]) ex_block
     [(coin_of ex_out False 3)\<lparr>st_Assets := []\<rparr>, coin_of ex_out False 5] =
   Inr [coin_of ex_out False 3, coin_of ex_out False 5]"
  by (rule legacy_assets_restored)
     (simp_all add: ex_block_def consumed_inputs_def transactionConsumesSpendJournal_def IsAnchorTx_def
       ex_in_def zeroHash_Cons AnchorTxOutIndex_def in_chain_def origin_def origin_transactions_def
       dbFetchHashByHeight_def copied_def tx_map_def ex_txid_def coin_of_def IsCoinBaseTx_def)

end
