(* ===== verification/Size_Helper.thy ===== *)
theory Size_Helper
  imports Prelude
begin

text \<open>
  The memory a Go map takes (\<^verbatim>\<open>blockchain/sizehelper.go\<close>), which sizes the maps of the UTXO
  cache.  \<^verbatim>\<open>uintptr\<close> and \<^verbatim>\<open>int\<close> are 64 bits wide.
\<close>

unbundle bit_operations_syntax

definition outpointSize :: u64 where "outpointSize = 36"

definition bucketSize :: u64 where "bucketSize = 16 + 8 * outpointSize + 8 * 8"

definition baseEntrySize :: u64 where "baseEntrySize = 40"

definition avgEntrySize :: u64 where "avgEntrySize = baseEntrySize + (25 + 7)"

definition maxAlloc :: u64 where "maxAlloc = push_bit 40 1"

definition class_to_size :: "nat list" where
  "class_to_size = [
    0, 8, 16, 24, 32, 48, 64, 80, 96, 112, 128, 144, 160, 176, 192, 208, 224, 240, 256, 288, 320,
    352, 384, 416, 448, 480, 512, 576, 640, 704, 768, 896, 1024, 1152, 1280, 1408, 1536, 1792,
    2048, 2304, 2688, 3072, 3200, 3456, 4096, 4864, 5376, 6144, 6528, 6784, 6912, 8192, 9472, 9728,
    10240, 10880, 12288, 13568, 14336, 16384, 18432, 19072, 20480, 21760, 24576, 27264, 28672, 32768]"

definition size_to_class8 :: "nat list" where
  "size_to_class8 = [
    0, 1, 2, 3, 4, 5, 5, 6, 6, 7, 7, 8, 8, 9, 9, 10, 10, 11, 11, 12, 12, 13, 13, 14, 14, 15, 15,
    16, 16, 17, 17, 18, 18, 19, 19, 19, 19, 20, 20, 20, 20, 21, 21, 21, 21, 22, 22, 22, 22, 23, 23,
    23, 23, 24, 24, 24, 24, 25, 25, 25, 25, 26, 26, 26, 26, 27, 27, 27, 27, 27, 27, 27, 27, 28, 28,
    28, 28, 28, 28, 28, 28, 29, 29, 29, 29, 29, 29, 29, 29, 30, 30, 30, 30, 30, 30, 30, 30, 31, 31,
    31, 31, 31, 31, 31, 31, 31, 31, 31, 31, 31, 31, 31, 31, 32, 32, 32, 32, 32, 32, 32, 32, 32, 32,
    32, 32, 32, 32, 32, 32]"

definition size_to_class128 :: "nat list" where
  "size_to_class128 = [
    32, 33, 34, 35, 36, 37, 37, 38, 38, 39, 39, 40, 40, 40, 41, 41, 41, 42, 43, 43, 44, 44, 44, 44,
    44, 45, 45, 45, 45, 45, 45, 46, 46, 46, 46, 47, 47, 47, 47, 47, 47, 48, 48, 48, 49, 49, 50, 51,
    51, 51, 51, 51, 51, 51, 51, 51, 51, 52, 52, 52, 52, 52, 52, 52, 52, 52, 52, 53, 53, 54, 54, 54,
    54, 55, 55, 55, 55, 55, 56, 56, 56, 56, 56, 56, 56, 56, 56, 56, 56, 57, 57, 57, 57, 57, 57, 57,
    57, 57, 57, 58, 58, 58, 58, 58, 58, 59, 59, 59, 59, 59, 59, 59, 59, 59, 59, 59, 59, 59, 59, 59,
    59, 60, 60, 60, 60, 60, 60, 60, 60, 60, 60, 60, 60, 60, 60, 60, 60, 61, 61, 61, 61, 61, 62, 62,
    62, 62, 62, 62, 62, 62, 62, 62, 62, 63, 63, 63, 63, 63, 63, 63, 63, 63, 63, 64, 64, 64, 64, 64,
    64, 64, 64, 64, 64, 64, 64, 64, 64, 64, 64, 64, 64, 64, 64, 64, 64, 65, 65, 65, 65, 65, 65, 65,
    65, 65, 65, 65, 65, 65, 65, 65, 65, 65, 65, 65, 65, 65, 66, 66, 66, 66, 66, 66, 66, 66, 66, 66,
    66, 67, 67, 67, 67, 67, 67, 67, 67, 67, 67, 67, 67, 67, 67, 67, 67, 67, 67, 67, 67, 67, 67, 67,
    67, 67, 67, 67, 67, 67, 67, 67, 67]"

definition mulUintptr :: "u64 \<Rightarrow> u64 \<Rightarrow> u64 \<times> bool" where
  "mulUintptr a b =
     (if a OR b < push_bit 32 1 \<or> a = 0 then (a * b, False)
      else (a * b, b > (- 1) div a))"

definition divRoundUp :: "u64 \<Rightarrow> u64 \<Rightarrow> u64" where
  "divRoundUp n a = (n + a - 1) div a"

definition alignUp :: "u64 \<Rightarrow> u64 \<Rightarrow> u64" where
  "alignUp n a = (n + a - 1) AND NOT (a - 1)"

definition roundupsize :: "u64 \<Rightarrow> u64" where
  "roundupsize sz =
     (if sz < 32768 then
        if sz \<le> 1024 - 8 then word_of_nat (class_to_size ! (size_to_class8 ! unat (divRoundUp sz 8)))
        else word_of_nat (class_to_size ! (size_to_class128 ! unat (divRoundUp (sz - 1024) 128)))
      else if sz + 8192 < sz then sz
      else alignUp sz 8192)"

definition bucketShift :: "byte \<Rightarrow> u64" where
  "bucketShift b = push_bit (unat (b AND 63)) 1"

definition overLoadFactor :: "i64 \<Rightarrow> byte \<Rightarrow> bool" where
  "overLoadFactor count b \<longleftrightarrow> sint count > 8 \<and> count > 13 * (bucketShift b div 2)"

subsection \<open>The search for the number of buckets ends\<close>

lemma overLoadFactor_61:
  assumes "b AND 63 = 61"
  shows "\<not> overLoadFactor count b"
proof -
  have "13 * (bucketShift b div 2) = (0xD000000000000000 :: u64)"
    by (simp add: bucketShift_def assms push_bit_eq_mult)
  moreover have "count \<le> 0x7fffffffffffffff" if "sint count > 8"
  proof (rule ccontr)
    assume "\<not> count \<le> 0x7fffffffffffffff"
    then have "2 ^ 63 \<le> uint count" by (simp add: word_le_def)
    moreover have "uint count < 2 ^ 64" using uint_lt2p [of count] by simp
    ultimately have "uint count div 2 ^ 63 = 1" by simp
    then have "bit (uint count) 63" by (simp add: bit_iff_odd)
    then have "sint count < 0" by (simp add: sint_uint)
    with that show False by simp
  qed
  ultimately show ?thesis by (auto simp: overLoadFactor_def not_less intro: order_trans)
qed

lemma uint_and_63: "uint ((w::byte) AND 63) = uint w mod 64"
proof -
  have "w AND 63 = take_bit 6 w" by (simp add: take_bit_eq_mask mask_eq_exp_minus_1)
  then show ?thesis by (simp add: take_bit_eq_mod uint_mod)
qed

lemma uint_diff_and_63: "uint ((k - b::byte) AND 63) = (uint k - uint b) mod 64"
proof -
  have "uint (k - b) = (uint k - uint b) mod 256" by (simp add: uint_word_ariths)
  then show ?thesis by (simp add: uint_and_63 mod_mod_cancel)
qed

lemma mod_pred: "(x::int) mod 64 \<noteq> 0 \<Longrightarrow> (x - 1) mod 64 = x mod 64 - 1"
proof -
  assume "x mod 64 \<noteq> 0"
  then have "0 \<le> x mod 64 - 1" "x mod 64 - 1 < 64"
    using pos_mod_sign [of 64 x] pos_mod_bound [of 64 x] by linarith+
  then have "(x mod 64 - 1) mod 64 = x mod 64 - 1" by (rule mod_pos_pos_trivial)
  then show ?thesis by (simp add: mod_diff_left_eq)
qed

lemma mod_eq_0_diff: "(61 - uint (b::byte)) mod 64 = 0 \<Longrightarrow> uint b mod 64 = 61"
proof -
  assume "(61 - uint b) mod 64 = 0"
  then have "64 dvd 61 - uint b" by (rule mod_0_imp_dvd)
  then have "61 mod 64 = uint b mod 64" by (simp only: mod_eq_dvd_iff)
  then show ?thesis by simp
qed

function growB :: "i64 \<Rightarrow> byte \<Rightarrow> byte" where
  "growB hint b = (if overLoadFactor hint b then growB hint (b + 1) else b)"
  by pat_completeness auto
termination
proof (relation "measure (\<lambda>(_, b). unat ((61 - b) AND 63))", simp)
  fix hint :: i64 and b :: byte
  assume "overLoadFactor hint b"
  then have "b AND 63 \<noteq> 61" using overLoadFactor_61 by auto
  then have "uint b mod 64 \<noteq> 61" by (simp add: word_uint_eq_iff uint_and_63)
  then have "(61 - uint b) mod 64 \<noteq> 0" by (rule contrapos_nn) (rule mod_eq_0_diff)
  then have "(60 - uint b) mod 64 < (61 - uint b) mod 64"
    using mod_pred [of "61 - uint b"] by simp
  then have "uint ((60 - b) AND 63) < uint ((61 - b) AND 63)" by (simp add: uint_diff_and_63)
  moreover have "61 - (b + 1) = 60 - b" by simp
  ultimately show "((hint, b + 1), hint, b) \<in> measure (\<lambda>(_, b). unat ((61 - b) AND 63))"
    by (simp only: in_measure prod.case unat_eq_nat_uint nat_less_eq_zless uint_ge_0)
qed

declare growB.simps [simp del]

lemma growB_not_over: "\<not> overLoadFactor hint (growB hint b)"
proof (induction hint b rule: growB.induct)
  case (1 hint b)
  then show ?case by (subst growB.simps) simp
qed

definition calculateRoughMapSize :: "i64 \<Rightarrow> u64 \<Rightarrow> i64" where
  "calculateRoughMapSize hint bsize =
     (let (mem, overflow) = mulUintptr hint bsize;
          hint = (if overflow \<or> mem > maxAlloc then 0 else hint);
          b = growB hint 0;
          base = bucketShift b;
          numBuckets = (if b \<ge> 4 then
              let numBuckets = base + bucketShift (b - 4);
                  sz = bsize * numBuckets;
                  up = roundupsize sz
              in if up \<noteq> sz then up div bsize else numBuckets
            else base);
          total = fst (mulUintptr bsize numBuckets);
          total = (if base \<noteq> numBuckets then total + 24 else total)
      in total + 48)"

text \<open>
  \<open>log2\<close> is \<^verbatim>\<open>uint8(math.Log2(float64(n)))\<close>: floating-point arithmetic, whose value on a
  negative argument depends on the platform.  Go's division truncates towards zero.
\<close>

definition calculateMinEntries :: "(int \<Rightarrow> byte) \<Rightarrow> i64 \<Rightarrow> i64 \<Rightarrow> i64" where
  "calculateMinEntries log2 totalBytes bsize =
     (let totalBytes = totalBytes - 48;
          n = sint totalBytes;
          numBuckets = (if n < 0 then - ((- n) div sint bsize) else n div sint bsize);
          b = log2 numBuckets
      in if b < 4 then if b = 0 then 0 else if b = 1 then 9 else if b = 2 then 14 else 27
         else let b = b - 1 in 13 * (bucketShift b div 2) + 1)"

subsection \<open>Size classes\<close>

lemma class8_fits: "list_all (\<lambda>(j, c). 8 * j \<le> class_to_size ! c \<and> class_to_size ! c \<le> 32768) (enumerate 0 size_to_class8)"
  by (simp add: size_to_class8_def class_to_size_def)

lemma class128_fits: "list_all (\<lambda>(j, c). 1024 + 128 * j \<le> class_to_size ! c \<and> class_to_size ! c \<le> 32768) (enumerate 0 size_to_class128)"
  by (simp add: size_to_class128_def class_to_size_def)

lemma enumerate_all_nth: "list_all P (enumerate 0 xs) \<Longrightarrow> j < length xs \<Longrightarrow> P (j, xs ! j)"
  by (simp add: list_all_length nth_enumerate_eq)

lemma class_lengths: "length size_to_class8 = 129" "length size_to_class128 = 249"
  by (simp_all add: size_to_class8_def size_to_class128_def)

lemma class8:
  "j \<le> 128 \<Longrightarrow> 8 * j \<le> class_to_size ! (size_to_class8 ! j) \<and> class_to_size ! (size_to_class8 ! j) \<le> 32768"
  using enumerate_all_nth [OF class8_fits, of j] by (simp add: class_lengths)

lemma class128:
  "j \<le> 248 \<Longrightarrow>
   1024 + 128 * j \<le> class_to_size ! (size_to_class128 ! j) \<and> class_to_size ! (size_to_class128 ! j) \<le> 32768"
  using enumerate_all_nth [OF class128_fits, of j] by (simp add: class_lengths)

lemma and_not_split: "(w AND NOT m) + (w AND m) = (w::u64)"
  by (subst disjunctive_add_eq_or) (auto intro!: bit_word_eqI simp: bit_simps)

lemma alignUp_ge:
  assumes "unat sz + 8192 < 2 ^ 64"
  shows "sz \<le> alignUp sz 8192"
proof -
  have u: "unat (sz + 8191) = unat sz + 8191" using assms by (simp add: unat_word_ariths)
  have "(sz + 8191) AND NOT 8191 = (sz + 8191) - ((sz + 8191) AND mask 13)"
    using and_not_split [of "sz + 8191" "mask 13"] by (simp add: mask_eq_exp_minus_1 algebra_simps)
  also have "(sz + 8191) AND mask 13 = take_bit 13 (sz + 8191)" by (simp add: take_bit_eq_mask)
  finally have a: "alignUp sz 8192 = (sz + 8191) - take_bit 13 (sz + 8191)" by (simp add: alignUp_def add.commute)
  have t: "unat (take_bit 13 (sz + 8191)) = (unat sz + 8191) mod 8192"
    by (simp add: take_bit_eq_mod unat_mod u)
  have "unat (alignUp sz 8192) = (unat sz + 8191) - (unat sz + 8191) mod 8192"
    unfolding a by (subst unat_sub) (simp_all add: u t word_le_nat_alt)
  moreover have "(unat sz + 8191) mod 8192 \<le> 8191" by simp
  ultimately show ?thesis by (simp add: word_le_nat_alt)
qed

lemma word_of_class_ge:
  assumes "unat sz \<le> c" "c \<le> 32768"
  shows "sz \<le> (word_of_nat c :: u64)"
proof -
  have "unat (word_of_nat c :: u64) = c" using assms(2) by (simp add: unsigned_of_nat take_bit_nat_eq_self)
  then show ?thesis using assms(1) by (simp add: word_le_nat_alt)
qed

lemma round_small:
  assumes "unat sz \<le> 1016"
  shows "sz \<le> word_of_nat (class_to_size ! (size_to_class8 ! unat (divRoundUp sz 8)))"
proof -
  have "unat (divRoundUp sz 8) = (unat sz + 7) div 8"
    using assms by (simp add: divRoundUp_def unat_div unat_word_ariths)
  moreover have "(unat sz + 7) div 8 \<le> 128" "unat sz \<le> 8 * ((unat sz + 7) div 8)" using assms by simp_all
  ultimately show ?thesis using class8 [of "(unat sz + 7) div 8"] by (intro word_of_class_ge) simp_all
qed

lemma round_medium:
  assumes "1016 < unat sz" "unat sz < 32768"
  shows "sz \<le> word_of_nat (class_to_size ! (size_to_class128 ! unat (divRoundUp (sz - 1024) 128)))"
proof -
  have "sz - 1024 + 128 - 1 = sz - 897" by simp
  moreover have "unat (sz - 897) = unat sz - 897" using assms by (subst unat_sub) (simp_all add: word_le_nat_alt)
  ultimately have d: "unat (divRoundUp (sz - 1024) 128) = (unat sz - 897) div 128"
    by (simp only: divRoundUp_def unat_div) simp
  have "(unat sz - 897) div 128 \<le> 248" "unat sz \<le> 1024 + 128 * ((unat sz - 897) div 128)" using assms by simp_all
  then show ?thesis using class128 [of "(unat sz - 897) div 128"] unfolding d by (intro word_of_class_ge) simp_all
qed

text \<open>
  The size the Go runtime rounds an allocation up to is never less than
  what was asked for, unless rounding up would leave the 64-bit range, where it is what was asked.
\<close>

lemma roundupsize_ge: "sz \<le> roundupsize sz"
proof (cases "unat sz < 32768")
  case True
  then show ?thesis
    using round_small [of sz] round_medium [of sz] by (simp add: roundupsize_def word_less_nat_alt word_le_nat_alt)
next
  case False
  then have big: "\<not> sz < 32768" by (simp add: word_less_nat_alt)
  show ?thesis
  proof (cases "unat sz + 8192 < 2 ^ 64")
    case True
    then have "unat (sz + 8192) = unat sz + 8192" by (simp add: unat_word_ariths)
    then have "\<not> sz + 8192 < sz" by (simp add: word_less_nat_alt)
    with big alignUp_ge [OF True] show ?thesis by (simp add: roundupsize_def)
  next
    case False
    then have "unat (sz + 8192) = unat sz + 8192 - 2 ^ 64"
      using unat_less_width(4) [of sz] by (simp add: unat_word_ariths mod_if)
    then have "sz + 8192 < sz" using unat_less_width(4) [of sz] False by (simp add: word_less_nat_alt)
    with big show ?thesis by (simp add: roundupsize_def)
  qed
qed

lemma growB_search:
  "unat b \<le> 61 \<Longrightarrow> unat b \<le> unat (growB hint b) \<and> unat (growB hint b) \<le> 61 \<and>
     (\<forall>k. unat b \<le> k \<longrightarrow> k < unat (growB hint b) \<longrightarrow> overLoadFactor hint (word_of_nat k))"
proof (induction hint b rule: growB.induct)
  case (1 hint b)
  show ?case
  proof (cases "overLoadFactor hint b")
    case True
    then have "b \<noteq> 61" using overLoadFactor_61 [of b hint] by auto
    then have "unat b < 61" using 1(2) by (simp add: word_unat_eq_iff order_le_less)
    then have b1: "unat (b + 1) = Suc (unat b)" by (simp add: unat_word_ariths)
    have "growB hint b = growB hint (b + 1)" using True by (subst growB.simps) simp
    with 1(1) [OF True] b1 \<open>unat b < 61\<close> True show ?thesis
      by (auto simp: Suc_le_eq le_less [of "unat b"])
  next
    case False
    then have "growB hint b = b" by (subst growB.simps) simp
    with 1(2) show ?thesis by auto
  qed
qed

text \<open>
  For every hint, positive or not, the loop of
  \<^verbatim>\<open>calculateRoughMapSize\<close> ends after at most 61 steps with the least exponent at which the
  map is not overloaded.
\<close>

lemma bucket_search:
  "\<not> overLoadFactor hint (growB hint 0) \<and> unat (growB hint 0) \<le> 61 \<and>
   list_all (\<lambda>b. overLoadFactor hint (word_of_nat b)) [0..<unat (growB hint 0)]"
  using growB_not_over [of hint 0] growB_search [of 0 hint] by (simp add: list_all_iff)

end
