(* ===== verification/Utxo_Cache.thy ===== *)
theory Utxo_Cache
  imports Utxo_Store Size_Helper "HOL-Library.AList"
begin

text \<open>
  The cache of the UTXO set (\<^verbatim>\<open>blockchain/utxocache.go\<close>) and the view functions that read
  through it (\<^verbatim>\<open>blockchain/utxoviewpoint.go\<close>).

  A Go map is an association list with distinct keys, in any order; ranging over it follows the
  list.  The entries of the cache are pointers: \<open>ms_mutate\<close> is the update of an entry in place.
  The script of a cached entry was allocated at its length, which is then its capacity.
  \<open>log2\<close> is the floating-point logarithm of \<^verbatim>\<open>calculateMinEntries\<close>.
\<close>

section \<open>The slice of maps\<close>

type_synonym 'd entry_alist = "(OutPoint \<times> 'd UtxoEntry option) list"

record 'd mapSlice =
  ms_maps :: "'d entry_alist list"
  ms_maxEntries :: "i64 list"
  ms_maxTotalMemoryUsage :: u64

definition ms_length :: "'d mapSlice \<Rightarrow> nat" where
  "ms_length ms = sum_list (map length (ms_maps ms))"

definition ms_size :: "'d mapSlice \<Rightarrow> i64" where
  "ms_size ms = sum_list (map (\<lambda>num. calculateRoughMapSize num bucketSize) (ms_maxEntries ms))"

fun get_in :: "OutPoint \<Rightarrow> 'd entry_alist list \<Rightarrow> 'd UtxoEntry option option" where
  "get_in op [] = None"
| "get_in op (m # ms) = (case map_of m op of Some entry \<Rightarrow> Some entry | None \<Rightarrow> get_in op ms)"

definition ms_get :: "'d mapSlice \<Rightarrow> OutPoint \<Rightarrow> 'd UtxoEntry option option" where
  "ms_get ms op = get_in op (ms_maps ms)"

text \<open>The loop that overwrites an existing key.\<close>

fun put_existing :: "OutPoint \<Rightarrow> 'd UtxoEntry option \<Rightarrow> 'd entry_alist list \<Rightarrow> 'd entry_alist list option" where
  "put_existing op entry [] = None"
| "put_existing op entry (m # ms) =
     (if map_of m op \<noteq> None then Some (AList.update op entry m # ms)
      else map_option (\<lambda>ms. m # ms) (put_existing op entry ms))"

text \<open>The loop that looks for a map with room.\<close>

fun put_room :: "OutPoint \<Rightarrow> 'd UtxoEntry option \<Rightarrow> 'd entry_alist list \<Rightarrow> i64 list \<Rightarrow> 'd entry_alist list option" where
  "put_room op entry (m # ms) (maxNum # maxs) =
     (if int (length m) \<ge> sint maxNum then map_option (\<lambda>ms. m # ms) (put_room op entry ms maxs)
      else Some (AList.update op entry m # ms))"
| "put_room op entry _ _ = None"

definition makeNewMap :: "(int \<Rightarrow> byte) \<Rightarrow> u64 \<Rightarrow> 'd mapSlice \<Rightarrow> 'd mapSlice" where
  "makeNewMap log2 totalEntryMemory ms =
     (let memSize = ms_maxTotalMemoryUsage ms - totalEntryMemory;
          memSize = foldl (\<lambda>memSize maxNum. memSize - calculateRoughMapSize maxNum bucketSize) memSize (ms_maxEntries ms);
          numMaxElements = calculateMinEntries log2 memSize (bucketSize + avgEntrySize) - 1
      in ms\<lparr>ms_maxEntries := ms_maxEntries ms @ [numMaxElements], ms_maps := ms_maps ms @ [[]]\<rparr>)"

definition ms_put ::
    "(int \<Rightarrow> byte) \<Rightarrow> OutPoint \<Rightarrow> 'd UtxoEntry option \<Rightarrow> u64 \<Rightarrow> 'd mapSlice \<Rightarrow> 'd mapSlice" where
  "ms_put log2 op entry totalEntryMemory ms =
     (case put_existing op entry (ms_maps ms) of
        Some maps \<Rightarrow> ms\<lparr>ms_maps := maps\<rparr>
      | None \<Rightarrow> (case put_room op entry (ms_maps ms) (ms_maxEntries ms) of
          Some maps \<Rightarrow> ms\<lparr>ms_maps := maps\<rparr>
        | None \<Rightarrow>
            let ms = makeNewMap log2 totalEntryMemory ms
            in ms\<lparr>ms_maps := butlast (ms_maps ms) @ [AList.update op entry (last (ms_maps ms))]\<rparr>))"

definition ms_delete :: "OutPoint \<Rightarrow> 'd mapSlice \<Rightarrow> 'd mapSlice" where
  "ms_delete op ms = ms\<lparr>ms_maps := map (AList.delete op) (ms_maps ms)\<rparr>"

definition deleteMaps :: "'d mapSlice \<Rightarrow> 'd mapSlice" where
  "deleteMaps ms = ms\<lparr>ms_maxEntries := [hd (ms_maxEntries ms)], ms_maps := take 1 (ms_maps ms)\<rparr>"

definition ms_mutate :: "OutPoint \<Rightarrow> ('d UtxoEntry \<Rightarrow> 'd UtxoEntry) \<Rightarrow> 'd mapSlice \<Rightarrow> 'd mapSlice" where
  "ms_mutate op f ms = ms\<lparr>ms_maps :=
     map (map (\<lambda>(k, v). (k, if k = op then map_option f v else v))) (ms_maps ms)\<rparr>"

section \<open>The cache\<close>

datatype FlushMode = FlushRequired | FlushPeriodic | FlushIfNeeded

record 'd utxoCache =
  uc_maxTotalMemoryUsage :: u64
  uc_cachedEntries :: "'d mapSlice"
  uc_totalEntryMemory :: u64
  uc_lastFlushHash :: bytes
  uc_lastFlushTime :: int

definition newUtxoCache :: "(int \<Rightarrow> byte) \<Rightarrow> u64 \<Rightarrow> 'd utxoCache" where
  "newUtxoCache log2 maxTotalMemoryUsage =
     (let numMaxElements = calculateMinEntries log2 maxTotalMemoryUsage (bucketSize + avgEntrySize) - 1
      in \<lparr>uc_maxTotalMemoryUsage = maxTotalMemoryUsage,
          uc_cachedEntries = \<lparr>ms_maps = [[]], ms_maxEntries = [numMaxElements],
            ms_maxTotalMemoryUsage = maxTotalMemoryUsage\<rparr>,
          uc_totalEntryMemory = 0, uc_lastFlushHash = zeroHash, uc_lastFlushTime = 0\<rparr>)"

definition totalMemoryUsage :: "'d utxoCache \<Rightarrow> u64" where
  "totalMemoryUsage s = ms_size (uc_cachedEntries s) + uc_totalEntryMemory s"

definition memoryUsage :: "'d UtxoEntry option \<Rightarrow> u64" where
  "memoryUsage entry = (case entry of None \<Rightarrow> 0
     | Some entry \<Rightarrow> baseEntrySize + word_of_nat (length (ue_pkScript entry)))"

text \<open>The first loop of \<^verbatim>\<open>fetchEntries\<close>: what is missing in the cache.\<close>

definition missing_ops :: "'d utxoCache \<Rightarrow> OutPoint list \<Rightarrow> OutPoint list" where
  "missing_ops s outpoints = filter (\<lambda>op. ms_get (uc_cachedEntries s) op = None) outpoints"

fun fetch_missing ::
    "'d decimal_ops \<Rightarrow> 'k pubkey_ops \<Rightarrow> bucket \<Rightarrow> OutPoint list \<Rightarrow> utxo_error + 'd UtxoEntry option list" where
  "fetch_missing dops kops b [] = Inr []"
| "fetch_missing dops kops b (op # ops) =
     andthen (dbFetchUtxoEntry dops kops b op) (\<lambda>entry.
     andthen (fetch_missing dops kops b ops) (\<lambda>entries. Inr (entry # entries)))"

text \<open>The last loop: the entries fetched go to the positions of the outpoints that were missing.\<close>

fun fill_in :: "'d utxoCache \<Rightarrow> OutPoint list \<Rightarrow> 'd UtxoEntry option list \<Rightarrow> 'd UtxoEntry option list" where
  "fill_in s [] dbEntries = []"
| "fill_in s (op # ops) dbEntries =
     (case ms_get (uc_cachedEntries s) op of
        Some entry \<Rightarrow> entry # fill_in s ops dbEntries
      | None \<Rightarrow> hd dbEntries # fill_in s ops (tl dbEntries))"

definition cache_entry :: "(int \<Rightarrow> byte) \<Rightarrow> OutPoint \<Rightarrow> 'd UtxoEntry option \<Rightarrow> 'd utxoCache \<Rightarrow> 'd utxoCache" where
  "cache_entry log2 op entry s =
     s\<lparr>uc_cachedEntries := ms_put log2 op entry (uc_totalEntryMemory s) (uc_cachedEntries s),
       uc_totalEntryMemory := uc_totalEntryMemory s + memoryUsage entry\<rparr>"

definition fetchEntries ::
    "'d decimal_ops \<Rightarrow> 'k pubkey_ops \<Rightarrow> (int \<Rightarrow> byte) \<Rightarrow> bucket \<Rightarrow> OutPoint list \<Rightarrow> 'd utxoCache \<Rightarrow>
     utxo_error + ('d UtxoEntry option list \<times> 'd utxoCache)" where
  "fetchEntries dops kops log2 b outpoints s =
     (let missingOps = missing_ops s outpoints in
      if missingOps = [] then Inr (fill_in s outpoints [], s)
      else andthen (fetch_missing dops kops b missingOps) (\<lambda>dbEntries.
        Inr (fill_in s outpoints dbEntries,
             fold (\<lambda>(op, entry). cache_entry log2 op entry) (zip missingOps dbEntries) s)))"

definition cache_addTxOut ::
    "(int \<Rightarrow> byte) \<Rightarrow> OutPoint \<Rightarrow> 'd TxOut \<Rightarrow> bool \<Rightarrow> i32 \<Rightarrow> 'd utxoCache \<Rightarrow> 'd utxoCache" where
  "cache_addTxOut log2 outpoint txOut isCoinBase blockHeight s =
     (if IsUnspendable (PkScript txOut) then s
      else cache_entry log2 outpoint (Some (new_output_entry txOut isCoinBase blockHeight)) s)"

definition cache_addTxOuts ::
    "('d MsgTx \<Rightarrow> bytes) \<Rightarrow> (int \<Rightarrow> byte) \<Rightarrow> 'd MsgTx \<Rightarrow> i32 \<Rightarrow> 'd utxoCache \<Rightarrow> 'd utxoCache" where
  "cache_addTxOuts txid log2 tx blockHeight s =
     fold (\<lambda>(prevOut, txOut). cache_addTxOut log2 prevOut txOut (IsCoinBaseTx tx) blockHeight)
       (tx_outputs txid tx) s"

text \<open>\<open>stxos\<close> is None where the caller passes nil: the spent outputs are then not collected.\<close>

definition cache_addTxIn ::
    "'d decimal_ops \<Rightarrow> 'k pubkey_ops \<Rightarrow> (int \<Rightarrow> byte) \<Rightarrow> bucket \<Rightarrow> TxIn \<Rightarrow>
     'd utxoCache \<times> 'd SpentTxOut list option \<Rightarrow> utxo_error + ('d utxoCache \<times> 'd SpentTxOut list option)" where
  "cache_addTxIn dops kops log2 b txIn = (\<lambda>(s, stxos).
     andthen (fetchEntries dops kops log2 b [PreviousOutPoint txIn] s) (\<lambda>(entries, s).
       case entries of
         [Some entry] \<Rightarrow>
           let entryMemory = memoryUsage (Some entry);
               spent = ms_mutate (PreviousOutPoint txIn) Spend (uc_cachedEntries s);
               kept = (if isFresh (Spend entry) then ms_delete (PreviousOutPoint txIn) spent else spent)
           in Inr (s\<lparr>uc_cachedEntries := kept, uc_totalEntryMemory := uc_totalEntryMemory s - entryMemory\<rparr>,
                   map_option (\<lambda>stxos. stxos @ [spent_of entry]) stxos)
       | _ \<Rightarrow> Inl (AssertError ''missing input'')))"

fun cache_add_ins ::
    "'d decimal_ops \<Rightarrow> 'k pubkey_ops \<Rightarrow> (int \<Rightarrow> byte) \<Rightarrow> bucket \<Rightarrow> TxIn list \<Rightarrow>
     'd utxoCache \<times> 'd SpentTxOut list option \<Rightarrow> utxo_error + ('d utxoCache \<times> 'd SpentTxOut list option)" where
  "cache_add_ins dops kops log2 b [] st = Inr st"
| "cache_add_ins dops kops log2 b (txIn # txIns) st =
     andthen (cache_addTxIn dops kops log2 b txIn st) (cache_add_ins dops kops log2 b txIns)"

text \<open>
  \<open>anchor\<close> is the record built from what \<^verbatim>\<open>anchortx.GetLockedTxInfo\<close> says of an anchor transaction;
  \<open>infos\<close> is None where the caller passes nil.
\<close>

definition cache_addTxIns ::
    "'d decimal_ops \<Rightarrow> 'k pubkey_ops \<Rightarrow> (int \<Rightarrow> byte) \<Rightarrow> ('d MsgTx \<Rightarrow> utxo_error + 'a) \<Rightarrow> bucket \<Rightarrow> 'd MsgTx \<Rightarrow>
     'd utxoCache \<times> 'd SpentTxOut list option \<times> 'a list option \<Rightarrow>
     utxo_error + ('d utxoCache \<times> 'd SpentTxOut list option \<times> 'a list option)" where
  "cache_addTxIns dops kops log2 anchor b tx = (\<lambda>(s, stxos, infos).
     if \<not> transactionConsumesSpendJournal tx (IsCoinBaseTx tx) then
       if \<not> IsAnchorTx tx then Inr (s, stxos, infos)
       else (case infos of
           Some l \<Rightarrow> andthen (anchor tx) (\<lambda>info. Inr (s, stxos, Some (l @ [info])))
         | None \<Rightarrow> Inr (s, stxos, None))
     else andthen (cache_add_ins dops kops log2 b (TxIns tx) (s, stxos)) (\<lambda>(s, stxos). Inr (s, stxos, infos)))"

definition cache_connectTransaction ::
    "'d decimal_ops \<Rightarrow> 'k pubkey_ops \<Rightarrow> ('d MsgTx \<Rightarrow> bytes) \<Rightarrow> (int \<Rightarrow> byte) \<Rightarrow> ('d MsgTx \<Rightarrow> utxo_error + 'a) \<Rightarrow>
     bucket \<Rightarrow> i32 \<Rightarrow> 'd MsgTx \<Rightarrow> 'd utxoCache \<times> 'd SpentTxOut list option \<times> 'a list option \<Rightarrow>
     utxo_error + ('d utxoCache \<times> 'd SpentTxOut list option \<times> 'a list option)" where
  "cache_connectTransaction dops kops txid log2 anchor b blockHeight tx st =
     andthen (cache_addTxIns dops kops log2 anchor b tx st) (\<lambda>(s, stxos, infos).
       Inr (cache_addTxOuts txid log2 tx blockHeight s, stxos, infos))"

fun cache_connectTransactions ::
    "'d decimal_ops \<Rightarrow> 'k pubkey_ops \<Rightarrow> ('d MsgTx \<Rightarrow> bytes) \<Rightarrow> (int \<Rightarrow> byte) \<Rightarrow> ('d MsgTx \<Rightarrow> utxo_error + 'a) \<Rightarrow>
     bucket \<Rightarrow> i32 \<Rightarrow> 'd MsgTx list \<Rightarrow> 'd utxoCache \<times> 'd SpentTxOut list option \<times> 'a list option \<Rightarrow>
     utxo_error + ('d utxoCache \<times> 'd SpentTxOut list option \<times> 'a list option)" where
  "cache_connectTransactions dops kops txid log2 anchor b height [] st = Inr st"
| "cache_connectTransactions dops kops txid log2 anchor b height (tx # txs) st =
     andthen (cache_connectTransaction dops kops txid log2 anchor b height tx st)
       (cache_connectTransactions dops kops txid log2 anchor b height txs)"

text \<open>The range over all cached entries when the cache is written.\<close>

fun write_entries ::
    "'d decimal_ops \<Rightarrow> 'k pubkey_ops \<Rightarrow> 'd entry_alist \<Rightarrow> bucket \<Rightarrow> utxo_error + bucket" where
  "write_entries dops kops [] b = Inr b"
| "write_entries dops kops ((outpoint, entry) # items) b =
     (if (case entry of None \<Rightarrow> True | Some e \<Rightarrow> IsSpent e) then
        write_entries dops kops items (dbDeleteUtxoEntry outpoint b)
      else if (case entry of None \<Rightarrow> False | Some e \<Rightarrow> \<not> isModified e) then write_entries dops kops items b
      else andthen (dbPutUtxoEntry dops kops outpoint entry b) (write_entries dops kops items))"

text \<open>\<open>now\<close> is \<^verbatim>\<open>time.Now()\<close>; the second result is the hash stored as the consistent state.\<close>

definition writeCache ::
    "'d decimal_ops \<Rightarrow> 'k pubkey_ops \<Rightarrow> int \<Rightarrow> bytes \<Rightarrow> 'd utxoCache \<times> bucket \<Rightarrow> utxo_error + ('d utxoCache \<times> bucket \<times> bytes option)" where
  "writeCache dops kops now bestHash = (\<lambda>(s, b).
     andthen (write_entries dops kops (concat (ms_maps (uc_cachedEntries s))) b) (\<lambda>b.
       let cleared = (uc_cachedEntries s)\<lparr>ms_maps := map (\<lambda>_. []) (ms_maps (uc_cachedEntries s))\<rparr>
       in Inr (s\<lparr>uc_cachedEntries := deleteMaps cleared, uc_totalEntryMemory := 0,
                 uc_lastFlushHash := bestHash, uc_lastFlushTime := now\<rparr>, b, Some bestHash)))"

definition utxoFlushPeriodicInterval :: int where
  "utxoFlushPeriodicInterval = 5 * 60 * 1000000000"

definition cache_flush ::
    "'d decimal_ops \<Rightarrow> 'k pubkey_ops \<Rightarrow> int \<Rightarrow> FlushMode \<Rightarrow> bytes \<Rightarrow> 'd utxoCache \<times> bucket \<Rightarrow>
     utxo_error + ('d utxoCache \<times> bucket \<times> bytes option)" where
  "cache_flush dops kops now mode bestHash = (\<lambda>(s, b).
     if mode = FlushIfNeeded \<and> bestHash = uc_lastFlushHash s then Inr (s, b, None)
     else let threshold = (case mode of FlushRequired \<Rightarrow> 0
              | FlushIfNeeded \<Rightarrow> uc_maxTotalMemoryUsage s
              | FlushPeriodic \<Rightarrow> if now - uc_lastFlushTime s > utxoFlushPeriodicInterval then 0
                                 else uc_maxTotalMemoryUsage s)
          in if totalMemoryUsage s \<ge> threshold then writeCache dops kops now bestHash (s, b)
             else Inr (s, b, None))"

section \<open>Views read through the cache\<close>

definition fetchUtxosFromCache ::
    "'d decimal_ops \<Rightarrow> 'k pubkey_ops \<Rightarrow> (int \<Rightarrow> byte) \<Rightarrow> bucket \<Rightarrow> OutPoint list \<Rightarrow> 'd UtxoViewpoint \<times> 'd utxoCache \<Rightarrow>
     utxo_error + ('d UtxoViewpoint \<times> 'd utxoCache)" where
  "fetchUtxosFromCache dops kops log2 b outpoints = (\<lambda>(view, cache).
     if outpoints = [] then Inr (view, cache)
     else andthen (fetchEntries dops kops log2 b outpoints cache) (\<lambda>(entries, cache).
       Inr (fold (\<lambda>(op, entry) view. view\<lparr>vw_entries := (vw_entries view)(op \<mapsto> entry)\<rparr>)
              (zip outpoints entries) view, cache)))"

definition fetchUtxos ::
    "'d decimal_ops \<Rightarrow> 'k pubkey_ops \<Rightarrow> (int \<Rightarrow> byte) \<Rightarrow> bucket \<Rightarrow> OutPoint list \<Rightarrow> 'd UtxoViewpoint \<times> 'd utxoCache \<Rightarrow>
     utxo_error + ('d UtxoViewpoint \<times> 'd utxoCache)" where
  "fetchUtxos dops kops log2 b outpoints = (\<lambda>(view, cache).
     if outpoints = [] then Inr (view, cache)
     else fetchUtxosFromCache dops kops log2 b
            (filter (\<lambda>op. vw_entries view op = None) outpoints) (view, cache))"

definition fetchInputUtxos ::
    "'d decimal_ops \<Rightarrow> 'k pubkey_ops \<Rightarrow> ('d MsgTx \<Rightarrow> bytes) \<Rightarrow> (int \<Rightarrow> byte) \<Rightarrow> bucket \<Rightarrow> 'd Block \<Rightarrow>
     'd UtxoViewpoint \<times> 'd utxoCache \<Rightarrow> utxo_error + ('d UtxoViewpoint \<times> 'd utxoCache)" where
  "fetchInputUtxos dops kops txid log2 b block = (\<lambda>(view, cache).
     andthen (findInputsToFetch txid block view) (\<lambda>(view, needed).
       fetchUtxosFromCache dops kops log2 b needed (view, cache)))"

definition FetchUtxoView ::
    "'d decimal_ops \<Rightarrow> 'k pubkey_ops \<Rightarrow> ('d MsgTx \<Rightarrow> bytes) \<Rightarrow> (int \<Rightarrow> byte) \<Rightarrow> bucket \<Rightarrow> 'd MsgTx \<Rightarrow> 'd utxoCache \<Rightarrow>
     utxo_error + ('d UtxoViewpoint \<times> 'd utxoCache)" where
  "FetchUtxoView dops kops txid log2 b tx cache =
     (let needed = map fst (tx_outputs txid tx) @
            (if \<not> IsCoinBaseTx tx \<and> \<not> IsAnchorTx tx then map PreviousOutPoint (TxIns tx) else [])
      in fetchUtxosFromCache dops kops log2 b needed (NewUtxoViewpoint, cache))"

definition FetchUtxoEntry ::
    "'d decimal_ops \<Rightarrow> 'k pubkey_ops \<Rightarrow> (int \<Rightarrow> byte) \<Rightarrow> bucket \<Rightarrow> OutPoint \<Rightarrow> 'd utxoCache \<Rightarrow>
     utxo_error + ('d UtxoEntry option \<times> 'd utxoCache)" where
  "FetchUtxoEntry dops kops log2 b outpoint cache =
     andthen (fetchEntries dops kops log2 b [outpoint] cache) (\<lambda>(entries, cache). Inr (entries ! 0, cache))"

section \<open>The slice of maps is a map\<close>

text \<open>
  What the cache relies on: a store of entries by outpoint with its lookups after every update.
  \<open>weight\<close> sums a measure of the stored entries.
\<close>

locale outpoint_store =
  fixes ok :: "'s \<Rightarrow> bool"
    and lookup :: "'s \<Rightarrow> OutPoint \<Rightarrow> 'e option"
    and insert_op :: "'h \<Rightarrow> OutPoint \<Rightarrow> 'e \<Rightarrow> 's \<Rightarrow> 's"
    and delete_op :: "OutPoint \<Rightarrow> 's \<Rightarrow> 's"
    and change :: "OutPoint \<Rightarrow> ('c \<Rightarrow> 'c) \<Rightarrow> 's \<Rightarrow> 's"
    and lift_change :: "('c \<Rightarrow> 'c) \<Rightarrow> 'e \<Rightarrow> 'e"
  assumes finite_lookup: "finite (dom (lookup s))"
    and insert_ok: "ok s \<Longrightarrow> ok (insert_op h op e s)"
    and lookup_insert: "ok s \<Longrightarrow> lookup (insert_op h op e s) = (lookup s)(op \<mapsto> e)"
    and delete_ok: "ok s \<Longrightarrow> ok (delete_op op s)"
    and lookup_delete: "ok s \<Longrightarrow> lookup (delete_op op s) = (lookup s)(op := None)"
    and change_ok: "ok s \<Longrightarrow> ok (change op f s)"
    and lookup_change: "ok s \<Longrightarrow> lookup (change op f s) = (lookup s)(op := map_option (lift_change f) (lookup s op))"
begin

definition weight :: "('e \<Rightarrow> 'w::ab_group_add) \<Rightarrow> 's \<Rightarrow> 'w" where
  "weight w s = (\<Sum>op\<in>dom (lookup s). w (the (lookup s op)))"

lemma weight_upd:
  assumes "lookup t = (lookup s)(op := x)"
  shows "weight w t = weight w s - (case lookup s op of Some e \<Rightarrow> w e | None \<Rightarrow> 0)
    + (case x of Some e \<Rightarrow> w e | None \<Rightarrow> 0)"
proof -
  let ?D = "dom (lookup s) - {op}"
  have "weight w t = (\<Sum>op'\<in>?D. w (the (lookup s op'))) + (case x of Some e \<Rightarrow> w e | None \<Rightarrow> 0)"
  proof (cases x)
    case None
    have "weight w t = (\<Sum>op'\<in>?D. w (the (lookup t op')))" by (simp add: weight_def assms None)
    also have "\<dots> = (\<Sum>op'\<in>?D. w (the (lookup s op')))" by (rule sum.cong) (simp_all add: assms)
    finally show ?thesis by (simp add: None)
  next
    case (Some e)
    have "dom (lookup t) = insert op ?D" by (auto simp: assms Some)
    then have "weight w t = w (the (lookup t op)) + (\<Sum>op'\<in>?D. w (the (lookup t op')))"
      using sum.insert [of ?D op] finite_lookup by (simp only: weight_def finite_Diff Diff_iff) simp
    also have "(\<Sum>op'\<in>?D. w (the (lookup t op'))) = (\<Sum>op'\<in>?D. w (the (lookup s op')))"
      by (rule sum.cong) (simp_all add: assms)
    finally show ?thesis by (simp add: assms Some)
  qed
  moreover have "weight w s = (\<Sum>op'\<in>?D. w (the (lookup s op'))) + (case lookup s op of Some e \<Rightarrow> w e | None \<Rightarrow> 0)"
  proof (cases "lookup s op")
    case None
    then have "?D = dom (lookup s)" by auto
    then show ?thesis by (simp add: weight_def None)
  next
    case (Some e)
    then have "op \<in> dom (lookup s)" by auto
    from sum.remove [OF finite_lookup this, of "\<lambda>op'. w (the (lookup s op'))"] show ?thesis
      by (simp add: weight_def add.commute Some)
  qed
  ultimately show ?thesis by simp
qed

lemma weight_insert:
  "ok s \<Longrightarrow> weight w (insert_op h op e s) = weight w s - (case lookup s op of Some e \<Rightarrow> w e | None \<Rightarrow> 0) + w e"
  using weight_upd [OF lookup_insert] by (simp add: fun_upd_def)

text \<open>An entry changed in place and then removed or kept.\<close>

lemma change_or_delete:
  assumes "ok s" "lookup s op = Some e"
  shows "ok (if c then delete_op op (change op f s) else change op f s)"
    and "lookup (if c then delete_op op (change op f s) else change op f s)
      = (lookup s)(op := if c then None else Some (lift_change f e))"
    and "weight w (if c then delete_op op (change op f s) else change op f s)
      = weight w s - w e + (if c then 0 else w (lift_change f e))"
proof -
  let ?t = "if c then delete_op op (change op f s) else change op f s"
  show "ok ?t" using assms by (simp add: delete_ok change_ok)
  show l: "lookup ?t = (lookup s)(op := if c then None else Some (lift_change f e))"
    using assms by (simp add: lookup_delete change_ok lookup_change)
  show "weight w ?t = weight w s - w e + (if c then 0 else w (lift_change f e))"
    using weight_upd [OF l, of w] assms by simp
qed

end

definition ms_ok :: "'d mapSlice \<Rightarrow> bool" where
  "ms_ok ms \<longleftrightarrow> length (ms_maxEntries ms) = length (ms_maps ms) \<and> ms_maps ms \<noteq> [] \<and>
     distinct (map fst (concat (ms_maps ms)))"

lemma get_in_concat: "get_in op ms = map_of (concat ms) op"
  by (induction ms) (auto simp: map_add_def split: option.splits)

lemma ms_get_concat: "ms_get ms = map_of (concat (ms_maps ms))"
  by (simp add: fun_eq_iff ms_get_def get_in_concat)

lemma put_existing_None: "put_existing op e ms = None \<longleftrightarrow> op \<notin> fst ` set (concat ms)"
  by (induction ms) (auto simp: map_of_eq_None_iff)

lemma map_add_upd_absent: "m op = None \<Longrightarrow> f(op \<mapsto> e) ++ m = (f ++ m)(op \<mapsto> e)"
  by (rule map_add_upd_left) (simp add: domIff)

lemma put_existing_Some:
  "put_existing op e ms = Some ms' \<Longrightarrow>
   map (map fst) ms' = map (map fst) ms \<and> map_of (concat ms') = (map_of (concat ms))(op \<mapsto> e)"
proof (induction ms arbitrary: ms')
  case (Cons m ms)
  show ?case
  proof (cases "map_of m op = None")
    case True
    then obtain ms1 where "put_existing op e ms = Some ms1" "ms' = m # ms1" using Cons.prems by auto
    then show ?thesis using Cons.IH [of ms1] map_add_upd_absent [of "map_of m", OF True] by (simp only: concat.simps list.map map_of_append)
  next
    case False
    then have "ms' = AList.update op e m # ms" "op \<in> fst ` set m"
      using Cons.prems by (auto simp: map_of_eq_None_iff)
    then show ?thesis by (simp add: update_keys AList.update_conv')
  qed
qed simp

lemma put_room_Some:
  "put_room op e ms maxs = Some ms' \<Longrightarrow> op \<notin> fst ` set (concat ms) \<Longrightarrow> distinct (map fst (concat ms)) \<Longrightarrow>
   length ms' = length ms \<and> distinct (map fst (concat ms')) \<and>
   fst ` set (concat ms') = insert op (fst ` set (concat ms)) \<and> map_of (concat ms') = (map_of (concat ms))(op \<mapsto> e)"
proof (induction op e ms maxs arbitrary: ms' rule: put_room.induct)
  case (1 op e m ms maxNum maxs)
  have m: "map_of m op = None" using "1.prems"(2) by (auto simp: map_of_eq_None_iff)
  show ?case
  proof (cases "int (length m) \<ge> sint maxNum")
    case True
    then obtain ms1 where ms1: "put_room op e ms maxs = Some ms1" "ms' = m # ms1" using "1.prems" by auto
    have rest: "op \<notin> fst ` set (concat ms)" "distinct (map fst (concat ms))" using "1.prems"(2,3) by auto
    have *: "length ms1 = length ms" "distinct (map fst (concat ms1))"
      "fst ` set (concat ms1) = insert op (fst ` set (concat ms))" "map_of (concat ms1) = (map_of (concat ms))(op \<mapsto> e)"
      using "1.IH" [OF True ms1(1) rest] by blast+
    have "fst ` set m \<inter> fst ` set (concat ms) = {}" "op \<notin> fst ` set m" using "1.prems"(2,3) by auto
    then have "fst ` set m \<inter> fst ` set (concat ms1) = {}" by (simp only: *(3)) blast
    moreover have "map_of (concat ms') = (map_of (concat (m # ms)))(op \<mapsto> e)"
      by (simp only: ms1(2) concat.simps map_of_append *(4) map_add_upd_absent [of "map_of m", OF m])
    ultimately show ?thesis using *(1-3) "1.prems"(3) by (simp add: ms1(2) image_Un insert_commute Un_commute del: set_concat)
  next
    case False
    then have ms': "ms' = AList.update op e m # ms" using "1.prems" by simp
    have op: "op \<notin> set (map fst m)" using "1.prems"(2) by auto
    have k: "map fst (AList.update op e m) = map fst m @ [op]" using op by (simp only: update_keys if_False)
    have "fst ` set (AList.update op e m) = insert op (fst ` set m)"
      using arg_cong [OF k, of set] by simp
    then show ?thesis using "1.prems" k by (auto simp: ms' AList.update_conv' simp del: map_map)
  qed
qed auto

lemma map_of_change:
  "map_of (map (\<lambda>(k, v). (k, if k = op then g v else v)) m) = (map_of m)(op := map_option g (map_of m op))"
  by (induction m) (auto simp: fun_eq_iff)

lemma ms_put_correct:
  assumes "ms_ok ms"
  shows "ms_ok (ms_put log2 op e tm ms) \<and> ms_get (ms_put log2 op e tm ms) = (ms_get ms)(op \<mapsto> e)"
proof (cases "put_existing op e (ms_maps ms)")
  case (Some maps)
  have k: "map (map fst) maps = map (map fst) (ms_maps ms)"
    and "map_of (concat maps) = (map_of (concat (ms_maps ms)))(op \<mapsto> e)"
    using put_existing_Some [OF Some] by auto
  moreover have "map fst (concat maps) = map fst (concat (ms_maps ms))" by (simp add: map_concat k)
  moreover have "length maps = length (ms_maps ms)" using arg_cong [OF k, of length] by simp
  ultimately show ?thesis using assms Some by (auto simp: ms_put_def ms_ok_def ms_get_concat)
next
  case None
  then have op: "op \<notin> fst ` set (concat (ms_maps ms))" using put_existing_None by blast
  show ?thesis
  proof (cases "put_room op e (ms_maps ms) (ms_maxEntries ms)")
    case (Some maps)
    then show ?thesis
      using put_room_Some [OF Some op] assms None by (auto simp: ms_put_def ms_ok_def ms_get_concat)
  next
    case new: None
    have "map_of (concat (ms_maps ms)) op = None" using op by (simp add: map_of_eq_None_iff)
    then show ?thesis
      using assms op None new
      by (auto simp: ms_put_def ms_ok_def ms_get_concat makeNewMap_def Let_def fun_eq_iff map_add_def split: option.splits)
  qed
qed

lemma ms_delete_correct:
  assumes "ms_ok ms"
  shows "ms_ok (ms_delete op ms) \<and> ms_get (ms_delete op ms) = (ms_get ms)(op := None)"
proof -
  have "concat (map (AList.delete op) (ms_maps ms)) = AList.delete op (concat (ms_maps ms))"
    by (simp add: AList.delete_eq filter_concat)
  then show ?thesis using assms by (simp add: ms_ok_def ms_get_concat ms_delete_def AList.delete_conv' distinct_delete)
qed

lemma ms_mutate_correct:
  assumes "ms_ok ms"
  shows "ms_ok (ms_mutate op f ms) \<and>
    ms_get (ms_mutate op f ms) = (ms_get ms)(op := map_option (map_option f) (ms_get ms op))"
proof -
  let ?g = "\<lambda>(k, v). (k, if k = op then map_option f v else v)"
  have "concat (map (map ?g) (ms_maps ms)) = map ?g (concat (ms_maps ms))" by (simp add: map_concat)
  moreover have "fst \<circ> ?g = fst" by auto
  ultimately show ?thesis using assms by (simp add: ms_ok_def ms_get_concat ms_mutate_def map_of_change)
qed

lemma finite_dom_ms_get: "finite (dom (ms_get ms))"
  by (simp only: ms_get_concat finite_dom_map_of)

interpretation slice: outpoint_store ms_ok ms_get "\<lambda>(log2, tm) op e. ms_put log2 op e tm" ms_delete ms_mutate map_option
  by unfold_locales
     (auto simp: ms_put_correct ms_delete_correct ms_mutate_correct finite_dom_ms_get split: prod.splits)

section \<open>The UTXO set a cache stands for\<close>

text \<open>
  The cached entry decides; where there is none, the database does.  The invariant ties every
  entry to what the database holds: a nil entry and a fresh one to nothing, an unmodified one to
  the same output.
\<close>

definition cache_set :: "'d decimal_ops \<Rightarrow> 'k pubkey_ops \<Rightarrow> 'd utxoCache \<Rightarrow> bucket \<Rightarrow> 'd utxo_set" where
  "cache_set dops kops s b op = (case ms_get (uc_cachedEntries s) op of
     Some (Some e) \<Rightarrow> if IsSpent e then None else Some (spent_of e)
   | Some None \<Rightarrow> None
   | None \<Rightarrow> stored_set dops kops b op)"

definition entry_ok :: "'d decimal_ops \<Rightarrow> 'd UtxoEntry option \<Rightarrow> 'd SpentTxOut option \<Rightarrow> bool" where
  "entry_ok dops x st = (case x of None \<Rightarrow> st = None
     | Some e \<Rightarrow> (isFresh e \<longrightarrow> st = None) \<and>
         (if isModified e then IsSpent e \<or> coin_storable dops (spent_of e)
          else \<not> IsSpent e \<and> st = Some (spent_of e)))"

definition cache_inv :: "'d decimal_ops \<Rightarrow> 'k pubkey_ops \<Rightarrow> 'd utxoCache \<Rightarrow> bucket \<Rightarrow> bool" where
  "cache_inv dops kops s b \<longleftrightarrow> ms_ok (uc_cachedEntries s) \<and>
     (\<forall>op x. ms_get (uc_cachedEntries s) op = Some x \<longrightarrow> op_ok op \<and> entry_ok dops x (stored_set dops kops b op))"

text \<open>The memory the cache accounts for: that of its unspent entries.\<close>

definition live_mem :: "'d UtxoEntry option \<Rightarrow> u64" where
  "live_mem x = (case x of None \<Rightarrow> 0 | Some e \<Rightarrow> if IsSpent e then 0 else memoryUsage (Some e))"

definition mem_ok :: "'d utxoCache \<Rightarrow> bool" where
  "mem_ok s \<longleftrightarrow> uc_totalEntryMemory s =
     (\<Sum>op\<in>dom (ms_get (uc_cachedEntries s)). live_mem (the (ms_get (uc_cachedEntries s) op)))"

lemma mem_ok_weight: "mem_ok s \<longleftrightarrow> uc_totalEntryMemory s = slice.weight live_mem (uc_cachedEntries s)"
  by (simp add: mem_ok_def slice.weight_def)

subsection \<open>Putting an entry\<close>

lemmas ms_put_simps = slice.lookup_insert [of _ "(l, m)" for l m, simplified]
  slice.insert_ok [of _ "(l, m)" for l m, simplified] slice.weight_insert [of _ _ "(l, m)" for l m, simplified]

lemma cache_entry_get:
  "ms_ok (uc_cachedEntries s) \<Longrightarrow> ms_get (uc_cachedEntries (cache_entry log2 op x s)) = (ms_get (uc_cachedEntries s))(op \<mapsto> x)"
  by (simp add: cache_entry_def ms_put_simps)

lemma cache_entry_inv:
  assumes "cache_inv dops kops s b" "op_ok op" "entry_ok dops x (stored_set dops kops b op)"
  shows "cache_inv dops kops (cache_entry log2 op x s) b"
  using assms by (auto simp: cache_inv_def cache_entry_def ms_put_simps)

lemma cache_entry_mem:
  assumes "mem_ok s" "ms_ok (uc_cachedEntries s)" "cache_set dops kops s b op = None \<or> ms_get (uc_cachedEntries s) op = None"
    and "\<And>e. x = Some e \<Longrightarrow> \<not> IsSpent e"
  shows "mem_ok (cache_entry log2 op x s)"
proof -
  have "(case ms_get (uc_cachedEntries s) op of None \<Rightarrow> 0 | Some e \<Rightarrow> live_mem e) = 0"
    using assms(3) by (auto simp: cache_set_def live_mem_def split: option.splits)
  moreover have "live_mem x = memoryUsage x" using assms(4) by (auto simp: live_mem_def memoryUsage_def split: option.splits)
  ultimately show ?thesis using assms(1,2) by (simp add: mem_ok_weight cache_entry_def ms_put_simps)
qed

lemma cache_entry_set:
  "ms_ok (uc_cachedEntries s) \<Longrightarrow> cache_set dops kops (cache_entry log2 op x s) b =
   (cache_set dops kops s b)(op := case x of Some e \<Rightarrow> if IsSpent e then None else Some (spent_of e) | None \<Rightarrow> None)"
  by (auto simp: cache_set_def cache_entry_get split: option.splits)

subsection \<open>Fetching\<close>

lemma fetch_missing_ok:
  "bucket_ok dops kops b \<Longrightarrow> list_all op_ok ops \<Longrightarrow>
   fetch_missing dops kops b ops = Inr (map (\<lambda>op. map_option loaded (stored_set dops kops b op)) ops)"
  by (induction ops) (simp_all add: bucket_ok_def)

text \<open>The cache after the missing entries of a list were put.\<close>

definition fetched ::
    "'d decimal_ops \<Rightarrow> 'k pubkey_ops \<Rightarrow> (int \<Rightarrow> byte) \<Rightarrow> bucket \<Rightarrow> OutPoint list \<Rightarrow> 'd utxoCache \<Rightarrow> 'd utxoCache" where
  "fetched dops kops log2 b ops s =
     fold (\<lambda>op. cache_entry log2 op (map_option loaded (stored_set dops kops b op))) ops s"

lemma entry_ok_loaded: "entry_ok dops (map_option loaded st) st"
  by (cases st) (simp_all add: entry_ok_def)

lemma fetched_steps:
  assumes "cache_inv dops kops s b" "list_all op_ok ops"
  shows "cache_inv dops kops (fetched dops kops log2 b ops s) b \<and>
    ms_get (uc_cachedEntries (fetched dops kops log2 b ops s)) =
      (\<lambda>op. if op \<in> set ops then Some (map_option loaded (stored_set dops kops b op)) else ms_get (uc_cachedEntries s) op) \<and>
    (distinct ops \<and> list_all (\<lambda>op. ms_get (uc_cachedEntries s) op = None) ops \<and> mem_ok s \<longrightarrow>
      mem_ok (fetched dops kops log2 b ops s))"
  using assms
proof (induction ops arbitrary: s)
  case Nil
  then show ?case by (simp add: fetched_def)
next
  case (Cons o1 ops)
  define t where "t = cache_entry log2 o1 (map_option loaded (stored_set dops kops b o1)) s"
  have f: "fetched dops kops log2 b (o1 # ops) s = fetched dops kops log2 b ops t" by (simp add: fetched_def t_def)
  have o1: "op_ok o1" and ms: "ms_ok (uc_cachedEntries s)" using Cons.prems by (simp_all add: cache_inv_def)
  have t: "cache_inv dops kops t b"
    unfolding t_def using Cons.prems(1) o1 entry_ok_loaded by (rule cache_entry_inv)
  have get: "ms_get (uc_cachedEntries t) = (ms_get (uc_cachedEntries s))(o1 \<mapsto> map_option loaded (stored_set dops kops b o1))"
    using ms by (simp add: t_def cache_entry_get)
  have mem: "mem_ok t" if "ms_get (uc_cachedEntries s) o1 = None" "mem_ok s"
    unfolding t_def using that ms by (intro cache_entry_mem) auto
  show ?case
    unfolding f using Cons.IH [OF t] Cons.prems(2) get mem by (auto simp: fun_eq_iff list_all_iff)
qed

lemma fetched_correct:
  assumes "cache_inv dops kops s b" "list_all op_ok ops"
  shows "cache_inv dops kops (fetched dops kops log2 b ops s) b"
    and "ms_get (uc_cachedEntries (fetched dops kops log2 b ops s)) op =
      (if op \<in> set ops then Some (map_option loaded (stored_set dops kops b op)) else ms_get (uc_cachedEntries s) op)"
    and "distinct ops \<Longrightarrow> list_all (\<lambda>op. ms_get (uc_cachedEntries s) op = None) ops \<Longrightarrow> mem_ok s \<Longrightarrow>
      mem_ok (fetched dops kops log2 b ops s)"
  using fetched_steps [OF assms, of log2] by simp_all

lemma fetched_set:
  assumes "cache_inv dops kops s b" "list_all op_ok ops" "list_all (\<lambda>op. ms_get (uc_cachedEntries s) op = None) ops"
  shows "cache_set dops kops (fetched dops kops log2 b ops s) b = cache_set dops kops s b"
proof
  fix op show "cache_set dops kops (fetched dops kops log2 b ops s) b op = cache_set dops kops s b op"
    using assms(3) fetched_correct(2) [OF assms(1,2)]
    by (auto simp: cache_set_def list_all_iff split: option.splits)
qed

lemma fetched_fields:
  "uc_lastFlushHash (fetched dops kops log2 b ops s) = uc_lastFlushHash s"
  "uc_lastFlushTime (fetched dops kops log2 b ops s) = uc_lastFlushTime s"
  "uc_maxTotalMemoryUsage (fetched dops kops log2 b ops s) = uc_maxTotalMemoryUsage s"
  unfolding fetched_def by (induction ops arbitrary: s) (simp_all add: cache_entry_def)

lemma fill_in_fetched:
  assumes "cache_inv dops kops s b" "list_all op_ok ops"
    and t: "t = fetched dops kops log2 b (missing_ops s ops) s"
  shows "fill_in s ops (map (\<lambda>op. map_option loaded (stored_set dops kops b op)) (missing_ops s ops)) =
    map (\<lambda>op. the (ms_get (uc_cachedEntries t) op)) ops"
proof -
  have ok: "list_all op_ok (missing_ops s ops)" using assms(2) by (auto simp: missing_ops_def list_all_iff)
  have get: "ms_get (uc_cachedEntries t) op = (case ms_get (uc_cachedEntries s) op of
      Some x \<Rightarrow> Some x | None \<Rightarrow> Some (map_option loaded (stored_set dops kops b op)))" if "op \<in> set ops" for op
    using fetched_correct(2) [OF assms(1) ok] that by (auto simp: t missing_ops_def split: option.splits)
  have "\<forall>op\<in>set xs. ms_get (uc_cachedEntries t) op = (case ms_get (uc_cachedEntries s) op of
      Some x \<Rightarrow> Some x | None \<Rightarrow> Some (map_option loaded (stored_set dops kops b op))) \<Longrightarrow>
    fill_in s xs (map (\<lambda>op. map_option loaded (stored_set dops kops b op)) (missing_ops s xs)) =
    map (\<lambda>op. the (ms_get (uc_cachedEntries t) op)) xs" for xs
    by (induction xs) (auto simp: missing_ops_def split: option.splits)
  with get show ?thesis by blast
qed

lemma fetchEntries_correct:
  assumes "cache_inv dops kops s b" "bucket_ok dops kops b" "list_all op_ok ops"
  obtains t where "fetchEntries dops kops log2 b ops s = Inr (map (\<lambda>op. the (ms_get (uc_cachedEntries t) op)) ops, t)"
    "cache_inv dops kops t b" "cache_set dops kops t b = cache_set dops kops s b"
    "\<And>op. op \<in> set ops \<Longrightarrow> ms_get (uc_cachedEntries t) op \<noteq> None"
    "mem_ok s \<Longrightarrow> distinct ops \<Longrightarrow> mem_ok t" "uc_lastFlushHash t = uc_lastFlushHash s"
proof -
  let ?m = "missing_ops s ops"
  define t where "t = fetched dops kops log2 b ?m s"
  have ok: "list_all op_ok ?m" and none: "list_all (\<lambda>op. ms_get (uc_cachedEntries s) op = None) ?m"
    and d: "distinct ops \<Longrightarrow> distinct ?m"
    using assms(3) by (auto simp: missing_ops_def list_all_iff)
  have put: "fold (\<lambda>(op, entry). cache_entry log2 op entry)
      (zip xs (map (\<lambda>op. map_option loaded (stored_set dops kops b op)) xs)) u = fetched dops kops log2 b xs u" for xs u
    by (induction xs arbitrary: u) (simp_all add: fetched_def)
  have "fetchEntries dops kops log2 b ops s = Inr (map (\<lambda>op. the (ms_get (uc_cachedEntries t) op)) ops, t)"
    using fill_in_fetched [OF assms(1,3) t_def] fetch_missing_ok [OF assms(2) ok] put [of ?m s]
    by (cases "?m = []") (simp_all add: fetchEntries_def Let_def t_def fetched_def)
  moreover have "ms_get (uc_cachedEntries t) op \<noteq> None" if "op \<in> set ops" for op
    using fetched_correct(2) [OF assms(1) ok] that by (auto simp: t_def missing_ops_def)
  ultimately show thesis
    using that fetched_correct(1,3) [OF assms(1) ok] fetched_set [OF assms(1) ok none] none d
    by (metis t_def fetched_fields(1))
qed

subsection \<open>Spending and adding\<close>

lemma Spend_modified [simp]: "isModified (Spend e) \<longleftrightarrow> isModified e \<or> \<not> IsSpent e"
  by (auto simp: Spend_def flag_defs bit_or_iff bit_flags)

lemma addTxIn_correct:
  assumes "cache_inv dops kops s b" "bucket_ok dops kops b" "op_ok (PreviousOutPoint i)"
    and "cache_set dops kops s b (PreviousOutPoint i) = Some c"
  obtains t where "cache_addTxIn dops kops log2 b i (s, stxos) = Inr (t, map_option (\<lambda>l. l @ [c]) stxos)"
    "cache_inv dops kops t b" "cache_set dops kops t b = (cache_set dops kops s b)(PreviousOutPoint i := None)"
    "mem_ok s \<Longrightarrow> mem_ok t" "uc_lastFlushHash t = uc_lastFlushHash s"
proof -
  let ?op = "PreviousOutPoint i"
  obtain u where u: "fetchEntries dops kops log2 b [?op] s = Inr (map (\<lambda>op. the (ms_get (uc_cachedEntries u) op)) [?op], u)"
    "cache_inv dops kops u b" "cache_set dops kops u b = cache_set dops kops s b"
    "ms_get (uc_cachedEntries u) ?op \<noteq> None" "mem_ok s \<Longrightarrow> mem_ok u" "uc_lastFlushHash u = uc_lastFlushHash s"
    using fetchEntries_correct [OF assms(1,2), of "[?op]" log2] assms(3) by auto
  have "cache_set dops kops u b ?op = Some c" by (simp add: u(3) assms(4))
  then obtain e where e: "ms_get (uc_cachedEntries u) ?op = Some (Some e)" "\<not> IsSpent e" "c = spent_of e"
    using u(4) by (auto simp: cache_set_def split: option.splits if_splits)
  define k where "k = (if isFresh (Spend e) then ms_delete ?op (ms_mutate ?op Spend (uc_cachedEntries u))
    else ms_mutate ?op Spend (uc_cachedEntries u))"
  have ms: "ms_ok (uc_cachedEntries u)" using u(2) by (simp add: cache_inv_def)
  note k = slice.change_or_delete [OF ms e(1), where c = "isFresh (Spend e)" and f = Spend, folded k_def]
  define t where "t = u\<lparr>uc_cachedEntries := k, uc_totalEntryMemory := uc_totalEntryMemory u - memoryUsage (Some e)\<rparr>"
  have st: "isFresh e \<Longrightarrow> stored_set dops kops b ?op = None"
    using u(2) e(1) by (force simp: cache_inv_def entry_ok_def)
  show thesis
  proof (rule that)
    show "cache_addTxIn dops kops log2 b i (s, stxos) = Inr (t, map_option (\<lambda>l. l @ [c]) stxos)"
      using u(1) e by (simp add: cache_addTxIn_def t_def k_def)
    show "cache_inv dops kops t b"
      using u(2) e(2) k(1) k(2) assms(3) by (auto simp: cache_inv_def t_def entry_ok_def split: if_split_asm)
    show "cache_set dops kops t b = (cache_set dops kops s b)(?op := None)"
      using k(2) st by (auto simp: cache_set_def t_def u(3) [symmetric] fun_eq_iff)
    show "mem_ok t" if "mem_ok s"
      using u(5) [OF that] k(3) [of live_mem] e(2) by (simp add: mem_ok_weight t_def live_mem_def)
    show "uc_lastFlushHash t = uc_lastFlushHash s" by (simp add: t_def u(6))
  qed
qed

lemma add_ins_correct:
  assumes "cache_inv dops kops s b" "bucket_ok dops kops b"
    and "distinct (map PreviousOutPoint ins)" "list_all (\<lambda>i. op_ok (PreviousOutPoint i)) ins"
    and "\<forall>i \<in> set ins. cache_set dops kops s b (PreviousOutPoint i) \<noteq> None"
  shows "\<exists>t. cache_add_ins dops kops log2 b ins (s, stxos) =
      Inr (t, map_option (\<lambda>l. l @ map (\<lambda>i. the (cache_set dops kops s b (PreviousOutPoint i))) ins) stxos) \<and>
    cache_inv dops kops t b \<and>
    cache_set dops kops t b = (\<lambda>op. if op \<in> PreviousOutPoint ` set ins then None else cache_set dops kops s b op) \<and>
    (mem_ok s \<longrightarrow> mem_ok t) \<and> uc_lastFlushHash t = uc_lastFlushHash s"
  using assms
proof (induction ins arbitrary: s stxos)
  case Nil
  then show ?case by (cases stxos) simp_all
next
  case (Cons i ins)
  let ?op = "PreviousOutPoint i"
  obtain c where c: "cache_set dops kops s b ?op = Some c" using Cons.prems(5) by auto
  obtain u where u: "cache_addTxIn dops kops log2 b i (s, stxos) = Inr (u, map_option (\<lambda>l. l @ [c]) stxos)"
    "cache_inv dops kops u b" "cache_set dops kops u b = (cache_set dops kops s b)(?op := None)"
    "mem_ok s \<Longrightarrow> mem_ok u" "uc_lastFlushHash u = uc_lastFlushHash s"
    using addTxIn_correct [OF Cons.prems(1,2) _ c, of log2 stxos] Cons.prems(4) by auto
  have other: "PreviousOutPoint j \<noteq> ?op" if "j \<in> set ins" for j
    using Cons.prems(3) that by (auto simp: image_iff)
  have m: "map (\<lambda>i. the (cache_set dops kops u b (PreviousOutPoint i))) ins =
      map (\<lambda>i. the (cache_set dops kops s b (PreviousOutPoint i))) ins"
    using other by (simp add: u(3))
  have rest: "distinct (map PreviousOutPoint ins)" "list_all (\<lambda>i. op_ok (PreviousOutPoint i)) ins"
      "\<forall>i \<in> set ins. cache_set dops kops u b (PreviousOutPoint i) \<noteq> None"
    using Cons.prems(3-5) other by (simp_all add: u(3))
  obtain t where "cache_add_ins dops kops log2 b ins (u, map_option (\<lambda>l. l @ [c]) stxos) =
      Inr (t, map_option (\<lambda>l. l @ map (\<lambda>i. the (cache_set dops kops s b (PreviousOutPoint i))) ins) (map_option (\<lambda>l. l @ [c]) stxos))"
    "cache_inv dops kops t b"
    "cache_set dops kops t b = (\<lambda>op. if op \<in> PreviousOutPoint ` set ins then None else cache_set dops kops u b op)"
    "mem_ok u \<longrightarrow> mem_ok t" "uc_lastFlushHash t = uc_lastFlushHash u"
    using Cons.IH [OF u(2) Cons.prems(2) rest, of "map_option (\<lambda>l. l @ [c]) stxos"] unfolding m by blast
  then show ?case
    using u c by (intro exI [of _ t]) (auto simp: option.map_comp comp_def fun_eq_iff)
qed

text \<open>The outputs a block adds must be new to the database, fit it and have keys of full length.\<close>

definition outs_storable :: "'d decimal_ops \<Rightarrow> 'k pubkey_ops \<Rightarrow> bucket \<Rightarrow> bool \<Rightarrow> i32 \<Rightarrow> (OutPoint \<times> 'd TxOut) list \<Rightarrow> bool" where
  "outs_storable dops kops b cb h outs \<longleftrightarrow> list_all (\<lambda>(op, out). op_ok op \<and>
     stored_set dops kops b op = None \<and> coin_storable dops (coin_of out cb h)) (spendable outs)"

lemma add_outs_correct:
  assumes "cache_inv dops kops s b" "outs_storable dops kops b cb h outs"
  shows "cache_inv dops kops (fold (\<lambda>(op, out). cache_addTxOut log2 op out cb h) outs s) b \<and>
    cache_set dops kops (fold (\<lambda>(op, out). cache_addTxOut log2 op out cb h) outs s) b = add_coins cb h outs (cache_set dops kops s b) \<and>
    uc_lastFlushHash (fold (\<lambda>(op, out). cache_addTxOut log2 op out cb h) outs s) = uc_lastFlushHash s \<and>
    (mem_ok s \<and> distinct (map fst (spendable outs)) \<and>
      list_all (\<lambda>(op, out). cache_set dops kops s b op = None) (spendable outs) \<longrightarrow>
      mem_ok (fold (\<lambda>(op, out). cache_addTxOut log2 op out cb h) outs s))"
  using assms
proof (induction outs arbitrary: s)
  case Nil
  then show ?case by (simp add: add_coins_def spendable_def)
next
  case (Cons x outs)
  obtain op out where x: "x = (op, out)" by force
  show ?case
  proof (cases "IsUnspendable (PkScript out)")
    case True
    then show ?thesis using Cons by (simp add: x cache_addTxOut_def outs_storable_def add_coins_def spendable_def)
  next
    case False
    let ?e = "Some (new_output_entry out cb h)"
    define t where "t = cache_entry log2 op ?e s"
    have sp: "spendable (x # outs) = (op, out) # spendable outs" using False by (simp add: spendable_def x)
    have fold: "fold (\<lambda>(op, out). cache_addTxOut log2 op out cb h) (x # outs) s =
        fold (\<lambda>(op, out). cache_addTxOut log2 op out cb h) outs t"
      using False by (simp add: x cache_addTxOut_def t_def)
    have ok: "entry_ok dops ?e (stored_set dops kops b op)" "op_ok op" "outs_storable dops kops b cb h outs"
      using Cons.prems(2) by (simp_all add: outs_storable_def sp entry_ok_def)
    have t: "cache_inv dops kops t b" "cache_set dops kops t b = (cache_set dops kops s b)(op \<mapsto> coin_of out cb h)"
        "uc_lastFlushHash t = uc_lastFlushHash s"
      using cache_entry_inv [OF Cons.prems(1) ok(2,1)] Cons.prems(1)
      by (simp_all add: t_def cache_entry_set cache_inv_def) (simp add: cache_entry_def)
    have mem: "mem_ok s \<Longrightarrow> cache_set dops kops s b op = None \<Longrightarrow> mem_ok t"
      unfolding t_def using Cons.prems(1) by (intro cache_entry_mem) (auto simp: cache_inv_def)
    have none: "list_all (\<lambda>(op, out). cache_set dops kops t b op = None) (spendable outs)"
      if "distinct (map fst (spendable (x # outs)))" "list_all (\<lambda>(op, out). cache_set dops kops s b op = None) (spendable (x # outs))"
      using that by (force simp: sp t(2) list_all_iff image_iff)
    have coins: "add_coins cb h (x # outs) (cache_set dops kops s b) = add_coins cb h outs (cache_set dops kops t b)"
      by (simp only: add_coins_def sp t(2) fold_simps comp_apply prod.case)
    show ?thesis
      unfolding fold coins using Cons.IH [OF t(1) ok(3)] t(3) mem none by (auto simp: sp)
  qed
qed

subsection \<open>Connecting a block\<close>

definition tx_storable ::
    "'d decimal_ops \<Rightarrow> 'k pubkey_ops \<Rightarrow> ('d MsgTx \<Rightarrow> bytes) \<Rightarrow> bucket \<Rightarrow> i32 \<Rightarrow> 'd MsgTx \<Rightarrow> bool" where
  "tx_storable dops kops txid b h tx \<longleftrightarrow> list_all op_ok (tx_ins tx) \<and> length (TxOuts tx) \<le> 2 ^ 32 \<and>
     outs_storable dops kops b (IsCoinBaseTx tx) h (tx_outputs txid tx)"

lemma distinct_tx_outputs:
  assumes "length (TxOuts tx) \<le> 2 ^ 32"
  shows "distinct (map fst (spendable (tx_outputs txid tx)))"
proof -
  have "map fst (tx_outputs txid tx) = map (\<lambda>i. \<lparr>Hash = txid tx, Index = word_of_nat i\<rparr>) [0..<length (TxOuts tx)]"
    by (rule nth_equalityI) (simp_all add: tx_outputs_def nth_enumerate_eq)
  moreover have "inj_on (\<lambda>i. \<lparr>Hash = txid tx, Index = word_of_nat i\<rparr>) {0..<length (TxOuts tx)}"
    using assms by (intro inj_onI) (simp add: word_of_nat_eq_iff take_bit_nat_eq_self)
  ultimately have "distinct (map fst (tx_outputs txid tx))" by (simp add: distinct_map)
  then show ?thesis by (simp add: spendable_def distinct_map_filter)
qed

text \<open>What the anchor transactions of a block add to the records collected.\<close>

definition anchored :: "('d MsgTx \<Rightarrow> 'a) \<Rightarrow> 'd MsgTx list \<Rightarrow> 'a list option \<Rightarrow> 'a list option" where
  "anchored info txs infos = map_option (\<lambda>l. l @ map info (filter IsAnchorTx txs)) infos"

lemma addTxIns_correct:
  assumes "cache_inv dops kops s b" "bucket_ok dops kops b" "list_all op_ok (tx_ins tx)"
    and "tx_fits txid (cache_set dops kops s b) tx" "IsAnchorTx tx \<longrightarrow> anchor tx = Inr (info tx)"
  obtains t where "cache_addTxIns dops kops log2 anchor b tx (s, stxos, infos) =
      Inr (t, map_option (\<lambda>l. l @ tx_undo (cache_set dops kops s b) tx) stxos, anchored info [tx] infos)"
    "cache_inv dops kops t b" "uc_lastFlushHash t = uc_lastFlushHash s" "mem_ok s \<Longrightarrow> mem_ok t"
    "cache_set dops kops t b = (\<lambda>op. if op \<in> set (tx_ins tx) then None else cache_set dops kops s b op)"
proof (cases "transactionConsumesSpendJournal tx (IsCoinBaseTx tx)")
  case True
  then have ins: "tx_ins tx = map PreviousOutPoint (TxIns tx)" and na: "\<not> IsAnchorTx tx"
    by (simp_all add: tx_ins_def transactionConsumesSpendJournal_def)
  have "distinct (map PreviousOutPoint (TxIns tx))" "list_all (\<lambda>i. op_ok (PreviousOutPoint i)) (TxIns tx)"
    "\<forall>i \<in> set (TxIns tx). cache_set dops kops s b (PreviousOutPoint i) \<noteq> None"
    using assms(3,4) by (simp_all add: tx_fits_def ins list_all_iff)
  from add_ins_correct [OF assms(1,2) this, of log2 stxos] obtain t where
    "cache_add_ins dops kops log2 b (TxIns tx) (s, stxos) =
      Inr (t, map_option (\<lambda>l. l @ map (\<lambda>i. the (cache_set dops kops s b (PreviousOutPoint i))) (TxIns tx)) stxos)"
    "cache_inv dops kops t b" "mem_ok s \<longrightarrow> mem_ok t" "uc_lastFlushHash t = uc_lastFlushHash s"
    "cache_set dops kops t b = (\<lambda>op. if op \<in> PreviousOutPoint ` set (TxIns tx) then None else cache_set dops kops s b op)"
    by blast
  then show thesis
    using True na by (intro that [of t])
      (simp_all add: cache_addTxIns_def tx_undo_def ins comp_def anchored_def option.map_ident)
next
  case False
  then have ins: "tx_ins tx = []" by (simp add: tx_ins_def)
  show thesis
    using False assms
    by (intro that [of s]) (auto simp: cache_addTxIns_def tx_undo_def ins anchored_def option.map_ident split: option.splits)
qed

lemma connectTransaction_correct:
  assumes "cache_inv dops kops s b" "bucket_ok dops kops b" "tx_storable dops kops txid b h tx"
    and "tx_fits txid (cache_set dops kops s b) tx" "IsAnchorTx tx \<longrightarrow> anchor tx = Inr (info tx)"
  obtains t where "cache_connectTransaction dops kops txid log2 anchor b h tx (s, stxos, infos) =
      Inr (t, map_option (\<lambda>l. l @ tx_undo (cache_set dops kops s b) tx) stxos, anchored info [tx] infos)"
    "cache_inv dops kops t b" "uc_lastFlushHash t = uc_lastFlushHash s" "mem_ok s \<Longrightarrow> mem_ok t"
    "cache_set dops kops t b = tx_apply txid h (cache_set dops kops s b) tx"
proof -
  have st: "list_all op_ok (tx_ins tx)" "length (TxOuts tx) \<le> 2 ^ 32"
    "outs_storable dops kops b (IsCoinBaseTx tx) h (tx_outputs txid tx)"
    using assms(3) by (simp_all add: tx_storable_def)
  obtain u where u: "cache_addTxIns dops kops log2 anchor b tx (s, stxos, infos) =
      Inr (u, map_option (\<lambda>l. l @ tx_undo (cache_set dops kops s b) tx) stxos, anchored info [tx] infos)"
    "cache_inv dops kops u b" "uc_lastFlushHash u = uc_lastFlushHash s" "mem_ok s \<Longrightarrow> mem_ok u"
    "cache_set dops kops u b = (\<lambda>op. if op \<in> set (tx_ins tx) then None else cache_set dops kops s b op)"
    using addTxIns_correct [OF assms(1,2) st(1) assms(4), of anchor info log2 stxos infos] assms(5) by blast
  define t where "t = cache_addTxOuts txid log2 tx h u"
  have none: "list_all (\<lambda>(op, out). cache_set dops kops u b op = None) (spendable (tx_outputs txid tx))"
    using assms(4) by (auto simp: tx_fits_def list_all_iff u(5))
  have t: "cache_inv dops kops t b" "uc_lastFlushHash t = uc_lastFlushHash u" "mem_ok u \<Longrightarrow> mem_ok t"
    "cache_set dops kops t b = add_coins (IsCoinBaseTx tx) h (tx_outputs txid tx) (cache_set dops kops u b)"
    using add_outs_correct [OF u(2) st(3), of log2] none distinct_tx_outputs [OF st(2)]
    by (simp_all add: t_def cache_addTxOuts_def)
  show thesis
  proof (rule that)
    show "cache_connectTransaction dops kops txid log2 anchor b h tx (s, stxos, infos) =
      Inr (t, map_option (\<lambda>l. l @ tx_undo (cache_set dops kops s b) tx) stxos, anchored info [tx] infos)"
      by (simp add: cache_connectTransaction_def u(1) t_def)
    show "cache_set dops kops t b = tx_apply txid h (cache_set dops kops s b) tx"
      by (simp only: t(4) u(5) tx_apply_def)
  qed (use t u in simp_all)
qed

lemma connectTransactions_correct:
  assumes "cache_inv dops kops s b" "bucket_ok dops kops b" "list_all (tx_storable dops kops txid b h) txs"
    and "txs_fit txid h (cache_set dops kops s b) txs" "list_all (\<lambda>tx. IsAnchorTx tx \<longrightarrow> anchor tx = Inr (info tx)) txs"
  shows "\<exists>t. cache_connectTransactions dops kops txid log2 anchor b h txs (s, stxos, infos) =
      Inr (t, map_option (\<lambda>l. l @ txs_undo txid h (cache_set dops kops s b) txs) stxos, anchored info txs infos) \<and>
    cache_inv dops kops t b \<and> uc_lastFlushHash t = uc_lastFlushHash s \<and> (mem_ok s \<longrightarrow> mem_ok t) \<and>
    cache_set dops kops t b = foldl (tx_apply txid h) (cache_set dops kops s b) txs"
  using assms
proof (induction txs arbitrary: s stxos infos)
  case Nil
  then show ?case by (simp add: option.map_ident anchored_def)
next
  case (Cons tx txs)
  obtain u where u: "cache_connectTransaction dops kops txid log2 anchor b h tx (s, stxos, infos) =
      Inr (u, map_option (\<lambda>l. l @ tx_undo (cache_set dops kops s b) tx) stxos, anchored info [tx] infos)"
    "cache_inv dops kops u b" "uc_lastFlushHash u = uc_lastFlushHash s" "mem_ok s \<Longrightarrow> mem_ok u"
    "cache_set dops kops u b = tx_apply txid h (cache_set dops kops s b) tx"
    using connectTransaction_correct [OF Cons.prems(1,2), of txid h tx anchor info log2 stxos infos] Cons.prems(3-5) by auto
  let ?stxos = "map_option (\<lambda>l. l @ tx_undo (cache_set dops kops s b) tx) stxos"
  have "txs_fit txid h (cache_set dops kops u b) txs" using Cons.prems(4) by (simp add: u(5))
  from Cons.IH [OF u(2) Cons.prems(2) _ this, of ?stxos "anchored info [tx] infos"] Cons.prems(3,5) obtain t where
    "cache_connectTransactions dops kops txid log2 anchor b h txs (u, ?stxos, anchored info [tx] infos) =
      Inr (t, map_option (\<lambda>l. l @ txs_undo txid h (cache_set dops kops u b) txs) ?stxos, anchored info txs (anchored info [tx] infos))"
    "cache_inv dops kops t b" "uc_lastFlushHash t = uc_lastFlushHash u" "mem_ok u \<longrightarrow> mem_ok t"
    "cache_set dops kops t b = foldl (tx_apply txid h) (cache_set dops kops u b) txs"
    by auto
  then show ?case
    using u by (intro exI [of _ t]) (simp add: option.map_comp comp_def anchored_def)
qed

subsection \<open>Writing the cache\<close>

definition flushed :: "'d UtxoEntry option option \<Rightarrow> 'd SpentTxOut option \<Rightarrow> 'd SpentTxOut option" where
  "flushed x old = (case x of
     Some (Some e) \<Rightarrow> if IsSpent e then None else Some (spent_of e) | Some None \<Rightarrow> None | None \<Rightarrow> old)"

lemma write_entries_correct:
  assumes "distinct (map fst items)" "bucket_ok dops kops b" "pubkeys_recover kops"
    and "\<forall>(op, x) \<in> set items. op_ok op \<and> entry_ok dops x (stored_set dops kops b op)"
  shows "\<exists>b'. write_entries dops kops items b = Inr b' \<and> bucket_ok dops kops b' \<and>
    (\<forall>op. op_ok op \<longrightarrow> stored_set dops kops b' op = flushed (map_of items op) (stored_set dops kops b op))"
  using assms
proof (induction items arbitrary: b)
  case Nil
  then show ?case by (simp add: flushed_def)
next
  case (Cons i items)
  obtain op x where i: "i = (op, x)" by force
  have op: "op_ok op" "op \<notin> fst ` set items" and e: "entry_ok dops x (stored_set dops kops b op)"
    using Cons.prems by (auto simp: i)
  have "\<exists>c. bucket_ok dops kops c \<and> write_entries dops kops (i # items) b = write_entries dops kops items c \<and>
      (\<forall>op'. op_ok op' \<longrightarrow> stored_set dops kops c op' =
        (if op' = op then flushed (Some x) (stored_set dops kops b op) else stored_set dops kops b op'))"
  proof (cases "\<exists>e. x = Some e \<and> \<not> IsSpent e")
    case False
    then have "flushed (Some x) old = None" "(case x of None \<Rightarrow> True | Some e \<Rightarrow> IsSpent e)" for old
      by (auto simp: flushed_def split: option.splits)
    then show ?thesis
      using db_delete [OF op(1) Cons.prems(2)] by (intro exI [of _ "dbDeleteUtxoEntry op b"]) (simp add: i)
  next
    case True
    then obtain e' where e': "x = Some e'" "\<not> IsSpent e'" by blast
    show ?thesis
    proof (cases "isModified e'")
      case False
      then show ?thesis using e e' Cons.prems(2) by (intro exI [of _ b]) (simp add: i flushed_def entry_ok_def)
    next
      case True
      then have "coin_storable dops (spent_of e')" using e e' by (simp add: entry_ok_def)
      from db_put [OF op(1) Cons.prems(2) e'(2) this Cons.prems(3)] obtain c where
        "dbPutUtxoEntry dops kops op (Some e') b = Inr c" "bucket_ok dops kops c"
        "\<And>op'. op_ok op' \<Longrightarrow> stored_set dops kops c op' = ((stored_set dops kops b)(op \<mapsto> spent_of e')) op'"
        by metis
      then show ?thesis using e' True by (intro exI [of _ c]) (simp add: i flushed_def)
    qed
  qed
  then obtain c where c: "bucket_ok dops kops c" "write_entries dops kops (i # items) b = write_entries dops kops items c"
    and sc: "\<And>op'. op_ok op' \<Longrightarrow> stored_set dops kops c op' =
      (if op' = op then flushed (Some x) (stored_set dops kops b op) else stored_set dops kops b op')"
    by blast
  have "\<forall>(op, x) \<in> set items. op_ok op \<and> entry_ok dops x (stored_set dops kops c op)"
    using Cons.prems(4) op(2) by (force simp: sc)
  then obtain b' where b': "write_entries dops kops items c = Inr b'" "bucket_ok dops kops b'"
    "\<And>op. op_ok op \<Longrightarrow> stored_set dops kops b' op = flushed (map_of items op) (stored_set dops kops c op)"
    using Cons.IH [of c] c(1) Cons.prems(1,3) by (auto simp: i)
  have "map_of items op = None" using op(2) by (simp add: map_of_eq_None_iff)
  then have "stored_set dops kops b' op' = flushed (map_of (i # items) op') (stored_set dops kops b op')"
    if "op_ok op'" for op'
    using b'(3) [OF that] sc [OF that] by (cases "op' = op") (simp_all add: i flushed_def)
  then show ?case using b' c(2) by auto
qed

lemma writeCache_correct:
  assumes "cache_inv dops kops s b" "bucket_ok dops kops b" "pubkeys_recover kops"
  obtains t b' where "writeCache dops kops now hash (s, b) = Inr (t, b', Some hash)"
    "bucket_ok dops kops b'" "cache_inv dops kops t b'" "mem_ok t" "uc_lastFlushHash t = hash"
    "ms_length (uc_cachedEntries t) = 0"
    "\<And>op. op_ok op \<Longrightarrow> stored_set dops kops b' op = cache_set dops kops s b op"
    "cache_set dops kops t b' = stored_set dops kops b'"
proof -
  let ?items = "concat (ms_maps (uc_cachedEntries s))"
  have ms: "ms_ok (uc_cachedEntries s)" and d: "distinct (map fst ?items)"
    using assms(1) by (simp_all add: cache_inv_def ms_ok_def)
  have "\<forall>(op, x) \<in> set ?items. op_ok op \<and> entry_ok dops x (stored_set dops kops b op)"
    using assms(1) map_of_is_SomeI [OF d] unfolding cache_inv_def ms_get_concat by blast
  from write_entries_correct [OF d assms(2,3) this] obtain b' where
    b': "write_entries dops kops ?items b = Inr b'" "bucket_ok dops kops b'"
    "\<And>op. op_ok op \<Longrightarrow> stored_set dops kops b' op = flushed (map_of ?items op) (stored_set dops kops b op)"
    by blast
  define t where "t = s\<lparr>uc_cachedEntries := deleteMaps ((uc_cachedEntries s)\<lparr>ms_maps := map (\<lambda>_. []) (ms_maps (uc_cachedEntries s))\<rparr>),
    uc_totalEntryMemory := 0, uc_lastFlushHash := hash, uc_lastFlushTime := now\<rparr>"
  have maps: "ms_maps (uc_cachedEntries t) = [[]]"
    using ms by (cases "ms_maps (uc_cachedEntries s)") (simp_all add: t_def deleteMaps_def ms_ok_def)
  then have get: "ms_get (uc_cachedEntries t) = Map.empty" by (simp add: ms_get_concat)
  show thesis
  proof (rule that [of t b'])
    show "writeCache dops kops now hash (s, b) = Inr (t, b', Some hash)" by (simp add: writeCache_def b'(1) t_def Let_def)
    show "cache_inv dops kops t b'"
      using maps by (simp add: cache_inv_def get ms_ok_def) (simp add: t_def deleteMaps_def)
    show "mem_ok t" by (simp add: mem_ok_def get) (simp add: t_def)
    show "uc_lastFlushHash t = hash" by (simp add: t_def)
    show "ms_length (uc_cachedEntries t) = 0" by (simp add: ms_length_def maps)
    show "stored_set dops kops b' op = cache_set dops kops s b op" if "op_ok op" for op
      using b'(3) [OF that] by (simp add: cache_set_def flushed_def ms_get_concat split: option.splits)
    show "cache_set dops kops t b' = stored_set dops kops b'" by (simp add: fun_eq_iff cache_set_def get)
  qed (rule b'(2))
qed

subsection \<open>Views filled from the cache\<close>

lemma unspent_new [simp]: "unspent NewUtxoViewpoint = (\<lambda>_. None)"
  by (simp add: fun_eq_iff unspent_def LookupEntry_def NewUtxoViewpoint_def)

lemma unspent_filled:
  "unspent (fold (\<lambda>(op, entry) view. view\<lparr>vw_entries := (vw_entries view)(op \<mapsto> entry)\<rparr>) (zip ops (map f ops)) v) op =
   (if op \<in> set ops then (case f op of Some e \<Rightarrow> if IsSpent e then None else Some (spent_of e) | None \<Rightarrow> None)
    else unspent v op)"
  by (induction ops arbitrary: v) (auto simp: unspent_def LookupEntry_def)

lemma fetchUtxosFromCache_correct:
  assumes "cache_inv dops kops s b" "bucket_ok dops kops b" "list_all op_ok ops"
  obtains v' t where "fetchUtxosFromCache dops kops log2 b ops (v, s) = Inr (v', t)"
    "cache_inv dops kops t b" "cache_set dops kops t b = cache_set dops kops s b"
    "unspent v' = (\<lambda>op. if op \<in> set ops then cache_set dops kops s b op else unspent v op)"
proof (cases "ops = []")
  case True
  then show thesis using assms by (intro that [of v s]) (simp_all add: fetchUtxosFromCache_def)
next
  case False
  obtain t where t: "fetchEntries dops kops log2 b ops s = Inr (map (\<lambda>op. the (ms_get (uc_cachedEntries t) op)) ops, t)"
    "cache_inv dops kops t b" "cache_set dops kops t b = cache_set dops kops s b"
    "\<And>op. op \<in> set ops \<Longrightarrow> ms_get (uc_cachedEntries t) op \<noteq> None"
    using fetchEntries_correct [OF assms, of log2] by metis
  have "(case the (ms_get (uc_cachedEntries t) op) of Some e \<Rightarrow> if IsSpent e then None else Some (spent_of e) | None \<Rightarrow> None) =
      cache_set dops kops s b op" if "op \<in> set ops" for op
    using t(4) [OF that] by (auto simp: t(3) [symmetric] cache_set_def split: option.splits)
  then show thesis
    using False t by (intro that) (auto simp: fetchUtxosFromCache_def unspent_filled fun_eq_iff)
qed

text \<open>
  C18 (reading a transaction's outputs through the cache): on a consistent cache the view fetched
  for a transaction offers, at the outputs of the transaction and the outputs it spends, exactly
  the outputs of the UTXO set the cache stands for, and nothing else; fetching does not change
  that set.
\<close>

theorem fetch_utxo_view:
  assumes "cache_inv dops kops s b" "bucket_ok dops kops b"
    and "length (txid tx) = 32" "list_all op_ok (tx_ins tx)"
  shows "\<exists>v t. FetchUtxoView dops kops txid log2 b tx s = Inr (v, t) \<and> cache_inv dops kops t b \<and>
    cache_set dops kops t b = cache_set dops kops s b \<and>
    unspent v = (\<lambda>op. if op \<in> set (map fst (tx_outputs txid tx) @ tx_ins tx) then cache_set dops kops s b op else None)"
proof -
  let ?ops = "map fst (tx_outputs txid tx) @ tx_ins tx"
  have "list_all op_ok ?ops"
    using assms(3,4) by (auto simp: list_all_iff tx_outputs_def op_ok_def)
  from fetchUtxosFromCache_correct [OF assms(1,2) this, of log2 NewUtxoViewpoint] obtain v t where
    "fetchUtxosFromCache dops kops log2 b ?ops (NewUtxoViewpoint, s) = Inr (v, t)"
    "cache_inv dops kops t b" "cache_set dops kops t b = cache_set dops kops s b"
    "unspent v = (\<lambda>op. if op \<in> set ?ops then cache_set dops kops s b op else unspent NewUtxoViewpoint op)" .
  then show ?thesis
    by (intro exI [of _ v] exI [of _ t]) (simp add: FetchUtxoView_def tx_ins_def transactionConsumesSpendJournal_def Let_def cong: if_cong)
qed

subsection \<open>An example cache\<close>

definition ex_log2 :: "int \<Rightarrow> byte" where
  "ex_log2 n = 4"

definition ex_cache :: "bytes utxoCache" where
  "ex_cache = cache_entry ex_log2 (PreviousOutPoint (ex_in 9)) (Some (new_output_entry ex_out False 3))
     (newUtxoCache ex_log2 1000000)"

lemma new_cache:
  "cache_inv dops kops (newUtxoCache log2 m) b" "mem_ok (newUtxoCache log2 m)"
  "cache_set dops kops (newUtxoCache log2 m) b = stored_set dops kops b"
  by (simp_all add: newUtxoCache_def Let_def cache_inv_def ms_ok_def ms_get_concat mem_ok_def cache_set_def fun_eq_iff)

lemma stored_empty: "stored_set dops kops Map.empty = Map.empty"
  by (simp add: fun_eq_iff stored_set_def dbFetchUtxoEntry_def)

lemma ex_cache_inv: "cache_inv plain_amounts flat_keys ex_cache Map.empty"
  unfolding ex_cache_def
  by (rule cache_entry_inv) (simp_all add: new_cache op_ok_def ex_in_def entry_ok_def stored_empty ex_coin_storable)

lemma ex_cache_mem: "mem_ok ex_cache"
proof -
  have "ms_ok (uc_cachedEntries (newUtxoCache ex_log2 1000000 :: bytes utxoCache))"
    using new_cache(1) [of plain_amounts flat_keys ex_log2 1000000 Map.empty] by (simp add: cache_inv_def)
  then show ?thesis
    unfolding ex_cache_def
    by (rule cache_entry_mem [OF new_cache(2), where dops = plain_amounts and kops = flat_keys and b = Map.empty])
       (simp_all add: new_cache(3) stored_empty)
qed

lemma ex_cache_set: "cache_set plain_amounts flat_keys ex_cache Map.empty = unspent ex_view"
proof -
  have "ms_ok (uc_cachedEntries (newUtxoCache ex_log2 1000000 :: bytes utxoCache))"
    using new_cache(1) [of plain_amounts flat_keys ex_log2 1000000 Map.empty] by (simp add: cache_inv_def)
  then show ?thesis
    by (simp add: ex_cache_def cache_entry_set new_cache(3) stored_empty unspent_ex_view)
qed

theorem fetch_utxo_view_witness:
  "\<exists>v t. FetchUtxoView plain_amounts flat_keys ex_txid ex_log2 Map.empty (bl_Transactions ex_block ! 1) ex_cache = Inr (v, t) \<and>
    cache_inv plain_amounts flat_keys t Map.empty \<and>
    cache_set plain_amounts flat_keys t Map.empty = cache_set plain_amounts flat_keys ex_cache Map.empty \<and>
    unspent v = (\<lambda>op. if op \<in> set (map fst (tx_outputs ex_txid (bl_Transactions ex_block ! 1)) @ tx_ins (bl_Transactions ex_block ! 1))
      then cache_set plain_amounts flat_keys ex_cache Map.empty op else None)"
  by (rule fetch_utxo_view)
     (simp_all add: ex_cache_inv bucket_ok_empty ex_block_def ex_txid_def tx_ins_def op_ok_def ex_in_def)

subsection \<open>The cache refines the UTXO set\<close>

text \<open>
  C5 (connecting a block to the cache): on a consistent cache, a block whose transactions fit
  the UTXO set connects; the cache then stands for the set with every transaction applied in
  order, the spent outputs recorded are the undo data of the block, one record is collected for
  each anchor transaction, the consistency of cache and database is kept, and the memory
  accounted stays that of the unspent entries.
\<close>

theorem cache_connect_block:
  assumes "cache_inv dops kops s b" "mem_ok s" "bucket_ok dops kops b"
    and "list_all (tx_storable dops kops txid b h) txs" "txs_fit txid h (cache_set dops kops s b) txs"
    and "list_all (\<lambda>tx. IsAnchorTx tx \<longrightarrow> anchor tx = Inr (info tx)) txs"
  shows "\<exists>t. cache_connectTransactions dops kops txid log2 anchor b h txs (s, Some [], Some []) =
      Inr (t, Some (txs_undo txid h (cache_set dops kops s b) txs), Some (map info (filter IsAnchorTx txs))) \<and>
    cache_set dops kops t b = foldl (tx_apply txid h) (cache_set dops kops s b) txs \<and>
    cache_inv dops kops t b \<and> mem_ok t"
  using connectTransactions_correct [OF assms(1,3-6), where ?log2.0 = log2 and stxos = "Some []" and infos = "Some []"] assms(2)
  by (auto simp: anchored_def)

lemma ex_block_storable:
  "list_all (tx_storable plain_amounts flat_keys ex_txid Map.empty (bl_Height ex_block)) (bl_Transactions ex_block)"
  by (simp add: ex_block_def tx_storable_def tx_ins_def outs_storable_def ex_spendable tx_outputs_def ex_txid_def
      stored_empty op_ok_def ex_in_def ex_coin_storable zeroHash_def)

theorem cache_connect_block_witness:
  "\<exists>t. cache_connectTransactions plain_amounts flat_keys ex_txid ex_log2 (\<lambda>tx. Inr (ex_txid tx)) Map.empty
      (bl_Height ex_block) (bl_Transactions ex_block) (ex_cache, Some [], Some []) =
      Inr (t, Some (txs_undo ex_txid (bl_Height ex_block) (cache_set plain_amounts flat_keys ex_cache Map.empty) (bl_Transactions ex_block)),
        Some (map ex_txid (filter IsAnchorTx (bl_Transactions ex_block)))) \<and>
    cache_set plain_amounts flat_keys t Map.empty =
      foldl (tx_apply ex_txid (bl_Height ex_block)) (cache_set plain_amounts flat_keys ex_cache Map.empty) (bl_Transactions ex_block) \<and>
    cache_inv plain_amounts flat_keys t Map.empty \<and> mem_ok t"
  by (rule cache_connect_block)
     (simp_all add: ex_cache_inv ex_cache_mem bucket_ok_empty ex_block_storable ex_cache_set ex_block_fits list.pred_True)

text \<open>
  C11 (flushing): in every mode the flush succeeds and leaves a consistent cache that stands for
  the same UTXO set; when it reports no write nothing has changed; when it writes, and a required
  flush always does, the database stores that set, the cache is empty and the hash it was
  flushed at is recorded.
\<close>

theorem flush_keeps_set:
  assumes "cache_inv dops kops s b" "mem_ok s" "bucket_ok dops kops b" "pubkeys_recover kops"
  shows "\<exists>t b' written. cache_flush dops kops now mode hash (s, b) = Inr (t, b', written) \<and>
    cache_inv dops kops t b' \<and> mem_ok t \<and> bucket_ok dops kops b' \<and>
    (\<forall>op. op_ok op \<longrightarrow> cache_set dops kops t b' op = cache_set dops kops s b op) \<and>
    (if written = None then mode \<noteq> FlushRequired \<and> t = s \<and> b' = b
     else written = Some hash \<and> uc_lastFlushHash t = hash \<and> ms_length (uc_cachedEntries t) = 0 \<and>
       (\<forall>op. op_ok op \<longrightarrow> stored_set dops kops b' op = cache_set dops kops s b op))"
proof -
  obtain t b' where w: "writeCache dops kops now hash (s, b) = Inr (t, b', Some hash)"
    "bucket_ok dops kops b'" "cache_inv dops kops t b'" "mem_ok t" "uc_lastFlushHash t = hash"
    "ms_length (uc_cachedEntries t) = 0" "\<And>op. op_ok op \<Longrightarrow> stored_set dops kops b' op = cache_set dops kops s b op"
    "cache_set dops kops t b' = stored_set dops kops b'"
    using writeCache_correct [OF assms(1,3,4), of now hash] by metis
  have "cache_flush dops kops now mode hash (s, b) = Inr (s, b, None) \<and> mode \<noteq> FlushRequired \<or>
      cache_flush dops kops now mode hash (s, b) = writeCache dops kops now hash (s, b)"
    by (auto simp: cache_flush_def Let_def)
  then show ?thesis
  proof
    assume "cache_flush dops kops now mode hash (s, b) = Inr (s, b, None) \<and> mode \<noteq> FlushRequired"
    then show ?thesis using assms by (intro exI [of _ s] exI [of _ b] exI [of _ None]) simp
  next
    assume "cache_flush dops kops now mode hash (s, b) = writeCache dops kops now hash (s, b)"
    then show ?thesis using w by (intro exI [of _ t] exI [of _ b'] exI [of _ "Some hash"]) simp
  qed
qed

theorem flush_keeps_set_witness:
  "\<exists>t b' written. cache_flush plain_amounts flat_keys 7 FlushRequired (ex_txid (bl_Transactions ex_block ! 0)) (ex_cache, Map.empty) = Inr (t, b', written) \<and>
    cache_inv plain_amounts flat_keys t b' \<and> mem_ok t \<and> bucket_ok plain_amounts flat_keys b' \<and>
    (\<forall>op. op_ok op \<longrightarrow> cache_set plain_amounts flat_keys t b' op = cache_set plain_amounts flat_keys ex_cache Map.empty op) \<and>
    (if written = None then FlushRequired \<noteq> FlushRequired \<and> t = ex_cache \<and> b' = Map.empty
     else written = Some (ex_txid (bl_Transactions ex_block ! 0)) \<and> uc_lastFlushHash t = ex_txid (bl_Transactions ex_block ! 0) \<and>
       ms_length (uc_cachedEntries t) = 0 \<and>
       (\<forall>op. op_ok op \<longrightarrow> stored_set plain_amounts flat_keys b' op = cache_set plain_amounts flat_keys ex_cache Map.empty op))"
  by (rule flush_keeps_set) (simp_all add: ex_cache_inv ex_cache_mem bucket_ok_empty flat_keys_recover)

subsection \<open>What the cache does not guard against\<close>

lemma fetch_cached:
  "ms_get (uc_cachedEntries s) op = Some x \<Longrightarrow> fetchEntries dops kops log2 b [op] s = Inr ([x], s)"
  by (simp add: fetchEntries_def missing_ops_def)

text \<open>
  A spent entry that waits for the next flush is spent again without an error, and its memory
  is subtracted again: only nil entries count as missing.
\<close>

lemma tombstone_spent_again:
  assumes "ms_get (uc_cachedEntries s) (PreviousOutPoint i) = Some (Some e)" "IsSpent e"
  shows "\<exists>t. cache_addTxIn dops kops log2 b i (s, stxos) = Inr (t, map_option (\<lambda>l. l @ [spent_of e]) stxos) \<and>
    uc_totalEntryMemory t = uc_totalEntryMemory s - memoryUsage (Some e)"
  using assms by (simp add: cache_addTxIn_def fetch_cached Let_def)

text \<open>
  A new output is marked fresh even where the database still stores an output for the same
  outpoint; spending it then removes the entry, and the stored output is unspent again.
\<close>

lemma fresh_output_unhides_stored:
  assumes "ms_ok (uc_cachedEntries s)" "\<not> IsUnspendable (PkScript out)"
  shows "\<exists>t. cache_addTxIn dops kops log2 b i (cache_addTxOut log2 (PreviousOutPoint i) out cb h s, None) = Inr (t, None) \<and>
    cache_set dops kops t b (PreviousOutPoint i) = stored_set dops kops b (PreviousOutPoint i)"
proof -
  let ?op = "PreviousOutPoint i"
  define u where "u = cache_entry log2 ?op (Some (new_output_entry out cb h)) s"
  have u: "ms_ok (uc_cachedEntries u)" "ms_get (uc_cachedEntries u) ?op = Some (Some (new_output_entry out cb h))"
    using assms(1) by (simp_all add: u_def cache_entry_get) (simp add: cache_entry_def ms_put_simps)
  have "ms_get (ms_delete ?op (ms_mutate ?op Spend (uc_cachedEntries u))) ?op = None"
    using u(1) by (simp add: slice.lookup_delete slice.change_ok)
  then show ?thesis
    using assms(2) u(2) by (simp add: cache_addTxOut_def cache_addTxIn_def fetch_cached Let_def cache_set_def flip: u_def)
qed

end
