(* ===== verification/Validate.thy ===== *)
theory Validate
  imports Complex_Main Utxo_Cache Merkle Wire_Block "HOL-Library.List_Lexorder"
begin

text \<open>
  Validation of transactions and blocks (\<^verbatim>\<open>blockchain/validate.go\<close>,
  \<^verbatim>\<open>blockchain/asset_validation.go\<close>, \<^verbatim>\<open>blockchain/weight.go\<close>,
  \<^verbatim>\<open>contract/funding_safety.go\<close>) and the sequence locks of \<^verbatim>\<open>blockchain/chain.go\<close>.

  The operations on amounts and asset lists of the indexer module are the fields of \<open>asset_ops\<close>:
  the sign of an amount, its numerator and denominator as a rational, and the merging, splitting
  and searching of asset lists.  What a block check asks of other parts (the validity of an anchor
  transaction, the contract rules, the deployment states, script execution) are the fields of
  \<open>connect_env\<close>.
\<close>

unbundle bit_operations_syntax

record 'd asset_ops =
  Sign :: "'d \<Rightarrow> int"
  SetString :: "'d \<Rightarrow> (int \<times> int) option"
  Merge :: "'d TxAssets \<Rightarrow> 'd TxAssets \<Rightarrow> 'd TxAssets option"
  Split :: "'d TxAssets \<Rightarrow> 'd TxAssets \<Rightarrow> 'd TxAssets option"
  Find :: "'d TxAssets \<Rightarrow> AssetName \<Rightarrow> 'd AssetInfo option"

abbreviation rule_error :: "RuleErrorCode \<Rightarrow> chain_error + 'a" where
  "rule_error code \<equiv> Inl (RuleErr code)"

section \<open>Assets of outputs\<close>

definition emptyAssetName :: AssetName where
  "emptyAssetName = \<lparr>Protocol = [], AssetType = [], Ticker = []\<rparr>"

text \<open>The loop of \<^verbatim>\<open>RequiredBindingSats\<close>; the total stays within \<^verbatim>\<open>int64\<close>.\<close>

fun binding_sats :: "'d decimal_ops \<Rightarrow> 'd asset_ops \<Rightarrow> 'd TxAssets \<Rightarrow> int \<Rightarrow> int option" where
  "binding_sats dops aops [] tot = Some tot"
| "binding_sats dops aops (asset # assets) tot =
     (if \<not> Validate dops (Amount asset) then None
      else if Sign aops (Amount asset) < 0 then None
      else if BindingSat asset = 0 then binding_sats dops aops assets tot
      else case SetString aops (Amount asset) of
        None \<Rightarrow> None
      | Some (num, denom) \<Rightarrow>
          let denominator = denom * uint (BindingSat asset);
              groups = trunc_div num denominator
          in if groups < - (2 ^ 63) \<or> groups \<ge> 2 ^ 63 \<or> groups < 0 then None
             else if groups > 2 ^ 63 - 1 - tot then None
             else binding_sats dops aops assets (tot + groups))"

definition RequiredBindingSats :: "'d decimal_ops \<Rightarrow> 'd asset_ops \<Rightarrow> 'd TxAssets \<Rightarrow> int option" where
  "RequiredBindingSats dops aops assets = binding_sats dops aops assets 0"

definition checkAssetOutput :: "'d decimal_ops \<Rightarrow> 'd asset_ops \<Rightarrow> 'd TxOut \<Rightarrow> chain_error + unit" where
  "checkAssetOutput dops aops out =
     (if list_ex (\<lambda>asset. AssetInfo_Name asset = emptyAssetName) (Assets out) then rule_error ErrBadTxOutValue
      else case RequiredBindingSats dops aops (Assets out) of
        None \<Rightarrow> rule_error ErrBadTxOutValue
      | Some carrier \<Rightarrow> if sint (Value out) < carrier then rule_error ErrBadTxOutValue else Inr ())"

text \<open>The range over the assets of one input; \<open>metadata\<close> collects the binding of each name.\<close>

fun collect_bindings ::
    "'d decimal_ops \<Rightarrow> 'd asset_ops \<Rightarrow> 'd TxAssets \<Rightarrow> (AssetName \<Rightarrow> u32 option) \<Rightarrow> chain_error + (AssetName \<Rightarrow> u32 option)" where
  "collect_bindings dops aops [] metadata = Inr metadata"
| "collect_bindings dops aops (asset # assets) metadata =
     (if AssetInfo_Name asset = emptyAssetName then rule_error ErrBadTxOutValue
      else if \<not> Validate dops (Amount asset) \<or> Sign aops (Amount asset) < 0 then rule_error ErrBadTxOutValue
      else if metadata (AssetInfo_Name asset) \<noteq> None \<and> metadata (AssetInfo_Name asset) \<noteq> Some (BindingSat asset)
      then rule_error ErrBadTxOutValue
      else collect_bindings dops aops assets (metadata(AssetInfo_Name asset \<mapsto> BindingSat asset)))"

fun input_bindings ::
    "'d decimal_ops \<Rightarrow> 'd asset_ops \<Rightarrow> 'd UtxoViewpoint \<Rightarrow> TxIn list \<Rightarrow> (AssetName \<Rightarrow> u32 option) \<Rightarrow>
     chain_error + (AssetName \<Rightarrow> u32 option)" where
  "input_bindings dops aops view [] metadata = Inr metadata"
| "input_bindings dops aops view (txIn # txIns) metadata =
     (case LookupEntry view (PreviousOutPoint txIn) of
        None \<Rightarrow> rule_error ErrMissingTxOut
      | Some entry \<Rightarrow>
          if IsSpent entry then rule_error ErrMissingTxOut
          else andthen (collect_bindings dops aops (ue_txAssets entry) metadata) (input_bindings dops aops view txIns))"

definition checkTransactionAssetBindings ::
    "'d decimal_ops \<Rightarrow> 'd asset_ops \<Rightarrow> 'd MsgTx \<Rightarrow> 'd UtxoViewpoint \<Rightarrow> chain_error + unit" where
  "checkTransactionAssetBindings dops aops tx view =
     andthen (input_bindings dops aops view (TxIns tx) Map.empty) (\<lambda>metadata.
       if list_all (\<lambda>out. list_all (\<lambda>asset. metadata (AssetInfo_Name asset) = Some (BindingSat asset)) (Assets out)) (TxOuts tx)
       then Inr () else rule_error ErrBadTxOutValue)"

definition checkCoinbaseAssetBindings :: "'d asset_ops \<Rightarrow> 'd TxAssets \<Rightarrow> 'd TxAssets \<Rightarrow> chain_error + unit" where
  "checkCoinbaseAssetBindings aops actual expected =
     (if list_all (\<lambda>asset. case Find aops expected (AssetInfo_Name asset) of
          None \<Rightarrow> False | Some original \<Rightarrow> BindingSat original = BindingSat asset) actual
      then Inr () else rule_error ErrBadCoinbaseValue)"

section \<open>Finality\<close>

definition LockTimeThreshold :: u32 where "LockTimeThreshold = 500000000"

definition IsFinalizedTransaction :: "'d MsgTx \<Rightarrow> i32 \<Rightarrow> int \<Rightarrow> bool" where
  "IsFinalizedTransaction msgTx blockHeight blockTime =
     (if LockTime msgTx = 0 then True
      else let blockTimeOrHeight = (if LockTime msgTx < LockTimeThreshold then sint blockHeight else time_Unix blockTime)
           in if uint (LockTime msgTx) < blockTimeOrHeight then True
              else list_all (\<lambda>txIn. Sequence txIn = 0xffffffff) (TxIns msgTx))"

record SequenceLock =
  sl_Seconds :: i64
  sl_BlockHeight :: i32

definition SequenceLockActive :: "SequenceLock \<Rightarrow> i32 \<Rightarrow> int \<Rightarrow> bool" where
  "SequenceLockActive sequenceLock blockHeight medianTimePast =
     (if sint (sl_Seconds sequenceLock) \<ge> time_Unix medianTimePast \<or>
         sint (sl_BlockHeight sequenceLock) \<ge> sint blockHeight then False else True)"

abbreviation (input) SequenceLockTimeDisabled :: u32 where "SequenceLockTimeDisabled \<equiv> 0x80000000"
abbreviation (input) SequenceLockTimeIsSeconds :: u32 where "SequenceLockTimeIsSeconds \<equiv> 0x00400000"
abbreviation (input) SequenceLockTimeMask :: u32 where "SequenceLockTimeMask \<equiv> 0x0000ffff"
abbreviation (input) SequenceLockTimeGranularity :: nat where "SequenceLockTimeGranularity \<equiv> 9"

text \<open>
  The loop over the inputs; \<open>medianTime\<close> gives \<^verbatim>\<open>CalcPastMedianTime(node.Ancestor(height)).Unix()\<close>.
\<close>

fun sequence_locks ::
    "(i32 \<Rightarrow> i64) \<Rightarrow> i32 \<Rightarrow> 'd UtxoViewpoint \<Rightarrow> TxIn list \<Rightarrow> SequenceLock \<Rightarrow> chain_error + SequenceLock" where
  "sequence_locks medianTime nextHeight view [] sequenceLock = Inr sequenceLock"
| "sequence_locks medianTime nextHeight view (txIn # txIns) sequenceLock =
     (case LookupEntry view (PreviousOutPoint txIn) of
        None \<Rightarrow> rule_error ErrMissingTxOut
      | Some utxo \<Rightarrow>
          let inputHeight = (if ue_blockHeight utxo = 0x7fffffff then nextHeight else ue_blockHeight utxo);
              sequenceNum = Sequence txIn;
              relativeLock = (ucast (sequenceNum AND SequenceLockTimeMask) :: i64)
          in sequence_locks medianTime nextHeight view txIns
            (if sequenceNum AND SequenceLockTimeDisabled = SequenceLockTimeDisabled then sequenceLock
             else if sequenceNum AND SequenceLockTimeIsSeconds = SequenceLockTimeIsSeconds then
               let prevInputHeight = (if sint (inputHeight - 1) < 0 then 0 else inputHeight - 1);
                   timeLockSeconds = push_bit SequenceLockTimeGranularity relativeLock - 1;
                   timeLock = medianTime prevInputHeight + timeLockSeconds
               in if sint timeLock > sint (sl_Seconds sequenceLock) then sequenceLock\<lparr>sl_Seconds := timeLock\<rparr> else sequenceLock
             else
               let blockHeight = inputHeight + ucast (relativeLock - 1)
               in if sint blockHeight > sint (sl_BlockHeight sequenceLock)
                  then sequenceLock\<lparr>sl_BlockHeight := blockHeight\<rparr> else sequenceLock))"

definition calcSequenceLock ::
    "(i32 \<Rightarrow> i64) \<Rightarrow> (chain_error + bool) \<Rightarrow> i32 \<Rightarrow> 'd MsgTx \<Rightarrow> 'd UtxoViewpoint \<Rightarrow> bool \<Rightarrow> chain_error + SequenceLock" where
  "calcSequenceLock medianTime csvState nodeHeight tx view mempool =
     (let sequenceLock = \<lparr>sl_Seconds = -1, sl_BlockHeight = -1\<rparr> in
      andthen (if mempool then Inr True else csvState) (\<lambda>csvSoftforkActive.
        let sequenceLockActive = (Version tx \<ge> 2 \<and> csvSoftforkActive) in
        if \<not> sequenceLockActive \<or> IsCoinBaseTx tx then Inr sequenceLock
        else sequence_locks medianTime (nodeHeight + 1) view (TxIns tx) sequenceLock))"

definition LockTimeToSequence :: "bool \<Rightarrow> u32 \<Rightarrow> u32" where
  "LockTimeToSequence isSeconds locktime =
     (if \<not> isSeconds then locktime
      else SequenceLockTimeIsSeconds OR drop_bit SequenceLockTimeGranularity locktime)"

section \<open>Sanity of transactions\<close>

definition MaxBlockWeight :: nat where "MaxBlockWeight = 4000000"
definition MaxBlockBaseSize :: nat where "MaxBlockBaseSize = 1000000"
definition MaxBlockSigOpsCost :: int where "MaxBlockSigOpsCost = 80000"
definition WitnessScaleFactor :: int where "WitnessScaleFactor = 4"
definition MaxSatoshi :: int where "MaxSatoshi = 2100000000000000"
definition MinCoinbaseScriptLen :: nat where "MinCoinbaseScriptLen = 2"
definition MaxCoinbaseScriptLen :: nat where "MaxCoinbaseScriptLen = 100"
definition MaxTimeOffsetSeconds :: int where "MaxTimeOffsetSeconds = 2 * 60 * 60"
definition baseSubsidy :: i64 where "baseSubsidy = 0"
definition serializedHeightVersion :: i32 where "serializedHeightVersion = 2"

text \<open>Two neighbours in the asset list of an output.\<close>

definition asset_order :: "AssetName \<Rightarrow> AssetName \<Rightarrow> chain_error + unit" where
  "asset_order prev cur =
     (if prev = cur then rule_error ErrBadTxOutValue
      else if Protocol prev > Protocol cur \<or>
              Protocol prev = Protocol cur \<and> AssetType prev > AssetType cur \<or>
              Protocol prev = Protocol cur \<and> AssetType prev = AssetType cur \<and> Ticker prev > Ticker cur
      then rule_error ErrBadTxOutValue
      else Inr ())"

fun assets_ordered :: "'d TxAssets \<Rightarrow> chain_error + unit" where
  "assets_ordered (a # b # assets) =
     andthen (asset_order (AssetInfo_Name a) (AssetInfo_Name b)) (\<lambda>_. assets_ordered (b # assets))"
| "assets_ordered _ = Inr ()"

text \<open>The loop over the outputs; \<open>totalSatoshi\<close> is a 64-bit accumulator.\<close>

fun sane_outputs :: "'d decimal_ops \<Rightarrow> 'd asset_ops \<Rightarrow> 'd TxOut list \<Rightarrow> i64 \<Rightarrow> chain_error + unit" where
  "sane_outputs dops aops [] totalSatoshi = Inr ()"
| "sane_outputs dops aops (txOut # txOuts) totalSatoshi =
     andthen (checkAssetOutput dops aops txOut) (\<lambda>_.
       let satoshi = Value txOut in
       if sint satoshi < 0 then rule_error ErrBadTxOutValue
       else if sint satoshi > MaxSatoshi then rule_error ErrBadTxOutValue
       else let totalSatoshi = totalSatoshi + satoshi in
       if sint totalSatoshi < 0 then rule_error ErrBadTxOutValue
       else if sint totalSatoshi > MaxSatoshi then rule_error ErrBadTxOutValue
       else andthen (assets_ordered (Assets txOut)) (\<lambda>_. sane_outputs dops aops txOuts totalSatoshi))"

definition CheckTransactionSanity :: "'d decimal_ops \<Rightarrow> 'd asset_ops \<Rightarrow> 'd MsgTx \<Rightarrow> chain_error + unit" where
  "CheckTransactionSanity dops aops msgTx =
     (if TxIns msgTx = [] then rule_error ErrNoTxInputs
      else if TxOuts msgTx = [] then rule_error ErrNoTxOutputs
      else if SerializeSizeStripped dops msgTx > MaxBlockBaseSize then rule_error ErrTxTooBig
      else andthen (sane_outputs dops aops (TxOuts msgTx) 0) (\<lambda>_.
        if \<not> distinct (map PreviousOutPoint (TxIns msgTx)) then rule_error ErrDuplicateTxInputs
        else andthen
          (if IsCoinBaseTx msgTx then
             let slen = length (SignatureScript (TxIns msgTx ! 0))
             in if slen < MinCoinbaseScriptLen \<or> slen > MaxCoinbaseScriptLen
                then rule_error ErrBadCoinbaseScriptLen else Inr ()
           else if list_ex (\<lambda>txIn. isNullOutpoint (PreviousOutPoint txIn)) (TxIns msgTx)
                then rule_error ErrBadTxInput else Inr ())
          (\<lambda>_. if list_ex (\<lambda>txIn. IsEnvelope (SignatureScript txIn) \<or> list_ex IsEnvelope (Witness txIn)) (TxIns msgTx)
               then rule_error ErrOrdinalsNotAllowed else Inr ())))"

section \<open>Inputs and fees\<close>

text \<open>The chain parameters the checks read.\<close>

record chain_params =
  cp_CoinbaseMaturity :: u16
  cp_SubsidyReductionInterval :: i32
  cp_GenesisHash :: bytes
  cp_BIP0034Height :: i32

definition CalcBlockSubsidy :: "i32 \<Rightarrow> chain_params \<Rightarrow> i64" where
  "CalcBlockSubsidy height params =
     (if cp_SubsidyReductionInterval params = 0 then baseSubsidy
      else signed_drop_bit (nat (uint (word_of_int (trunc_div (sint height) (sint (cp_SubsidyReductionInterval params))) :: u64))) baseSubsidy)"

text \<open>The loop over the inputs: the amounts and the assets they bring.\<close>

fun sum_inputs ::
    "'d asset_ops \<Rightarrow> chain_params \<Rightarrow> i32 \<Rightarrow> 'd UtxoViewpoint \<Rightarrow> TxIn list \<Rightarrow> i64 \<times> 'd TxAssets \<Rightarrow>
     chain_error + (i64 \<times> 'd TxAssets)" where
  "sum_inputs aops params txHeight view [] acc = Inr acc"
| "sum_inputs aops params txHeight view (txIn # txIns) (totalSatoshiIn, totalInTxAssets) =
     (case LookupEntry view (PreviousOutPoint txIn) of
        None \<Rightarrow> rule_error ErrMissingTxOut
      | Some utxo \<Rightarrow>
          if IsSpent utxo then rule_error ErrMissingTxOut
          else if ue_IsCoinBase utxo \<and>
            sint (txHeight - ue_blockHeight utxo) < sint (ucast (cp_CoinbaseMaturity params) :: i32)
          then rule_error ErrImmatureSpend
          else if sint (ue_amount utxo) < 0 then rule_error ErrBadTxOutValue
          else if sint (ue_amount utxo) > MaxSatoshi then rule_error ErrBadTxOutValue
          else let lastSatoshiIn = totalSatoshiIn; totalSatoshiIn = totalSatoshiIn + ue_amount utxo in
          case Merge aops totalInTxAssets (ue_txAssets utxo) of
            None \<Rightarrow> rule_error ErrBadTxOutValue
          | Some totalInTxAssets \<Rightarrow>
              if sint totalSatoshiIn < sint lastSatoshiIn \<or> sint totalSatoshiIn > MaxSatoshi
              then rule_error ErrBadTxOutValue
              else sum_inputs aops params txHeight view txIns (totalSatoshiIn, totalInTxAssets))"

fun sum_outputs :: "'d asset_ops \<Rightarrow> 'd TxOut list \<Rightarrow> i64 \<times> 'd TxAssets \<Rightarrow> chain_error + (i64 \<times> 'd TxAssets)" where
  "sum_outputs aops [] acc = Inr acc"
| "sum_outputs aops (txOut # txOuts) (totalSatoshiOut, totalInTxAssets) =
     (case Split aops totalInTxAssets (Assets txOut) of
        None \<Rightarrow> rule_error ErrBadFees
      | Some totalInTxAssets \<Rightarrow> sum_outputs aops txOuts (totalSatoshiOut + Value txOut, totalInTxAssets))"

text \<open>
  \<open>anchorValid\<close> is \<^verbatim>\<open>anchortx.CheckAnchorTxValid\<close> and \<open>gasFee\<close> is \<^verbatim>\<open>checkContractBaseGasFee\<close> at the
  height; a coinbase starts with no fee assets.
\<close>

definition CheckTransactionInputs ::
    "'d decimal_ops \<Rightarrow> 'd asset_ops \<Rightarrow> ('d MsgTx \<Rightarrow> bool) \<Rightarrow> ('d MsgTx \<Rightarrow> 'd TxAssets \<Rightarrow> chain_error + unit) \<Rightarrow>
     chain_params \<Rightarrow> 'd MsgTx \<Rightarrow> i32 \<Rightarrow> 'd UtxoViewpoint \<Rightarrow> chain_error + (i64 \<times> 'd TxAssets)" where
  "CheckTransactionInputs dops aops anchorValid gasFee params msgTx txHeight view =
     (if IsCoinBaseTx msgTx then Inr (0, [])
      else if IsAnchorTx msgTx then
        if \<not> anchorValid msgTx then rule_error ErrAnchorTXVerifyFailed else Inr (0, [])
      else
        andthen (checkTransactionAssetBindings dops aops msgTx view) (\<lambda>_.
        andthen (sum_inputs aops params txHeight view (TxIns msgTx) (0, [])) (\<lambda>(totalSatoshiIn, totalInTxAssets).
        andthen (sum_outputs aops (TxOuts msgTx) (0, totalInTxAssets)) (\<lambda>(totalSatoshiOut, totalInTxAssets).
        if sint totalSatoshiIn < sint totalSatoshiOut then rule_error ErrSpendTooHigh
        else
          let txFeeInSatoshi = totalSatoshiIn - totalSatoshiOut; feeTxAssets = totalInTxAssets in
          andthen (gasFee msgTx feeTxAssets) (\<lambda>_. Inr (txFeeInSatoshi, feeTxAssets))))))"

fun coinbase_outputs ::
    "'d asset_ops \<Rightarrow> 'd TxAssets \<Rightarrow> 'd TxOut list \<Rightarrow> i64 \<times> 'd TxAssets \<Rightarrow> chain_error + (i64 \<times> 'd TxAssets)" where
  "coinbase_outputs aops expectedFeeAssets [] acc = Inr acc"
| "coinbase_outputs aops expectedFeeAssets (txOut # txOuts) (totalSatoshiOut, totalAssetOut) =
     andthen (checkCoinbaseAssetBindings aops (Assets txOut) expectedFeeAssets) (\<lambda>_.
       case Merge aops totalAssetOut (Assets txOut) of
         None \<Rightarrow> rule_error ErrBadCoinbaseValue
       | Some totalAssetOut \<Rightarrow>
           coinbase_outputs aops expectedFeeAssets txOuts (totalSatoshiOut + Value txOut, totalAssetOut))"

definition checkCoinbaseFees :: "'d asset_ops \<Rightarrow> 'd MsgTx \<Rightarrow> i64 \<Rightarrow> 'd TxAssets \<Rightarrow> chain_error + unit" where
  "checkCoinbaseFees aops coinbaseTx expectedSatoshiOut expectedFeeAssets =
     andthen (coinbase_outputs aops expectedFeeAssets (TxOuts coinbaseTx) (0, [])) (\<lambda>(totalSatoshiOut, totalAssetOut).
       if sint totalSatoshiOut > sint expectedSatoshiOut then rule_error ErrBadCoinbaseValue
       else case Split aops expectedFeeAssets totalAssetOut of
         None \<Rightarrow> rule_error ErrBadCoinbaseValue | Some remainingFeeAssets \<Rightarrow> Inr ())"

section \<open>Signature operations and weights\<close>

definition CountSigOps :: "'d MsgTx \<Rightarrow> int" where
  "CountSigOps msgTx =
     sum_list (map (\<lambda>txIn. GetSigOpCount (SignatureScript txIn)) (TxIns msgTx)) +
     sum_list (map (\<lambda>txOut. GetSigOpCount (PkScript txOut)) (TxOuts msgTx))"

text \<open>The accumulator is a 64-bit integer; the counts of scripts of bounded size do not wrap it.\<close>

fun p2sh_sigops :: "'d UtxoViewpoint \<Rightarrow> TxIn list \<Rightarrow> int \<Rightarrow> chain_error + int" where
  "p2sh_sigops view [] totalSigOps = Inr totalSigOps"
| "p2sh_sigops view (txIn # txIns) totalSigOps =
     (case LookupEntry view (PreviousOutPoint txIn) of
        None \<Rightarrow> rule_error ErrMissingTxOut
      | Some utxo \<Rightarrow>
          if IsSpent utxo then rule_error ErrMissingTxOut
          else if extractScriptHash (ue_pkScript utxo) = None then p2sh_sigops view txIns totalSigOps
          else let lastSigOps = totalSigOps;
                   totalSigOps = totalSigOps + GetPreciseSigOpCount (SignatureScript txIn) (ue_pkScript utxo)
               in if totalSigOps < lastSigOps then rule_error ErrTooManySigOps
                  else p2sh_sigops view txIns totalSigOps)"

definition CountP2SHSigOps :: "'d MsgTx \<Rightarrow> bool \<Rightarrow> 'd UtxoViewpoint \<Rightarrow> chain_error + int" where
  "CountP2SHSigOps tx isCoinBaseTx view = (if isCoinBaseTx then Inr 0 else p2sh_sigops view (TxIns tx) 0)"

fun witness_sigops :: "'d UtxoViewpoint \<Rightarrow> TxIn list \<Rightarrow> int \<Rightarrow> chain_error + int" where
  "witness_sigops view [] numSigOps = Inr numSigOps"
| "witness_sigops view (txIn # txIns) numSigOps =
     (case LookupEntry view (PreviousOutPoint txIn) of
        None \<Rightarrow> rule_error ErrMissingTxOut
      | Some utxo \<Rightarrow>
          if IsSpent utxo then rule_error ErrMissingTxOut
          else witness_sigops view txIns
            (numSigOps + GetWitnessSigOpCount (SignatureScript txIn) (ue_pkScript utxo) (Witness txIn)))"

definition GetSigOpCost :: "'d MsgTx \<Rightarrow> bool \<Rightarrow> 'd UtxoViewpoint \<Rightarrow> bool \<Rightarrow> bool \<Rightarrow> chain_error + int" where
  "GetSigOpCost tx isCoinBaseTx view bip16 segWit =
     (let numSigOps = CountSigOps tx * WitnessScaleFactor;
          counted = (if bip16 then map_option (\<lambda>n. numSigOps + n * WitnessScaleFactor)
              (case CountP2SHSigOps tx isCoinBaseTx view of Inl _ \<Rightarrow> None | Inr n \<Rightarrow> Some n)
            else Some numSigOps)
      in case counted of
           None \<Rightarrow> Inr 0
         | Some numSigOps \<Rightarrow>
             if segWit \<and> \<not> isCoinBaseTx then witness_sigops view (TxIns tx) numSigOps else Inr numSigOps)"

definition GetBlockWeight :: "'d decimal_ops \<Rightarrow> 'd MsgBlock \<Rightarrow> int" where
  "GetBlockWeight dops msgBlock =
     int (MsgBlock_SerializeSizeStripped dops msgBlock) * (WitnessScaleFactor - 1) + int (MsgBlock_SerializeSize dops msgBlock)"

definition GetTransactionWeight :: "'d decimal_ops \<Rightarrow> 'd MsgTx \<Rightarrow> int" where
  "GetTransactionWeight dops msgTx =
     int (SerializeSizeStripped dops msgTx) * (WitnessScaleFactor - 1) + int (SerializeSize dops msgTx)"

section \<open>Sanity of blocks\<close>

text \<open>\<open>adjustedTime\<close> is the clock of the node corrected by its peers.\<close>

definition CheckBlockHeaderSanity :: "BlockHeader \<Rightarrow> int \<Rightarrow> chain_error + unit" where
  "CheckBlockHeaderSanity header adjustedTime =
     (if bh_Timestamp header \<noteq> Unix_time (time_Unix (bh_Timestamp header)) then rule_error ErrInvalidTime
      else if bh_Timestamp header > adjustedTime + MaxTimeOffsetSeconds * 1000000000 then rule_error ErrTimeTooNew
      else Inr ())"

fun check_all :: "('a \<Rightarrow> chain_error + unit) \<Rightarrow> 'a list \<Rightarrow> chain_error + unit" where
  "check_all f [] = Inr ()"
| "check_all f (x # xs) = andthen (f x) (\<lambda>_. check_all f xs)"

fun block_sigops :: "'d MsgTx list \<Rightarrow> int \<Rightarrow> chain_error + unit" where
  "block_sigops [] totalSigOps = Inr ()"
| "block_sigops (tx # txs) totalSigOps =
     (let lastSigOps = totalSigOps; totalSigOps = totalSigOps + CountSigOps tx * WitnessScaleFactor
      in if totalSigOps < lastSigOps \<or> totalSigOps > MaxBlockSigOpsCost then rule_error ErrTooManySigOps
         else block_sigops txs totalSigOps)"

definition checkBlockSanity ::
    "(bytes \<Rightarrow> bytes) \<Rightarrow> ('d MsgTx \<Rightarrow> bytes) \<Rightarrow> ('d MsgTx \<Rightarrow> bytes) \<Rightarrow> 'd decimal_ops \<Rightarrow> 'd asset_ops \<Rightarrow> int \<Rightarrow> 'd MsgBlock \<Rightarrow> chain_error + unit" where
  "checkBlockSanity sha txid wtxid dops aops adjustedTime msgBlock =
     andthen (CheckBlockHeaderSanity (mb_Header msgBlock) adjustedTime) (\<lambda>_.
     let transactions = mb_Transactions msgBlock; numTx = length transactions in
     if numTx = 0 then rule_error ErrNoTransactions
     else if numTx > MaxBlockBaseSize then rule_error ErrBlockTooBig
     else if MsgBlock_SerializeSizeStripped dops msgBlock > MaxBlockBaseSize then rule_error ErrBlockTooBig
     else if \<not> IsCoinBaseTx (transactions ! 0) then rule_error ErrFirstTxNotCoinbase
     else if list_ex IsCoinBaseTx (tl transactions) then rule_error ErrMultipleCoinbases
     else andthen (check_all (CheckTransactionSanity dops aops) transactions) (\<lambda>_.
       case CalcMerkleRoot sha txid wtxid transactions False of
         None \<Rightarrow> Inl ChainPanic
       | Some calcMerkleRoot \<Rightarrow>
           if bh_MerkleRoot (mb_Header msgBlock) \<noteq> calcMerkleRoot then rule_error ErrBadMerkleRoot
           else if \<not> distinct (map txid transactions) then rule_error ErrDuplicateTx
           else block_sigops transactions 0))"

section \<open>The height in the coinbase\<close>

definition compareScript :: "i32 \<Rightarrow> bytes \<Rightarrow> chain_error + unit" where
  "compareScript height script =
     (case map_option Script (AddInt64 (scast height) NewScriptBuilder) of
        None \<Rightarrow> Inl ChainPanic
      | Some (scriptHeight, Some err) \<Rightarrow> Inl (OtherErr err)
      | Some (scriptHeight, None) \<Rightarrow>
          if take (length scriptHeight) script \<noteq> scriptHeight then rule_error ErrBadCoinbaseHeight else Inr ())"

definition ExtractCoinbaseHeight :: "'d MsgTx \<Rightarrow> chain_error + i32" where
  "ExtractCoinbaseHeight coinbaseTx =
     (let sigScript = SignatureScript (TxIns coinbaseTx ! 0) in
      if length sigScript < 1 then rule_error ErrMissingCoinbaseHeight
      else let opcode = unat (sigScript ! 0) in
      if opcode = 0 then Inr 0
      else if 0x51 \<le> opcode \<and> opcode \<le> 0x60 then Inr (word_of_nat (opcode - 0x50))
      else let serializedLen = opcode in
      if length (drop 1 sigScript) < serializedLen then rule_error ErrMissingCoinbaseHeight
      else
        let serializedHeightBytes = copied 4 (take serializedLen (drop 1 sigScript));
            serializedHeight = (word_of_nat (get_le serializedHeightBytes) :: i32)
        in andthen (compareScript serializedHeight sigScript) (\<lambda>_. Inr serializedHeight))"

definition CheckSerializedHeight :: "'d MsgTx \<Rightarrow> i32 \<Rightarrow> chain_error + unit" where
  "CheckSerializedHeight coinbaseTx wantHeight =
     andthen (ExtractCoinbaseHeight coinbaseTx) (\<lambda>serializedHeight.
       if serializedHeight \<noteq> wantHeight then rule_error ErrBadCoinbaseHeight else Inr ())"

definition ShouldHaveSerializedBlockHeight :: "BlockHeader \<Rightarrow> bool" where
  "ShouldHaveSerializedBlockHeight header \<longleftrightarrow> sint (bh_Version header) \<ge> sint serializedHeightVersion"

section \<open>Anchors of a block\<close>

text \<open>
  \<open>lockedUtxo\<close> is the funding output \<^verbatim>\<open>anchortx.GetLockedTxInfo\<close> reads from an anchor transaction,
  \<open>fetchAnchor\<close> the id of the transaction that already anchored it, and \<open>txidStr\<close> the id of a
  transaction as a string.
\<close>

record 'd anchor_env =
  lockedUtxo :: "'d MsgTx \<Rightarrow> string option"
  fetchAnchor :: "string \<Rightarrow> string option"
  txidStr :: "'d MsgTx \<Rightarrow> string"

definition legacySameAnchor :: "bool \<Rightarrow> i32 \<Rightarrow> string \<Rightarrow> bool" where
  "legacySameAnchor testNet height hash \<longleftrightarrow> testNet \<and>
     (height = 1708 \<and> hash = ''ac11b5d39e67af3ea2177150be8021a969383c7528675e97a4c6c93ce4785964'' \<or>
      height = 1709 \<and> hash = ''7120c6cb241034f458893b38d7a01e8c8b65fd7962c0b42ac76e526ea355ef30'')"

definition legacy1748 :: "bool \<Rightarrow> i32 \<Rightarrow> string \<Rightarrow> bool" where
  "legacy1748 testNet height hash \<longleftrightarrow> testNet \<and> height = 1748 \<and>
     hash = ''af898ea0b898e1e93024aef9e39aefd26077421666eabbac37f14f7743fa712e''"

definition approved1748Anchor :: "bool \<Rightarrow> string \<Rightarrow> bool" where
  "approved1748Anchor legacy tid \<longleftrightarrow> legacy \<and>
     (tid = ''12818525d7a1a6801dce1143e03c2b4bea6f59c8e76c2e7dad1cb6f2fff094e7'' \<or>
      tid = ''ffd55194f0dae8daf18b1831fda96257cd73ad835869838cc49c1cf1f6bcbd49'')"

text \<open>The exceptions for a funding output that is already anchored.\<close>

definition anchored_before_ok :: "bool \<Rightarrow> bool \<Rightarrow> string \<Rightarrow> string \<Rightarrow> bool" where
  "anchored_before_ok same legacy tid anchorTxid \<longleftrightarrow>
     same \<and> tid = ''2025513a5ad2bdb180bc1d239915fa813237f9c6724acfcaf5ae02971d803215'' \<and> anchorTxid = tid \<or>
     approved1748Anchor legacy anchorTxid \<and> approved1748Anchor legacy tid \<or>
     legacy \<and> tid = ''5da834f2e726daac5341dec4d7ce20c906969ac8517fb3b7f776b703b72030e9'' \<and>
       (anchorTxid = ''5387e75dbb0b585ee6aa43cef65fe55854485202ca2cd4b6c10fb36fea04d89e'' \<or> anchorTxid = tid)"

fun anchors_unique ::
    "'d anchor_env \<Rightarrow> bool \<Rightarrow> bool \<Rightarrow> 'd MsgTx list \<Rightarrow> (string \<Rightarrow> string option) \<Rightarrow> chain_error + unit" where
  "anchors_unique env same legacy [] seen = Inr ()"
| "anchors_unique env same legacy (tx # txs) seen =
     (if \<not> IsAnchorTx tx then anchors_unique env same legacy txs seen
      else case lockedUtxo env tx of
        None \<Rightarrow> rule_error ErrAnchorTXVerifyFailed
      | Some utxo \<Rightarrow>
          let tid = txidStr env tx in
          if (case seen utxo of None \<Rightarrow> False
              | Some prevHash \<Rightarrow> prevHash = tid \<or> \<not> approved1748Anchor legacy prevHash \<or> \<not> approved1748Anchor legacy tid)
          then rule_error ErrAnchorTXVerifyFailed
          else if (case fetchAnchor env utxo of None \<Rightarrow> False
              | Some anchorTxid \<Rightarrow> \<not> anchored_before_ok same legacy tid anchorTxid)
          then rule_error ErrAnchorTXVerifyFailed
          else anchors_unique env same legacy txs (seen(utxo \<mapsto> tid)))"

definition checkAnchorTxsUnique :: "'d anchor_env \<Rightarrow> bool \<Rightarrow> i32 \<Rightarrow> string \<Rightarrow> 'd MsgTx list \<Rightarrow> chain_error + unit" where
  "checkAnchorTxsUnique env testNet height hash txs =
     anchors_unique env (legacySameAnchor testNet height hash) (legacy1748 testNet height hash) txs Map.empty"

section \<open>Connecting a block\<close>

definition block91842Hash :: bytes where
  "block91842Hash = [0xec, 0xca, 0xe0, 0x00, 0xe3, 0xc8, 0xe4, 0xe0, 0x93, 0x93, 0x63, 0x60, 0x43, 0x1f, 0x3b, 0x76,
     0x03, 0xc5, 0x63, 0xc1, 0xff, 0x61, 0x81, 0x39, 0x0a, 0x4d, 0x0a, 0x00, 0x00, 0x00, 0x00, 0x00]"

definition block91880Hash :: bytes where
  "block91880Hash = [0x21, 0xd7, 0x7c, 0xcb, 0x4c, 0x08, 0x38, 0x6a, 0x04, 0xac, 0x01, 0x96, 0xae, 0x10, 0xf6, 0xa1,
     0xd2, 0xc2, 0xa3, 0x77, 0x55, 0x8c, 0xa1, 0x90, 0xf1, 0x43, 0x07, 0x00, 0x00, 0x00, 0x00, 0x00]"

definition isBIP0030Node :: "i32 \<Rightarrow> bytes \<Rightarrow> bool" where
  "isBIP0030Node height hash \<longleftrightarrow> height = 91842 \<and> hash = block91842Hash \<or> height = 91880 \<and> hash = block91880Hash"

definition lift_state :: "utxo_error + 'a \<Rightarrow> chain_error + 'a" where
  "lift_state r = (case r of Inl e \<Rightarrow> Inl (StateErr e) | Inr x \<Rightarrow> Inr x)"

text \<open>The chain state that is read: the UTXO cache and the bucket of the stored set below it.\<close>

definition checkBIP0030 ::
    "'d decimal_ops \<Rightarrow> 'k pubkey_ops \<Rightarrow> ('d MsgTx \<Rightarrow> bytes) \<Rightarrow> (int \<Rightarrow> byte) \<Rightarrow> bucket \<Rightarrow> 'd Block \<Rightarrow>
     'd UtxoViewpoint \<times> 'd utxoCache \<Rightarrow> chain_error + ('d UtxoViewpoint \<times> 'd utxoCache)" where
  "checkBIP0030 dops kops txid log2 b block = (\<lambda>(view, cache).
     let fetch = concat (map (\<lambda>tx. map fst (tx_outputs txid tx)) (bl_Transactions block)) in
     andthen (lift_state (fetchUtxos dops kops log2 b fetch (view, cache))) (\<lambda>(view, cache).
       if list_ex (\<lambda>op. case LookupEntry view op of None \<Rightarrow> False | Some utxo \<Rightarrow> \<not> IsSpent utxo) fetch
       then rule_error ErrOverwriteTx else Inr (view, cache)))"

text \<open>What the check of a block asks of other parts, for the block at hand.\<close>

record 'd connect_env =
  ce_anchorValid :: "'d MsgTx \<Rightarrow> bool"
  ce_gasFee :: "'d MsgTx \<Rightarrow> 'd TxAssets \<Rightarrow> chain_error + unit"
  ce_contract :: "'d UtxoViewpoint \<Rightarrow> chain_error + unit"
  ce_anchors :: "'d anchor_env"
  ce_testNet :: bool
  ce_hashStr :: string
  ce_segwit :: "chain_error + bool"
  ce_csv :: "chain_error + bool"
  ce_taproot :: "chain_error + bool"
  ce_medianTime :: "i32 \<Rightarrow> i64"
  ce_parentMedian :: int
  ce_checkpoint :: "i32 option"
  ce_BIP0066Height :: i32
  ce_BIP0065Height :: i32
  ce_scripts :: "'d UtxoViewpoint \<Rightarrow> u32 \<Rightarrow> chain_error + unit"

abbreviation (input) ScriptBip16 :: u32 where "ScriptBip16 \<equiv> 0x00001"
abbreviation (input) ScriptStrictMultiSig :: u32 where "ScriptStrictMultiSig \<equiv> 0x00002"
abbreviation (input) ScriptVerifyCheckLockTimeVerify :: u32 where "ScriptVerifyCheckLockTimeVerify \<equiv> 0x00008"
abbreviation (input) ScriptVerifyCheckSequenceVerify :: u32 where "ScriptVerifyCheckSequenceVerify \<equiv> 0x00010"
abbreviation (input) ScriptVerifyDERSignatures :: u32 where "ScriptVerifyDERSignatures \<equiv> 0x00040"
abbreviation (input) ScriptVerifyWitness :: u32 where "ScriptVerifyWitness \<equiv> 0x01000"
abbreviation (input) ScriptVerifyTaproot :: u32 where "ScriptVerifyTaproot \<equiv> 0x10000"

definition block_script_flags :: "'d connect_env \<Rightarrow> bool \<Rightarrow> i32 \<Rightarrow> i32 \<Rightarrow> bool \<Rightarrow> bool \<Rightarrow> bool \<Rightarrow> u32" where
  "block_script_flags env enforceBIP0016 headerVersion nodeHeight csvActive enforceSegWit taprootActive =
     (let flags = (if enforceBIP0016 then ScriptBip16 else 0);
          flags = (if sint headerVersion \<ge> 3 \<and> sint nodeHeight \<ge> sint (ce_BIP0066Height env) then flags OR ScriptVerifyDERSignatures else flags);
          flags = (if sint headerVersion \<ge> 4 \<and> sint nodeHeight \<ge> sint (ce_BIP0065Height env) then flags OR ScriptVerifyCheckLockTimeVerify else flags);
          flags = (if csvActive then flags OR ScriptVerifyCheckSequenceVerify else flags);
          flags = (if enforceSegWit then flags OR ScriptVerifyWitness OR ScriptStrictMultiSig else flags)
      in if taprootActive then flags OR ScriptVerifyTaproot else flags)"

fun sigop_costs :: "'d UtxoViewpoint \<Rightarrow> bool \<Rightarrow> bool \<Rightarrow> (nat \<times> 'd MsgTx) list \<Rightarrow> int \<Rightarrow> chain_error + unit" where
  "sigop_costs view enforceBIP0016 enforceSegWit [] totalSigOpCost = Inr ()"
| "sigop_costs view enforceBIP0016 enforceSegWit ((i, tx) # txs) totalSigOpCost =
     andthen (GetSigOpCost tx (i = 0) view enforceBIP0016 enforceSegWit) (\<lambda>sigOpCost.
       let lastSigOpCost = totalSigOpCost; totalSigOpCost = totalSigOpCost + sigOpCost
       in if totalSigOpCost < lastSigOpCost \<or> totalSigOpCost > MaxBlockSigOpsCost then rule_error ErrTooManySigOps
          else sigop_costs view enforceBIP0016 enforceSegWit txs totalSigOpCost)"

text \<open>
  The loop that checks the inputs of each transaction, adds up the fees and connects the
  transaction to the view.  The records of the spent outputs are always collected here: leaving
  them out changes nothing else.
\<close>

fun check_inputs ::
    "'d decimal_ops \<Rightarrow> 'd asset_ops \<Rightarrow> ('d MsgTx \<Rightarrow> bytes) \<Rightarrow> 'd connect_env \<Rightarrow> chain_params \<Rightarrow> i32 \<Rightarrow> 'd MsgTx list \<Rightarrow>
     i64 \<times> 'd TxAssets \<times> 'd UtxoViewpoint \<times> 'd SpentTxOut list \<Rightarrow>
     chain_error + (i64 \<times> 'd TxAssets \<times> 'd UtxoViewpoint \<times> 'd SpentTxOut list)" where
  "check_inputs dops aops txid env params height [] acc = Inr acc"
| "check_inputs dops aops txid env params height (tx # txs) (totalFees, totalFeeAssets, view, stxos) =
     andthen (CheckTransactionInputs dops aops (ce_anchorValid env) (ce_gasFee env) params tx height view) (\<lambda>(txFee, feeAssets).
       let lastTotalFees = totalFees; totalFees = totalFees + txFee in
       case Merge aops totalFeeAssets feeAssets of
         None \<Rightarrow> rule_error ErrBadFees
       | Some totalFeeAssets \<Rightarrow>
           if sint totalFees < sint lastTotalFees then rule_error ErrBadFees
           else andthen (lift_state (view_connectTransaction txid tx height (view, stxos))) (\<lambda>(view, stxos).
             check_inputs dops aops txid env params height txs (totalFees, totalFeeAssets, view, stxos)))"

definition checkConnectBlockFor ::
    "'d decimal_ops \<Rightarrow> 'd asset_ops \<Rightarrow> 'k pubkey_ops \<Rightarrow> ('d MsgTx \<Rightarrow> bytes) \<Rightarrow> (int \<Rightarrow> byte) \<Rightarrow> 'd connect_env \<Rightarrow> chain_params \<Rightarrow> bucket \<Rightarrow>
     bytes \<Rightarrow> i32 \<Rightarrow> i64 \<Rightarrow> i32 \<Rightarrow> 'd Block \<Rightarrow> 'd UtxoViewpoint \<times> 'd utxoCache \<Rightarrow>
     chain_error + ('d UtxoViewpoint \<times> 'd SpentTxOut list \<times> 'd utxoCache)" where
  "checkConnectBlockFor dops aops kops txid log2 env params b nodeHash nodeHeight nodeTimestamp headerVersion block = (\<lambda>(view, cache).
     if nodeHash = cp_GenesisHash params then rule_error ErrMissingTxOut
     else if vw_bestHash view \<noteq> bl_PrevBlock block then Inl (StateErr (AssertError ''inconsistent view''))
     else andthen
       (if \<not> isBIP0030Node nodeHeight nodeHash \<and> sint nodeHeight < sint (cp_BIP0034Height params)
        then checkBIP0030 dops kops txid log2 b block (view, cache) else Inr (view, cache)) (\<lambda>(view, cache).
     andthen (lift_state (fetchInputUtxos dops kops txid log2 b block (view, cache))) (\<lambda>(view, cache).
     andthen (ce_contract env view) (\<lambda>_.
     andthen (checkAnchorTxsUnique (ce_anchors env) (ce_testNet env) (bl_Height block) (ce_hashStr env) (bl_Transactions block)) (\<lambda>_.
     let enforceBIP0016 = (sint nodeTimestamp \<ge> 1333238400); transactions = bl_Transactions block in
     andthen (ce_segwit env) (\<lambda>enforceSegWit.
     andthen (sigop_costs view enforceBIP0016 enforceSegWit (enumerate 0 transactions) 0) (\<lambda>_.
     andthen (check_inputs dops aops txid env params nodeHeight transactions (0, [], view, [])) (\<lambda>(totalFees, totalFeeAssets, view, stxos).
     let expectedSatoshiOut = CalcBlockSubsidy nodeHeight params + totalFees in
     if transactions = [] then Inl ChainPanic else
     andthen (checkCoinbaseFees aops (transactions ! 0) expectedSatoshiOut totalFeeAssets) (\<lambda>_.
     let runScripts = (case ce_checkpoint env of None \<Rightarrow> True | Some height \<Rightarrow> \<not> sint nodeHeight \<le> sint height)
     in andthen (ce_csv env) (\<lambda>csvActive.
     andthen (if csvActive then
         check_all (\<lambda>tx. andthen (calcSequenceLock (ce_medianTime env) (ce_csv env) nodeHeight tx view False) (\<lambda>sequenceLock.
           if \<not> SequenceLockActive sequenceLock nodeHeight (ce_parentMedian env) then rule_error ErrUnfinalizedTx else Inr ())) transactions
       else Inr ()) (\<lambda>_.
     andthen (ce_taproot env) (\<lambda>taprootActive.
     andthen (if runScripts
         then ce_scripts env view (block_script_flags env enforceBIP0016 headerVersion nodeHeight csvActive enforceSegWit taprootActive)
         else Inr ()) (\<lambda>_.
       Inr (view\<lparr>vw_bestHash := nodeHash\<rparr>, stxos, cache))))))))))))))"

section \<open>An accepted block\<close>

text \<open>
  A coinbase that collects a fee of 3, and a transaction that spends an output of 10 with an
  asset.  Amounts are unary, a string of digits counts its length; asset lists are kept in the order
  of the names, merging adds the amounts of equal names and splitting subtracts them and fails on
  a deficit.
\<close>

fun add_asset :: "bytes AssetInfo \<Rightarrow> bytes TxAssets \<Rightarrow> bytes TxAssets" where
  "add_asset a [] = [a]"
| "add_asset a (b # bs) =
     (if AssetInfo_Name a = AssetInfo_Name b then b\<lparr>Amount := Amount b @ Amount a\<rparr> # bs
      else if asset_order (AssetInfo_Name a) (AssetInfo_Name b) = Inr () then a # b # bs
      else b # add_asset a bs)"

fun sub_asset :: "bytes AssetInfo \<Rightarrow> bytes TxAssets \<Rightarrow> bytes TxAssets option" where
  "sub_asset a [] = (if Amount a = [] then Some [] else None)"
| "sub_asset a (b # bs) =
     (if AssetInfo_Name a = AssetInfo_Name b then
        if length (Amount a) < length (Amount b) then Some (b\<lparr>Amount := drop (length (Amount a)) (Amount b)\<rparr> # bs)
        else if length (Amount a) = length (Amount b) then Some bs else None
      else map_option ((#) b) (sub_asset a bs))"

fun sub_assets :: "bytes TxAssets \<Rightarrow> bytes TxAssets \<Rightarrow> bytes TxAssets option" where
  "sub_assets bs [] = Some bs"
| "sub_assets bs (a # as) = (case sub_asset a bs of None \<Rightarrow> None | Some bs \<Rightarrow> sub_assets bs as)"

definition ok_assets :: "bytes asset_ops" where
  "ok_assets = \<lparr>Sign = (\<lambda>_. 1), SetString = (\<lambda>_. Some (1, 1)), Merge = (\<lambda>a b. Some (fold add_asset b a)),
     Split = sub_assets, Find = (\<lambda>_ _. None)\<rparr>"

definition ok_block :: "bytes Block" where
  "ok_block = \<lparr>bl_Transactions =
     [\<lparr>Version = 1, TxIns = [\<lparr>PreviousOutPoint = \<lparr>Hash = zeroHash, Index = 0xffffffff\<rparr>, SignatureScript = [0x55, 0],
          Witness = [], Sequence = 0\<rparr>], TxOuts = [\<lparr>Value = 3, Assets = [], PkScript = []\<rparr>], LockTime = 1\<rparr>,
      \<lparr>Version = 1, TxIns = [ex_in 9], TxOuts = [ex_out\<lparr>Value := 7\<rparr>], LockTime = 2\<rparr>],
     bl_Height = 5, bl_Hash = [5], bl_PrevBlock = [4]\<rparr>"

definition ok_msg :: "bytes MsgBlock" where
  "ok_msg = \<lparr>mb_Header = \<lparr>bh_Version = 2, bh_PrevBlock = replicate 32 0, bh_MerkleRoot = zeroHash, bh_Timestamp = 0,
       bh_Bits = 0, bh_Nonce = 0\<rparr>, mb_Transactions = bl_Transactions ok_block\<rparr>"

definition ok_env :: "bytes connect_env" where
  "ok_env = \<lparr>ce_anchorValid = (\<lambda>_. True), ce_gasFee = (\<lambda>_ _. Inr ()), ce_contract = (\<lambda>_. Inr ()),
     ce_anchors = \<lparr>lockedUtxo = (\<lambda>_. None), fetchAnchor = (\<lambda>_. None), txidStr = (\<lambda>_. [])\<rparr>, ce_testNet = False,
     ce_hashStr = [], ce_segwit = Inr True, ce_csv = Inr False, ce_taproot = Inr True, ce_medianTime = (\<lambda>_. 0),
     ce_parentMedian = 0, ce_checkpoint = None, ce_BIP0066Height = 0, ce_BIP0065Height = 0, ce_scripts = (\<lambda>_ _. Inr ())\<rparr>"

definition ok_params :: chain_params where
  "ok_params = \<lparr>cp_CoinbaseMaturity = 100, cp_SubsidyReductionInterval = 210000, cp_GenesisHash = [], cp_BIP0034Height = 0\<rparr>"

definition ok_view :: "bytes UtxoViewpoint" where
  "ok_view = NewUtxoViewpoint\<lparr>vw_bestHash := [4]\<rparr>"

definition ok_fetched :: "bytes UtxoViewpoint" where
  "ok_fetched = ex_view\<lparr>vw_bestHash := [4]\<rparr>"

lemma ok_merkle: "CalcMerkleRoot (\<lambda>_. zeroHash) ex_txid ex_txid (mb_Transactions ok_msg) False = Some zeroHash"
proof -
  have "merkle_root (\<lambda>_. zeroHash) (leaves ex_txid ex_txid False (mb_Transactions ok_msg)) = zeroHash"
    by code_simp
  then show ?thesis by (subst CalcMerkleRoot_root) (simp_all add: ok_msg_def ok_block_def)
qed

lemma ok_tx_sane:
  assumes "tx \<in> set (mb_Transactions ok_msg)"
  shows "CheckTransactionSanity plain_amounts ok_assets tx = Inr ()"
proof -
  have "list_all (\<lambda>tx. SerializeSizeStripped plain_amounts tx \<le> 200) (mb_Transactions ok_msg)"
    "list_all (\<lambda>tx. TxIns tx \<noteq> [] \<and> TxOuts tx \<noteq> [] \<and> sane_outputs plain_amounts ok_assets (TxOuts tx) 0 = Inr ()) (mb_Transactions ok_msg)"
    "list_all (\<lambda>tx. distinct (map PreviousOutPoint (TxIns tx)) \<and>
       (if IsCoinBaseTx tx then length (SignatureScript (TxIns tx ! 0)) = 2
        else \<not> list_ex (\<lambda>txIn. isNullOutpoint (PreviousOutPoint txIn)) (TxIns tx)) \<and>
       \<not> list_ex (\<lambda>txIn. IsEnvelope (SignatureScript txIn) \<or> list_ex IsEnvelope (Witness txIn)) (TxIns tx)) (mb_Transactions ok_msg)"
    by code_simp+
  with assms have "SerializeSizeStripped plain_amounts tx \<le> 200" "TxIns tx \<noteq> []" "TxOuts tx \<noteq> []"
    "sane_outputs plain_amounts ok_assets (TxOuts tx) 0 = Inr ()" "distinct (map PreviousOutPoint (TxIns tx))"
    "if IsCoinBaseTx tx then length (SignatureScript (TxIns tx ! 0)) = 2
     else \<not> list_ex (\<lambda>txIn. isNullOutpoint (PreviousOutPoint txIn)) (TxIns tx)"
    "\<not> list_ex (\<lambda>txIn. IsEnvelope (SignatureScript txIn) \<or> list_ex IsEnvelope (Witness txIn)) (TxIns tx)"
    unfolding list_all_iff by blast+
  then show ?thesis
    by (simp add: CheckTransactionSanity_def MaxBlockBaseSize_def MinCoinbaseScriptLen_def MaxCoinbaseScriptLen_def Let_def split: if_splits)
qed

lemma ok_sane: "checkBlockSanity (\<lambda>_. zeroHash) ex_txid ex_txid plain_amounts ok_assets 0 ok_msg = Inr ()"
proof -
  have txs: "check_all (CheckTransactionSanity plain_amounts ok_assets) (mb_Transactions ok_msg) = Inr ()"
    using ok_tx_sane by (simp add: ok_msg_def ok_block_def)
  have "length (mb_Transactions ok_msg) = 2" "IsCoinBaseTx (mb_Transactions ok_msg ! 0)"
    "\<not> list_ex IsCoinBaseTx (tl (mb_Transactions ok_msg))" "MsgBlock_SerializeSizeStripped plain_amounts ok_msg \<le> 400"
    "CheckBlockHeaderSanity (mb_Header ok_msg) 0 = Inr ()" "block_sigops (mb_Transactions ok_msg) 0 = Inr ()"
    "distinct (map ex_txid (mb_Transactions ok_msg))" "bh_MerkleRoot (mb_Header ok_msg) = zeroHash"
    by code_simp+
  with txs show ?thesis
    by (simp add: checkBlockSanity_def Let_def ok_merkle MaxBlockBaseSize_def not_less del: length_0_conv)
qed

lemma ok_fetch:
  "fetchInputUtxos plain_amounts flat_keys ex_txid ex_log2 Map.empty ok_block (ok_view, ex_cache) = Inr (ok_fetched, ex_cache)"
proof -
  have needed: "findInputsToFetch ex_txid ok_block ok_view = Inr (ok_view, [PreviousOutPoint (ex_in 9)])"
    by (simp add: findInputsToFetch_def ok_block_def transactionConsumesSpendJournal_def IsAnchorTx_def ex_in_def
        AnchorTxOutIndex_def zeroHash_Cons txInFlight_def ex_txid_def NewUtxoViewpoint_def ok_view_def)
  have "ms_ok (uc_cachedEntries (newUtxoCache ex_log2 1000000 :: bytes utxoCache))"
    using new_cache(1) [of plain_amounts flat_keys ex_log2 1000000 Map.empty] by (simp add: cache_inv_def)
  then have "ms_get (uc_cachedEntries ex_cache) (PreviousOutPoint (ex_in 9)) = Some (Some (new_output_entry ex_out False 3))"
    by (simp add: ex_cache_def cache_entry_def ms_put_correct)
  then have "fetchEntries plain_amounts flat_keys ex_log2 Map.empty [PreviousOutPoint (ex_in 9)] ex_cache =
      Inr ([Some (new_output_entry ex_out False 3)], ex_cache)"
    by (simp add: fetchEntries_def missing_ops_def)
  then show ?thesis
    by (simp add: fetchInputUtxos_def needed fetchUtxosFromCache_def)
       (simp add: ok_fetched_def ok_view_def ex_view_def put_entry_def)
qed

lemma ok_txs: "bl_Transactions ok_block = mb_Transactions ok_msg"
  by (simp add: ok_msg_def)

lemma ok_checks:
  "sigop_costs ok_fetched False True (enumerate 0 (bl_Transactions ok_block)) 0 = Inr ()"
  "checkCoinbaseFees ok_assets (bl_Transactions ok_block ! 0) 3 [] = Inr ()"
  "checkAnchorTxsUnique (ce_anchors ok_env) False 5 [] (bl_Transactions ok_block) = Inr ()"
  by code_simp+

lemma ok_inputs:
  "map_sum id (\<lambda>(f, fa, v, st). (f, fa, map (length \<circ> st_Assets) st))
    (check_inputs plain_amounts ok_assets ex_txid ok_env ok_params 5 (bl_Transactions ok_block) (0, [], ok_fetched, [])) = Inr (3, [], [1])"
  by code_simp

section \<open>Conservation\<close>

definition out_value :: "'d MsgTx \<Rightarrow> int" where
  "out_value tx = sum_list (map (\<lambda>out. sint (Value out)) (TxOuts tx))"

text \<open>The amount of an asset in an asset list, with \<open>val\<close> the number an amount stands for.\<close>

definition asset_total :: "('d \<Rightarrow> rat) \<Rightarrow> 'd TxAssets \<Rightarrow> AssetName \<Rightarrow> rat" where
  "asset_total val assets n = sum_list (map (\<lambda>a. if AssetInfo_Name a = n then val (Amount a) else 0) assets)"

definition out_assets :: "('d \<Rightarrow> rat) \<Rightarrow> 'd MsgTx \<Rightarrow> AssetName \<Rightarrow> rat" where
  "out_assets val tx n = sum_list (map (\<lambda>out. asset_total val (Assets out) n) (TxOuts tx))"

text \<open>
  The asset lists the library works on.  A list of assets is an ordered set (\<^verbatim>\<open>wire/txassets.go\<close>, and
  the sanity check of an output, which calls it a canonical ordered set); the checks admit only
  amounts that validate and are not negative; and all amounts of an asset are decimals of the
  precision of this asset.  An \<open>amount_reading\<close> gives the number a decimal stands for, its precision
  and the precision of each asset.
\<close>

record 'd amount_reading =
  am_value :: "'d \<Rightarrow> rat"
  am_precision :: "'d \<Rightarrow> nat"
  am_divisibility :: "AssetName \<Rightarrow> nat"

definition amounts_checked :: "'d decimal_ops \<Rightarrow> 'd asset_ops \<Rightarrow> 'd TxAssets \<Rightarrow> bool" where
  "amounts_checked dops aops assets \<longleftrightarrow> list_all (\<lambda>a. Validate dops (Amount a) \<and> 0 \<le> Sign aops (Amount a)) assets"

definition one_precision :: "'d amount_reading \<Rightarrow> 'd TxAssets \<Rightarrow> bool" where
  "one_precision R assets \<longleftrightarrow> list_all (\<lambda>a. am_precision R (Amount a) = am_divisibility R (AssetInfo_Name a)) assets"

definition canonical_assets :: "'d decimal_ops \<Rightarrow> 'd asset_ops \<Rightarrow> 'd amount_reading \<Rightarrow> 'd TxAssets \<Rightarrow> bool" where
  "canonical_assets dops aops R assets \<longleftrightarrow>
     assets_ordered assets = Inr () \<and> amounts_checked dops aops assets \<and> one_precision R assets"

text \<open>
  What validation relies on, for such lists only: a valid amount whose sign is not negative is not
  negative; \<^verbatim>\<open>Merge\<close> adds the amounts of two lists; \<^verbatim>\<open>Split\<close>, which reports a deficit as an error
  (\<^verbatim>\<open>checkCoinbaseFees\<close>: the assets "exceed expected fee assets"; \<^verbatim>\<open>ManagedBalance.Debit\<close>: "managed
  asset deficit"), takes the second list from the first; and both leave such a list.
\<close>

definition asset_laws :: "'d decimal_ops \<Rightarrow> 'd asset_ops \<Rightarrow> 'd amount_reading \<Rightarrow> bool" where
  "asset_laws dops aops R \<longleftrightarrow>
     (\<forall>d. Validate dops d \<longrightarrow> 0 \<le> Sign aops d \<longrightarrow> 0 \<le> am_value R d) \<and>
     (\<forall>a b c. canonical_assets dops aops R a \<longrightarrow> canonical_assets dops aops R b \<longrightarrow> Merge aops a b = Some c \<longrightarrow>
        canonical_assets dops aops R c \<and>
        (\<forall>n. asset_total (am_value R) c n = asset_total (am_value R) a n + asset_total (am_value R) b n)) \<and>
     (\<forall>a b c. canonical_assets dops aops R a \<longrightarrow> canonical_assets dops aops R b \<longrightarrow> Split aops a b = Some c \<longrightarrow>
        canonical_assets dops aops R c \<and>
        (\<forall>n. asset_total (am_value R) a n = asset_total (am_value R) b n + asset_total (am_value R) c n))"

lemma asset_lawsD:
  assumes "asset_laws dops aops R" "canonical_assets dops aops R a" "canonical_assets dops aops R b"
  shows "Merge aops a b = Some c \<Longrightarrow> canonical_assets dops aops R c"
    and "Merge aops a b = Some c \<Longrightarrow> asset_total (am_value R) c n = asset_total (am_value R) a n + asset_total (am_value R) b n"
    and "Split aops a b = Some c \<Longrightarrow> canonical_assets dops aops R c"
    and "Split aops a b = Some c \<Longrightarrow> asset_total (am_value R) c n = asset_total (am_value R) a n - asset_total (am_value R) b n"
proof -
  show "Merge aops a b = Some c \<Longrightarrow> canonical_assets dops aops R c" using assms unfolding asset_laws_def by blast
  show "Merge aops a b = Some c \<Longrightarrow> asset_total (am_value R) c n = asset_total (am_value R) a n + asset_total (am_value R) b n"
    using assms unfolding asset_laws_def by blast
  show "Split aops a b = Some c \<Longrightarrow> canonical_assets dops aops R c" using assms unfolding asset_laws_def by blast
  have "Split aops a b = Some c \<Longrightarrow> asset_total (am_value R) a n = asset_total (am_value R) b n + asset_total (am_value R) c n"
    using assms unfolding asset_laws_def by blast
  then show "Split aops a b = Some c \<Longrightarrow> asset_total (am_value R) c n = asset_total (am_value R) a n - asset_total (am_value R) b n"
    by simp
qed

lemma canonical_nonneg:
  assumes "asset_laws dops aops R" "canonical_assets dops aops R a"
  shows "0 \<le> asset_total (am_value R) a n"
proof -
  have "0 \<le> am_value R d" if "Validate dops d" "0 \<le> Sign aops d" for d
    using assms(1) that unfolding asset_laws_def by blast
  with assms(2) show ?thesis
    by (auto simp: asset_total_def canonical_assets_def amounts_checked_def list_all_iff intro!: sum_list_nonneg)
qed

lemma canonical_Nil [simp]: "canonical_assets dops aops R []"
  by (simp add: canonical_assets_def amounts_checked_def one_precision_def)

lemma asset_total_Nil [simp]: "asset_total val [] n = 0"
  by (simp add: asset_total_def)

lemma sint_add_money:
  fixes a b :: i64
  assumes "0 \<le> sint a" "sint a \<le> MaxSatoshi" "0 \<le> sint b" "sint b \<le> MaxSatoshi"
  shows "sint (a + b) = sint a + sint b"
  using sint_word_of_int_i64 [of "sint a + sint b"] assms by (simp add: MaxSatoshi_def)

lemma sint_add_nonneg:
  fixes a b :: i64
  assumes "0 \<le> sint a" "0 \<le> sint b" "sint a \<le> sint (a + b)"
  shows "sint (a + b) = sint a + sint b"
proof (rule ccontr)
  assume ne: "sint (a + b) \<noteq> sint a + sint b"
  have lt: "sint a < 2 ^ 63" "sint b < 2 ^ 63" using sint_lt [of a] sint_lt [of b] by simp_all
  with ne have "sint a + sint b \<ge> 2 ^ 63"
    using sint_word_of_int_i64 [of "sint a + sint b"] assms(1,2) by force
  then have "sint (word_of_int (sint a + sint b - 2 ^ 64) :: i64) = sint a + sint b - 2 ^ 64"
    using lt by (intro sint_word_of_int_i64) simp_all
  moreover have "(word_of_int (sint a + sint b - 2 ^ 64) :: i64) = a + b"
    by simp
  ultimately have "sint (a + b) = sint a + sint b - 2 ^ 64" by (simp only:)
  then show False using lt assms by simp
qed

text \<open>What passes the sanity check: outputs in the money range, also together, and distinct inputs.\<close>

lemma sane_outputs_money:
  assumes "sane_outputs dops aops outs t = Inr ()" "0 \<le> sint t" "sint t \<le> MaxSatoshi"
  shows "list_all (\<lambda>out. 0 \<le> sint (Value out)) outs \<and> sint t + sum_list (map (\<lambda>out. sint (Value out)) outs) \<le> MaxSatoshi"
  using assms
proof (induction outs arbitrary: t)
  case (Cons out outs)
  then have v: "0 \<le> sint (Value out)" "sint (Value out) \<le> MaxSatoshi"
    and t: "0 \<le> sint (t + Value out)" "sint (t + Value out) \<le> MaxSatoshi"
    and rest: "sane_outputs dops aops outs (t + Value out) = Inr ()"
    by (auto simp: Let_def split: if_splits)
  from Cons.IH [OF rest t] v sint_add_money [OF Cons.prems(2,3) v] show ?case by simp
qed simp

definition tx_sane :: "'d MsgTx \<Rightarrow> bool" where
  "tx_sane tx \<longleftrightarrow> list_all (\<lambda>out. 0 \<le> sint (Value out)) (TxOuts tx) \<and> out_value tx \<le> MaxSatoshi \<and>
     distinct (map PreviousOutPoint (TxIns tx))"

lemma CheckTransactionSanity_sane:
  assumes "CheckTransactionSanity dops aops tx = Inr ()"
  shows "tx_sane tx"
proof -
  have "sane_outputs dops aops (TxOuts tx) 0 = Inr ()" "distinct (map PreviousOutPoint (TxIns tx))"
    using assms by (auto simp: CheckTransactionSanity_def split: if_splits)
  with sane_outputs_money [of dops aops "TxOuts tx" 0] show ?thesis
    by (simp add: tx_sane_def out_value_def MaxSatoshi_def)
qed

text \<open>The asset lists of a sane transaction are ordered and have checked amounts.\<close>

lemma binding_sats_checked: "binding_sats dops aops assets t = Some u \<Longrightarrow> amounts_checked dops aops assets"
  by (induction dops aops assets t rule: binding_sats.induct)
     (auto simp: amounts_checked_def Let_def split: if_splits option.splits)

lemma sane_outputs_assets:
  "sane_outputs dops aops outs t = Inr () \<Longrightarrow>
   list_all (\<lambda>out. assets_ordered (Assets out) = Inr () \<and> amounts_checked dops aops (Assets out)) outs"
proof (induction outs arbitrary: t)
  case (Cons out outs)
  then have "checkAssetOutput dops aops out = Inr ()" "assets_ordered (Assets out) = Inr ()"
    "sane_outputs dops aops outs (t + Value out) = Inr ()"
    by (auto simp: Let_def split: if_splits)
  with Cons.IH show ?case
    by (auto simp: checkAssetOutput_def RequiredBindingSats_def split: if_splits option.splits dest: binding_sats_checked)
qed simp

lemma CheckTransactionSanity_assets:
  assumes "CheckTransactionSanity dops aops tx = Inr ()" "list_all (\<lambda>out. one_precision R (Assets out)) (TxOuts tx)"
  shows "list_all (\<lambda>out. canonical_assets dops aops R (Assets out)) (TxOuts tx)"
proof -
  have "sane_outputs dops aops (TxOuts tx) 0 = Inr ()"
    using assms(1) by (auto simp: CheckTransactionSanity_def split: if_splits)
  from sane_outputs_assets [OF this] assms(2) show ?thesis by (auto simp: canonical_assets_def list_all_iff)
qed

text \<open>The assets an input brings have checked amounts.\<close>

lemma collect_bindings_checked:
  "collect_bindings dops aops assets m = Inr m' \<Longrightarrow> amounts_checked dops aops assets"
  by (induction dops aops assets m rule: collect_bindings.induct) (auto simp: amounts_checked_def split: if_splits)

lemma input_bindings_checked:
  "input_bindings dops aops view ins m = Inr m' \<Longrightarrow>
   list_all (\<lambda>i. amounts_checked dops aops (st_Assets (the (unspent view (PreviousOutPoint i))))) ins"
proof (induction ins arbitrary: m)
  case (Cons i ins)
  then obtain e m1 where "LookupEntry view (PreviousOutPoint i) = Some e" "\<not> IsSpent e"
    "collect_bindings dops aops (ue_txAssets e) m = Inr m1" "input_bindings dops aops view ins m1 = Inr m'"
    by (auto split: option.splits if_splits)
  with Cons.IH show ?case by (auto simp: unspent_def spent_of_def dest: collect_bindings_checked)
qed simp

lemma sum_outputs_sum:
  assumes "sum_outputs aops outs (t, a) = Inr (t', a')" "list_all (\<lambda>out. 0 \<le> sint (Value out)) outs"
    and "0 \<le> sint t" "sint t + sum_list (map (\<lambda>out. sint (Value out)) outs) \<le> MaxSatoshi"
  shows "sint t' = sint t + sum_list (map (\<lambda>out. sint (Value out)) outs)"
  using assms
proof (induction outs arbitrary: t a)
  case (Cons out outs)
  have "0 \<le> sum_list (map (\<lambda>out. sint (Value out)) outs)"
    using Cons.prems(2) by (intro sum_list_nonneg) (auto simp: list_all_iff)
  then have add: "sint (t + Value out) = sint t + sint (Value out)"
    using Cons.prems by (intro sint_add_money) simp_all
  obtain a1 where "sum_outputs aops outs (t + Value out, a1) = Inr (t', a')"
    using Cons.prems(1) by (auto split: option.splits)
  from Cons.IH [OF this] Cons.prems show ?case by (simp add: add)
qed simp

lemma sum_outputs_assets:
  assumes "asset_laws dops aops R" "sum_outputs aops outs (t, a) = Inr (t', a')" "canonical_assets dops aops R a"
    "list_all (\<lambda>out. canonical_assets dops aops R (Assets out)) outs"
  shows "canonical_assets dops aops R a' \<and>
    asset_total (am_value R) a' n = asset_total (am_value R) a n - sum_list (map (\<lambda>out. asset_total (am_value R) (Assets out) n) outs)"
  using assms(2-4)
proof (induction outs arbitrary: t a)
  case (Cons out outs)
  then obtain a1 where a1: "Split aops a (Assets out) = Some a1" "sum_outputs aops outs (t + Value out, a1) = Inr (t', a')"
    by (auto split: option.splits)
  have out: "canonical_assets dops aops R (Assets out)" using Cons.prems(3) by simp
  note split = asset_lawsD(3,4) [OF assms(1) Cons.prems(2) out a1(1)]
  from Cons.IH [OF a1(2) split(1)] Cons.prems(3) split(2) [of n] show ?case by simp
qed simp

abbreviation spent_by :: "'d UtxoViewpoint \<Rightarrow> TxIn list \<Rightarrow> 'd SpentTxOut list" where
  "spent_by view ins \<equiv> map (\<lambda>i. the (unspent view (PreviousOutPoint i))) ins"

lemma sum_inputs_unspent:
  assumes "sum_inputs aops params h view ins (t, a) = Inr (t', a')" "0 \<le> sint t"
  shows "list_all (\<lambda>i. unspent view (PreviousOutPoint i) \<noteq> None) ins \<and>
    sint t' = sint t + sum_list (map (sint \<circ> st_Amount) (spent_by view ins))"
  using assms
proof (induction ins arbitrary: t a)
  case (Cons i ins)
  then obtain e a1 where e: "LookupEntry view (PreviousOutPoint i) = Some e" "\<not> IsSpent e" "0 \<le> sint (ue_amount e)"
    "sint t \<le> sint (t + ue_amount e)" "sum_inputs aops params h view ins (t + ue_amount e, a1) = Inr (t', a')"
    by (auto simp: Let_def not_less split: option.splits if_splits)
  have u: "unspent view (PreviousOutPoint i) = Some (spent_of e)" using e by (simp add: unspent_def)
  have add: "sint (t + ue_amount e) = sint t + sint (ue_amount e)" using e Cons.prems(2) by (intro sint_add_nonneg)
  from Cons.IH [OF e(5)] e Cons.prems(2) show ?case by (simp add: add u spent_of_def)
qed simp

lemma sum_inputs_assets:
  assumes "asset_laws dops aops R" "sum_inputs aops params h view ins (t, a) = Inr (t', a')" "canonical_assets dops aops R a"
    "list_all (\<lambda>s. canonical_assets dops aops R (st_Assets s)) (spent_by view ins)"
  shows "canonical_assets dops aops R a' \<and>
    asset_total (am_value R) a' n =
      asset_total (am_value R) a n + sum_list (map (\<lambda>s. asset_total (am_value R) (st_Assets s) n) (spent_by view ins))"
  using assms(2-4)
proof (induction ins arbitrary: t a)
  case (Cons i ins)
  then obtain e a1 where e: "LookupEntry view (PreviousOutPoint i) = Some e" "\<not> IsSpent e"
    "Merge aops a (ue_txAssets e) = Some a1" "sum_inputs aops params h view ins (t + ue_amount e, a1) = Inr (t', a')"
    by (auto simp: Let_def split: option.splits if_splits)
  have u: "unspent view (PreviousOutPoint i) = Some (spent_of e)" using e by (simp add: unspent_def)
  then have "canonical_assets dops aops R (ue_txAssets e)" using Cons.prems(3) by (simp add: spent_of_def)
  note merge = asset_lawsD(1,2) [OF assms(1) Cons.prems(2) this e(3)]
  from Cons.IH [OF e(4) merge(1)] Cons.prems(3) merge(2) [of n] show ?case by (simp add: u spent_of_def)
qed simp

definition spent_value :: "'d SpentTxOut list \<Rightarrow> int" where
  "spent_value stxos = sum_list (map (sint \<circ> st_Amount) stxos)"

definition spent_assets :: "('d \<Rightarrow> rat) \<Rightarrow> 'd SpentTxOut list \<Rightarrow> AssetName \<Rightarrow> rat" where
  "spent_assets val stxos n = sum_list (map (\<lambda>s. asset_total val (st_Assets s) n) stxos)"

lemma spent_append [simp]:
  "spent_value [] = 0" "spent_assets val [] n = 0"
  "spent_value (xs @ ys) = spent_value xs + spent_value ys"
  "spent_assets val (xs @ ys) n = spent_assets val xs n + spent_assets val ys n"
  by (simp_all add: spent_value_def spent_assets_def)

abbreviation spends :: "'d MsgTx \<Rightarrow> bool" where
  "spends tx \<equiv> transactionConsumesSpendJournal tx (IsCoinBaseTx tx)"

lemma CheckTransactionInputs_fee:
  assumes "CheckTransactionInputs dops aops av gas params tx h view = Inr (fee, fa)" "tx_sane tx"
  shows "distinct (tx_ins tx) \<and> list_all (\<lambda>op. unspent view op \<noteq> None) (tx_ins tx) \<and> 0 \<le> sint fee \<and>
    sint fee = spent_value (tx_undo (unspent view) tx) - (if spends tx then out_value tx else 0)"
proof (cases "spends tx")
  case True
  then have ins: "tx_ins tx = map PreviousOutPoint (TxIns tx)" and c: "\<not> IsCoinBaseTx tx" "\<not> IsAnchorTx tx"
    by (simp_all add: tx_ins_def transactionConsumesSpendJournal_def)
  obtain i a out a' where i: "sum_inputs aops params h view (TxIns tx) (0, []) = Inr (i, a)"
    and out: "sum_outputs aops (TxOuts tx) (0, a) = Inr (out, a')" and le: "sint out \<le> sint i" and fee: "fee = i - out"
    using assms(1) c by (auto simp: CheckTransactionInputs_def Let_def split: if_splits)
  have si: "list_all (\<lambda>i. unspent view (PreviousOutPoint i) \<noteq> None) (TxIns tx)"
    "sint i = spent_value (spent_by view (TxIns tx))"
    using sum_inputs_unspent [OF i] by (simp_all add: spent_value_def)
  have so: "sint out = out_value tx" "0 \<le> out_value tx"
    using sum_outputs_sum [OF out] assms(2)
    by (auto simp: tx_sane_def out_value_def list_all_iff intro!: sum_list_nonneg)
  then have "0 \<le> sint out" by simp
  then have "sint (i - out) = sint i - sint out"
    using sint_word_of_int_i64 [of "sint i - sint out"] le sint_lt [of i] by simp
  with si so le fee show ?thesis
    using True assms(2) by (auto simp: ins tx_undo_def tx_sane_def list_all_iff comp_def)
next
  case False
  then have "fee = 0"
    using assms(1) by (auto simp: CheckTransactionInputs_def transactionConsumesSpendJournal_def split: if_splits)
  with False show ?thesis by (simp add: tx_ins_def tx_undo_def)
qed

text \<open>The spent outputs of which the list order and the precision are known.\<close>

definition stored_assets :: "'d amount_reading \<Rightarrow> 'd SpentTxOut list \<Rightarrow> bool" where
  "stored_assets R stxos \<longleftrightarrow> list_all (\<lambda>s. assets_ordered (st_Assets s) = Inr () \<and> one_precision R (st_Assets s)) stxos"

lemma CheckTransactionInputs_assets:
  assumes "CheckTransactionInputs dops aops av gas params tx h view = Inr (fee, fa)" "asset_laws dops aops R"
    "stored_assets R (tx_undo (unspent view) tx)" "list_all (\<lambda>out. canonical_assets dops aops R (Assets out)) (TxOuts tx)"
  shows "canonical_assets dops aops R fa \<and>
    asset_total (am_value R) fa n =
      spent_assets (am_value R) (tx_undo (unspent view) tx) n - (if spends tx then out_assets (am_value R) tx n else 0)"
proof (cases "spends tx")
  case True
  then have ins: "tx_ins tx = map PreviousOutPoint (TxIns tx)" and c: "\<not> IsCoinBaseTx tx" "\<not> IsAnchorTx tx"
    by (simp_all add: tx_ins_def transactionConsumesSpendJournal_def)
  obtain i a out where b: "checkTransactionAssetBindings dops aops tx view = Inr ()"
    and i: "sum_inputs aops params h view (TxIns tx) (0, []) = Inr (i, a)"
    and out: "sum_outputs aops (TxOuts tx) (0, a) = Inr (out, fa)"
    using assms(1) c by (auto simp: CheckTransactionInputs_def Let_def split: if_splits)
  have undo: "tx_undo (unspent view) tx = spent_by view (TxIns tx)" by (simp add: ins tx_undo_def comp_def)
  obtain m where "input_bindings dops aops view (TxIns tx) Map.empty = Inr m"
    using b by (auto simp: checkTransactionAssetBindings_def andthen_def split: sum.splits)
  from input_bindings_checked [OF this] assms(3)
  have "list_all (\<lambda>s. canonical_assets dops aops R (st_Assets s)) (spent_by view (TxIns tx))"
    by (auto simp: undo stored_assets_def canonical_assets_def list_all_iff)
  note sums = sum_inputs_assets [OF assms(2) i canonical_Nil this, of n]
  from sums sum_outputs_assets [OF assms(2) out _ assms(4), of n] True show ?thesis
    by (simp add: undo spent_assets_def out_assets_def)
next
  case False
  then have "fa = []"
    using assms(1) by (auto simp: CheckTransactionInputs_def transactionConsumesSpendJournal_def split: if_splits)
  with False show ?thesis by (simp add: tx_ins_def tx_undo_def)
qed

text \<open>One round of the loop that checks the inputs.\<close>

lemma check_inputs_Cons:
  assumes "check_inputs dops aops txid env params h (tx # txs) (f, fa, v, st) = Inr r" "tx_sane tx" "0 \<le> sint f"
  obtains fee feea fa1 w where
    "CheckTransactionInputs dops aops (ce_anchorValid env) (ce_gasFee env) params tx h v = Inr (fee, feea)"
    "Merge aops fa feea = Some fa1"
    "distinct (tx_ins tx)" "list_all (\<lambda>op. unspent v op \<noteq> None) (tx_ins tx)"
    "sint (f + fee) = sint f + (spent_value (tx_undo (unspent v) tx) - (if spends tx then out_value tx else 0))"
    "0 \<le> sint (f + fee)" "unspent w = tx_apply txid h (unspent v) tx"
    "check_inputs dops aops txid env params h txs (f + fee, fa1, w, st @ tx_undo (unspent v) tx) = Inr r"
proof -
  obtain fee feea fa1 w st1 where r:
    "CheckTransactionInputs dops aops (ce_anchorValid env) (ce_gasFee env) params tx h v = Inr (fee, feea)"
    "Merge aops fa feea = Some fa1" "sint f \<le> sint (f + fee)"
    "view_connectTransaction txid tx h (v, st) = Inr (w, st1)"
    "check_inputs dops aops txid env params h txs (f + fee, fa1, w, st1) = Inr r"
    using assms(1) by (auto simp: Let_def lift_state_def not_less split: option.splits if_splits sum.splits)
  note fee = CheckTransactionInputs_fee [OF r(1) assms(2)]
  have add: "sint (f + fee) = sint f + sint fee" using r(3) fee assms(3) by (intro sint_add_nonneg) simp_all
  obtain w' where "view_connectTransaction txid tx h (v, st) = Inr (w', st @ tx_undo (unspent v) tx)"
    "unspent w' = tx_apply txid h (unspent v) tx"
    using fee by (blast intro: connect_tx_inputs)
  with r(4) have "w' = w" "st1 = st @ tx_undo (unspent v) tx" "unspent w = tx_apply txid h (unspent v) tx" by simp_all
  with r fee add assms(3) show thesis by (intro that [of fee feea fa1 w]) simp_all
qed

lemma check_inputs_value:
  assumes "check_inputs dops aops txid env params h txs (f, fa, v, st) = Inr (f', fa', v', st')"
    "list_all tx_sane txs" "0 \<le> sint f"
  shows "0 \<le> sint f' \<and> sint f' - sint f = spent_value st' - spent_value st - sum_list (map out_value (filter spends txs))"
  using assms
proof (induction txs arbitrary: f fa v st)
  case (Cons tx txs)
  then have "tx_sane tx" by simp
  with Cons.prems(1,3) obtain fee fa1 w where
    "sint (f + fee) = sint f + (spent_value (tx_undo (unspent v) tx) - (if spends tx then out_value tx else 0))"
    "0 \<le> sint (f + fee)"
    "check_inputs dops aops txid env params h txs (f + fee, fa1, w, st @ tx_undo (unspent v) tx) = Inr (f', fa', v', st')"
    by (blast elim: check_inputs_Cons)
  with Cons.IH [OF this(3)] Cons.prems(2) show ?case by (cases "spends tx") simp_all
qed simp

lemma check_inputs_journal:
  assumes "check_inputs dops aops txid env params h txs (f, fa, v, st) = Inr (f', fa', v', st')" "list_all tx_sane txs" "0 \<le> sint f"
  shows "\<exists>more. st' = st @ more"
  using assms
proof (induction txs arbitrary: f fa v st)
  case (Cons tx txs)
  then have "tx_sane tx" by simp
  with Cons.prems(1,3) obtain fee fa1 w where "0 \<le> sint (f + fee)"
    "check_inputs dops aops txid env params h txs (f + fee, fa1, w, st @ tx_undo (unspent v) tx) = Inr (f', fa', v', st')"
    by (blast elim: check_inputs_Cons)
  with Cons.IH [OF this(2)] Cons.prems(2) show ?case by auto
qed simp

lemma check_inputs_assets:
  assumes "check_inputs dops aops txid env params h txs (f, fa, v, st) = Inr (f', fa', v', st')"
    "list_all tx_sane txs" "0 \<le> sint f" "asset_laws dops aops R" "canonical_assets dops aops R fa" "stored_assets R st'"
    "list_all (\<lambda>tx. list_all (\<lambda>out. canonical_assets dops aops R (Assets out)) (TxOuts tx)) txs"
  shows "canonical_assets dops aops R fa' \<and>
    asset_total (am_value R) fa' n - asset_total (am_value R) fa n =
      spent_assets (am_value R) st' n - spent_assets (am_value R) st n - sum_list (map (\<lambda>tx. out_assets (am_value R) tx n) (filter spends txs))"
  using assms(1-3,5,7)
proof (induction txs arbitrary: f fa v st)
  case (Cons tx txs)
  then have "tx_sane tx" by simp
  with Cons.prems(1,3) obtain fee feea fa1 w where r:
    "CheckTransactionInputs dops aops (ce_anchorValid env) (ce_gasFee env) params tx h v = Inr (fee, feea)"
    "Merge aops fa feea = Some fa1" "0 \<le> sint (f + fee)"
    "check_inputs dops aops txid env params h txs (f + fee, fa1, w, st @ tx_undo (unspent v) tx) = Inr (f', fa', v', st')"
    by (blast elim: check_inputs_Cons)
  have sane: "list_all tx_sane txs" using Cons.prems(2) by simp
  obtain more where "st' = (st @ tx_undo (unspent v) tx) @ more" using check_inputs_journal [OF r(4) sane r(3)] by blast
  then have "stored_assets R (tx_undo (unspent v) tx)" using assms(6) by (simp add: stored_assets_def)
  note fees = CheckTransactionInputs_assets [OF r(1) assms(4) this, of n]
  have "canonical_assets dops aops R feea" using fees Cons.prems(5) by simp
  note merge = asset_lawsD(1,2) [OF assms(4) Cons.prems(4) this r(2)]
  from Cons.IH [OF r(4) sane r(3) merge(1)] merge(2) [of n] fees Cons.prems(5) show ?case by (cases "spends tx") simp_all
qed simp

lemma coinbase_outputs_sum:
  assumes "coinbase_outputs aops fa outs (t, a) = Inr (t', a')" "list_all (\<lambda>out. 0 \<le> sint (Value out)) outs"
    and "0 \<le> sint t" "sint t + sum_list (map (\<lambda>out. sint (Value out)) outs) \<le> MaxSatoshi"
  shows "sint t' = sint t + sum_list (map (\<lambda>out. sint (Value out)) outs)"
  using assms
proof (induction outs arbitrary: t a)
  case (Cons out outs)
  have "0 \<le> sum_list (map (\<lambda>out. sint (Value out)) outs)"
    using Cons.prems(2) by (intro sum_list_nonneg) (auto simp: list_all_iff)
  then have add: "sint (t + Value out) = sint t + sint (Value out)"
    using Cons.prems by (intro sint_add_money) simp_all
  obtain a1 where "coinbase_outputs aops fa outs (t + Value out, a1) = Inr (t', a')"
    using Cons.prems(1) by (auto split: option.splits)
  from Cons.IH [OF this] Cons.prems show ?case by (simp add: add)
qed simp

lemma coinbase_outputs_assets:
  assumes "asset_laws dops aops R" "coinbase_outputs aops fa outs (t, a) = Inr (t', a')" "canonical_assets dops aops R a"
    "list_all (\<lambda>out. canonical_assets dops aops R (Assets out)) outs"
  shows "canonical_assets dops aops R a' \<and>
    asset_total (am_value R) a' n = asset_total (am_value R) a n + sum_list (map (\<lambda>out. asset_total (am_value R) (Assets out) n) outs)"
  using assms(2-4)
proof (induction outs arbitrary: t a)
  case (Cons out outs)
  then obtain a1 where a1: "Merge aops a (Assets out) = Some a1" "coinbase_outputs aops fa outs (t + Value out, a1) = Inr (t', a')"
    by (auto split: option.splits)
  have out: "canonical_assets dops aops R (Assets out)" using Cons.prems(3) by simp
  note merge = asset_lawsD(1,2) [OF assms(1) Cons.prems(2) out a1(1)]
  from Cons.IH [OF a1(2) merge(1)] Cons.prems(3) merge(2) [of n] show ?case by simp
qed simp

lemma CalcBlockSubsidy_zero: "CalcBlockSubsidy height params = 0"
  by (simp add: CalcBlockSubsidy_def baseSubsidy_def)

lemma refuse_eq_Inr:
  "(if c then Inl e else m) = Inr x \<longleftrightarrow> \<not> c \<and> m = Inr x" "(if c then m else Inl e) = Inr x \<longleftrightarrow> c \<and> m = Inr x"
  by auto

text \<open>What acceptance of a block by the connection check establishes.\<close>

lemma checkConnectBlockFor_parts:
  assumes "checkConnectBlockFor dops aops kops txid log2 env params b nodeHash h ts ver block (view, cache) = Inr (view', stxos, cache')"
  obtains v0 c0 v1 f fa v2 where
    "(if \<not> isBIP0030Node h nodeHash \<and> sint h < sint (cp_BIP0034Height params)
      then checkBIP0030 dops kops txid log2 b block (view, cache) else Inr (view, cache)) = Inr (v0, c0)"
    "fetchInputUtxos dops kops txid log2 b block (v0, c0) = Inr (v1, cache')"
    "checkAnchorTxsUnique (ce_anchors env) (ce_testNet env) (bl_Height block) (ce_hashStr env) (bl_Transactions block) = Inr ()"
    "check_inputs dops aops txid env params h (bl_Transactions block) (0, [], v1, []) = Inr (f, fa, v2, stxos)"
    "bl_Transactions block \<noteq> []" "checkCoinbaseFees aops (bl_Transactions block ! 0) f fa = Inr ()"
    "view' = v2\<lparr>vw_bestHash := nodeHash\<rparr>" "vw_bestHash view = bl_PrevBlock block"
proof -
  have lift: "lift_state m = Inr x \<longleftrightarrow> m = Inr x" for m :: "utxo_error + 'd UtxoViewpoint \<times> 'd utxoCache" and x
    by (simp add: lift_state_def split: sum.splits)
  show thesis
    using assms
    by (clarsimp simp: checkConnectBlockFor_def Let_def refuse_eq_Inr lift CalcBlockSubsidy_zero split del: if_split)
       (rule that; simp add: refuse_eq_Inr)
qed

lemma check_all_eq_Inr [simp]: "check_all f xs = Inr () \<longleftrightarrow> list_all (\<lambda>x. f x = Inr ()) xs"
  by (induction xs) auto

lemma checkBlockSanity_txs:
  assumes "checkBlockSanity sha txid wtxid dops aops now msgBlock = Inr ()"
  shows "list_all (\<lambda>tx. CheckTransactionSanity dops aops tx = Inr ()) (mb_Transactions msgBlock)"
  using assms by (auto simp: checkBlockSanity_def Let_def refuse_eq_Inr list_all_iff split: option.splits)

lemma checkBlockSanity_parts:
  assumes "checkBlockSanity sha txid wtxid dops aops now msgBlock = Inr ()"
  obtains cb rest where "mb_Transactions msgBlock = cb # rest" "IsCoinBaseTx cb" "list_all (\<lambda>tx. \<not> IsCoinBaseTx tx) rest"
    "list_all tx_sane (cb # rest)" "distinct (map txid (cb # rest))"
proof -
  obtain cb rest where txs: "mb_Transactions msgBlock = cb # rest"
    using assms by (cases "mb_Transactions msgBlock") (auto simp: checkBlockSanity_def Let_def)
  then have "IsCoinBaseTx cb" "list_all (\<lambda>tx. \<not> IsCoinBaseTx tx) rest" "distinct (map txid (cb # rest))"
    using assms
    by (auto simp: checkBlockSanity_def Let_def refuse_eq_Inr list_ex_iff list_all_iff split: option.splits)
  with txs checkBlockSanity_txs [OF assms] show thesis
    by (intro that) (auto simp: list_all_iff intro: CheckTransactionSanity_sane)
qed

text \<open>The transactions of a block other than anchors: the coinbase and those that spend.\<close>

lemma not_anchor_coinbase: "IsCoinBaseTx tx \<Longrightarrow> \<not> IsAnchorTx tx"
  by (auto simp: IsCoinBaseTx_def IsAnchorTx_def AnchorTxOutIndex_def Let_def split: if_splits)

lemma not_anchors:
  assumes "IsCoinBaseTx cb" "list_all (\<lambda>tx. \<not> IsCoinBaseTx tx) rest"
  shows "filter (\<lambda>tx. \<not> IsAnchorTx tx) (cb # rest) = cb # filter spends (cb # rest)"
  using assms
  by (auto simp: not_anchor_coinbase transactionConsumesSpendJournal_def list_all_iff intro!: filter_cong)

lemma ok_connected:
  obtains view' stxos where "checkConnectBlockFor plain_amounts ok_assets flat_keys ex_txid ex_log2 ok_env ok_params Map.empty
      [5] 5 0 2 ok_block (ok_view, ex_cache) = Inr (view', stxos, ex_cache)" "map (length \<circ> st_Assets) stxos = [1]"
proof -
  obtain v st where c: "check_inputs plain_amounts ok_assets ex_txid ok_env ok_params 5 (bl_Transactions ok_block)
      (0, [], ok_fetched, []) = Inr (3, [], v, st)" and st: "map (length \<circ> st_Assets) st = [1]"
    using ok_inputs by (cases "check_inputs plain_amounts ok_assets ex_txid ok_env ok_params 5 (bl_Transactions ok_block)
      (0, [], ok_fetched, [])") auto
  have b: "bl_Transactions ok_block \<noteq> []" "bl_PrevBlock ok_block = [4]" "bl_Height ok_block = 5" "vw_bestHash ok_view = [4]"
    by (simp_all add: ok_block_def ok_view_def)
  have e: "ce_contract ok_env x = Inr ()" "ce_segwit ok_env = Inr True" "ce_csv ok_env = Inr False" "ce_taproot ok_env = Inr True"
    "ce_checkpoint ok_env = None" "ce_scripts ok_env x y = Inr ()" "ce_testNet ok_env = False" "ce_hashStr ok_env = []" for x y
    by (simp_all add: ok_env_def)
  have p: "cp_GenesisHash ok_params = []" "cp_BIP0034Height ok_params = 0" by (simp_all add: ok_params_def)
  have "\<exists>view'. checkConnectBlockFor plain_amounts ok_assets flat_keys ex_txid ex_log2 ok_env ok_params Map.empty
      [5] 5 0 2 ok_block (ok_view, ex_cache) = Inr (view', st, ex_cache)"
    unfolding checkConnectBlockFor_def prod.case Let_def
    by (simp add: ok_fetch ok_checks c b e p CalcBlockSubsidy_zero lift_state_def)
  then show thesis using st by (elim exE) (rule that)
qed

lemma ok_connects:
  obtains view' stxos where "checkConnectBlockFor plain_amounts ok_assets flat_keys ex_txid ex_log2 ok_env ok_params Map.empty
      [5] 5 0 2 ok_block (ok_view, ex_cache) = Inr (view', stxos, ex_cache)"
  by (rule ok_connected)

lemma block_value:
  assumes sane: "checkBlockSanity sha txid wtxid dops aops now msgBlock = Inr ()"
    and txs: "bl_Transactions block = mb_Transactions msgBlock"
    and ok: "checkConnectBlockFor dops aops kops txid log2 env params b nodeHash h ts ver block (view, cache) = Inr (view', stxos, cache')"
  shows "sum_list (map out_value (filter (\<lambda>tx. \<not> IsAnchorTx tx) (bl_Transactions block))) \<le> spent_value stxos"
proof -
  obtain cb rest where cb: "bl_Transactions block = cb # rest" "IsCoinBaseTx cb" "list_all (\<lambda>tx. \<not> IsCoinBaseTx tx) rest"
    "list_all tx_sane (cb # rest)"
    using sane unfolding txs by (rule checkBlockSanity_parts)
  obtain v1 f fa v2 where c: "check_inputs dops aops txid env params h (cb # rest) (0, [], v1, []) = Inr (f, fa, v2, stxos)"
    "checkCoinbaseFees aops cb f fa = Inr ()"
    using ok by (rule checkConnectBlockFor_parts) (simp add: cb)
  obtain t a where t: "coinbase_outputs aops fa (TxOuts cb) (0, []) = Inr (t, a)" "sint t \<le> sint f"
    using c(2) by (auto simp: checkCoinbaseFees_def split: if_splits)
  have "sint t = out_value cb" using coinbase_outputs_sum [OF t(1)] cb(4) by (simp add: tx_sane_def out_value_def)
  with t(2) check_inputs_value [OF c(1) cb(4)] show ?thesis
    by (simp add: cb(1) not_anchors [OF cb(2,3)] del: filter.simps)
qed

text \<open>
  C3 (no inflation): in a block that passes the sanity check and the connection check, the
  outputs of all transactions other than anchors are worth no more satoshis than the outputs
  the block spends; no sum wraps around.
\<close>

theorem no_inflation:
  assumes "checkBlockSanity sha txid wtxid dops aops now msgBlock = Inr ()"
    and "bl_Transactions block = mb_Transactions msgBlock"
    and "checkConnectBlockFor dops aops kops txid log2 env params b nodeHash h ts ver block (view, cache) = Inr (view', stxos, cache')"
  shows "sum_list (map out_value (filter (\<lambda>tx. \<not> IsAnchorTx tx) (bl_Transactions block))) \<le> spent_value stxos"
  using assms by (rule block_value)

theorem no_inflation_witness:
  "\<exists>view' stxos. checkConnectBlockFor plain_amounts ok_assets flat_keys ex_txid ex_log2 ok_env ok_params Map.empty
      [5] 5 0 2 ok_block (ok_view, ex_cache) = Inr (view', stxos, ex_cache) \<and>
    sum_list (map out_value (filter (\<lambda>tx. \<not> IsAnchorTx tx) (bl_Transactions ok_block))) \<le> spent_value stxos"
proof (rule ok_connects)
  fix view' stxos
  assume ok: "checkConnectBlockFor plain_amounts ok_assets flat_keys ex_txid ex_log2 ok_env ok_params Map.empty
      [5] 5 0 2 ok_block (ok_view, ex_cache) = Inr (view', stxos, ex_cache)"
  from no_inflation [OF ok_sane ok_txs this] ok show ?thesis by blast
qed

text \<open>The concrete asset lists obey the laws.\<close>

definition name_less :: "AssetName \<Rightarrow> AssetName \<Rightarrow> bool" where
  "name_less a b \<longleftrightarrow> asset_order a b = Inr ()"

lemma name_less_iff:
  "name_less a b \<longleftrightarrow> Protocol a < Protocol b \<or>
     Protocol a = Protocol b \<and> (AssetType a < AssetType b \<or> AssetType a = AssetType b \<and> Ticker a < Ticker b)"
  by (cases a; cases b) (auto simp: name_less_def asset_order_def not_less less_le)

lemma name_less_trans: "name_less a b \<Longrightarrow> name_less b c \<Longrightarrow> name_less a c"
  by (auto simp: name_less_iff)

lemma name_less_total: "a \<noteq> b \<Longrightarrow> \<not> name_less a b \<Longrightarrow> name_less b a"
  by (cases a; cases b) (auto simp: name_less_iff)

lemma assets_ordered_sorted: "assets_ordered assets = Inr () \<longleftrightarrow> sorted_wrt name_less (map AssetInfo_Name assets)"
proof (induction assets rule: assets_ordered.induct)
  case (1 a b assets)
  have "andthen (asset_order (AssetInfo_Name a) (AssetInfo_Name b)) (\<lambda>_. k) = Inr () \<longleftrightarrow>
      name_less (AssetInfo_Name a) (AssetInfo_Name b) \<and> k = Inr ()" for k :: "chain_error + unit"
    by (auto simp: name_less_def andthen_def split: sum.splits)
  with 1 show ?case by (auto simp del: assets_ordered.simps simp: assets_ordered.simps(1) intro: name_less_trans)
qed auto

lemma add_asset_names: "AssetInfo_Name ` set (add_asset a bs) = insert (AssetInfo_Name a) (AssetInfo_Name ` set bs)"
  by (induction a bs rule: add_asset.induct) auto

lemma add_asset_ordered: "assets_ordered bs = Inr () \<Longrightarrow> assets_ordered (add_asset a bs) = Inr ()"
proof (induction a bs rule: add_asset.induct)
  case (2 a b bs)
  show ?case
  proof (cases "AssetInfo_Name a = AssetInfo_Name b \<or> name_less (AssetInfo_Name a) (AssetInfo_Name b)")
    case True
    then show ?thesis using 2(2) by (auto simp: assets_ordered_sorted name_less_def [symmetric] intro: name_less_trans)
  next
    case False
    then have "name_less (AssetInfo_Name b) x" if "x \<in> AssetInfo_Name ` set (add_asset a bs)" for x
      using that 2(2) name_less_total [of "AssetInfo_Name a" "AssetInfo_Name b"]
      by (auto simp: add_asset_names assets_ordered_sorted)
    with False 2 show ?thesis by (auto simp: assets_ordered_sorted name_less_def [symmetric])
  qed
qed simp

lemma sub_asset_names: "sub_asset a bs = Some cs \<Longrightarrow> AssetInfo_Name ` set cs \<subseteq> AssetInfo_Name ` set bs"
  by (induction a bs arbitrary: cs rule: sub_asset.induct) (auto split: if_splits, blast+)

lemma sub_asset_ordered: "assets_ordered bs = Inr () \<Longrightarrow> sub_asset a bs = Some cs \<Longrightarrow> assets_ordered cs = Inr ()"
proof (induction a bs arbitrary: cs rule: sub_asset.induct)
  case (2 a b bs)
  show ?case
  proof (cases "AssetInfo_Name a = AssetInfo_Name b")
    case False
    then obtain ds where ds: "sub_asset a bs = Some ds" "cs = b # ds" using 2(3) by auto
    with 2 False sub_asset_names [OF ds(1)] show ?thesis by (fastforce simp: assets_ordered_sorted)
  qed (use 2 in \<open>auto simp: assets_ordered_sorted split: if_splits\<close>)
qed (auto split: if_splits)

definition unary :: "bytes amount_reading" where
  "unary = \<lparr>am_value = (\<lambda>d. of_nat (length d)), am_precision = (\<lambda>_. 0), am_divisibility = (\<lambda>_. 0)\<rparr>"

lemma canonical_unary: "canonical_assets plain_amounts ok_assets unary assets \<longleftrightarrow> assets_ordered assets = Inr ()"
  by (simp add: canonical_assets_def amounts_checked_def one_precision_def plain_amounts_def ok_assets_def unary_def list_all_iff)

lemma asset_total_Cons:
  "asset_total val (a # as) n = (if AssetInfo_Name a = n then val (Amount a) else 0) + asset_total val as n"
  by (simp add: asset_total_def)

lemma add_asset_total:
  "asset_total (am_value unary) (add_asset a bs) n = asset_total (am_value unary) [a] n + asset_total (am_value unary) bs n"
  by (induction a bs rule: add_asset.induct) (auto simp: asset_total_Cons unary_def)

lemma sub_asset_total:
  "sub_asset a bs = Some cs \<Longrightarrow>
   asset_total (am_value unary) bs n = asset_total (am_value unary) [a] n + asset_total (am_value unary) cs n"
  by (induction a bs arbitrary: cs rule: sub_asset.induct) (auto simp: asset_total_Cons unary_def split: if_splits)

lemma fold_add_asset:
  "assets_ordered as = Inr () \<Longrightarrow> assets_ordered (fold add_asset bs as) = Inr () \<and>
   asset_total (am_value unary) (fold add_asset bs as) n = asset_total (am_value unary) as n + asset_total (am_value unary) bs n"
  by (induction bs arbitrary: as) (simp_all add: add_asset_ordered add_asset_total asset_total_Cons)

lemma sub_assets_law:
  "assets_ordered bs = Inr () \<Longrightarrow> sub_assets bs as = Some cs \<Longrightarrow> assets_ordered cs = Inr () \<and>
   asset_total (am_value unary) bs n = asset_total (am_value unary) as n + asset_total (am_value unary) cs n"
proof (induction bs as rule: sub_assets.induct)
  case (2 bs a as)
  then obtain ds where "sub_asset a bs = Some ds" "sub_assets ds as = Some cs" by (auto split: option.splits)
  with 2 show ?case by (auto simp: sub_asset_ordered sub_asset_total asset_total_Cons)
qed simp

lemma ok_assets_laws: "asset_laws plain_amounts ok_assets unary"
proof -
  have "0 \<le> am_value unary d" for d by (simp add: unary_def)
  moreover have "Merge ok_assets a b = Some (fold add_asset b a)" "Split ok_assets a b = sub_assets a b" for a b
    by (simp_all add: ok_assets_def)
  ultimately show ?thesis
    unfolding asset_laws_def canonical_unary using fold_add_asset sub_assets_law by simp
qed

text \<open>
  C6 (no asset inflation): in a block that passes the sanity check and the connection check, the
  outputs of all transactions other than anchors carry no more of any asset than the outputs the
  block spends.  That no amount is negative and that the lists of the block are ordered comes from
  the checks.  The hypotheses are that the library adds and subtracts exactly on ordered lists of
  valid amounts that are not negative and of one precision for each asset, that the assets in the
  block have these precisions, and that the lists of the spent outputs, which passed the check when
  they were created, are ordered and have these precisions.
\<close>

theorem no_asset_inflation:
  assumes sane: "checkBlockSanity sha txid wtxid dops aops now msgBlock = Inr ()"
    and txs: "bl_Transactions block = mb_Transactions msgBlock"
    and ok: "checkConnectBlockFor dops aops kops txid log2 env params b nodeHash h ts ver block (view, cache) = Inr (view', stxos, cache')"
    and laws: "asset_laws dops aops R"
    and outs: "list_all (\<lambda>tx. list_all (\<lambda>out. one_precision R (Assets out)) (TxOuts tx)) (bl_Transactions block)"
    and spent: "stored_assets R stxos"
  shows "sum_list (map (\<lambda>tx. out_assets (am_value R) tx n) (filter (\<lambda>tx. \<not> IsAnchorTx tx) (bl_Transactions block)))
    \<le> spent_assets (am_value R) stxos n"
proof -
  obtain cb rest where cb: "bl_Transactions block = cb # rest" "IsCoinBaseTx cb" "list_all (\<lambda>tx. \<not> IsCoinBaseTx tx) rest"
    "list_all tx_sane (cb # rest)"
    using sane unfolding txs by (rule checkBlockSanity_parts)
  have can: "list_all (\<lambda>tx. list_all (\<lambda>out. canonical_assets dops aops R (Assets out)) (TxOuts tx)) (cb # rest)"
    using checkBlockSanity_txs [OF sane] outs CheckTransactionSanity_assets [of dops aops _ R] cb(1) by (auto simp: txs list_all_iff)
  obtain v1 f fa v2 where c: "check_inputs dops aops txid env params h (cb # rest) (0, [], v1, []) = Inr (f, fa, v2, stxos)"
    "checkCoinbaseFees aops cb f fa = Inr ()"
    using ok by (rule checkConnectBlockFor_parts) (simp add: cb)
  obtain t a r where t: "coinbase_outputs aops fa (TxOuts cb) (0, []) = Inr (t, a)" "Split aops fa a = Some r"
    using c(2) by (auto simp: checkCoinbaseFees_def split: if_splits option.splits)
  have a: "canonical_assets dops aops R a" "asset_total (am_value R) a n = out_assets (am_value R) cb n"
    using coinbase_outputs_assets [OF laws t(1), of n] can by (simp_all add: out_assets_def)
  have fa: "canonical_assets dops aops R fa"
    "asset_total (am_value R) fa n = spent_assets (am_value R) stxos n - sum_list (map (\<lambda>tx. out_assets (am_value R) tx n) (filter spends (cb # rest)))"
    using check_inputs_assets [OF c(1) cb(4) _ laws _ spent can, of n] by simp_all
  have "0 \<le> asset_total (am_value R) r n" using asset_lawsD(3) [OF laws fa(1) a(1) t(2)] by (rule canonical_nonneg [OF laws])
  with asset_lawsD(4) [OF laws fa(1) a(1) t(2), of n] a(2) fa(2) show ?thesis
    by (simp add: cb(1) not_anchors [OF cb(2,3)] del: filter.simps)
qed

theorem no_asset_inflation_witness:
  "\<exists>view' stxos. checkConnectBlockFor plain_amounts ok_assets flat_keys ex_txid ex_log2 ok_env ok_params Map.empty
      [5] 5 0 2 ok_block (ok_view, ex_cache) = Inr (view', stxos, ex_cache) \<and>
    sum_list (map (\<lambda>tx. out_assets (am_value unary) tx (AssetInfo_Name example_asset))
      (filter (\<lambda>tx. \<not> IsAnchorTx tx) (bl_Transactions ok_block)))
    \<le> spent_assets (am_value unary) stxos (AssetInfo_Name example_asset)"
proof (rule ok_connected)
  fix view' stxos
  assume ok: "checkConnectBlockFor plain_amounts ok_assets flat_keys ex_txid ex_log2 ok_env ok_params Map.empty
      [5] 5 0 2 ok_block (ok_view, ex_cache) = Inr (view', stxos, ex_cache)"
    and "map (length \<circ> st_Assets) stxos = [1]"
  then obtain s a where "stxos = [s]" "st_Assets s = [a]" by (auto simp: map_eq_Cons_conv length_Suc_conv)
  then have spent: "stored_assets unary stxos" by (simp add: stored_assets_def one_precision_def unary_def)
  have "list_all (\<lambda>tx. list_all (\<lambda>out. one_precision unary (Assets out)) (TxOuts tx)) (bl_Transactions ok_block)"
    by (simp add: one_precision_def unary_def list_all_iff)
  from no_asset_inflation [OF ok_sane ok_txs ok ok_assets_laws this spent] ok show ?thesis by blast
qed

end
