(* ===== verification/Accept.thy ===== *)
theory Accept
  imports Validate
begin

text \<open>
  Validation and the UTXO set together: a block that passes the checks of
  \<^verbatim>\<open>blockchain/validate.go\<close> on a new view filled through the cache
  (\<^verbatim>\<open>fetchInputUtxos\<close>) fits the UTXO set the cache stands for, although the view holds the
  outputs of transactions of the block before these are connected.  The spent outputs the check
  records are then the undo data of the block, and connecting it to the cache succeeds.
\<close>

section \<open>The inputs a block fetches\<close>

lemma txInFlight_snoc: "txInFlight txid (xs @ [x]) = (txInFlight txid xs)(txid x \<mapsto> length xs)"
  by (simp add: txInFlight_def enumerate_append_eq)

lemma txInFlight_Nil: "txInFlight txid [] = Map.empty"
  by (simp add: txInFlight_def)

lemma txInFlight_Some: "txInFlight txid txs h = Some p \<Longrightarrow> p < length txs \<and> txid (txs ! p) = h"
  by (induction txs rule: rev_induct)
     (auto simp: txInFlight_snoc txInFlight_Nil nth_append split: if_splits)

lemma txInFlight_None: "txInFlight txid txs h = None \<longleftrightarrow> h \<notin> txid ` set txs"
  by (induction txs rule: rev_induct) (auto simp: txInFlight_snoc txInFlight_Nil)

text \<open>The spendable outputs of a transaction, as outpoints.\<close>

definition outs_of :: "('d MsgTx \<Rightarrow> bytes) \<Rightarrow> 'd MsgTx \<Rightarrow> OutPoint set" where
  "outs_of txid tx = fst ` set (spendable (tx_outputs txid tx))"

lemma Hash_outs_of: "op \<in> outs_of txid tx \<Longrightarrow> Hash op = txid tx"
  by (auto simp: outs_of_def spendable_def tx_outputs_def)

lemma entries_AddTxOuts:
  "vw_entries (view_AddTxOuts txid tx h v) op \<noteq> None \<longleftrightarrow> vw_entries v op \<noteq> None \<or> op \<in> outs_of txid tx"
proof -
  have "vw_entries (fold (\<lambda>(op, out). view_addTxOut op out cb h) outs v) op \<noteq> None \<longleftrightarrow>
      vw_entries v op \<noteq> None \<or> op \<in> fst ` set (spendable outs)" for cb outs v
    by (induction outs arbitrary: v) (auto simp: view_addTxOut_def put_entry_def spendable_def)
  then show ?thesis by (simp add: view_AddTxOuts_def outs_of_def)
qed

text \<open>
  The scan up to position \<open>n\<close>: the view holds outputs of earlier transactions only, and an input
  is either requested or refers to an earlier transaction of the block.
\<close>

definition loaded_before :: "('d MsgTx \<Rightarrow> bytes) \<Rightarrow> 'd MsgTx list \<Rightarrow> nat \<Rightarrow> 'd UtxoViewpoint \<Rightarrow> bool" where
  "loaded_before txid txs n v \<longleftrightarrow> (\<forall>op. vw_entries v op \<noteq> None \<longrightarrow> (\<exists>p<n. p < length txs \<and> op \<in> outs_of txid (txs ! p)))"

definition covered :: "('d MsgTx \<Rightarrow> bytes) \<Rightarrow> 'd MsgTx list \<Rightarrow> nat \<Rightarrow> OutPoint list \<Rightarrow> OutPoint \<Rightarrow> bool" where
  "covered txid txs n needed op \<longleftrightarrow> op \<in> set needed \<or> (\<exists>p<n. p < length txs \<and> Hash op = txid (txs ! p))"

lemma loaded_before_AddTxOuts:
  "loaded_before txid txs n v \<Longrightarrow> p < n \<Longrightarrow> p < length txs \<Longrightarrow> loaded_before txid txs n (view_AddTxOuts txid (txs ! p) h v)"
  unfolding loaded_before_def entries_AddTxOuts by blast

lemma find_inputs_Cons:
  "find_inputs txid block i (txIn # txIns) s = find_inputs txid block i txIns (find_inputs txid block i [txIn] s)"
  by (cases s) simp

lemma find_inputs_scan:
  assumes "find_inputs txid block i ins (v, l, needed) = (v', l', needed')"
    and "distinct (map txid (bl_Transactions block))" "loaded_before txid (bl_Transactions block) (Suc i) v"
  shows "loaded_before txid (bl_Transactions block) (Suc i) v' \<and> set needed \<subseteq> set needed' \<and>
    set needed' \<subseteq> set needed \<union> PreviousOutPoint ` set ins \<and>
    (\<forall>txIn \<in> set ins. covered txid (bl_Transactions block) (Suc i) needed' (PreviousOutPoint txIn))"
  using assms(1,3)
proof (induction ins arbitrary: v l needed)
  case (Cons txIn ins)
  let ?txs = "bl_Transactions block" and ?op = "PreviousOutPoint txIn"
  obtain w l1 n1 where one: "find_inputs txid block i [txIn] (v, l, needed) = (w, l1, n1)"
    by (cases "find_inputs txid block i [txIn] (v, l, needed)")
  have rest: "find_inputs txid block i ins (w, l1, n1) = (v', l', needed')"
    using Cons.prems(1) by (simp add: find_inputs_Cons [of _ _ _ txIn ins] one del: find_inputs.simps)
  have "loaded_before txid ?txs (Suc i) w \<and> set needed \<subseteq> set n1 \<and> set n1 \<subseteq> insert ?op (set needed) \<and>
      covered txid ?txs (Suc i) n1 ?op"
  proof (cases "\<exists>p\<le>i. txInFlight txid ?txs (Hash ?op) = Some p")
    case True
    then obtain p where p: "p \<le> i" "txInFlight txid ?txs (Hash ?op) = Some p" by blast
    note tx = txInFlight_Some [OF p(2)]
    from one p have "n1 = needed" "w = v \<or> w = view_AddTxOuts txid (?txs ! p) (bl_Height block) v"
      by (auto split: if_splits)
    with Cons.prems(2) p(1) tx show ?thesis
      by (auto simp: covered_def less_Suc_eq_le intro: loaded_before_AddTxOuts)
  next
    case False
    have "Hash ?op \<noteq> txid (?txs ! p)" if lt: "p < Suc i" "p < length ?txs" for p
    proof
      assume h: "Hash ?op = txid (?txs ! p)"
      then obtain q where q: "txInFlight txid ?txs (Hash ?op) = Some q"
        using lt(2) by (cases "txInFlight txid ?txs (Hash ?op)") (auto simp: txInFlight_None)
      have "q = p"
        using txInFlight_Some [OF q] h lt(2) assms(2) nth_eq_iff_index_eq [of "map txid ?txs" q p] by simp
      with False q lt show False by simp
    qed
    then have "vw_entries v ?op = None"
      using Cons.prems(2) unfolding loaded_before_def by (blast dest: Hash_outs_of)
    with False one have "w = v" "n1 = needed @ [?op]" by (auto simp: Let_def split: option.splits if_splits)
    with Cons.prems(2) show ?thesis by (auto simp: covered_def)
  qed
  with Cons.IH [OF rest] show ?case by (auto simp: covered_def)
qed simp
lemma scan_block:
  assumes "distinct (map txid (bl_Transactions block))" "loaded_before txid (bl_Transactions block) 0 v"
    and "fold (\<lambda>(i, tx) s. if \<not> transactionConsumesSpendJournal tx False then s else find_inputs txid block i (TxIns tx) s)
      (enumerate 0 xs) (v, l, []) = (v', l', needed)"
  shows "loaded_before txid (bl_Transactions block) (length xs) v' \<and>
    (\<forall>op \<in> set needed. \<exists>tx \<in> set xs. transactionConsumesSpendJournal tx False \<and> op \<in> PreviousOutPoint ` set (TxIns tx)) \<and>
    (\<forall>k < length xs. transactionConsumesSpendJournal (xs ! k) False \<longrightarrow>
      (\<forall>txIn \<in> set (TxIns (xs ! k)). covered txid (bl_Transactions block) (Suc k) needed (PreviousOutPoint txIn)))"
  using assms(3)
proof (induction xs arbitrary: v' l' needed rule: rev_induct)
  case Nil
  then show ?case using assms(2) by simp
next
  case (snoc tx xs)
  let ?txs = "bl_Transactions block"
  obtain w l1 n1 where w: "fold (\<lambda>(i, tx) s. if \<not> transactionConsumesSpendJournal tx False then s
      else find_inputs txid block i (TxIns tx) s) (enumerate 0 xs) (v, l, []) = (w, l1, n1)"
    by (rule prod_cases3)
  note IH = snoc.IH [OF w]
  have up: "loaded_before txid ?txs (Suc (length xs)) w"
    using IH unfolding loaded_before_def by (meson less_Suc_eq)
  have last: "(if \<not> transactionConsumesSpendJournal tx False then (w, l1, n1)
      else find_inputs txid block (length xs) (TxIns tx) (w, l1, n1)) = (v', l', needed)"
    using snoc.prems w by (auto simp: enumerate_append_eq)
  have v': "loaded_before txid ?txs (Suc (length xs)) v'" "set n1 \<subseteq> set needed"
    and new: "set needed \<subseteq> set n1 \<union> (if transactionConsumesSpendJournal tx False then PreviousOutPoint ` set (TxIns tx) else {})"
    and cov: "transactionConsumesSpendJournal tx False \<Longrightarrow>
      \<forall>txIn \<in> set (TxIns tx). covered txid ?txs (Suc (length xs)) needed (PreviousOutPoint txIn)"
    using last up find_inputs_scan [OF _ assms(1), of "length xs" "TxIns tx" w l1 n1 v' l' needed] by (auto split: if_splits)
  have mono: "covered txid ?txs n n1 op \<Longrightarrow> covered txid ?txs n needed op" for n op
    using v'(2) by (auto simp: covered_def)
  have "\<exists>t \<in> set (xs @ [tx]). transactionConsumesSpendJournal t False \<and> op \<in> PreviousOutPoint ` set (TxIns t)"
    if "op \<in> set needed" for op
    using that new IH by (cases "op \<in> set n1") (auto split: if_splits)
  moreover have "covered txid ?txs (Suc k) needed (PreviousOutPoint txIn)"
    if "k < length (xs @ [tx])" "transactionConsumesSpendJournal ((xs @ [tx]) ! k) False"
      "txIn \<in> set (TxIns ((xs @ [tx]) ! k))" for k txIn
    using that IH cov mono by (cases "k = length xs") (auto simp: nth_append)
  ultimately show ?case using v'(1) by auto
qed

section \<open>Agreement of the view with the set\<close>

text \<open>
  The transactions still to come agree on a view and a set: outside the ids still to come their
  inputs look the same in both, an input that refers to the transaction itself or a later one is
  not unspent in the view, no output of a transaction to come is in the set, and what the view
  has under such an id is a spendable output of it.
\<close>

definition ids :: "('d MsgTx \<Rightarrow> bytes) \<Rightarrow> 'd MsgTx list \<Rightarrow> bytes set" where
  "ids txid txs = txid ` set txs"

definition agree :: "('d MsgTx \<Rightarrow> bytes) \<Rightarrow> 'd UtxoViewpoint \<Rightarrow> 'd utxo_set \<Rightarrow> 'd MsgTx list \<Rightarrow> bool" where
  "agree txid v U txs \<longleftrightarrow>
     (\<forall>op. Hash op \<in> ids txid txs \<longrightarrow> U op = None) \<and>
     (\<forall>op. Hash op \<in> ids txid txs \<longrightarrow> unspent v op \<noteq> None \<longrightarrow> (\<exists>tx \<in> set txs. op \<in> outs_of txid tx)) \<and>
     (\<forall>pre tx post op. txs = pre @ tx # post \<longrightarrow> op \<in> set (tx_ins tx) \<longrightarrow>
        (Hash op \<notin> ids txid txs \<longrightarrow> unspent v op = U op) \<and>
        (Hash op \<in> ids txid (tx # post) \<longrightarrow> unspent v op = None))"

lemma agreeD:
  assumes "agree txid v U txs"
  shows "Hash op \<in> ids txid txs \<Longrightarrow> U op = None"
    and "Hash op \<in> ids txid txs \<Longrightarrow> unspent v op \<noteq> None \<Longrightarrow> \<exists>tx \<in> set txs. op \<in> outs_of txid tx"
    and "txs = pre @ tx # post \<Longrightarrow> op \<in> set (tx_ins tx) \<Longrightarrow> Hash op \<notin> ids txid txs \<Longrightarrow> unspent v op = U op"
    and "txs = pre @ tx # post \<Longrightarrow> op \<in> set (tx_ins tx) \<Longrightarrow> Hash op \<in> ids txid (tx # post) \<Longrightarrow> unspent v op = None"
  using assms unfolding agree_def by blast+

lemma tx_apply_other: "op \<notin> outs_of txid tx \<Longrightarrow> tx_apply txid h U tx op = (if op \<in> set (tx_ins tx) then None else U op)"
  by (simp add: tx_apply_def add_coins_other outs_of_def)

lemma tx_apply_outs:
  assumes "op \<in> outs_of txid tx"
  shows "tx_apply txid h U tx op = tx_apply txid h V tx op"
proof -
  have "(op, out) \<in> set xs \<Longrightarrow> fold (\<lambda>(op, out) U. U(op \<mapsto> coin_of out cb h)) xs U op =
      fold (\<lambda>(op, out) U. U(op \<mapsto> coin_of out cb h)) xs V op" for out xs cb and U V :: "'a utxo_set"
    by (induction xs arbitrary: out rule: rev_induct) auto
  with assms show ?thesis by (force simp: tx_apply_def add_coins_def outs_of_def)
qed

lemma agree_inputs:
  assumes "agree txid v U (tx # txs)" "list_all (\<lambda>op. unspent v op \<noteq> None) (tx_ins tx)" "op \<in> set (tx_ins tx)"
  shows "unspent v op = U op" "U op \<noteq> None"
proof -
  have "unspent v op \<noteq> None" using assms(2,3) by (simp add: list_all_iff)
  then have "Hash op \<notin> ids txid (tx # txs)" using agreeD(4) [OF assms(1), of "[]" tx txs op] assms(3) by auto
  then show "unspent v op = U op" using agreeD(3) [OF assms(1), of "[]" tx txs op] assms(3) by auto
  with \<open>unspent v op \<noteq> None\<close> show "U op \<noteq> None" by simp
qed

lemma agree_fits:
  assumes "agree txid v U (tx # txs)" "list_all (\<lambda>op. unspent v op \<noteq> None) (tx_ins tx)" "distinct (tx_ins tx)"
  shows "tx_fits txid U tx" "tx_undo (unspent v) tx = tx_undo U tx"
proof -
  have "U op = None" if "(op, out) \<in> set (spendable (tx_outputs txid tx))" for op out
  proof -
    have "op \<in> outs_of txid tx" using that by (force simp: outs_of_def)
    then have "Hash op = txid tx" by (rule Hash_outs_of)
    then show ?thesis using agreeD(1) [OF assms(1), of op] by (simp add: ids_def)
  qed
  then show "tx_fits txid U tx"
    using assms(3) agree_inputs(2) [OF assms(1,2)] by (auto simp: tx_fits_def list_all_iff)
  show "tx_undo (unspent v) tx = tx_undo U tx"
    using agree_inputs(1) [OF assms(1,2)] by (simp add: tx_undo_def)
qed

lemma agree_step:
  assumes "agree txid v U (tx # txs)" "distinct (map txid (tx # txs))" "unspent w = tx_apply txid h (unspent v) tx"
  shows "agree txid w (tx_apply txid h U tx) txs"
proof -
  have other: "op \<notin> outs_of txid tx" if "Hash op \<in> ids txid txs" for op
    using assms(2) that by (auto simp: ids_def dest: Hash_outs_of)
  have later: "tx' \<noteq> tx" "txid tx' \<noteq> txid tx" if "tx' \<in> set txs" for tx'
    using assms(2) that by (auto simp: image_iff)
  have "tx_apply txid h U tx op = None" if "Hash op \<in> ids txid txs" for op
    using agreeD(1) [OF assms(1), of op] that other [OF that] by (simp add: tx_apply_other ids_def)
  moreover have "\<exists>tx' \<in> set txs. op \<in> outs_of txid tx'" if "Hash op \<in> ids txid txs" "unspent w op \<noteq> None" for op
    using agreeD(2) [OF assms(1), of op] that other [OF that(1)]
    by (auto simp: assms(3) tx_apply_other ids_def split: if_splits)
  moreover have "unspent w op = tx_apply txid h U tx op"
    if "txs = pre @ tx' # post" "op \<in> set (tx_ins tx')" "Hash op \<notin> ids txid txs" for pre tx' post op
  proof (cases "op \<in> outs_of txid tx")
    case True
    then show ?thesis by (simp add: assms(3) tx_apply_outs [OF True, of h "unspent v" U])
  next
    case False
    have "unspent v op = U op"
    proof (cases "Hash op = txid tx")
      case True
      then have "U op = None" using agreeD(1) [OF assms(1)] by (simp add: ids_def)
      moreover have "unspent v op = None"
      proof (rule ccontr)
        assume "unspent v op \<noteq> None"
        then obtain tx' where tx': "tx' \<in> set (tx # txs)" "op \<in> outs_of txid tx'"
          using agreeD(2) [OF assms(1), of op] True by (auto simp: ids_def)
        with later [of tx'] True False show False using Hash_outs_of [OF tx'(2)] by auto
      qed
      ultimately show ?thesis by simp
    next
      case False
      with that show ?thesis using agreeD(3) [OF assms(1), of "tx # pre" tx' post op] by (simp add: ids_def)
    qed
    with False show ?thesis by (simp add: assms(3) tx_apply_other)
  qed
  moreover have "unspent w op = None"
    if "txs = pre @ tx' # post" "op \<in> set (tx_ins tx')" "Hash op \<in> ids txid (tx' # post)" for pre tx' post op
  proof -
    have "Hash op \<in> ids txid txs" using that by (auto simp: ids_def)
    with that show ?thesis
      using agreeD(4) [OF assms(1), of "tx # pre" tx' post op] other by (simp add: assms(3) tx_apply_other)
  qed
  ultimately show ?thesis unfolding agree_def by blast
qed

lemma check_inputs_fits:
  assumes "check_inputs dops aops txid env params h txs (f, fa, v, st) = Inr (f', fa', v', st')"
    "list_all tx_sane txs" "0 \<le> sint f" "distinct (map txid txs)" "agree txid v U txs"
  shows "txs_fit txid h U txs \<and> st' = st @ txs_undo txid h U txs"
  using assms
proof (induction txs arbitrary: f fa v st U)
  case (Cons tx txs)
  then have "tx_sane tx" by simp
  with Cons.prems(1,3) obtain fee fa1 w where r: "distinct (tx_ins tx)" "list_all (\<lambda>op. unspent v op \<noteq> None) (tx_ins tx)"
    "0 \<le> sint (f + fee)" "unspent w = tx_apply txid h (unspent v) tx"
    "check_inputs dops aops txid env params h txs (f + fee, fa1, w, st @ tx_undo (unspent v) tx) = Inr (f', fa', v', st')"
    by (blast elim: check_inputs_Cons)
  note fits = agree_fits [OF Cons.prems(5) r(2,1)]
  have "agree txid w (tx_apply txid h U tx) txs" using agree_step [OF Cons.prems(5,4) r(4)] .
  from Cons.IH [OF r(5) _ r(3) _ this] Cons.prems(2,4) fits show ?case by simp
qed simp

section \<open>Accepted blocks fit the UTXO set\<close>

lemma fetchInputUtxos_agree:
  assumes "cache_inv dops kops s b" "bucket_ok dops kops b"
    and block: "bl_Transactions block = cb # rest" "IsCoinBaseTx cb" "list_all (\<lambda>tx. \<not> IsCoinBaseTx tx) rest"
    and ids: "distinct (map txid (cb # rest))"
      "\<forall>op. Hash op \<in> txid ` set (cb # rest) \<longrightarrow> cache_set dops kops s b op = None"
    and "list_all (\<lambda>tx. list_all op_ok (tx_ins tx)) rest" "vw_entries view = (\<lambda>_. None)"
    and fetch: "fetchInputUtxos dops kops txid log2 b block (view, s) = Inr (v, t)"
  shows "agree txid v (cache_set dops kops s b) (cb # rest) \<and> cache_inv dops kops t b \<and>
    cache_set dops kops t b = cache_set dops kops s b"
proof -
  let ?U = "cache_set dops kops s b" and ?txs = "cb # rest"
  have ins: "tx_ins tx = (if transactionConsumesSpendJournal tx False then map PreviousOutPoint (TxIns tx) else [])"
    if "tx \<in> set rest" for tx
    using block(3) that by (simp add: tx_ins_def list_all_iff)
  obtain w l needed where scan: "fold (\<lambda>(i, tx) s. if \<not> transactionConsumesSpendJournal tx False then s
      else find_inputs txid block i (TxIns tx) s) (enumerate 0 rest)
      (view, replicate (length (bl_Transactions block)) False, []) = (w, l, needed)"
    by (rule prod_cases3)
  have "loaded_before txid (bl_Transactions block) 0 view" using assms(9) by (simp add: loaded_before_def)
  note scan' = scan_block [OF _ this scan]
  then have w: "loaded_before txid ?txs (length rest) w"
    and req: "\<And>op. op \<in> set needed \<Longrightarrow> \<exists>tx \<in> set rest. op \<in> set (tx_ins tx)"
    and cov: "\<And>k op. k < length rest \<Longrightarrow> op \<in> set (tx_ins (rest ! k)) \<Longrightarrow> covered txid ?txs (Suc k) needed op"
    using ids by (auto simp: block(1) ins split: if_splits)
  have needed: "findInputsToFetch txid block view = Inr (w, needed)"
    using scan by (simp add: findInputsToFetch_def block(1))
  have "list_all op_ok needed" using req assms(8) unfolding list_all_iff by blast
  from fetchUtxosFromCache_correct [OF assms(1,2) this, of log2 w] obtain v' t' where
    "fetchUtxosFromCache dops kops log2 b needed (w, s) = Inr (v', t')" "cache_inv dops kops t' b"
    "cache_set dops kops t' b = ?U" "unspent v' = (\<lambda>op. if op \<in> set needed then ?U op else unspent w op)" by blast
  with fetch needed have t: "cache_inv dops kops t b" "cache_set dops kops t b = ?U"
    and v: "unspent v = (\<lambda>op. if op \<in> set needed then ?U op else unspent w op)"
    by (auto simp: fetchInputUtxos_def)
  have None: "?U op = None" if "Hash op \<in> ids txid ?txs" for op using ids(2) that unfolding ids_def by blast
  have loaded: "\<exists>tx \<in> set ?txs. op \<in> outs_of txid tx" if "unspent w op \<noteq> None" for op
  proof -
    have "vw_entries w op \<noteq> None" using that by (auto simp: unspent_def LookupEntry_def split: option.splits)
    with w show ?thesis unfolding loaded_before_def by (metis nth_mem)
  qed
  have "(Hash op \<notin> ids txid ?txs \<longrightarrow> unspent v op = ?U op) \<and> (Hash op \<in> ids txid (tx # post) \<longrightarrow> unspent v op = None)"
    if split: "?txs = pre @ tx # post" and op: "op \<in> set (tx_ins tx)" for pre tx post op
  proof -
    have "tx \<noteq> cb" using op block(2) by (auto simp: tx_ins_def transactionConsumesSpendJournal_def)
    then obtain pre' where pre: "pre = cb # pre'" "rest = pre' @ tx # post" using split by (cases pre) auto
    have c: "covered txid ?txs (length pre) needed op" using cov [of "length pre'" op] op by (simp add: pre)
    show ?thesis
    proof (cases "op \<in> set needed")
      case True
      then show ?thesis using None split by (auto simp: v ids_def)
    next
      case False
      then obtain p where p: "p < length pre" "Hash op = txid (?txs ! p)" using c by (auto simp: covered_def)
      then have "Hash op \<in> txid ` set pre" unfolding split by (simp add: nth_append)
      then show ?thesis using ids(1) unfolding split by (auto simp: ids_def)
    qed
  qed
  then have "agree txid v ?U ?txs"
    unfolding agree_def using None loaded by (auto simp: v split: if_splits)
  with t show ?thesis by simp
qed

lemma accepted_fits:
  assumes sane: "checkBlockSanity sha txid wtxid dops aops now msgBlock = Inr ()"
    and txs: "bl_Transactions block = mb_Transactions msgBlock"
    and ok: "checkConnectBlockFor dops aops kops txid log2 env params b nodeHash (bl_Height block) ts ver block (view, cache) =
      Inr (view', stxos, cache')"
    and height: "sint (cp_BIP0034Height params) \<le> sint (bl_Height block)"
    and new_view: "vw_entries view = (\<lambda>_. None)"
    and cache: "cache_inv dops kops cache b" "bucket_ok dops kops b"
    and fresh: "\<forall>op. Hash op \<in> txid ` set (bl_Transactions block) \<longrightarrow> cache_set dops kops cache b op = None"
    and ops: "list_all (\<lambda>tx. list_all op_ok (tx_ins tx)) (bl_Transactions block)"
  shows "txs_fit txid (bl_Height block) (cache_set dops kops cache b) (bl_Transactions block) \<and>
    stxos = txs_undo txid (bl_Height block) (cache_set dops kops cache b) (bl_Transactions block) \<and>
    cache_inv dops kops cache' b \<and> cache_set dops kops cache' b = cache_set dops kops cache b"
proof -
  obtain cb rest where cb: "bl_Transactions block = cb # rest" "IsCoinBaseTx cb" "list_all (\<lambda>tx. \<not> IsCoinBaseTx tx) rest"
    "list_all tx_sane (cb # rest)" "distinct (map txid (cb # rest))"
    using sane unfolding txs by (rule checkBlockSanity_parts)
  obtain v f fa v2 where c: "fetchInputUtxos dops kops txid log2 b block (view, cache) = Inr (v, cache')"
    "check_inputs dops aops txid env params (bl_Height block) (cb # rest) (0, [], v, []) = Inr (f, fa, v2, stxos)"
    using ok by (rule checkConnectBlockFor_parts) (use height in \<open>auto simp: cb\<close>)
  have "agree txid v (cache_set dops kops cache b) (cb # rest)" and r: "cache_inv dops kops cache' b"
    "cache_set dops kops cache' b = cache_set dops kops cache b"
    using fetchInputUtxos_agree [OF cache cb(1-3,5) _ _ new_view c(1)] fresh ops by (simp_all add: cb(1))
  with check_inputs_fits [OF c(2) cb(4) _ cb(5)] show ?thesis by (simp add: cb(1))
qed

section \<open>Supply\<close>

text \<open>The satoshis of a set of unspent outputs.\<close>

definition set_value :: "'d utxo_set \<Rightarrow> int" where
  "set_value U = (\<Sum>op\<in>dom U. sint (st_Amount (the (U op))))"

definition coins_nonneg :: "'d utxo_set \<Rightarrow> bool" where
  "coins_nonneg U \<longleftrightarrow> (\<forall>op c. U op = Some c \<longrightarrow> 0 \<le> sint (st_Amount c))"

lemma set_value_Some:
  assumes "finite (dom U)" "coins_nonneg U"
  shows "set_value (U(op \<mapsto> c)) \<le> set_value U + sint (st_Amount c)"
proof -
  have "set_value (U(op \<mapsto> c)) = sint (st_Amount c) + (\<Sum>op\<in>dom U - {op}. sint (st_Amount (the (U op))))"
    using assms(1) by (simp add: set_value_def sum.insert_remove)
  also have "(\<Sum>op\<in>dom U - {op}. sint (st_Amount (the (U op)))) \<le> set_value U"
    unfolding set_value_def using assms by (intro sum_mono2) (auto simp: coins_nonneg_def)
  finally show ?thesis by simp
qed

lemma set_value_None:
  assumes "finite (dom U)" "U op = Some c"
  shows "set_value (U(op := None)) = set_value U - sint (st_Amount c)"
  using assms sum.remove [of "dom U" op "\<lambda>op. sint (st_Amount (the (U op)))"]
  by (simp add: set_value_def domIff)

lemma set_value_add:
  assumes "finite (dom U)" "coins_nonneg U" "\<forall>(op, out) \<in> set outs. 0 \<le> sint (Value out)"
  shows "finite (dom (add_coins cb h outs U)) \<and> coins_nonneg (add_coins cb h outs U) \<and>
    set_value (add_coins cb h outs U) \<le> set_value U + sum_list (map (\<lambda>(op, out). sint (Value out)) outs)"
  using assms
proof (induction outs arbitrary: U)
  case Nil
  then show ?case by (simp add: add_coins_def spendable_def)
next
  case (Cons x outs)
  obtain op out where x: "x = (op, out)" by force
  define V where "V = U(op \<mapsto> coin_of out cb h)"
  have add: "add_coins cb h ((op, out) # outs) U = add_coins cb h outs (if IsUnspendable (PkScript out) then U else V)"
    by (simp add: add_coins_def spendable_def V_def)
  have "finite (dom V)" "coins_nonneg V" "set_value V \<le> set_value U + sint (Value out)"
    using Cons.prems set_value_Some [of U op "coin_of out cb h"] unfolding V_def by (auto simp: coins_nonneg_def coin_of_def x)
  with Cons.IH [of U] Cons.IH [of V] Cons.prems show ?case
    by (cases "IsUnspendable (PkScript out)") (auto simp: add x)
qed

lemma set_value_remove:
  assumes "finite (dom U)" "distinct ops" "list_all (\<lambda>op. U op \<noteq> None) ops"
  shows "set_value (\<lambda>op. if op \<in> set ops then None else U op) = set_value U - spent_value (map (\<lambda>op. the (U op)) ops)"
  using assms
proof (induction ops arbitrary: U)
  case Nil
  then show ?case by simp
next
  case (Cons op ops)
  then obtain c where c: "U op = Some c" by auto
  define V where "V = U(op := None)"
  have e: "(\<lambda>o'. if o' \<in> set (op # ops) then None else U o') = (\<lambda>o'. if o' \<in> set ops then None else V o')"
    by (auto simp: V_def)
  have m: "map (\<lambda>o'. the (V o')) ops = map (\<lambda>o'. the (U o')) ops" using Cons.prems(2) by (auto simp: V_def)
  have V: "list_all (\<lambda>o'. V o' \<noteq> None) ops" "finite (dom V)" "set_value V = set_value U - sint (st_Amount c)"
    using Cons.prems set_value_None [OF Cons.prems(1) c] by (auto simp: list_all_iff V_def)
  have "set_value (\<lambda>o'. if o' \<in> set ops then None else V o') = set_value V - spent_value (map (\<lambda>o'. the (U o')) ops)"
    using Cons.IH [OF V(2) _ V(1)] Cons.prems(2) m by simp
  with V(3) c show ?case unfolding e by (simp add: spent_value_def)
qed

lemma set_value_apply:
  assumes "finite (dom U)" "coins_nonneg U" "tx_sane tx" "tx_fits txid U tx"
  shows "finite (dom (tx_apply txid h U tx)) \<and> coins_nonneg (tx_apply txid h U tx) \<and>
    set_value (tx_apply txid h U tx) \<le> set_value U - spent_value (tx_undo U tx) + out_value tx"
proof -
  let ?V = "\<lambda>op. if op \<in> set (tx_ins tx) then None else U op"
  have V: "finite (dom ?V)" "coins_nonneg ?V"
    using assms(1,2) by (auto simp: coins_nonneg_def dom_def intro: finite_subset [OF _ assms(1)])
  have "set_value ?V = set_value U - spent_value (tx_undo U tx)"
    using set_value_remove [OF assms(1), of "tx_ins tx"] assms(4) by (simp add: tx_fits_def tx_undo_def)
  moreover have "\<forall>(op, out) \<in> set (tx_outputs txid tx). 0 \<le> sint (Value out)"
    using assms(3) by (auto simp: tx_sane_def tx_outputs_def list_all_iff in_set_enumerate_eq)
  moreover have "sum_list (map (\<lambda>(op, out). sint (Value out)) (tx_outputs txid tx)) = out_value tx"
  proof -
    have "map (\<lambda>(op, out). sint (Value out)) (tx_outputs txid tx) = map (\<lambda>out. sint (Value out)) (map snd (enumerate 0 (TxOuts tx)))"
      by (simp add: tx_outputs_def comp_def case_prod_beta del: map_snd_enumerate)
    then show ?thesis by (simp add: out_value_def)
  qed
  ultimately show ?thesis
    using set_value_add [OF V, of "tx_outputs txid tx" "IsCoinBaseTx tx" h] by (simp add: tx_apply_def)
qed

lemma set_value_block:
  assumes "finite (dom U)" "coins_nonneg U" "list_all tx_sane txs" "txs_fit txid h U txs"
  shows "set_value (foldl (tx_apply txid h) U txs) \<le> set_value U - spent_value (txs_undo txid h U txs) + sum_list (map out_value txs)"
  using assms
proof (induction txs arbitrary: U)
  case (Cons tx txs)
  then have "finite (dom (tx_apply txid h U tx))" "coins_nonneg (tx_apply txid h U tx)"
    "set_value (tx_apply txid h U tx) \<le> set_value U - spent_value (tx_undo U tx) + out_value tx"
    using set_value_apply [of U tx txid h] by simp_all
  with Cons.IH [OF this(1,2)] Cons.prems(3,4) show ?case by simp
qed simp

section \<open>What acceptance guarantees\<close>

text \<open>The example block fits the example cache.\<close>

lemma ok_fresh:
  "\<forall>op. Hash op \<in> ex_txid ` set (bl_Transactions ok_block) \<longrightarrow> cache_set plain_amounts flat_keys ex_cache Map.empty op = None"
  by (auto simp: ex_cache_set unspent_ex_view ok_block_def ex_txid_def ex_in_def)

lemma ok_conditions:
  "sint (cp_BIP0034Height ok_params) \<le> sint (bl_Height ok_block)" "vw_entries ok_view = (\<lambda>_. None)"
  "list_all (\<lambda>tx. list_all op_ok (tx_ins tx)) (bl_Transactions ok_block)" "bl_Height ok_block = 5"
  by (simp_all add: ok_params_def ok_block_def ok_view_def NewUtxoViewpoint_def tx_ins_def op_ok_def ex_in_def zeroHash_def)

text \<open>
  C1 (accepted blocks fit the UTXO set): a block that passes the sanity and connection checks,
  with a new view read through a consistent cache and no unspent output under an id of the block,
  spends only distinct outputs of the UTXO set or of earlier transactions of the block, never an
  output twice or before it is created; the spent outputs recorded are exactly the undo data of
  the block, and the check leaves the set the cache stands for unchanged.
\<close>

theorem accepted_block_fits:
  assumes "checkBlockSanity sha txid wtxid dops aops now msgBlock = Inr ()"
    and "bl_Transactions block = mb_Transactions msgBlock"
    and "checkConnectBlockFor dops aops kops txid log2 env params b nodeHash (bl_Height block) ts ver block (view, cache) =
      Inr (view', stxos, cache')"
    and "sint (cp_BIP0034Height params) \<le> sint (bl_Height block)"
    and "vw_entries view = (\<lambda>_. None)"
    and "cache_inv dops kops cache b" "bucket_ok dops kops b"
    and "\<forall>op. Hash op \<in> txid ` set (bl_Transactions block) \<longrightarrow> cache_set dops kops cache b op = None"
    and "list_all (\<lambda>tx. list_all op_ok (tx_ins tx)) (bl_Transactions block)"
  shows "txs_fit txid (bl_Height block) (cache_set dops kops cache b) (bl_Transactions block) \<and>
    stxos = txs_undo txid (bl_Height block) (cache_set dops kops cache b) (bl_Transactions block) \<and>
    cache_inv dops kops cache' b \<and> cache_set dops kops cache' b = cache_set dops kops cache b"
  using assms by (rule accepted_fits)

theorem accepted_block_fits_witness:
  "\<exists>stxos. txs_fit ex_txid 5 (cache_set plain_amounts flat_keys ex_cache Map.empty) (bl_Transactions ok_block) \<and>
    stxos = txs_undo ex_txid 5 (cache_set plain_amounts flat_keys ex_cache Map.empty) (bl_Transactions ok_block)"
proof (rule ok_connects)
  fix view' stxos
  assume "checkConnectBlockFor plain_amounts ok_assets flat_keys ex_txid ex_log2 ok_env ok_params Map.empty
      [5] 5 0 2 ok_block (ok_view, ex_cache) = Inr (view', stxos, ex_cache)"
  from accepted_block_fits [OF ok_sane ok_txs this [folded ok_conditions(4)] ok_conditions(1,2) ex_cache_inv bucket_ok_empty
    ok_fresh ok_conditions(3)]
  show ?thesis by (auto simp: ok_conditions(4))
qed

text \<open>
  C2 (the supply grows by anchors only): over an accepted block the satoshis of the whole UTXO
  set grow by at most the outputs of its anchor transactions.
\<close>

theorem supply_grows_by_anchors:
  assumes "checkBlockSanity sha txid wtxid dops aops now msgBlock = Inr ()"
    and "bl_Transactions block = mb_Transactions msgBlock"
    and "checkConnectBlockFor dops aops kops txid log2 env params b nodeHash (bl_Height block) ts ver block (view, cache) =
      Inr (view', stxos, cache')"
    and "sint (cp_BIP0034Height params) \<le> sint (bl_Height block)"
    and "vw_entries view = (\<lambda>_. None)"
    and "cache_inv dops kops cache b" "bucket_ok dops kops b"
    and "\<forall>op. Hash op \<in> txid ` set (bl_Transactions block) \<longrightarrow> cache_set dops kops cache b op = None"
    and "list_all (\<lambda>tx. list_all op_ok (tx_ins tx)) (bl_Transactions block)"
    and U: "U = cache_set dops kops cache b" "finite (dom U)" "coins_nonneg U"
  shows "set_value (foldl (tx_apply txid (bl_Height block)) U (bl_Transactions block))
    \<le> set_value U + sum_list (map out_value (filter IsAnchorTx (bl_Transactions block)))"
proof -
  note fits = accepted_fits [OF assms(1-9), folded U(1)]
  have "list_all tx_sane (bl_Transactions block)"
    using assms(1) by (rule checkBlockSanity_parts) (simp add: assms(2))
  from set_value_block [OF U(2,3) this] fits
  have "set_value (foldl (tx_apply txid (bl_Height block)) U (bl_Transactions block))
      \<le> set_value U - spent_value stxos + sum_list (map out_value (bl_Transactions block))" by simp
  moreover have "sum_list (map out_value txs) = sum_list (map out_value (filter (\<lambda>tx. \<not> IsAnchorTx tx) txs)) +
      sum_list (map out_value (filter IsAnchorTx txs))" for txs by (induction txs) simp_all
  from this [of "bl_Transactions block"] have "sum_list (map out_value (bl_Transactions block)) \<le>
      spent_value stxos + sum_list (map out_value (filter IsAnchorTx (bl_Transactions block)))"
    using block_value [OF assms(1-3)] by simp
  ultimately show ?thesis by simp
qed

theorem supply_grows_by_anchors_witness:
  "set_value (foldl (tx_apply ex_txid 5) (cache_set plain_amounts flat_keys ex_cache Map.empty) (bl_Transactions ok_block))
    \<le> set_value (cache_set plain_amounts flat_keys ex_cache Map.empty) +
      sum_list (map out_value (filter IsAnchorTx (bl_Transactions ok_block)))"
proof (rule ok_connects)
  fix view' stxos
  assume "checkConnectBlockFor plain_amounts ok_assets flat_keys ex_txid ex_log2 ok_env ok_params Map.empty
      [5] 5 0 2 ok_block (ok_view, ex_cache) = Inr (view', stxos, ex_cache)"
  from supply_grows_by_anchors [OF ok_sane ok_txs this [folded ok_conditions(4)] ok_conditions(1,2) ex_cache_inv bucket_ok_empty
    ok_fresh ok_conditions(3) refl]
  show ?thesis
    by (simp add: ok_conditions(4) ex_cache_set unspent_ex_view coins_nonneg_def coin_of_def ex_out_def split: if_splits)
qed

text \<open>
  C4 (an accepted block is stored): a block accepted as above, whose outputs and inputs the
  database can store, connects to the cache the check leaves, with the same spent outputs as the
  check recorded, and a required flush afterwards stores exactly the UTXO set with the
  transactions of the block applied in order.
\<close>

theorem accepted_block_stored:
  assumes "checkBlockSanity sha txid wtxid dops aops now msgBlock = Inr ()"
    and "bl_Transactions block = mb_Transactions msgBlock"
    and "checkConnectBlockFor dops aops kops txid log2 env params b nodeHash (bl_Height block) ts ver block (view, cache) =
      Inr (view', stxos, cache')"
    and "sint (cp_BIP0034Height params) \<le> sint (bl_Height block)"
    and "vw_entries view = (\<lambda>_. None)"
    and "cache_inv dops kops cache b" "bucket_ok dops kops b"
    and "\<forall>op. Hash op \<in> txid ` set (bl_Transactions block) \<longrightarrow> cache_set dops kops cache b op = None"
    and "list_all (\<lambda>tx. list_all op_ok (tx_ins tx)) (bl_Transactions block)"
    and storable: "list_all (tx_storable dops kops txid b (bl_Height block)) (bl_Transactions block)"
    and anchors: "list_all (\<lambda>tx. IsAnchorTx tx \<longrightarrow> anchor tx = Inr (info tx)) (bl_Transactions block)"
    and "pubkeys_recover kops"
  shows "\<exists>t t' b'. cache_connectTransactions dops kops txid log2 anchor b (bl_Height block) (bl_Transactions block)
      (cache', Some [], Some []) = Inr (t, Some stxos, Some (map info (filter IsAnchorTx (bl_Transactions block)))) \<and>
    cache_flush dops kops time FlushRequired (bl_Hash block) (t, b) = Inr (t', b', Some (bl_Hash block)) \<and>
    (\<forall>op. op_ok op \<longrightarrow> stored_set dops kops b' op =
      foldl (tx_apply txid (bl_Height block)) (cache_set dops kops cache b) (bl_Transactions block) op)"
proof -
  let ?h = "bl_Height block" and ?txs = "bl_Transactions block" and ?U = "cache_set dops kops cache b"
  note fits = accepted_fits [OF assms(1-9)]
  then have inv: "cache_inv dops kops cache' b" and set: "cache_set dops kops cache' b = ?U"
    and fit: "txs_fit txid ?h (cache_set dops kops cache' b) ?txs" and st: "stxos = txs_undo txid ?h ?U ?txs" by simp_all
  obtain t where t: "cache_connectTransactions dops kops txid log2 anchor b ?h ?txs (cache', Some [], Some []) =
      Inr (t, Some stxos, Some (map info (filter IsAnchorTx ?txs)))"
    "cache_inv dops kops t b" "cache_set dops kops t b = foldl (tx_apply txid ?h) ?U ?txs"
    using connectTransactions_correct [OF inv assms(7) storable fit anchors, where stxos = "Some []" and infos = "Some []" and ?log2.0 = log2]
    by (auto simp: anchored_def set st)
  obtain t' b' where "writeCache dops kops time (bl_Hash block) (t, b) = Inr (t', b', Some (bl_Hash block))"
    "\<And>op. op_ok op \<Longrightarrow> stored_set dops kops b' op = cache_set dops kops t b op"
    using writeCache_correct [OF t(2) assms(7,12)] by blast
  then have "cache_flush dops kops time FlushRequired (bl_Hash block) (t, b) = Inr (t', b', Some (bl_Hash block)) \<and>
      (\<forall>op. op_ok op \<longrightarrow> stored_set dops kops b' op = foldl (tx_apply txid ?h) ?U ?txs op)"
    by (simp add: cache_flush_def t(3))
  with t(1) show ?thesis by blast
qed

theorem accepted_block_stored_witness:
  "\<exists>stxos t t' b'. cache_connectTransactions plain_amounts flat_keys ex_txid ex_log2 (\<lambda>tx. Inr (ex_txid tx)) Map.empty 5
      (bl_Transactions ok_block) (ex_cache, Some [], Some []) =
      Inr (t, Some stxos, Some (map ex_txid (filter IsAnchorTx (bl_Transactions ok_block)))) \<and>
    cache_flush plain_amounts flat_keys 0 FlushRequired [5] (t, Map.empty) = Inr (t', b', Some [5])"
proof (rule ok_connects)
  fix view' stxos
  assume "checkConnectBlockFor plain_amounts ok_assets flat_keys ex_txid ex_log2 ok_env ok_params Map.empty
      [5] 5 0 2 ok_block (ok_view, ex_cache) = Inr (view', stxos, ex_cache)"
  note stored = accepted_block_stored [OF ok_sane ok_txs this [folded ok_conditions(4)] ok_conditions(1,2) ex_cache_inv bucket_ok_empty
    ok_fresh ok_conditions(3), of "\<lambda>tx. Inr (ex_txid tx)" ex_txid 0]
  have "list_all (tx_storable plain_amounts flat_keys ex_txid Map.empty (bl_Height ok_block)) (bl_Transactions ok_block)"
    by (simp add: ok_block_def tx_storable_def tx_ins_def outs_storable_def spendable_def tx_outputs_def ex_txid_def
        stored_empty op_ok_def ex_in_def coin_storable_def coin_of_def ex_out_def storable_def example_asset_def
        plain_amounts_def zeroHash_def)
  from stored [OF this _ flat_keys_recover] show ?thesis
    by (auto simp: ok_conditions(4) list.pred_True ok_block_def)
qed

end
