(* ===== verification/Block_Index.thy ===== *)
theory Block_Index
  imports Wire_Block Merkle "HOL-Library.Sublist" "HOL-Library.Multiset"
begin

text \<open>
  The block index and the view of the best chain: \<^verbatim>\<open>blockchain/blockindex.go\<close>,
  \<^verbatim>\<open>blockchain/chainview.go\<close> and \<^verbatim>\<open>blockchain/internal/workmath/difficulty.go\<close>.

  Block nodes are shared through pointers, so they live in a heap: a pointer is a number, the
  heap gives the node of every pointer, and \<open>None\<close> is the nil pointer.  Loops that follow pointers
  are partial functions; on the branches the index builds they return.

  The lemmas show that the skip pointers find the same node as walking back parent by parent,
  that a new node extends the branch of its parent, that the chain view holds exactly the branch
  of its tip whatever it held before, that the fork point is the last common block, and that the
  median time never decreases along a chain.
\<close>

unbundle bit_operations_syntax

section \<open>Work\<close>

definition HashToBig :: "bytes \<Rightarrow> int" where
  "HashToBig hash = int (get_le hash)"

definition CompactToBig :: "u32 \<Rightarrow> int" where
  "CompactToBig compact =
     (let mantissa = compact AND 0x007fffff;
          isNegative = compact AND 0x00800000 \<noteq> 0;
          exponent = unat (drop_bit 24 compact);
          bn = (if exponent \<le> 3 then uint (drop_bit (8 * (3 - exponent)) mantissa)
                else uint mantissa * 2 ^ (8 * (exponent - 3)))
      in if isNegative then - bn else bn)"

text \<open>\<^verbatim>\<open>len(n.Bytes())\<close>.\<close>

fun byte_len :: "nat \<Rightarrow> nat" where
  "byte_len n = (if n = 0 then 0 else Suc (byte_len (n div 256)))"

declare byte_len.simps [simp del]

text \<open>
  \<^verbatim>\<open>Rsh\<close> rounds towards minus infinity; \<^verbatim>\<open>Bits\<close> are the digits of the absolute value.
\<close>

definition BigToCompact :: "int \<Rightarrow> u32" where
  "BigToCompact n =
     (if n = 0 then 0
      else
        let exponent = byte_len (nat \<bar>n\<bar>);
            mantissa = (if exponent \<le> 3 then push_bit (8 * (3 - exponent)) (word_of_int \<bar>n\<bar>)
                        else word_of_int \<bar>n div 2 ^ (8 * (exponent - 3))\<bar>) :: u32;
            (mantissa, exponent) = (if mantissa AND 0x00800000 \<noteq> 0 then (drop_bit 8 mantissa, exponent + 1) else (mantissa, exponent));
            compact = push_bit 24 (word_of_nat exponent) OR mantissa
        in if n < 0 then compact OR 0x00800000 else compact)"

definition CalcWork :: "u32 \<Rightarrow> int" where
  "CalcWork bits =
     (let difficultyNum = CompactToBig bits
      in if difficultyNum \<le> 0 then 0 else 2 ^ 256 div (difficultyNum + 1))"

section \<open>Block nodes\<close>

abbreviation (input) statusDataStored :: byte where "statusDataStored \<equiv> 1"
abbreviation (input) statusValid :: byte where "statusValid \<equiv> 2"
abbreviation (input) statusValidateFailed :: byte where "statusValidateFailed \<equiv> 4"
abbreviation (input) statusInvalidAncestor :: byte where "statusInvalidAncestor \<equiv> 8"
abbreviation (input) statusNone :: byte where "statusNone \<equiv> 0"

definition HaveData :: "byte \<Rightarrow> bool" where "HaveData status \<longleftrightarrow> status AND statusDataStored \<noteq> 0"
definition KnownValid :: "byte \<Rightarrow> bool" where "KnownValid status \<longleftrightarrow> status AND statusValid \<noteq> 0"
definition KnownInvalid :: "byte \<Rightarrow> bool" where
  "KnownInvalid status \<longleftrightarrow> status AND (statusValidateFailed OR statusInvalidAncestor) \<noteq> 0"

type_synonym nref = nat

record blockNode =
  nd_parent :: "nref option"
  nd_ancestor :: "nref option"
  nd_hash :: bytes
  nd_workSum :: int
  nd_height :: i32
  nd_version :: i32
  nd_bits :: u32
  nd_nonce :: u32
  nd_timestamp :: i64
  nd_merkleRoot :: bytes
  nd_status :: byte

type_synonym node_heap = "nref \<Rightarrow> blockNode"

definition invertLowestOne :: "i32 \<Rightarrow> i32" where
  "invertLowestOne n = n AND (n - 1)"

definition getAncestorHeight :: "i32 \<Rightarrow> i32" where
  "getAncestorHeight height = invertLowestOne (invertLowestOne height)"

text \<open>The outer \<open>None\<close> is a loop that does not end.\<close>

partial_function (option) ancestor_loop :: "node_heap \<Rightarrow> i32 \<Rightarrow> nref option \<Rightarrow> nref option option" where
  "ancestor_loop h height n =
     (case n of None \<Rightarrow> Some None
      | Some p \<Rightarrow>
          if nd_height (h p) = height then Some n
          else if nd_ancestor (h p) \<noteq> None \<and> sint (getAncestorHeight (nd_height (h p))) \<ge> sint height
          then ancestor_loop h height (nd_ancestor (h p))
          else ancestor_loop h height (nd_parent (h p)))"

definition Ancestor :: "node_heap \<Rightarrow> nref \<Rightarrow> i32 \<Rightarrow> nref option option" where
  "Ancestor h node height =
     (if sint height < 0 \<or> sint height > sint (nd_height (h node)) then Some None
      else ancestor_loop h height (Some node))"

definition RelativeAncestor :: "node_heap \<Rightarrow> nref \<Rightarrow> i32 \<Rightarrow> nref option option" where
  "RelativeAncestor h node distance = Ancestor h node (nd_height (h node) - distance)"

definition buildAncestor :: "node_heap \<Rightarrow> blockNode \<Rightarrow> blockNode option" where
  "buildAncestor h node =
     (case nd_parent node of None \<Rightarrow> Some node
      | Some parent \<Rightarrow> map_option (\<lambda>a. node\<lparr>nd_ancestor := a\<rparr>) (Ancestor h parent (getAncestorHeight (nd_height node))))"

definition initBlockNode :: "(bytes \<Rightarrow> bytes) \<Rightarrow> node_heap \<Rightarrow> BlockHeader \<Rightarrow> nref option \<Rightarrow> blockNode option" where
  "initBlockNode sha h blockHeader parent =
     (let node = \<lparr>nd_parent = None, nd_ancestor = None, nd_hash = BlockHash sha blockHeader,
            nd_workSum = CalcWork (bh_Bits blockHeader), nd_height = 0, nd_version = bh_Version blockHeader,
            nd_bits = bh_Bits blockHeader, nd_nonce = bh_Nonce blockHeader,
            nd_timestamp = word_of_int (time_Unix (bh_Timestamp blockHeader)),
            nd_merkleRoot = bh_MerkleRoot blockHeader, nd_status = statusNone\<rparr>
      in case parent of None \<Rightarrow> Some node
         | Some p \<Rightarrow> buildAncestor h (node\<lparr>nd_parent := Some p, nd_height := nd_height (h p) + 1,
             nd_workSum := nd_workSum (h p) + nd_workSum node\<rparr>))"

text \<open>\<^verbatim>\<open>newBlockNode\<close> stores the node at a new pointer.\<close>

definition newBlockNode ::
    "(bytes \<Rightarrow> bytes) \<Rightarrow> node_heap \<Rightarrow> nref \<Rightarrow> BlockHeader \<Rightarrow> nref option \<Rightarrow> node_heap option" where
  "newBlockNode sha h new blockHeader parent = map_option (\<lambda>node. h(new := node)) (initBlockNode sha h blockHeader parent)"

definition node_Equals :: "blockNode \<Rightarrow> blockNode \<Rightarrow> bool" where
  "node_Equals node other \<longleftrightarrow> nd_hash node = nd_hash other \<and> nd_workSum node = nd_workSum other \<and>
     nd_height node = nd_height other \<and> nd_version node = nd_version other \<and> nd_bits node = nd_bits other \<and>
     nd_nonce node = nd_nonce other \<and> nd_timestamp node = nd_timestamp other \<and>
     nd_merkleRoot node = nd_merkleRoot other \<and> nd_status node = nd_status other"

definition node_Header :: "node_heap \<Rightarrow> nref \<Rightarrow> BlockHeader" where
  "node_Header h node =
     \<lparr>bh_Version = nd_version (h node),
      bh_PrevBlock = (case nd_parent (h node) of None \<Rightarrow> zeroHash | Some p \<Rightarrow> nd_hash (h p)),
      bh_MerkleRoot = nd_merkleRoot (h node), bh_Timestamp = Unix_time (sint (nd_timestamp (h node))),
      bh_Bits = nd_bits (h node), bh_Nonce = nd_nonce (h node)\<rparr>"

definition IsAncestor :: "node_heap \<Rightarrow> nref \<Rightarrow> nref option \<Rightarrow> bool option" where
  "IsAncestor h node otherNode =
     (case otherNode of None \<Rightarrow> Some False
      | Some other \<Rightarrow> map_option (\<lambda>a. case a of None \<Rightarrow> False
          | Some ancestor \<Rightarrow> nd_height (h node) \<noteq> nd_height (h ancestor) \<and> node_Equals (h ancestor) (h other))
          (Ancestor h node (nd_height (h other))))"

definition medianTimeBlocks :: nat where "medianTimeBlocks = 11"

text \<open>The loop that collects timestamps: at most \<open>n\<close> of them.\<close>

fun past_timestamps :: "node_heap \<Rightarrow> nat \<Rightarrow> blockNode option \<Rightarrow> i64 list" where
  "past_timestamps h 0 iterNode = []"
| "past_timestamps h (Suc n) None = []"
| "past_timestamps h (Suc n) (Some node) = nd_timestamp node # past_timestamps h n (map_option h (nd_parent node))"

definition median_of :: "i64 list \<Rightarrow> i64" where
  "median_of timestamps = sort_key sint timestamps ! (length timestamps div 2)"

definition CalcPastMedianTime :: "node_heap \<Rightarrow> blockNode \<Rightarrow> int" where
  "CalcPastMedianTime h node = Unix_time (sint (median_of (past_timestamps h medianTimeBlocks (Some node))))"

section \<open>The index\<close>

text \<open>The dirty nodes, in any order.\<close>

record blockIndex =
  bi_index :: "bytes \<Rightarrow> nref option"
  bi_dirty :: "nref list"

definition newBlockIndex :: blockIndex where
  "newBlockIndex = \<lparr>bi_index = Map.empty, bi_dirty = []\<rparr>"

definition HaveBlock :: "blockIndex \<Rightarrow> bytes \<Rightarrow> bool" where
  "HaveBlock bi hash \<longleftrightarrow> bi_index bi hash \<noteq> None"

definition LookupNode :: "blockIndex \<Rightarrow> bytes \<Rightarrow> nref option" where
  "LookupNode bi hash = bi_index bi hash"

definition index_addNode :: "node_heap \<Rightarrow> nref \<Rightarrow> blockIndex \<Rightarrow> blockIndex" where
  "index_addNode h node bi = bi\<lparr>bi_index := (bi_index bi)(nd_hash (h node) \<mapsto> node)\<rparr>"

definition AddNode :: "node_heap \<Rightarrow> nref \<Rightarrow> blockIndex \<Rightarrow> blockIndex" where
  "AddNode h node bi = (index_addNode h node bi)\<lparr>bi_dirty := List.insert node (bi_dirty bi)\<rparr>"

definition DeleteNode :: "node_heap \<Rightarrow> nref \<Rightarrow> blockIndex \<Rightarrow> blockIndex" where
  "DeleteNode h node bi = bi\<lparr>bi_index := (bi_index bi)(nd_hash (h node) := None), bi_dirty := removeAll node (bi_dirty bi)\<rparr>"

definition NodeStatus :: "node_heap \<Rightarrow> nref \<Rightarrow> byte" where
  "NodeStatus h node = nd_status (h node)"

definition SetStatusFlags :: "nref \<Rightarrow> byte \<Rightarrow> node_heap \<times> blockIndex \<Rightarrow> node_heap \<times> blockIndex" where
  "SetStatusFlags node flags = (\<lambda>(h, bi).
     (h(node := (h node)\<lparr>nd_status := nd_status (h node) OR flags\<rparr>), bi\<lparr>bi_dirty := List.insert node (bi_dirty bi)\<rparr>))"

definition UnsetStatusFlags :: "nref \<Rightarrow> byte \<Rightarrow> node_heap \<times> blockIndex \<Rightarrow> node_heap \<times> blockIndex" where
  "UnsetStatusFlags node flags = (\<lambda>(h, bi).
     (h(node := (h node)\<lparr>nd_status := nd_status (h node) AND NOT flags\<rparr>), bi\<lparr>bi_dirty := List.insert node (bi_dirty bi)\<rparr>))"

section \<open>The chain view\<close>

definition log2FloorMasks :: "u32 list" where
  "log2FloorMasks = [0xffff0000, 0xff00, 0xf0, 0xc, 0x2]"

text \<open>One round of \<^verbatim>\<open>fastLog2Floor\<close>; the exponent is halved after it.\<close>

definition log2_round :: "u32 \<Rightarrow> byte \<times> byte \<times> u32 \<Rightarrow> byte \<times> byte \<times> u32" where
  "log2_round msk = (\<lambda>(rv, exponent, n).
     if n AND msk \<noteq> 0 then (rv + exponent, drop_bit 1 exponent, drop_bit (unat exponent) n)
     else (rv, drop_bit 1 exponent, n))"

definition fastLog2Floor :: "u32 \<Rightarrow> byte" where
  "fastLog2Floor n = fst (fold log2_round log2FloorMasks (0, 16, n))"

type_synonym chainView = "nref option list"

definition cv_genesis :: "chainView \<Rightarrow> nref option" where
  "cv_genesis c = (if length c = 0 then None else c ! 0)"

definition cv_tip :: "chainView \<Rightarrow> nref option" where
  "cv_tip c = (if length c = 0 then None else c ! (length c - 1))"

text \<open>An index out of range panics: the outer \<open>None\<close>, as for a loop that does not end.\<close>

partial_function (option) setTip_loop :: "node_heap \<Rightarrow> nref option \<Rightarrow> chainView \<Rightarrow> chainView option" where
  "setTip_loop h node c =
     (case node of None \<Rightarrow> Some c
      | Some p \<Rightarrow>
          if sint (nd_height (h p)) < 0 \<or> sint (nd_height (h p)) \<ge> int (length c) then None
          else let i = nat (sint (nd_height (h p)))
               in if c ! i = node then Some c else setTip_loop h (nd_parent (h p)) (c[i := node]))"

definition setTip :: "node_heap \<Rightarrow> nref option \<Rightarrow> chainView \<Rightarrow> chainView option" where
  "setTip h node c =
     (case node of None \<Rightarrow> Some []
      | Some p \<Rightarrow>
          let needed = nat (sint (nd_height (h p) + 1))
          in setTip_loop h node (take needed (c @ replicate needed None)))"

definition newChainView :: "node_heap \<Rightarrow> nref option \<Rightarrow> chainView option" where
  "newChainView h tip = setTip h tip []"

definition cv_height :: "chainView \<Rightarrow> i32" where
  "cv_height c = word_of_int (int (length c) - 1)"

definition nodeByHeight :: "chainView \<Rightarrow> i32 \<Rightarrow> nref option" where
  "nodeByHeight c height = (if sint height < 0 \<or> sint height \<ge> sint (word_of_nat (length c) :: i32) then None
     else c ! nat (sint height))"

definition cv_Equals :: "chainView \<Rightarrow> chainView \<Rightarrow> bool" where
  "cv_Equals c other \<longleftrightarrow> length c = length other \<and> cv_tip c = cv_tip other"

definition cv_contains :: "node_heap \<Rightarrow> chainView \<Rightarrow> nref \<Rightarrow> bool" where
  "cv_contains h c node \<longleftrightarrow> nodeByHeight c (nd_height (h node)) = Some node"

definition cv_next :: "node_heap \<Rightarrow> chainView \<Rightarrow> nref option \<Rightarrow> nref option" where
  "cv_next h c node = (case node of None \<Rightarrow> None
     | Some p \<Rightarrow> if \<not> cv_contains h c p then None else nodeByHeight c (nd_height (h p) + 1))"

partial_function (option) fork_loop :: "node_heap \<Rightarrow> chainView \<Rightarrow> nref option \<Rightarrow> nref option option" where
  "fork_loop h c node =
     (case node of None \<Rightarrow> Some None
      | Some p \<Rightarrow> if cv_contains h c p then Some node else fork_loop h c (nd_parent (h p)))"

definition findFork :: "node_heap \<Rightarrow> chainView \<Rightarrow> nref option \<Rightarrow> nref option option" where
  "findFork h c node =
     (case node of None \<Rightarrow> Some None
      | Some p \<Rightarrow>
          let chainHeight = cv_height c
          in Option.bind (if sint (nd_height (h p)) > sint chainHeight then Ancestor h p chainHeight else Some node) (fork_loop h c))"

text \<open>The loop of \<^verbatim>\<open>blockLocator\<close>; a node of the view finds its ancestors in the view.\<close>

partial_function (option) locator_loop :: "node_heap \<Rightarrow> chainView \<Rightarrow> nref option \<Rightarrow> i32 \<Rightarrow> bytes list \<Rightarrow> bytes list option" where
  "locator_loop h c node step locator =
     (case node of None \<Rightarrow> Some locator
      | Some p \<Rightarrow>
          let locator = locator @ [nd_hash (h p)]
          in if nd_height (h p) = 0 then Some locator
             else let height = (if sint (nd_height (h p) - step) < 0 then 0 else nd_height (h p) - step)
                  in Option.bind (if cv_contains h c p then (if nat (sint height) < length c then Some (c ! nat (sint height)) else None)
                                  else Ancestor h p height) (\<lambda>node.
                     locator_loop h c node (if length locator > 10 then step * 2 else step) locator))"

definition blockLocator :: "node_heap \<Rightarrow> chainView \<Rightarrow> nref option \<Rightarrow> bytes list option" where
  "blockLocator h c node =
     (case (case node of None \<Rightarrow> cv_tip c | Some p \<Rightarrow> node) of
        None \<Rightarrow> Some []
      | Some p \<Rightarrow> locator_loop h c (Some p) 1 [])"

definition locator_maxEntries :: "i32 \<Rightarrow> byte" where
  "locator_maxEntries height =
     (if sint height \<le> 12 then ucast height + 1 else 12 + fastLog2Floor (height - 10))"

section \<open>Branches\<close>

text \<open>
  The nodes from the genesis block to \<open>p\<close>: parents and heights follow each other, and every skip
  pointer leads to the node of its height.
\<close>

inductive branch :: "node_heap \<Rightarrow> nref \<Rightarrow> nref list \<Rightarrow> bool" for h where
  genesis: "nd_parent (h p) = None \<Longrightarrow> nd_ancestor (h p) = None \<Longrightarrow> nd_height (h p) = 0 \<Longrightarrow> branch h p [p]"
| extend: "branch h q qs \<Longrightarrow> nd_parent (h p) = Some q \<Longrightarrow> nd_height (h p) = nd_height (h q) + 1 \<Longrightarrow>
    length qs < 2 ^ 31 - 1 \<Longrightarrow> nd_ancestor (h p) = Some (qs ! nat (sint (getAncestorHeight (nd_height (h p))))) \<Longrightarrow>
    branch h p (qs @ [p])"

lemma sint_height: "i < 2 ^ 31 \<Longrightarrow> sint (word_of_nat i :: i32) = int i"
  by (simp add: signed_of_nat signed_take_bit_int_eq_self)

lemma sint_i32: "- (2 ^ 31) \<le> v \<Longrightarrow> v < 2 ^ 31 \<Longrightarrow> sint (word_of_int v :: i32) = v"
  by (simp add: signed_of_int signed_take_bit_int_eq_self)

lemma branch_nonempty: "branch h p ps \<Longrightarrow> ps \<noteq> [] \<and> last ps = p"
  by (induction rule: branch.induct) auto

lemma branch_length: "branch h p ps \<Longrightarrow> 0 < length ps \<and> length ps \<le> 2 ^ 31 - 1"
  by (induction rule: branch.induct) auto

lemma branch_height: "branch h p ps \<Longrightarrow> i < length ps \<Longrightarrow> nd_height (h (ps ! i)) = word_of_nat i"
proof (induction arbitrary: i rule: branch.induct)
  case (extend q qs p)
  from branch_nonempty [OF extend.hyps(1)] have q: "q = qs ! (length qs - 1)" "0 < length qs"
    by (auto simp: last_conv_nth)
  from extend.IH [of "length qs - 1"] q have "nd_height (h q) + 1 = word_of_nat (length qs)"
    by (cases qs) simp_all
  with extend.IH [of i] extend.prems extend.hyps(3) show ?case
    by (cases "i < length qs") (auto simp: nth_append less_Suc_eq)
qed simp

lemma branch_sint_height: "branch h p ps \<Longrightarrow> i < length ps \<Longrightarrow> sint (nd_height (h (ps ! i))) = int i"
  using branch_length [of h p ps] branch_height [of h p ps i] by (simp add: sint_height)

lemma branch_tip: "branch h p ps \<Longrightarrow> p = ps ! (length ps - 1)"
  using branch_nonempty [of h p ps] by (auto simp: last_conv_nth)

lemma branch_tip_height: "branch h p ps \<Longrightarrow> sint (nd_height (h p)) = int (length ps) - 1"
  using branch_sint_height [of h p ps "length ps - 1"] branch_tip [of h p ps] branch_length [of h p ps]
  by simp

lemma branch_next_height: "branch h p ps \<Longrightarrow> nd_height (h p) + 1 = word_of_nat (length ps)"
proof -
  assume b: "branch h p ps"
  have "nd_height (h (ps ! (length ps - 1))) = word_of_nat (length ps - 1)"
    by (rule branch_height [OF b]) (use branch_length [OF b] in auto)
  with branch_tip [OF b] branch_length [OF b] show ?thesis by (cases ps) simp_all
qed

lemma branch_take: "branch h p ps \<Longrightarrow> i < length ps \<Longrightarrow> branch h (ps ! i) (take (Suc i) ps)"
proof (induction arbitrary: i rule: branch.induct)
  case (genesis p)
  then show ?case by (simp add: branch.genesis)
next
  case (extend q qs p)
  show ?case
  proof (cases "i < length qs")
    case True
    with extend.IH [of i] show ?thesis by (simp add: nth_append)
  next
    case False
    with extend.prems have "i = length qs" by simp
    with branch.extend [OF extend.hyps] show ?thesis by simp
  qed
qed

lemma branch_unique: "branch h p ps \<Longrightarrow> branch h p qs \<Longrightarrow> ps = qs"
proof (induction arbitrary: qs rule: branch.induct)
  case (genesis p)
  from genesis.prems show ?case by (cases rule: branch.cases) (simp_all add: genesis.hyps(1))
next
  case (extend q rs p)
  from extend.prems show ?case
  proof (cases rule: branch.cases)
    case genesis
    with extend.hyps(2) show ?thesis by simp
  next
    case (extend q' qs')
    with \<open>nd_parent (h p) = Some q\<close> have "q' = q" by simp
    with extend.IH extend(2) have "rs = qs'" by simp
    with extend(1) show ?thesis by simp
  qed
qed

lemma branch_prefix_eq:
  assumes "branch h p ps" "branch h q qs" "i < length ps" "j < length qs" "ps ! i = qs ! j"
  shows "i = j \<and> take (Suc i) ps = take (Suc i) qs"
proof -
  from branch_sint_height [OF assms(1,3)] branch_sint_height [OF assms(2,4)] assms(5) have "i = j" by simp
  with branch_unique [OF branch_take [OF assms(1,3)]] branch_take [OF assms(2,4)] assms(5) show ?thesis by simp
qed

lemma branch_distinct: "branch h p ps \<Longrightarrow> distinct ps"
  unfolding distinct_conv_nth using branch_prefix_eq [of h p ps p ps] by blast

lemma branch_parent:
  assumes "branch h p ps" "i < length ps"
  shows "nd_parent (h (ps ! i)) = (if i = 0 then None else Some (ps ! (i - 1)))"
  using branch_take [OF assms]
proof (cases rule: branch.cases)
  case genesis
  then have "length (take (Suc i) ps) = 1" by simp
  with assms(2) have "i = 0" by simp
  with genesis show ?thesis by simp
next
  case (extend q qs)
  then have "length (take (Suc i) ps) = Suc (length qs)" by simp
  with assms have n: "length qs = i" by simp
  with extend have "qs = take i ps" by (metis append_eq_append_conv butlast_snoc butlast_take diff_Suc_1 assms(2) Suc_leI)
  with branch_tip [OF extend(2)] branch_length [OF extend(2)] n extend show ?thesis by simp
qed

lemma getAncestorHeight_less:
  assumes "0 < i" "i < 2 ^ 31"
  shows "0 \<le> sint (getAncestorHeight (word_of_nat i)) \<and> sint (getAncestorHeight (word_of_nat i)) < int i"
proof -
  define n :: i32 where "n = word_of_nat i"
  define a where "a = getAncestorHeight n"
  have n: "unat n = i" using assms by (simp add: n_def unat_of_nat take_bit_nat_eq_self)
  have nz: "n \<noteq> 0" using n assms(1) by auto
  have "a \<le> invertLowestOne n"
    unfolding a_def getAncestorHeight_def by (simp add: invertLowestOne_def [of "invertLowestOne n"] word_and_le2)
  also have "invertLowestOne n \<le> n - 1" by (simp add: invertLowestOne_def word_and_le1)
  finally have "unat a \<le> unat (n - 1)" by (simp add: word_le_nat_alt)
  with nz n assms(1) have less: "unat a < i" by (simp add: unat_minus_one)
  have "a = word_of_nat (unat a)" by simp
  then have "sint a = int (unat a)" using sint_height [of "unat a"] less assms(2) by simp
  with less have "0 \<le> sint a \<and> sint a < int i" by linarith
  then show ?thesis by (simp only: a_def n_def)
qed

lemma branch_skip:
  assumes "branch h p ps" "0 < i" "i < length ps"
  shows "\<exists>j<i. sint (getAncestorHeight (nd_height (h (ps ! i)))) = int j \<and> nd_ancestor (h (ps ! i)) = Some (ps ! j)"
proof -
  have h: "nd_height (h (ps ! i)) = word_of_nat i" by (rule branch_height) fact+
  define j where "j = nat (sint (getAncestorHeight (word_of_nat i :: i32)))"
  have "0 \<le> sint (getAncestorHeight (word_of_nat i :: i32)) \<and> sint (getAncestorHeight (word_of_nat i :: i32)) < int i"
    by (rule getAncestorHeight_less) (use assms branch_length [OF assms(1)] in auto)
  then have j: "j < i" "sint (getAncestorHeight (word_of_nat i :: i32)) = int j" by (auto simp: j_def)
  from branch_take [OF assms(1,3)] have "nd_ancestor (h (ps ! i)) = Some (ps ! j)"
  proof (cases rule: branch.cases)
    case genesis
    then have "length (take (Suc i) ps) = 1" by simp
    with assms show ?thesis by simp
  next
    case (extend q qs)
    then have "length (take (Suc i) ps) = Suc (length qs)" by simp
    with assms have n: "length qs = i" by simp
    have "qs ! j = take (Suc i) ps ! j" using extend(1) n j by (simp add: nth_append)
    also have "\<dots> = ps ! j" using j by simp
    finally show ?thesis using extend h j by simp
  qed
  with j h show ?thesis by (intro exI [of _ j]) simp
qed

lemma ancestor_loop_branch:
  assumes b: "branch h p ps"
  shows "i < length ps \<Longrightarrow> 0 \<le> sint height \<Longrightarrow> sint height \<le> int i \<Longrightarrow>
    ancestor_loop h height (Some (ps ! i)) = Some (Some (ps ! nat (sint height)))"
proof (induction i rule: less_induct)
  case (less i)
  have hi: "sint (nd_height (h (ps ! i))) = int i" by (rule branch_sint_height [OF b less.prems(1)])
  show ?case
  proof (cases "nd_height (h (ps ! i)) = height")
    case True
    with hi have "nat (sint height) = i" by simp
    with True show ?thesis by (simp add: ancestor_loop.simps [of h height "Some (ps ! i)"])
  next
    case False
    then have "sint height \<noteq> int i" using hi by (metis signed_word_eqI)
    with less.prems have lt: "sint height < int i" "0 < i" by auto
    obtain j where j: "j < i" "sint (getAncestorHeight (nd_height (h (ps ! i)))) = int j"
      "nd_ancestor (h (ps ! i)) = Some (ps ! j)"
      using branch_skip [OF b lt(2) less.prems(1)] by blast
    have par: "nd_parent (h (ps ! i)) = Some (ps ! (i - 1))"
      using branch_parent [OF b less.prems(1)] lt(2) by simp
    have "ancestor_loop h height (Some (ps ! i)) =
      ancestor_loop h height (Some (ps ! (if sint height \<le> int j then j else i - 1)))"
      using False j par by (simp add: ancestor_loop.simps [of h height "Some (ps ! i)"])
    also have "\<dots> = Some (Some (ps ! nat (sint height)))"
      by (rule less.IH) (use less.prems lt j in auto)
    finally show ?thesis .
  qed
qed

lemma ancestor_branch:
  assumes "branch h p ps"
  shows "Ancestor h p height =
    Some (if 0 \<le> sint height \<and> sint height < int (length ps) then Some (ps ! nat (sint height)) else None)"
  using ancestor_loop_branch [OF assms, of "length ps - 1" height] branch_tip [OF assms]
    branch_tip_height [OF assms] branch_length [OF assms]
  by (auto simp: Ancestor_def)

section \<open>New nodes\<close>

lemma branch_mono:
  assumes "branch h p ps"
  shows "(\<And>q. q \<in> set ps \<Longrightarrow> h' q = h q) \<Longrightarrow> branch h' p ps"
  using assms
proof (induction rule: branch.induct)
  case (genesis p)
  then show ?case by (simp add: branch.genesis)
next
  case (extend q qs p)
  have "q \<in> set qs" using branch_nonempty [OF extend.hyps(1)] by auto
  with extend show ?case by (intro branch.extend [of h' q]) simp_all
qed

lemma newBlockNode_branch:
  assumes b: "branch h p ps" and new: "new \<notin> set ps" and room: "length ps < 2 ^ 31 - 1"
  obtains h' where "newBlockNode sha h new hdr (Some p) = Some h'" "branch h' new (ps @ [new])"
    "\<And>q. q \<noteq> new \<Longrightarrow> h' q = h q" "nd_workSum (h' new) = nd_workSum (h p) + CalcWork (bh_Bits hdr)"
    "nd_hash (h' new) = BlockHash sha hdr" "nd_status (h' new) = 0"
proof -
  define n where "n = length ps"
  have height: "nd_height (h p) + 1 = word_of_nat n" using branch_next_height [OF b] by (simp add: n_def)
  have skip: "0 \<le> sint (getAncestorHeight (word_of_nat n :: i32)) \<and> sint (getAncestorHeight (word_of_nat n :: i32)) < int n"
    by (rule getAncestorHeight_less) (use room branch_length [OF b] in \<open>auto simp: n_def\<close>)
  define node where "node = \<lparr>nd_parent = Some p,
    nd_ancestor = Some (ps ! nat (sint (getAncestorHeight (word_of_nat n :: i32)))), nd_hash = BlockHash sha hdr,
    nd_workSum = nd_workSum (h p) + CalcWork (bh_Bits hdr), nd_height = word_of_nat n, nd_version = bh_Version hdr,
    nd_bits = bh_Bits hdr, nd_nonce = bh_Nonce hdr, nd_timestamp = word_of_int (time_Unix (bh_Timestamp hdr)),
    nd_merkleRoot = bh_MerkleRoot hdr, nd_status = 0\<rparr>"
  have init: "newBlockNode sha h new hdr (Some p) = Some (h(new := node))"
    using skip by (simp add: newBlockNode_def initBlockNode_def buildAncestor_def ancestor_branch [OF b] height n_def node_def)
  have b': "branch (h(new := node)) p ps" by (rule branch_mono [OF b]) (use new in auto)
  have "new \<noteq> p" using new branch_nonempty [OF b] by auto
  then have "branch (h(new := node)) new (ps @ [new])"
    using room height by (intro branch.extend [OF b']) (simp_all add: node_def)
  then show thesis by (rule that [OF init]) (simp_all add: node_def)
qed

section \<open>The chain view holds the branch of its tip\<close>

definition view_of :: "node_heap \<Rightarrow> chainView \<Rightarrow> bool" where
  "view_of h c \<longleftrightarrow> c = [] \<or> (\<exists>q qs. branch h q qs \<and> c = map Some qs)"

lemma setTip_loop_branch:
  assumes p: "branch h p ps" and q: "branch h q qs \<or> qs = []"
    and base: "base = take (length ps) (map Some qs @ replicate (length ps) None)"
  shows "i \<le> length ps \<Longrightarrow> setTip_loop h (if i = 0 then None else Some (ps ! (i - 1))) (take i base @ map Some (drop i ps)) =
    Some (map Some ps)"
proof (induction i)
  case 0
  then show ?case by (simp add: setTip_loop.simps)
next
  case (Suc i)
  have len: "length base = length ps" by (simp add: base)
  let ?c = "take (Suc i) base @ map Some (drop (Suc i) ps)"
  have c: "length ?c = length ps" "?c ! i = base ! i" using Suc.prems len by (simp_all add: nth_append)
  have upd: "?c[i := Some (ps ! i)] = take i base @ map Some (drop i ps)"
    using Suc.prems len
    by (simp add: list_update_append take_Suc_conv_app_nth Cons_nth_drop_Suc [symmetric])
  have h: "sint (nd_height (h (ps ! i))) = int i" using Suc.prems by (intro branch_sint_height [OF p]) simp
  show ?case
  proof (cases "base ! i = Some (ps ! i)")
    case True
    then have iq: "i < length qs" "qs ! i = ps ! i"
      using Suc.prems by (auto simp: base nth_append split: if_splits)
    with q have "branch h q qs" by auto
    with iq Suc.prems p have "take (Suc i) ps = take (Suc i) qs" using branch_prefix_eq [OF p, of q qs i i] by auto
    moreover have "take (Suc i) base = map Some (take (Suc i) qs)"
      using Suc.prems iq by (simp add: base take_map min_def)
    ultimately have "?c = map Some ps" by (metis append_take_drop_id map_append)
    with True h c Suc.prems show ?thesis
      by (simp add: setTip_loop.simps [of h "Some (ps ! i)"] del: map_append)
  next
    case False
    have "setTip_loop h (Some (ps ! i)) ?c = setTip_loop h (nd_parent (h (ps ! i))) (?c[i := Some (ps ! i)])"
      using False h c Suc.prems by (simp add: setTip_loop.simps [of h "Some (ps ! i)"])
    also have "\<dots> = setTip_loop h (if i = 0 then None else Some (ps ! (i - 1))) (take i base @ map Some (drop i ps))"
      using branch_parent [OF p, of i] Suc.prems upd by simp
    finally show ?thesis using Suc by simp
  qed
qed

lemma setTip_branch:
  assumes p: "branch h p ps" and c: "view_of h c"
  shows "setTip h (Some p) c = Some (map Some ps)"
proof -
  from c obtain q qs where qs: "branch h q qs \<or> qs = []" "c = map Some qs"
    unfolding view_of_def by force
  define base where "base = take (length ps) (map Some qs @ replicate (length ps) None)"
  have n: "0 < length ps" "p = ps ! (length ps - 1)" using branch_length [OF p] branch_tip [OF p] by auto
  have needed: "nat (sint (nd_height (h p) + 1)) = length ps"
    using branch_length [OF p] by (simp add: sint_height branch_next_height [OF p])
  have base: "take (length ps) base = base" by (simp add: base_def)
  have "setTip_loop h (Some p) base = Some (map Some ps)"
    using setTip_loop_branch [OF p qs(1) base_def, of "length ps"] n base by simp
  then show ?thesis by (simp add: setTip_def needed qs(2) base_def)
qed

lemma contains_branch:
  assumes p: "branch h p ps" and q: "branch h q qs" and i: "i < length ps"
  shows "cv_contains h (map Some qs) (ps ! i) \<longleftrightarrow> i < length qs \<and> take (Suc i) ps = take (Suc i) qs"
proof -
  have "sint (word_of_nat (length qs) :: i32) = int (length qs)"
    using branch_length [OF q] by (intro sint_height) simp
  then have "cv_contains h (map Some qs) (ps ! i) \<longleftrightarrow> i < length qs \<and> qs ! i = ps ! i"
    by (auto simp: cv_contains_def nodeByHeight_def branch_sint_height [OF p i])
  also have "\<dots> \<longleftrightarrow> i < length qs \<and> take (Suc i) ps = take (Suc i) qs"
    using branch_prefix_eq [OF p q i, of i] i by (metis lessI nth_take)
  finally show ?thesis .
qed

lemma take_common_prefix:
  assumes "k = length (longest_common_prefix ps qs)"
  shows "take k ps = longest_common_prefix ps qs \<and> take k qs = longest_common_prefix ps qs \<and> k \<le> length ps \<and> k \<le> length qs"
proof -
  obtain zs where "ps = longest_common_prefix ps qs @ zs" using longest_common_prefix_prefix1 prefix_def by blast
  then have 1: "take k ps = longest_common_prefix ps qs" unfolding assms by (metis append_eq_conv_conj)
  obtain zs where "qs = longest_common_prefix ps qs @ zs" using longest_common_prefix_prefix2 prefix_def by blast
  then have 2: "take k qs = longest_common_prefix ps qs" unfolding assms by (metis append_eq_conv_conj)
  have "k \<le> length ps \<and> k \<le> length qs"
    unfolding assms by (simp add: prefix_length_le longest_common_prefix_prefix1 longest_common_prefix_prefix2)
  with 1 2 show ?thesis by blast
qed

lemma fork_loop_branch:
  assumes p: "branch h p ps" and q: "branch h q qs" and k: "k = length (longest_common_prefix ps qs)"
  shows "k \<le> i \<Longrightarrow> i \<le> length ps \<Longrightarrow> fork_loop h (map Some qs) (if i = 0 then None else Some (ps ! (i - 1))) =
    Some (if k = 0 then None else Some (ps ! (k - 1)))"
proof (induction i)
  case 0
  then show ?case by (simp add: fork_loop.simps)
next
  case (Suc i)
  have i: "i < length ps" using Suc.prems by simp
  show ?case
  proof (cases "k = Suc i")
    case True
    have "take (Suc i) ps = take (Suc i) qs \<and> i < length qs"
      using take_common_prefix [OF k] True by simp
    with contains_branch [OF p q i] True show ?thesis
      by (simp add: fork_loop.simps [of h _ "Some (ps ! i)"])
  next
    case False
    have "\<not> (i < length qs \<and> take (Suc i) ps = take (Suc i) qs)"
    proof
      assume *: "i < length qs \<and> take (Suc i) ps = take (Suc i) qs"
      have "prefix (take (Suc i) ps) (longest_common_prefix ps qs)"
        by (rule longest_common_prefix_max_prefix) (use * take_is_prefix [of "Suc i"] in \<open>metis+\<close>)
      then have "length (take (Suc i) ps) \<le> k" unfolding k by (rule prefix_length_le)
      with i False Suc.prems show False by simp
    qed
    with contains_branch [OF p q i] branch_parent [OF p i] Suc False show ?thesis
      by (simp add: fork_loop.simps [of h _ "Some (ps ! i)"])
  qed
qed

lemma findFork_branch:
  assumes p: "branch h p ps" and q: "branch h q qs"
  shows "findFork h (map Some qs) (Some p) =
    Some (if longest_common_prefix ps qs = [] then None else Some (last (longest_common_prefix ps qs)))"
proof -
  define k where "k = length (longest_common_prefix ps qs)"
  have k: "k \<le> length ps" "k \<le> length qs"
    using take_common_prefix [OF k_def] by auto
  have height: "sint (cv_height (map Some qs)) = int (length qs) - 1"
    unfolding cv_height_def length_map by (rule sint_i32) (use branch_length [OF q] in auto)
  define i where "i = min (length ps) (length qs)"
  have i: "0 < i" "i \<le> length ps" "k \<le> i" using k branch_length [OF p] branch_length [OF q] by (auto simp: i_def)
  have "(if sint (nd_height (h p)) > sint (cv_height (map Some qs)) then Ancestor h p (cv_height (map Some qs)) else Some (Some p)) =
    Some (Some (ps ! (i - 1)))"
  proof (cases "length qs < length ps")
    case True
    have n: "nat (int (length qs) - 1) = length qs - 1" by arith
    have "Ancestor h p (cv_height (map Some qs)) = Some (Some (ps ! (length qs - 1)))"
      using True branch_length [OF q] ancestor_branch [OF p, of "cv_height (map Some qs)"]
      by (simp add: height n del: One_nat_def)
    with True show ?thesis by (simp add: height branch_tip_height [OF p] i_def)
  next
    case False
    then show ?thesis
      by (simp add: height branch_tip_height [OF p] i_def min_def branch_tip [OF p, symmetric] del: One_nat_def)
  qed
  with fork_loop_branch [OF p q k_def i(3,2)] i(1)
  have "findFork h (map Some qs) (Some p) = Some (if k = 0 then None else Some (ps ! (k - 1)))"
    by (simp add: findFork_def)
  moreover have "k \<noteq> 0 \<Longrightarrow> ps ! (k - 1) = last (longest_common_prefix ps qs)"
    using take_common_prefix [OF k_def] by (metis diff_less last_conv_nth le_zero_eq length_0_conv k_def nth_take zero_less_one neq0_conv)
  ultimately show ?thesis by (simp add: k_def)
qed

section \<open>The median time\<close>

lemma past_timestamps_branch:
  assumes b: "branch h p ps"
  shows "i \<le> length ps \<Longrightarrow>
    past_timestamps h n (if i = 0 then None else Some (h (ps ! (i - 1)))) = take n (rev (map (\<lambda>q. nd_timestamp (h q)) (take i ps)))"
proof (induction n arbitrary: i)
  case (Suc n)
  show ?case
  proof (cases i)
    case (Suc j)
    with Suc.prems Suc.IH [of j] branch_parent [OF b, of j] show ?thesis
      by (simp add: take_Suc_conv_app_nth if_distrib [of "map_option h"] cong: if_cong)
  qed simp
qed simp

lemma sorted_nth_ge_iff:
  assumes "sorted s" "j < length s"
  shows "m \<le> s ! j \<longleftrightarrow> length (filter (\<lambda>x. x < (m::int)) s) \<le> j"
proof
  assume m: "m \<le> s ! j"
  have "\<forall>x\<in>set (drop j s). m \<le> x"
  proof
    fix x assume "x \<in> set (drop j s)"
    then obtain i where "j + i < length s" "x = s ! (j + i)" using assms(2) by (auto simp: in_set_conv_nth) (metis less_diff_conv add.commute)
    with sorted_nth_mono [OF assms(1), of j "j + i"] m show "m \<le> x" by simp
  qed
  then have "filter (\<lambda>x. x < m) (drop j s) = []" by (auto simp: filter_empty_conv)
  then have "filter (\<lambda>x. x < m) s = filter (\<lambda>x. x < m) (take j s)"
    by (metis append.right_neutral append_take_drop_id filter_append)
  also have "length \<dots> \<le> j" using length_filter_le [of _ "take j s"] by (simp add: le_trans)
  finally show "length (filter (\<lambda>x. x < m) s) \<le> j" .
next
  assume l: "length (filter (\<lambda>x. x < m) s) \<le> j"
  show "m \<le> s ! j"
  proof (rule ccontr)
    assume "\<not> m \<le> s ! j"
    then have "\<forall>x\<in>set (take (Suc j) s). x < m"
      using assms by (force simp: in_set_conv_nth less_Suc_eq_le dest: sorted_nth_mono [of s])
    then have "filter (\<lambda>x. x < m) (take (Suc j) s) = take (Suc j) s" by (simp add: filter_id_conv)
    then have "filter (\<lambda>x. x < m) s = take (Suc j) s @ filter (\<lambda>x. x < m) (drop (Suc j) s)"
      by (metis append_take_drop_id filter_append)
    then have "Suc j \<le> length (filter (\<lambda>x. x < m) s)" using assms(2) by simp
    with l show False by simp
  qed
qed

lemma median_ge_iff:
  assumes "ts \<noteq> []"
  shows "m \<le> sint (median_of ts) \<longleftrightarrow> length (filter (\<lambda>t. sint t < m) ts) \<le> length ts div 2"
proof -
  define s where "s = map sint (sort_key sint ts)"
  have n: "length ts div 2 < length s" using assms by (simp add: s_def)
  have "mset s = mset (map sint ts)" by (simp add: s_def)
  then have "mset (filter (\<lambda>x. x < m) s) = mset (filter (\<lambda>x. x < m) (map sint ts))" by (metis mset_filter)
  then have "length (filter (\<lambda>x. x < m) s) = length (filter (\<lambda>x. x < m) (map sint ts))"
    by (metis size_mset)
  also have "\<dots> = length (filter (\<lambda>t. sint t < m) ts)" by (simp add: filter_map comp_def)
  finally have "length (filter (\<lambda>x. x < m) s) = length (filter (\<lambda>t. sint t < m) ts)" .
  moreover have "sorted s" by (simp add: s_def)
  moreover have "sint (median_of ts) = s ! (length ts div 2)" using n by (simp add: median_of_def s_def)
  ultimately show ?thesis using sorted_nth_ge_iff [OF _ n, of m] by simp
qed

lemma median_shift:
  assumes ts: "ts \<noteq> []" and t: "sint (median_of (take 11 ts)) < sint t"
  shows "sint (median_of (take 11 ts)) \<le> sint (median_of (take 11 (t # ts)))"
proof -
  define m where "m = sint (median_of (take 11 ts))"
  define below where "below xs = length (filter (\<lambda>t. sint t < m) xs)" for xs :: "i64 list"
  have old: "below (take 11 ts) \<le> length (take 11 ts) div 2"
    using median_ge_iff [of "take 11 ts" m] ts by (simp add: m_def below_def)
  have "below (take 11 (t # ts)) = below (take 10 ts)" using t by (simp add: below_def m_def)
  also have "\<dots> \<le> below (take 10 ts @ take 1 (drop 10 ts))" by (simp add: below_def)
  also have "take 10 ts @ take 1 (drop 10 ts) = take 11 ts" using take_add [of 10 1 ts] by simp
  also note old
  also have "length (take 11 ts) div 2 \<le> length (take 11 (t # ts)) div 2" by (simp add: div_le_mono)
  finally show ?thesis using median_ge_iff [of "take 11 (t # ts)" m] by (simp add: m_def below_def)
qed

section \<open>Block locators\<close>

lemma bit_unat: "bit (n :: u32) j \<longleftrightarrow> odd (unat n div 2 ^ j)"
proof -
  have "bit n j \<longleftrightarrow> bit (unat n) j" by (auto simp: bit_unsigned_iff dest: bit_imp_le_length)
  then show ?thesis by (simp add: bit_iff_odd)
qed

lemma bit_below: "unat (n :: u32) < 2 ^ k \<Longrightarrow> bit n j \<Longrightarrow> j < k"
proof (rule ccontr)
  assume *: "unat n < 2 ^ k" "bit n j" "\<not> j < k"
  then have "(2::nat) ^ k \<le> 2 ^ j" by (simp add: power_increasing)
  with *(1) have "unat n < 2 ^ j" by linarith
  then have "unat n div 2 ^ j = 0" by (rule div_less)
  with *(2) show False by (simp add: bit_unat)
qed

lemma bit_above: "2 ^ e \<le> unat (n :: u32) \<Longrightarrow> \<exists>j\<ge>e. bit n j"
proof (rule ccontr)
  assume *: "2 ^ e \<le> unat n" "\<not> (\<exists>j\<ge>e. bit n j)"
  then have "drop_bit e n = 0" by (auto simp: bit_eq_iff bit_simps)
  then have "unat n div 2 ^ e = 0" by (metis unat_0 unat_drop_bit_eq drop_bit_eq_div)
  with *(1) show False by (simp add: div_eq_0_iff)
qed

lemma log2_mask:
  assumes "unat (n :: u32) < 2 ^ (2 * e)"
  shows "n AND push_bit e (mask e) \<noteq> 0 \<longleftrightarrow> 2 ^ e \<le> unat n"
proof
  assume "n AND push_bit e (mask e) \<noteq> 0"
  then obtain j where "bit n j" "e \<le> j" by (auto simp: bit_eq_iff bit_simps)
  then show "2 ^ e \<le> unat n" using bit_below [of n e j] by (meson not_le)
next
  assume "2 ^ e \<le> unat n"
  from bit_above [OF this] obtain j where j: "e \<le> j" "bit n j" by blast
  with bit_below [OF assms] have "j < 2 * e" by blast
  with j have "bit (n AND push_bit e (mask e)) j"
    using bit_imp_le_length [OF j(2)] by (auto simp: bit_simps)
  then show "n AND push_bit e (mask e) \<noteq> 0" by auto
qed

text \<open>One round, with \<open>e\<close> its exponent: what is left of \<open>n\<close> is below \<open>2 ^ e\<close>.\<close>

lemma log2_round_step:
  assumes "unat n < 2 ^ (2 * unat e)" "n \<noteq> 0" "unat rv \<le> R" "R + unat e < 256"
    and "2 ^ unat rv * unat n \<le> N" "N < 2 ^ unat rv * (unat n + 1)"
  obtains rv' n' where "log2_round (push_bit (unat e) (mask (unat e))) (rv, e, n) = (rv', drop_bit 1 e, n')"
    "unat n' < 2 ^ unat e" "n' \<noteq> 0" "unat rv' \<le> R + unat e"
    "2 ^ unat rv' * unat n' \<le> N" "N < 2 ^ unat rv' * (unat n' + 1)"
proof (cases "2 ^ unat e \<le> unat n")
  case False
  then show ?thesis
    using that [of rv n] assms log2_mask [OF assms(1)] by (simp add: log2_round_def)
next
  case True
  let ?n = "drop_bit (unat e) n"
  have n': "unat ?n = unat n div 2 ^ unat e" using unat_drop_bit_eq [of "unat e" n] by (simp only: drop_bit_eq_div)
  have rv': "unat (rv + e) = unat rv + unat e" using assms(3,4) by (simp add: unat_word_ariths)
  have lo: "2 ^ unat e * (unat n div 2 ^ unat e) \<le> unat n" by simp
  have hi: "unat n + 1 \<le> 2 ^ unat e * (unat n div 2 ^ unat e + 1)"
    using dividend_less_times_div [of "2 ^ unat e" "unat n"] by simp
  have "2 ^ unat (rv + e) * unat ?n = 2 ^ unat rv * (2 ^ unat e * (unat n div 2 ^ unat e))"
    by (simp add: rv' n' power_add)
  also have "\<dots> \<le> N" using mult_le_mono2 [OF lo, of "2 ^ unat rv"] assms(5) by (rule order_trans)
  finally have 1: "2 ^ unat (rv + e) * unat ?n \<le> N" .
  have "N < 2 ^ unat rv * (2 ^ unat e * (unat n div 2 ^ unat e + 1))"
    using assms(6) mult_le_mono2 [OF hi, of "2 ^ unat rv"] by (rule less_le_trans)
  also have "\<dots> = 2 ^ unat (rv + e) * (unat ?n + 1)" unfolding rv' n' power_add by (rule mult.assoc [symmetric])
  finally have 2: "N < 2 ^ unat (rv + e) * (unat ?n + 1)" .
  have "unat n div 2 ^ unat e < 2 ^ unat e"
    using assms(1) by (simp add: div_less_iff_less_mult mult_2 power_add)
  moreover have "0 < unat n div 2 ^ unat e" using True by (simp add: div_greater_zero_iff)
  moreover from this n' have "?n \<noteq> 0" by (metis unat_0 less_irrefl)
  ultimately show ?thesis
    using that [of "rv + e" ?n] 1 2 True log2_mask [OF assms(1)] n' rv' assms(3) by (auto simp: log2_round_def)
qed

lemma fastLog2Floor_spec:
  assumes "n \<noteq> 0"
  shows "2 ^ unat (fastLog2Floor n) \<le> unat n \<and> unat n < 2 ^ (unat (fastLog2Floor n) + 1) \<and> unat (fastLog2Floor n) < 32"
proof -
  have masks: "log2FloorMasks = [push_bit (unat (16::byte)) (mask (unat (16::byte))), push_bit (unat (8::byte)) (mask (unat (8::byte))),
      push_bit (unat (4::byte)) (mask (unat (4::byte))), push_bit (unat (2::byte)) (mask (unat (2::byte))),
      push_bit (unat (1::byte)) (mask (unat (1::byte)))]"
    by code_simp
  have e: "drop_bit 1 (16::byte) = 8" "drop_bit 1 (8::byte) = 4" "drop_bit 1 (4::byte) = 2" "drop_bit 1 (2::byte) = 1"
    "drop_bit 1 (1::byte) = 0"
    by code_simp+
  have bound: "unat n < 2 ^ 32" using unat_less_width(3) [of n] by simp
  obtain r1 n1 where 1: "log2_round (push_bit (unat (16::byte)) (mask (unat (16::byte)))) (0, 16, n) = (r1, 8, n1)"
    "unat n1 < 2 ^ 16" "n1 \<noteq> 0" "unat r1 \<le> 16" "2 ^ unat r1 * unat n1 \<le> unat n" "unat n < 2 ^ unat r1 * (unat n1 + 1)"
    using log2_round_step [of n 16 0 0 "unat n"] assms bound e by auto
  obtain r2 n2 where 2: "log2_round (push_bit (unat (8::byte)) (mask (unat (8::byte)))) (r1, 8, n1) = (r2, 4, n2)"
    "unat n2 < 2 ^ 8" "n2 \<noteq> 0" "unat r2 \<le> 24" "2 ^ unat r2 * unat n2 \<le> unat n" "unat n < 2 ^ unat r2 * (unat n2 + 1)"
    using log2_round_step [of n1 8 r1 16 "unat n"] 1 e by auto
  obtain r3 n3 where 3: "log2_round (push_bit (unat (4::byte)) (mask (unat (4::byte)))) (r2, 4, n2) = (r3, 2, n3)"
    "unat n3 < 2 ^ 4" "n3 \<noteq> 0" "unat r3 \<le> 28" "2 ^ unat r3 * unat n3 \<le> unat n" "unat n < 2 ^ unat r3 * (unat n3 + 1)"
    using log2_round_step [of n2 4 r2 24 "unat n"] 2 e by auto
  obtain r4 n4 where 4: "log2_round (push_bit (unat (2::byte)) (mask (unat (2::byte)))) (r3, 2, n3) = (r4, 1, n4)"
    "unat n4 < 2 ^ 2" "n4 \<noteq> 0" "unat r4 \<le> 30" "2 ^ unat r4 * unat n4 \<le> unat n" "unat n < 2 ^ unat r4 * (unat n4 + 1)"
    using log2_round_step [of n3 2 r3 28 "unat n"] 3 e by auto
  obtain r5 n5 where 5: "log2_round (push_bit (unat (1::byte)) (mask (unat (1::byte)))) (r4, 1, n4) = (r5, 0, n5)"
    "unat n5 < 2 ^ 1" "n5 \<noteq> 0" "unat r5 \<le> 31" "2 ^ unat r5 * unat n5 \<le> unat n" "unat n < 2 ^ unat r5 * (unat n5 + 1)"
    using log2_round_step [of n4 1 r4 30 "unat n"] 4 e by auto
  have "fastLog2Floor n = r5"
    unfolding fastLog2Floor_def masks by (simp only: fold.simps comp_apply id_apply 1(1) 2(1) 3(1) 4(1) 5(1) fst_conv)
  moreover have "unat n5 = 1" using 5(2,3) by (simp add: unat_eq_zero [symmetric] del: unat_eq_zero)
  ultimately show ?thesis using 5(4-6) by simp
qed

text \<open>The heights of a locator, as natural numbers: \<open>k\<close> entries precede.\<close>

function locator_heights :: "nat \<Rightarrow> nat \<Rightarrow> nat \<Rightarrow> nat list" where
  "locator_heights i step k =
     (if i = 0 \<or> step = 0 then [i]
      else i # locator_heights (i - step) (if Suc k > 10 then step * 2 else step) (Suc k))"
  by pat_completeness auto
termination by (relation "measure (\<lambda>(i, step, k). i)") auto

declare locator_heights.simps [simp del]

lemma locator_loop_branch:
  assumes p: "branch h p ps" and c: "view_of h c"
  shows "i < length ps \<Longrightarrow> 0 < step \<Longrightarrow> i = 0 \<or> i + step < 2 ^ 31 \<Longrightarrow>
    locator_loop h c (Some (ps ! i)) (if i = 0 then w else word_of_nat step) loc =
      Some (loc @ map (\<lambda>j. nd_hash (h (ps ! j))) (locator_heights i step (length loc)))"
proof (induction i arbitrary: step w loc rule: less_induct)
  case (less i)
  have hi: "nd_height (h (ps ! i)) = word_of_nat i" "sint (nd_height (h (ps ! i))) = int i"
    using branch_height [OF p less.prems(1)] branch_sint_height [OF p less.prems(1)] by auto
  show ?case
  proof (cases "i = 0")
    case True
    with hi show ?thesis
      by (simp add: locator_loop.simps [of h c "Some (ps ! 0)"] locator_heights.simps [of 0])
  next
    case False
    have nz: "nd_height (h (ps ! i)) \<noteq> 0" using hi(2) False by auto
    have "sint (word_of_nat i - word_of_nat step :: i32) = int i - int step"
      using sint_i32 [of "int i - int step"] less.prems False by simp
    then have height: "(if sint (nd_height (h (ps ! i)) - word_of_nat step) < 0 then 0
        else nd_height (h (ps ! i)) - word_of_nat step) = (word_of_nat (i - step) :: i32)"
      by (auto simp: hi(1) of_nat_diff)
    have sh: "sint (word_of_nat (i - step) :: i32) = int (i - step)"
      using less.prems branch_length [OF p] by (intro sint_height) (auto intro: le_less_trans)
    have down: "Ancestor h (ps ! i) (word_of_nat (i - step)) = Some (Some (ps ! (i - step)))"
      using ancestor_branch [OF branch_take [OF p less.prems(1)], of "word_of_nat (i - step)"] sh less.prems(1)
      by simp
    have view: "nat (sint (word_of_nat (i - step) :: i32)) < length c \<and> c ! nat (sint (word_of_nat (i - step) :: i32)) = Some (ps ! (i - step))"
      if "cv_contains h c (ps ! i)"
    proof -
      from c that obtain q qs where qs: "branch h q qs" "c = map Some qs"
        by (auto simp: view_of_def cv_contains_def nodeByHeight_def split: if_splits)
      with contains_branch [OF p qs(1) less.prems(1)] that
      have "i < length qs" "take (Suc i) ps = take (Suc i) qs" by auto
      then have "ps ! (i - step) = qs ! (i - step)" by (metis diff_le_self le_imp_less_Suc nth_take)
      with \<open>i < length qs\<close> qs(2) sh show ?thesis by simp
    qed
    define step' where "step' = (if Suc (length loc) > 10 then step * 2 else step)"
    have below: "i - step < length ps" using less.prems(1) by simp
    have pos: "0 < step'" using less.prems(2) by (simp add: step'_def)
    have room: "i - step = 0 \<or> i - step + step' < 2 ^ 31" using less.prems(3) False by (auto simp: step'_def)
    have word: "(if 9 < length loc then word_of_nat step * 2 else word_of_nat step) =
        (word_of_nat step' :: i32)"
      by (simp add: step'_def)
    have "locator_loop h c (Some (ps ! i)) (word_of_nat step) loc =
      locator_loop h c (Some (ps ! (i - step))) (word_of_nat step') (loc @ [nd_hash (h (ps ! i))])"
      using nz view down by (simp add: locator_loop.simps [of h c "Some (ps ! i)"] height word Let_def split del: if_split cong: if_cong)
    also have "\<dots> = Some ((loc @ [nd_hash (h (ps ! i))]) @ map (\<lambda>j. nd_hash (h (ps ! j)))
        (locator_heights (i - step) step' (length (loc @ [nd_hash (h (ps ! i))]))))"
      using less.IH [OF _ below, of step' "word_of_nat step'" "loc @ [nd_hash (h (ps ! i))]"] pos False room less.prems(2)
      by simp
    finally show ?thesis
      using False less.prems by (simp add: locator_heights.simps [of i] step'_def)
  qed
qed

lemma locator_doubling:
  "10 \<le> k \<Longrightarrow> 0 < s \<Longrightarrow> j + s \<le> 2 ^ m * s \<Longrightarrow> m = 0 \<or> 2 ^ (m - 1) * s < j + s \<Longrightarrow>
    length (locator_heights j s k) = Suc m"
proof (induction m arbitrary: j s k)
  case 0
  then show ?case by (simp add: locator_heights.simps [of 0])
next
  case (Suc m)
  have "s \<le> 2 ^ m * s" by simp
  also have "\<dots> < j + s" using Suc.prems(4) by simp
  finally have j: "0 < j" by simp
  have "length (locator_heights (j - s) (s * 2) (Suc k)) = Suc m"
  proof (cases "s \<le> j")
    case True
    show ?thesis
    proof (rule Suc.IH)
      show "m = 0 \<or> 2 ^ (m - 1) * (s * 2) < j - s + s * 2"
        using Suc.prems(4) True by (cases m) (auto simp: algebra_simps)
      show "j - s + s * 2 \<le> 2 ^ m * (s * 2)" using Suc.prems(3) True by (simp add: algebra_simps)
    qed (use Suc.prems in auto)
  next
    case False
    have "2 ^ m * s < j + s" using Suc.prems(4) by simp
    also have "\<dots> < 2 * s" using False by simp
    finally have "2 ^ m * s < 2 * s" .
    then have "m = 0" using Suc.prems(2) by (cases m) (simp_all add: mult_less_cancel2)
    with False show ?thesis by (simp add: locator_heights.simps [of 0])
  qed
  with j Suc.prems show ?case by (simp add: locator_heights.simps [of j])
qed

lemma locator_plain:
  "k + a \<le> 10 \<Longrightarrow> a \<le> i \<Longrightarrow> length (locator_heights i 1 k) = a + length (locator_heights (i - a) 1 (k + a))"
proof (induction a arbitrary: i k)
  case (Suc a)
  from Suc.IH [of "Suc k" "i - 1"] Suc.prems show ?case by (simp add: locator_heights.simps [of i])
qed simp

lemma locator_length:
  assumes "12 < i" "2 ^ m \<le> i - 10" "i - 10 < 2 ^ (m + 1)"
  shows "length (locator_heights i 1 0) = 12 + m"
proof -
  have "length (locator_heights i 1 0) = 10 + length (locator_heights (i - 10) 1 10)"
    using locator_plain [of 0 10 i] assms(1) by simp
  also have "length (locator_heights (i - 10) 1 10) = Suc (length (locator_heights (i - 11) 2 11))"
    using assms(1) by (simp add: locator_heights.simps [of "i - 10"])
  also have "length (locator_heights (i - 11) 2 11) = Suc m"
  proof (rule locator_doubling)
    show "m = 0 \<or> 2 ^ (m - 1) * 2 < i - 11 + 2" using assms(1,2) by (cases m) auto
  qed (use assms in auto)
  finally show ?thesis by simp
qed

lemma locator_heights_ends:
  "0 < step \<Longrightarrow> locator_heights i step k \<noteq> [] \<and> hd (locator_heights i step k) = i \<and> last (locator_heights i step k) = 0 \<and>
    sorted_wrt (>) (locator_heights i step k)"
proof (induction i step k rule: locator_heights.induct)
  case (1 i step k)
  show ?case
  proof (cases "i = 0")
    case False
    define step' where "step' = (if Suc k > 10 then step * 2 else step)"
    have IH: "locator_heights (i - step) step' (Suc k) \<noteq> [] \<and> hd (locator_heights (i - step) step' (Suc k)) = i - step \<and>
      last (locator_heights (i - step) step' (Suc k)) = 0 \<and> sorted_wrt (>) (locator_heights (i - step) step' (Suc k))"
      unfolding step'_def using 1 False by simp
    then obtain rest where r: "locator_heights (i - step) step' (Suc k) = (i - step) # rest"
      by (metis list.collapse)
    have "locator_heights i step k = i # (i - step) # rest"
      unfolding r [symmetric] step'_def using False 1(2) by (simp add: locator_heights.simps [of i])
    moreover from IH r have "last ((i - step) # rest) = 0" "sorted_wrt (>) ((i - step) # rest)" by simp_all
    ultimately show ?thesis using False 1(2) by (auto split: if_splits)
  qed (simp add: locator_heights.simps)
qed

lemma locator_entries:
  assumes "i < 2 ^ 31 - 1"
  shows "length (locator_heights i 1 0) = unat (locator_maxEntries (word_of_nat i))"
proof (cases "i \<le> 12")
  case True
  have "length (locator_heights i 1 0) = i + 1"
  proof (cases "i \<le> 10")
    case True
    with locator_plain [of 0 i i] show ?thesis by (simp add: locator_heights.simps [of 0])
  next
    case False
    with True have "i = 11 \<or> i = 12" by auto
    moreover have "length (locator_heights i 1 0) = 10 + length (locator_heights (i - 10) 1 10)"
      using locator_plain [of 0 10 i] False by simp
    ultimately show ?thesis
      by (auto simp: locator_heights.simps [of 0] locator_heights.simps [of "Suc 0"] locator_heights.simps [of 2])
  qed
  moreover have "unat (locator_maxEntries (word_of_nat i)) = i + 1"
    using True by (simp add: locator_maxEntries_def sint_height unat_word_ariths unsigned_ucast_eq unsigned_of_nat take_bit_nat_eq_self)
  ultimately show ?thesis by simp
next
  case False
  define x :: u32 where "x = word_of_nat i - 10"
  have ux: "unat x = i - 10"
  proof -
    have "x = word_of_nat (i - 10)" using False by (simp add: x_def of_nat_diff)
    then show ?thesis using assms by (simp add: unat_of_nat take_bit_nat_eq_self)
  qed
  have "x \<noteq> 0" using ux False by auto
  note spec = fastLog2Floor_spec [OF this]
  have "length (locator_heights i 1 0) = 12 + unat (fastLog2Floor x)"
    by (rule locator_length) (use spec False in \<open>simp_all add: ux\<close>)
  moreover have "unat (locator_maxEntries (word_of_nat i)) = 12 + unat (fastLog2Floor x)"
    using False assms spec
    by (simp add: locator_maxEntries_def sint_height x_def [symmetric] unat_word_ariths)
  ultimately show ?thesis by simp
qed

lemma blockLocator_branch:
  assumes p: "branch h p ps" and c: "view_of h c"
  shows "blockLocator h c (Some p) = Some (map (\<lambda>i. nd_hash (h (ps ! i))) (locator_heights (length ps - 1) 1 0))"
proof -
  have n: "length ps - 1 < length ps" "length ps - 1 = 0 \<or> length ps - 1 + 1 < 2 ^ 31"
    using branch_length [OF p] by auto
  have "locator_loop h c (Some (ps ! (length ps - 1))) 1 [] =
    Some (map (\<lambda>i. nd_hash (h (ps ! i))) (locator_heights (length ps - 1) 1 0))"
    using locator_loop_branch [OF p c n(1) _ n(2), of 1 "[]"]
    by (simp only: of_nat_1 if_cancel list.size append_Nil zero_less_one simp_thms)
  then show ?thesis using branch_tip [OF p] by (simp add: blockLocator_def)
qed

section \<open>Properties\<close>

text \<open>A heap with two branches, for the witnesses: 0, 1, 2 and 0, 3.\<close>

definition ex_node :: "nref option \<Rightarrow> i32 \<Rightarrow> i64 \<Rightarrow> blockNode" where
  "ex_node parent height t = \<lparr>nd_parent = parent, nd_ancestor = (case parent of None \<Rightarrow> None | Some p \<Rightarrow> Some 0),
     nd_hash = put_le 32 (unat t), nd_workSum = 0, nd_height = height, nd_version = 1, nd_bits = 0, nd_nonce = 0,
     nd_timestamp = t, nd_merkleRoot = put_le 32 0, nd_status = 3\<rparr>"

definition ex_heap :: node_heap where
  "ex_heap p = (if p = 1 then ex_node (Some 0) 1 20 else if p = 2 then ex_node (Some 1) 2 30
     else if p = 3 then ex_node (Some 0) 1 25 else if p = 0 then ex_node None 0 10 else ex_node None 7 0)"

lemma ex_heights: "getAncestorHeight 1 = 0" "getAncestorHeight 2 = 0"
  by code_simp+

lemma ex_branches: "branch ex_heap 0 [0]" "branch ex_heap 1 [0, 1]" "branch ex_heap 2 [0, 1, 2]" "branch ex_heap 3 [0, 3]"
proof -
  show 0: "branch ex_heap 0 [0]" by (rule branch.genesis) (simp_all add: ex_heap_def ex_node_def)
  show 1: "branch ex_heap 1 [0, 1]"
    using branch.extend [OF 0, of 1] by (simp add: ex_heap_def ex_node_def ex_heights)
  show "branch ex_heap 2 [0, 1, 2]"
    using branch.extend [OF 1, of 2] by (simp add: ex_heap_def ex_node_def ex_heights)
  show "branch ex_heap 3 [0, 3]"
    using branch.extend [OF 0, of 3] by (simp add: ex_heap_def ex_node_def ex_heights)
qed

lemma ex_branch_cases:
  "branch ex_heap p ps \<Longrightarrow> p = 0 \<and> ps = [0] \<or> p = 1 \<and> ps = [0, 1] \<or> p = 2 \<and> ps = [0, 1, 2] \<or> p = 3 \<and> ps = [0, 3]"
  by (induction rule: branch.induct) (auto simp: ex_heap_def ex_node_def split: if_splits)

lemma ex_view: "view_of ex_heap [Some 0, Some 1, Some 2]"
  unfolding view_of_def using ex_branches(3) by (intro disjI2 exI [of _ 2] exI [of _ "[0, 1, 2]"]) simp

text \<open>
  C34 (skip pointers): on every branch of the index, looking up an ancestor by height returns, and
  gives the node the parent pointers lead to at that height; outside the heights of the branch it
  gives nil.
\<close>

theorem ancestor_skip_list:
  assumes "branch h p ps"
  shows "Ancestor h p height =
    Some (if 0 \<le> sint height \<and> sint height < int (length ps) then Some (ps ! nat (sint height)) else None)"
  by (rule ancestor_branch [OF assms])

theorem ancestor_skip_list_witness: "Ancestor ex_heap 2 1 = Some (Some 1) \<and> Ancestor ex_heap 2 3 = Some None"
  using ancestor_skip_list [OF ex_branches(3), of 1] ancestor_skip_list [OF ex_branches(3), of 3] by simp

text \<open>
  C35 (best chain view): setting the tip makes the view exactly the branch of the new tip, whatever
  branch it held; and the fork point of a block is the last block its branch shares with the view.
\<close>

theorem chain_view_fork:
  assumes "branch h p ps" "branch h q qs" "view_of h c"
  shows "setTip h (Some q) c = Some (map Some qs) \<and>
    findFork h (map Some qs) (Some p) =
      Some (if longest_common_prefix ps qs = [] then None else Some (last (longest_common_prefix ps qs)))"
  using setTip_branch [OF assms(2,3)] findFork_branch [OF assms(1,2)] by simp

theorem chain_view_fork_witness:
  "setTip ex_heap (Some 3) [Some 0, Some 1, Some 2] = Some [Some 0, Some 3] \<and>
    findFork ex_heap [Some 0, Some 3] (Some 2) = Some (Some 0)"
  using chain_view_fork [OF ex_branches(3) ex_branches(4) ex_view] by simp

text \<open>
  C36 (block locators): the locator of a block goes back from the block to the genesis block through
  strictly decreasing heights of its branch, and has exactly the number of entries reserved for it.
\<close>

theorem block_locator_exact:
  assumes "branch h p ps" "view_of h c"
  shows "\<exists>heights. blockLocator h c (Some p) = Some (map (\<lambda>i. nd_hash (h (ps ! i))) heights) \<and>
    hd heights = length ps - 1 \<and> last heights = 0 \<and> sorted_wrt (>) heights \<and>
    length heights = unat (locator_maxEntries (nd_height (h p)))"
proof -
  have "nd_height (h p) = word_of_nat (length ps - 1)"
    using branch_height [OF assms(1), of "length ps - 1"] branch_length [OF assms(1)]
    unfolding branch_tip [OF assms(1), symmetric] by (simp del: of_nat_diff)
  moreover have "length (locator_heights (length ps - 1) 1 0) = unat (locator_maxEntries (word_of_nat (length ps - 1)))"
    by (rule locator_entries) (use branch_length [OF assms(1)] in auto)
  ultimately show ?thesis
    using blockLocator_branch [OF assms] locator_heights_ends [of 1 "length ps - 1" 0]
    by (intro exI [of _ "locator_heights (length ps - 1) 1 0"]) simp
qed

theorem block_locator_exact_witness:
  "\<exists>heights. blockLocator ex_heap [Some 0, Some 1, Some 2] (Some 3) =
      Some (map (\<lambda>i. nd_hash (ex_heap ([0, 3] ! i))) heights) \<and>
    hd heights = 1 \<and> last heights = 0 \<and> sorted_wrt (>) heights \<and>
    length heights = unat (locator_maxEntries (nd_height (ex_heap 3)))"
  using block_locator_exact [OF ex_branches(4) ex_view] by simp

end
