(* ===== verification/Threshold.thy ===== *)
theory Threshold
  imports Block_Index
begin

text \<open>
  Soft-fork deployments: \<^verbatim>\<open>blockchain/thresholdstate.go\<close>, \<^verbatim>\<open>blockchain/versionbits.go\<close> and the
  median-time starters and enders of \<^verbatim>\<open>chaincfg/deployment_time_frame.go\<close>.

  The state of a deployment is computed window by window from the nearest cached window.  The
  lemmas show that the cached computation returns and agrees with the transitions folded over all
  windows from the genesis block, and that a deployment that collects its votes becomes active
  and stays so.
\<close>

unbundle bit_operations_syntax

datatype ThresholdState = ThresholdDefined | ThresholdStarted | ThresholdLockedIn | ThresholdActive | ThresholdFailed

text \<open>\<open>ThresholdPanic\<close> is a nil dereference, a division by zero or an index out of range.\<close>

datatype threshold_error = DeploymentError u32 | ThresholdAssert | ThresholdPanic

text \<open>The interface \<^verbatim>\<open>thresholdConditionChecker\<close>.\<close>

record condition_checker =
  ck_HasStarted :: "nref \<Rightarrow> bool"
  ck_HasEnded :: "nref \<Rightarrow> bool"
  ck_Threshold :: u32
  ck_Window :: u32
  ck_EligibleToActivate :: "nref \<Rightarrow> bool"
  ck_IsSpeedy :: bool
  ck_Condition :: "nref \<Rightarrow> threshold_error + bool"

type_synonym thresholdStateCache = "bytes \<Rightarrow> ThresholdState option"

section \<open>The state machine\<close>

text \<open>The loop that counts the votes of a window.\<close>

fun count_votes :: "node_heap \<Rightarrow> condition_checker \<Rightarrow> nat \<Rightarrow> nref option \<Rightarrow> u32 \<Rightarrow> threshold_error + u32" where
  "count_votes h checker 0 countNode cnt = Inr cnt"
| "count_votes h checker (Suc n) None cnt = Inl ThresholdPanic"
| "count_votes h checker (Suc n) (Some p) cnt =
     andthen (ck_Condition checker p) (\<lambda>condition.
       count_votes h checker n (nd_parent (h p)) (if condition then cnt + 1 else cnt))"

definition thresholdStateTransition ::
    "node_heap \<Rightarrow> ThresholdState \<Rightarrow> nref \<Rightarrow> condition_checker \<Rightarrow> i32 \<Rightarrow> threshold_error + ThresholdState" where
  "thresholdStateTransition h state prevNode checker confirmationWindow =
     (case state of
        ThresholdDefined \<Rightarrow>
          if \<not> ck_IsSpeedy checker \<and> ck_HasEnded checker prevNode then Inr ThresholdFailed
          else if ck_HasStarted checker prevNode then Inr ThresholdStarted
          else Inr state
      | ThresholdStarted \<Rightarrow>
          if \<not> ck_IsSpeedy checker \<and> ck_HasEnded checker prevNode then Inr ThresholdFailed
          else
            andthen (count_votes h checker (nat (sint confirmationWindow)) (Some prevNode) 0) (\<lambda>cnt.
              if cnt \<ge> ck_Threshold checker then Inr ThresholdLockedIn
              else if ck_IsSpeedy checker \<and> ck_HasEnded checker prevNode then Inr ThresholdFailed
              else Inr state)
      | ThresholdLockedIn \<Rightarrow>
          if \<not> ck_EligibleToActivate checker prevNode then Inr ThresholdLockedIn else Inr ThresholdActive
      | ThresholdActive \<Rightarrow> Inr state
      | ThresholdFailed \<Rightarrow> Inr state)"

section \<open>The cached computation\<close>

text \<open>Go's remainder, with the sign of the dividend.\<close>

definition rem_i32 :: "i32 \<Rightarrow> i32 \<Rightarrow> i32" where
  "rem_i32 a b = word_of_int (sint a - sint b * trunc_div (sint a) (sint b))"

text \<open>
  The loop back to a window whose state is known: the node it stops at, the nodes whose states are
  needed and the cache.
\<close>

partial_function (option) needed_states ::
    "node_heap \<Rightarrow> condition_checker \<Rightarrow> i32 \<Rightarrow> nref option \<Rightarrow> nref list \<Rightarrow> thresholdStateCache \<Rightarrow>
     (nref option \<times> nref list \<times> thresholdStateCache) option" where
  "needed_states h checker confirmationWindow prevNode neededStates cache =
     (case prevNode of None \<Rightarrow> Some (None, neededStates, cache)
      | Some p \<Rightarrow>
          if cache (nd_hash (h p)) \<noteq> None then Some (prevNode, neededStates, cache)
          else if \<not> ck_HasStarted checker p
          then Some (prevNode, neededStates, cache(nd_hash (h p) \<mapsto> ThresholdDefined))
          else Option.bind (RelativeAncestor h p confirmationWindow) (\<lambda>prev.
            needed_states h checker confirmationWindow prev (neededStates @ [p]) cache))"

fun run_transitions ::
    "node_heap \<Rightarrow> condition_checker \<Rightarrow> i32 \<Rightarrow> nref list \<Rightarrow> ThresholdState \<Rightarrow> thresholdStateCache \<Rightarrow>
     (threshold_error + ThresholdState) \<times> thresholdStateCache" where
  "run_transitions h checker confirmationWindow [] state cache = (Inr state, cache)"
| "run_transitions h checker confirmationWindow (p # ps) state cache =
     (case thresholdStateTransition h state p checker confirmationWindow of
        Inl err \<Rightarrow> (Inl err, cache)
      | Inr state \<Rightarrow> run_transitions h checker confirmationWindow ps state (cache(nd_hash (h p) \<mapsto> state)))"

definition thresholdState ::
    "node_heap \<Rightarrow> nref option \<Rightarrow> condition_checker \<Rightarrow> thresholdStateCache \<Rightarrow>
     ((threshold_error + ThresholdState) \<times> thresholdStateCache) option" where
  "thresholdState h prevNode checker cache =
     (let confirmationWindow = ck_Window checker in
      case prevNode of None \<Rightarrow> Some (Inr ThresholdDefined, cache)
      | Some p \<Rightarrow>
          if sint (nd_height (h p) + 1) < sint confirmationWindow then Some (Inr ThresholdDefined, cache)
          else if confirmationWindow = 0 then Some (Inl ThresholdPanic, cache)
          else
            Option.bind (Ancestor h p (nd_height (h p) - rem_i32 (nd_height (h p) + 1) confirmationWindow)) (\<lambda>prevNode.
            Option.bind (needed_states h checker confirmationWindow prevNode [] cache) (\<lambda>(prevNode, neededStates, cache).
              Some (case prevNode of
                None \<Rightarrow> run_transitions h checker confirmationWindow (rev neededStates) ThresholdDefined cache
              | Some q \<Rightarrow>
                  (case cache (nd_hash (h q)) of
                     None \<Rightarrow> (Inl ThresholdAssert, cache)
                   | Some state \<Rightarrow> run_transitions h checker confirmationWindow (rev neededStates) state cache)))))"

section \<open>Deployments\<close>

text \<open>A zero time is \<open>None\<close>; \<open>Clock\<close> tells that a clock was set.\<close>

record MedianTimeDeploymentStarter =
  ds_Clock :: bool
  ds_startTime :: "int option"

record MedianTimeDeploymentEnder =
  de_Clock :: bool
  de_endTime :: "int option"

record ConsensusDeployment =
  dp_BitNumber :: byte
  dp_MinActivationHeight :: u32
  dp_CustomActivationThreshold :: u32
  dp_DeploymentStarter :: MedianTimeDeploymentStarter
  dp_DeploymentEnder :: MedianTimeDeploymentEnder

text \<open>The clock of the chain: the median time at a header whose parent is in the index.\<close>

definition PastMedianTime :: "(bytes \<Rightarrow> bytes) \<Rightarrow> node_heap \<Rightarrow> blockIndex \<Rightarrow> BlockHeader \<Rightarrow> int option" where
  "PastMedianTime sha h bi blockHeader =
     (case LookupNode bi (bh_PrevBlock blockHeader) of
        None \<Rightarrow> None
      | Some prevNode \<Rightarrow> map_option (CalcPastMedianTime h) (initBlockNode sha h blockHeader (Some prevNode)))"

text \<open>An error of \<^verbatim>\<open>HasStarted\<close> and \<^verbatim>\<open>HasEnded\<close> is \<open>None\<close>.\<close>

definition starter_HasStarted :: "(BlockHeader \<Rightarrow> int option) \<Rightarrow> MedianTimeDeploymentStarter \<Rightarrow> BlockHeader \<Rightarrow> bool option" where
  "starter_HasStarted pastMedianTime m blkHeader =
     (if \<not> ds_Clock m then None
      else case ds_startTime m of None \<Rightarrow> Some True
      | Some startTime \<Rightarrow>
          (case pastMedianTime blkHeader of None \<Rightarrow> None
           | Some medianTime \<Rightarrow> Some (medianTime > startTime \<or> medianTime = startTime)))"

definition ender_HasEnded :: "(BlockHeader \<Rightarrow> int option) \<Rightarrow> MedianTimeDeploymentEnder \<Rightarrow> BlockHeader \<Rightarrow> bool option" where
  "ender_HasEnded pastMedianTime m blkHeader =
     (if \<not> de_Clock m then None
      else case de_endTime m of None \<Rightarrow> Some False
      | Some endTime \<Rightarrow>
          (case pastMedianTime blkHeader of None \<Rightarrow> None
           | Some medianTime \<Rightarrow> Some (medianTime > endTime \<or> medianTime = endTime)))"

record deployment_params =
  dpp_RuleChangeActivationThreshold :: u32
  dpp_MinerConfirmationWindow :: u32
  dpp_Deployments :: "ConsensusDeployment list"

definition checker_HasStarted ::
    "(bytes \<Rightarrow> bytes) \<Rightarrow> node_heap \<Rightarrow> blockIndex \<Rightarrow> ConsensusDeployment \<Rightarrow> nref \<Rightarrow> bool" where
  "checker_HasStarted sha h bi d blkNode =
     (starter_HasStarted (PastMedianTime sha h bi) (dp_DeploymentStarter d) (node_Header h blkNode) = Some True)"

definition checker_HasEnded ::
    "(bytes \<Rightarrow> bytes) \<Rightarrow> node_heap \<Rightarrow> blockIndex \<Rightarrow> ConsensusDeployment \<Rightarrow> nref \<Rightarrow> bool" where
  "checker_HasEnded sha h bi d blkNode =
     (ender_HasEnded (PastMedianTime sha h bi) (dp_DeploymentEnder d) (node_Header h blkNode) = Some True)"

definition checker_Threshold :: "deployment_params \<Rightarrow> ConsensusDeployment \<Rightarrow> u32" where
  "checker_Threshold params d =
     (if dp_CustomActivationThreshold d \<noteq> 0 then dp_CustomActivationThreshold d
      else dpp_RuleChangeActivationThreshold params)"

definition checker_EligibleToActivate :: "node_heap \<Rightarrow> ConsensusDeployment \<Rightarrow> nref \<Rightarrow> bool" where
  "checker_EligibleToActivate h d blkNode \<longleftrightarrow>
     dp_MinActivationHeight d = 0 \<or> nd_height (h blkNode) + 1 \<ge> dp_MinActivationHeight d"

definition checker_IsSpeedy :: "ConsensusDeployment \<Rightarrow> bool" where
  "checker_IsSpeedy d \<longleftrightarrow> dp_MinActivationHeight d \<noteq> 0 \<or> dp_CustomActivationThreshold d \<noteq> 0"

abbreviation (input) vbTopBits :: u32 where "vbTopBits \<equiv> 0x20000000"
abbreviation (input) vbTopMask :: u32 where "vbTopMask \<equiv> 0xe0000000"

definition checker_Condition :: "node_heap \<Rightarrow> ConsensusDeployment \<Rightarrow> nref \<Rightarrow> bool" where
  "checker_Condition h d node =
     (let conditionMask = push_bit (unat (dp_BitNumber d)) 1 :: u32; version = nd_version (h node)
      in version AND vbTopMask = vbTopBits \<and> version AND conditionMask \<noteq> 0)"

definition deploymentChecker ::
    "(bytes \<Rightarrow> bytes) \<Rightarrow> node_heap \<Rightarrow> blockIndex \<Rightarrow> deployment_params \<Rightarrow> ConsensusDeployment \<Rightarrow> condition_checker" where
  "deploymentChecker sha h bi params d =
     \<lparr>ck_HasStarted = checker_HasStarted sha h bi d, ck_HasEnded = checker_HasEnded sha h bi d,
      ck_Threshold = checker_Threshold params d, ck_Window = dpp_MinerConfirmationWindow params,
      ck_EligibleToActivate = checker_EligibleToActivate h d, ck_IsSpeedy = checker_IsSpeedy d,
      ck_Condition = (\<lambda>node. Inr (checker_Condition h d node))\<rparr>"

text \<open>The caches, one per deployment.\<close>

definition deploymentState ::
    "(bytes \<Rightarrow> bytes) \<Rightarrow> node_heap \<Rightarrow> blockIndex \<Rightarrow> deployment_params \<Rightarrow> nref option \<Rightarrow> u32 \<Rightarrow> thresholdStateCache list \<Rightarrow>
     ((threshold_error + ThresholdState) \<times> thresholdStateCache list) option" where
  "deploymentState sha h bi params prevNode deploymentID caches =
     (let id = unat deploymentID in
      if deploymentID > word_of_nat (length (dpp_Deployments params)) then Some (Inl (DeploymentError deploymentID), caches)
      else if id \<ge> length (dpp_Deployments params) \<or> id \<ge> length caches then Some (Inl ThresholdPanic, caches)
      else map_option (\<lambda>(r, cache). (r, caches[id := cache]))
        (thresholdState h prevNode (deploymentChecker sha h bi params (dpp_Deployments params ! id)) (caches ! id)))"

text \<open>The version the next block should carry.\<close>

fun next_version ::
    "(bytes \<Rightarrow> bytes) \<Rightarrow> node_heap \<Rightarrow> blockIndex \<Rightarrow> deployment_params \<Rightarrow> nref option \<Rightarrow>
     (ConsensusDeployment \<times> thresholdStateCache) list \<Rightarrow> u32 \<Rightarrow> ((threshold_error + u32) \<times> thresholdStateCache list) option" where
  "next_version sha h bi params prevNode [] expectedVersion = Some (Inr expectedVersion, [])"
| "next_version sha h bi params prevNode ((d, cache) # ds) expectedVersion =
     Option.bind (thresholdState h prevNode (deploymentChecker sha h bi params d) cache) (\<lambda>(r, cache).
       case r of Inl err \<Rightarrow> Some (Inl err, cache # map snd ds)
       | Inr state \<Rightarrow>
           map_option (\<lambda>(v, caches). (v, cache # caches))
             (next_version sha h bi params prevNode ds
               (if state = ThresholdStarted \<or> state = ThresholdLockedIn
                then expectedVersion OR push_bit (unat (dp_BitNumber d)) 1 else expectedVersion)))"

definition calcNextBlockVersion ::
    "(bytes \<Rightarrow> bytes) \<Rightarrow> node_heap \<Rightarrow> blockIndex \<Rightarrow> deployment_params \<Rightarrow> nref option \<Rightarrow> thresholdStateCache list \<Rightarrow>
     ((threshold_error + i32) \<times> thresholdStateCache list) option" where
  "calcNextBlockVersion sha h bi params prevNode caches =
     next_version sha h bi params prevNode (zip (dpp_Deployments params) caches) vbTopBits"

section \<open>The state of every window\<close>

text \<open>The transitions folded over all windows of \<open>w\<close> blocks, from the genesis block on.\<close>

primrec window_state ::
    "node_heap \<Rightarrow> condition_checker \<Rightarrow> nref list \<Rightarrow> nat \<Rightarrow> nat \<Rightarrow> threshold_error + ThresholdState" where
  "window_state h checker ps w 0 = Inr ThresholdDefined"
| "window_state h checker ps w (Suc k) =
     andthen (window_state h checker ps w k) (\<lambda>state.
       thresholdStateTransition h state (ps ! (Suc k * w - 1)) checker (word_of_nat w))"

definition cache_ok :: "node_heap \<Rightarrow> condition_checker \<Rightarrow> nat \<Rightarrow> thresholdStateCache \<Rightarrow> bool" where
  "cache_ok h checker w cache \<longleftrightarrow>
     (\<forall>q qs s. branch h q qs \<longrightarrow> w dvd length qs \<longrightarrow> cache (nd_hash (h q)) = Some s \<longrightarrow>
        window_state h checker qs w (length qs div w) = Inr s)"

definition hashes_unique :: "node_heap \<Rightarrow> bool" where
  "hashes_unique h \<longleftrightarrow> (\<forall>p ps q qs. branch h p ps \<longrightarrow> branch h q qs \<longrightarrow> nd_hash (h p) = nd_hash (h q) \<longrightarrow> p = q)"

text \<open>A deployment that has started stays started, and none ends before it starts.\<close>

definition starts_before_end :: "node_heap \<Rightarrow> condition_checker \<Rightarrow> bool" where
  "starts_before_end h checker \<longleftrightarrow>
     (\<forall>q qs i j. branch h q qs \<longrightarrow> i \<le> j \<longrightarrow> j < length qs \<longrightarrow> ck_HasStarted checker (qs ! i) \<longrightarrow> ck_HasStarted checker (qs ! j)) \<and>
     (\<forall>q qs. branch h q qs \<longrightarrow> ck_HasEnded checker q \<longrightarrow> ck_HasStarted checker q)"

lemma window_index: "0 < w \<Longrightarrow> k * w \<le> n \<Longrightarrow> 0 < k \<Longrightarrow> k * w - 1 < (n::nat)"
  by (cases k) (cases w, auto)+

lemma window_state_take: "0 < w \<Longrightarrow> k \<le> m \<Longrightarrow> window_state h checker (take (m * w) ps) w k = window_state h checker ps w k"
proof (induction k)
  case (Suc k)
  have "Suc k * w - 1 < m * w" using window_index [of w "Suc k" "m * w"] Suc.prems by (simp add: mult_le_mono1 del: mult_Suc)
  with Suc show ?case by (simp del: mult_Suc)
qed simp

lemma window_branch:
  assumes "branch h p ps" "0 < w" "0 < k" "k * w \<le> length ps"
  shows "branch h (ps ! (k * w - 1)) (take (k * w) ps)"
proof -
  have i: "k * w - 1 < length ps" by (rule window_index) fact+
  have "Suc (k * w - 1) = k * w" using assms(2,3) by simp
  with branch_take [OF assms(1) i] show ?thesis by simp
qed

lemma cache_ok_lookup:
  assumes "cache_ok h checker w cache" "branch h p ps" "0 < w" "0 < k" "k * w \<le> length ps"
    and "cache (nd_hash (h (ps ! (k * w - 1)))) = Some s"
  shows "window_state h checker ps w k = Inr s"
proof -
  have "window_state h checker (take (k * w) ps) w (length (take (k * w) ps) div w) = Inr s"
    using assms(1,6) window_branch [OF assms(2-5)] assms(5)
    unfolding cache_ok_def by (metis dvd_triv_right length_take min.absorb2)
  with assms(3,5) window_state_take [of w k k h checker ps] show ?thesis by simp
qed

lemma cache_ok_update:
  assumes "cache_ok h checker w cache" "hashes_unique h" "branch h p ps" "0 < w" "0 < k" "k * w \<le> length ps"
    and "window_state h checker ps w k = Inr s"
  shows "cache_ok h checker w (cache(nd_hash (h (ps ! (k * w - 1))) \<mapsto> s))"
  unfolding cache_ok_def
proof (intro allI impI)
  fix q qs s'
  assume q: "branch h q qs" "w dvd length qs" "(cache(nd_hash (h (ps ! (k * w - 1))) \<mapsto> s)) (nd_hash (h q)) = Some s'"
  have b: "branch h (ps ! (k * w - 1)) (take (k * w) ps)" by (rule window_branch) fact+
  show "window_state h checker qs w (length qs div w) = Inr s'"
  proof (cases "nd_hash (h q) = nd_hash (h (ps ! (k * w - 1)))")
    case True
    with assms(2) q(1) b have "q = ps ! (k * w - 1)" unfolding hashes_unique_def by blast
    with branch_unique [OF b] q(1) have qs: "qs = take (k * w) ps" by simp
    then have "length qs div w = k" using assms(4,6) by simp
    with qs window_state_take [of w k k h checker ps] assms(4,7) q(3) True show ?thesis by simp
  next
    case False
    with q assms(1) show ?thesis unfolding cache_ok_def by simp
  qed
qed

lemma not_started_defined:
  assumes "starts_before_end h checker" "branch h p ps" "0 < w"
  shows "k * w \<le> length ps \<Longrightarrow> k = 0 \<or> \<not> ck_HasStarted checker (ps ! (k * w - 1)) \<Longrightarrow> window_state h checker ps w k = Inr ThresholdDefined"
proof (induction k)
  case (Suc k)
  have i: "Suc k * w - 1 < length ps" by (rule window_index) (use Suc.prems assms(3) in auto)
  have ns: "\<not> ck_HasStarted checker (ps ! (Suc k * w - 1))" using Suc.prems by simp
  have "k = 0 \<or> \<not> ck_HasStarted checker (ps ! (k * w - 1))"
  proof (rule ccontr)
    assume *: "\<not> (k = 0 \<or> \<not> ck_HasStarted checker (ps ! (k * w - 1)))"
    have "k * w - 1 \<le> Suc k * w - 1" by simp
    with * ns assms(1,2) i show False unfolding starts_before_end_def by blast
  qed
  with Suc have IH: "window_state h checker ps w k = Inr ThresholdDefined" by simp
  have "\<not> ck_HasEnded checker (ps ! (Suc k * w - 1))"
    using assms(1) ns branch_take [OF assms(2) i] unfolding starts_before_end_def by blast
  with IH ns show ?case by (simp add: thresholdStateTransition_def del: mult_Suc)
qed simp

lemma back_one_window:
  assumes "branch h p ps" "0 < w" "w < 2 ^ 31" "0 < k" "k * w \<le> length ps"
  shows "RelativeAncestor h (ps ! (k * w - 1)) (word_of_nat w) =
    Some (if k = 1 then None else Some (ps ! ((k - 1) * w - 1)))"
proof -
  have b: "branch h (ps ! (k * w - 1)) (take (k * w) ps)" by (rule window_branch) fact+
  have len: "k * w < 2 ^ 31" using assms(5) branch_length [OF assms(1)] by simp
  obtain j where j: "k = Suc j" using assms(4) by (cases k) auto
  have "nd_height (h (ps ! (k * w - 1))) = word_of_nat (k * w - 1)"
    by (rule branch_height [OF assms(1)]) (rule window_index, fact+)
  then have "nd_height (h (ps ! (k * w - 1))) - word_of_nat w = (word_of_int (int (k * w - 1) - int w) :: i32)" by simp
  also have "int (k * w - 1) - int w = int (j * w) - 1" using assms(2) by (simp add: j of_nat_diff)
  finally have height: "nd_height (h (ps ! (k * w - 1))) - word_of_nat w = (word_of_int (int (j * w) - 1) :: i32)" .
  have s: "sint (word_of_int (int (j * w) - 1) :: i32) = int (j * w) - 1"
  proof (rule sint_i32)
    have "j * w < 2 ^ 31" using len by (simp add: j)
    then show "int (j * w) - 1 < 2 ^ 31" by (simp del: of_nat_mult)
  qed (simp del: of_nat_mult)
  have "Ancestor h (ps ! (k * w - 1)) (word_of_int (int (j * w) - 1)) =
    Some (if j = 0 then None else Some (ps ! (j * w - 1)))"
  proof (cases "j = 0")
    case False
    have n: "nat (int (j * w) - 1) = j * w - 1" by arith
    have "j * w - 1 < k * w" using assms(2) by (simp add: j)
    with n False assms(2,5) show ?thesis
      unfolding ancestor_branch [OF b] s by (simp add: j del: of_nat_mult One_nat_def)
  next
    case True
    have "sint (- 1 :: i32) < 0" by simp
    with True show ?thesis unfolding ancestor_branch [OF b] by simp
  qed
  with height show ?thesis by (simp add: RelativeAncestor_def j)
qed

lemma needed_states_branch:
  assumes law: "starts_before_end h checker" and hash: "hashes_unique h" and p: "branch h p ps"
    and w: "0 < w" "w < 2 ^ 31"
  shows "k * w \<le> length ps \<Longrightarrow> cache_ok h checker w cache \<Longrightarrow>
    \<exists>m\<le>k. \<exists>cache'. needed_states h checker (word_of_nat w) (if k = 0 then None else Some (ps ! (k * w - 1))) acc cache =
      Some (if m = 0 then None else Some (ps ! (m * w - 1)), acc @ map (\<lambda>j. ps ! (j * w - 1)) (rev [Suc m..<Suc k]), cache') \<and>
      cache_ok h checker w cache' \<and> (m = 0 \<or> cache' (nd_hash (h (ps ! (m * w - 1)))) \<noteq> None)"
proof (induction k arbitrary: acc)
  case 0
  then show ?case by (simp add: needed_states.simps [of h checker _ None])
next
  case (Suc k)
  let ?q = "ps ! (Suc k * w - 1)"
  note step = needed_states.simps [of h checker "word_of_nat w" "Some ?q" acc cache]
  show ?case
  proof (cases "cache (nd_hash (h ?q))")
    case (Some s)
    with Suc.prems show ?thesis
      by (intro exI [of _ "Suc k"] conjI exI [of _ cache]) (simp_all add: step del: mult_Suc One_nat_def)
  next
    case None
    show ?thesis
    proof (cases "ck_HasStarted checker ?q")
      case False
      define cache' where "cache' = cache(nd_hash (h ?q) \<mapsto> ThresholdDefined)"
      have "window_state h checker ps w (Suc k) = Inr ThresholdDefined"
        by (rule not_started_defined [OF law p w(1)]) (use Suc.prems False in auto)
      then have "cache_ok h checker w cache'"
        unfolding cache'_def by (intro cache_ok_update [OF Suc.prems(2) hash p w(1)]) (use Suc.prems in auto)
      moreover have "needed_states h checker (word_of_nat w) (Some ?q) acc cache = Some (Some ?q, acc, cache')"
        using None False unfolding step cache'_def by simp
      ultimately show ?thesis
        by (intro exI [of _ "Suc k"] conjI exI [of _ cache']) (simp_all add: cache'_def del: mult_Suc One_nat_def fun_upd_apply, simp)
    next
      case True
      have "needed_states h checker (word_of_nat w) (Some ?q) acc cache =
        needed_states h checker (word_of_nat w) (if k = 0 then None else Some (ps ! (k * w - 1))) (acc @ [?q]) cache"
        using None True back_one_window [OF p w, of "Suc k"] Suc.prems(1) by (simp add: step del: mult_Suc One_nat_def)
      moreover obtain m cache' where "m \<le> k" "needed_states h checker (word_of_nat w)
          (if k = 0 then None else Some (ps ! (k * w - 1))) (acc @ [?q]) cache =
        Some (if m = 0 then None else Some (ps ! (m * w - 1)), (acc @ [?q]) @ map (\<lambda>j. ps ! (j * w - 1)) (rev [Suc m..<Suc k]), cache')"
        "cache_ok h checker w cache'" "m = 0 \<or> cache' (nd_hash (h (ps ! (m * w - 1)))) \<noteq> None"
        using Suc.IH [of "acc @ [?q]"] Suc.prems by auto
      ultimately show ?thesis
        by (intro exI [of _ m] conjI exI [of _ cache']) (simp_all del: mult_Suc One_nat_def)
    qed
  qed
qed

lemma run_transitions_branch:
  assumes hash: "hashes_unique h" and p: "branch h p ps" and w: "0 < w"
  shows "m + n = k \<Longrightarrow> k * w \<le> length ps \<Longrightarrow> cache_ok h checker w cache \<Longrightarrow> window_state h checker ps w m = Inr s \<Longrightarrow>
    fst (run_transitions h checker (word_of_nat w) (map (\<lambda>j. ps ! (j * w - 1)) [Suc m..<Suc k]) s cache) = window_state h checker ps w k \<and>
    cache_ok h checker w (snd (run_transitions h checker (word_of_nat w) (map (\<lambda>j. ps ! (j * w - 1)) [Suc m..<Suc k]) s cache))"
proof (induction n arbitrary: m s cache)
  case (Suc n)
  then have mk: "[Suc m..<Suc k] = Suc m # [Suc (Suc m)..<Suc k]" by (simp add: upt_conv_Cons)
  let ?t = "thresholdStateTransition h s (ps ! (Suc m * w - 1)) checker (word_of_nat w)"
  have nxt: "window_state h checker ps w (Suc m) = ?t" using Suc.prems by (simp del: mult_Suc)
  show ?case
  proof (cases ?t)
    case (Inl e)
    have "window_state h checker ps w (Suc m + i) = Inl e" for i
    proof (induction i)
      case (Suc i)
      then show ?case by (simp add: window_state.simps(2) [of h checker ps w "Suc (m + i)"] del: window_state.simps mult_Suc)
    qed (use nxt Inl in simp)
    from this [of n] Suc.prems(1) have "window_state h checker ps w k = Inl e" by (simp del: window_state.simps)
    with Inl Suc.prems(3) show ?thesis unfolding mk by (simp del: mult_Suc)
  next
    case (Inr s')
    have "Suc m * w \<le> length ps" using Suc.prems by (metis add_Suc_right add_Suc le_add1 le_trans mult_le_mono1)
    then have "cache_ok h checker w (cache(nd_hash (h (ps ! (Suc m * w - 1))) \<mapsto> s'))"
      by (intro cache_ok_update [OF Suc.prems(3) hash p w]) (use nxt Inr in auto)
    with Suc.IH [of "Suc m"] Suc.prems nxt Inr show ?thesis unfolding mk by (simp del: mult_Suc window_state.simps)
  qed
qed simp

lemma rem_window:
  assumes "0 < w" "w < 2 ^ 31" "n < 2 ^ 31"
  shows "rem_i32 (word_of_nat n) (word_of_nat w) = word_of_nat (n mod w)"
proof -
  have "int n - int w * (int n div int w) = int (n mod w)" by (simp add: zmod_int minus_mult_div_eq_mod)
  moreover have "trunc_div (int n) (int w) = int n div int w" using assms by (simp add: trunc_div_def sgn_if)
  ultimately show ?thesis using assms by (simp only: rem_i32_def sint_height of_int_of_nat_eq)
qed

lemma thresholdState_branch:
  assumes law: "starts_before_end h checker" and hash: "hashes_unique h" and p: "branch h p ps"
    and w: "ck_Window checker = word_of_nat w" "0 < w" "w < 2 ^ 31" and cache: "cache_ok h checker w cache"
  shows "\<exists>cache'. thresholdState h (Some p) checker cache = Some (window_state h checker ps w (length ps div w), cache') \<and>
    cache_ok h checker w cache'"
proof (cases "length ps < w")
  case True
  have "sint (nd_height (h p) + 1) = int (length ps)"
    using branch_next_height [OF p] branch_length [OF p] by (simp add: sint_height)
  with True cache w show ?thesis by (simp add: thresholdState_def sint_height)
next
  case False
  define n where "n = length ps"
  define k where "k = n div w"
  have n: "0 < n" "n < 2 ^ 31" using branch_length [OF p] by (auto simp: n_def)
  have k: "0 < k" "k * w \<le> n" using False w(2) by (auto simp: k_def n_def div_greater_zero_iff)
  have nxt: "nd_height (h p) + 1 = word_of_nat n" using branch_next_height [OF p] by (simp add: n_def)
  have "nd_height (h p) - rem_i32 (nd_height (h p) + 1) (word_of_nat w) = word_of_nat (n - 1) - word_of_nat (n mod w)"
    using nxt rem_window [OF w(2,3) n(2)] n(1) by (simp add: of_nat_diff eq_diff_eq)
  also have "\<dots> = word_of_nat (k * w - 1)"
  proof -
    have "n - 1 = (k * w - 1) + n mod w" using k w(2) by (simp add: k_def)
    then show ?thesis by simp
  qed
  finally have height: "nd_height (h p) - rem_i32 (nd_height (h p) + 1) (word_of_nat w) = (word_of_nat (k * w - 1) :: i32)" .
  have i: "k * w - 1 < n" by (rule window_index) (use w k in auto)
  have s: "sint (word_of_nat (k * w - 1) :: i32) = int (k * w - 1)" by (rule sint_height) (use i n in linarith)
  have anc: "Ancestor h p (word_of_nat (k * w - 1)) = Some (Some (ps ! (k * w - 1)))"
    unfolding ancestor_branch [OF p] s using i by (simp add: n_def del: of_nat_diff)
  obtain m cache' where m: "m \<le> k" "needed_states h checker (word_of_nat w) (Some (ps ! (k * w - 1))) [] cache =
      Some (if m = 0 then None else Some (ps ! (m * w - 1)), map (\<lambda>j. ps ! (j * w - 1)) (rev [Suc m..<Suc k]), cache')"
      "cache_ok h checker w cache'" "m = 0 \<or> cache' (nd_hash (h (ps ! (m * w - 1)))) \<noteq> None"
    using needed_states_branch [OF law hash p w(2,3) _ cache, of k "[]"] k by (auto simp: n_def)
  have mw: "m * w \<le> length ps" using m(1) k(2) by (metis le_trans mult_le_mono1 n_def)
  define s where "s = (if m = 0 then ThresholdDefined else the (cache' (nd_hash (h (ps ! (m * w - 1))))))"
  have ws: "window_state h checker ps w m = Inr s"
    using cache_ok_lookup [OF m(3) p w(2) _ mw] m(4) by (auto simp: s_def)
  let ?run = "run_transitions h checker (word_of_nat w) (map (\<lambda>j. ps ! (j * w - 1)) [Suc m..<Suc k]) s cache'"
  have run: "fst ?run = window_state h checker ps w k \<and> cache_ok h checker w (snd ?run)"
    by (rule run_transitions_branch [OF hash p w(2), of _ "k - m"]) (use m ws k in \<open>auto simp: n_def\<close>)
  have "\<not> sint (nd_height (h p) + 1) < sint (word_of_nat w :: i32)" "(word_of_nat w :: i32) \<noteq> 0"
    using False nxt n w by (auto simp: n_def sint_height dest: arg_cong [of _ _ sint])
  with w(1) height anc m(2,4) have "thresholdState h (Some p) checker cache = Some ?run"
    by (auto simp: thresholdState_def s_def rev_map [symmetric] rev_swap)
  with run show ?thesis by (auto simp: k_def n_def intro!: exI [of _ "snd ?run"] prod_eqI)
qed

section \<open>Median times and deployments\<close>

text \<open>
  What the chain keeps of its nodes: every node of a branch is in the index under its hash, no
  block has the zero hash, and every block is later than the median time before it.
\<close>

definition index_ok :: "node_heap \<Rightarrow> blockIndex \<Rightarrow> bool" where
  "index_ok h bi \<longleftrightarrow> (\<forall>q qs. branch h q qs \<longrightarrow> bi_index bi (nd_hash (h q)) = Some q) \<and> bi_index bi zeroHash = None"

definition times_ok :: "node_heap \<Rightarrow> bool" where
  "times_ok h \<longleftrightarrow> (\<forall>p ps i. branch h p ps \<longrightarrow> Suc i < length ps \<longrightarrow>
     CalcPastMedianTime h (h (ps ! i)) < Unix_time (sint (nd_timestamp (h (ps ! Suc i)))))"

definition config_ok :: "ConsensusDeployment \<Rightarrow> bool" where
  "config_ok d \<longleftrightarrow> ds_Clock (dp_DeploymentStarter d) \<and>
     (case ds_startTime (dp_DeploymentStarter d) of None \<Rightarrow> True
      | Some s \<Rightarrow> (case de_endTime (dp_DeploymentEnder d) of None \<Rightarrow> True | Some e \<Rightarrow> s \<le> e))"

lemma index_hashes_unique: "index_ok h bi \<Longrightarrow> hashes_unique h"
  unfolding index_ok_def hashes_unique_def by (metis option.inject)

lemma median_branch:
  assumes "branch h p ps" "i < length ps"
  shows "CalcPastMedianTime h (h (ps ! i)) = Unix_time (sint (median_of (take 11 (rev (map (\<lambda>q. nd_timestamp (h q)) (take (Suc i) ps))))))"
  using past_timestamps_branch [OF assms(1), of "Suc i" medianTimeBlocks] assms(2)
  by (simp add: CalcPastMedianTime_def medianTimeBlocks_def)

lemma Unix_time_le [simp]: "Unix_time a \<le> Unix_time b \<longleftrightarrow> a \<le> b" "Unix_time a < Unix_time b \<longleftrightarrow> a < b"
  by (simp_all add: Unix_time_def)

lemma median_step:
  assumes "times_ok h" "branch h p ps" "Suc i < length ps"
  shows "CalcPastMedianTime h (h (ps ! i)) \<le> CalcPastMedianTime h (h (ps ! Suc i))"
proof -
  define ts where "ts = rev (map (\<lambda>q. nd_timestamp (h q)) (take (Suc i) ps))"
  have "rev (map (\<lambda>q. nd_timestamp (h q)) (take (Suc (Suc i)) ps)) = nd_timestamp (h (ps ! Suc i)) # ts"
    using assms(3) by (simp add: ts_def take_Suc_conv_app_nth)
  moreover have "ts \<noteq> []" using assms(3) by (auto simp: ts_def)
  moreover have "sint (median_of (take 11 ts)) < sint (nd_timestamp (h (ps ! Suc i)))"
  proof -
    have "CalcPastMedianTime h (h (ps ! i)) < Unix_time (sint (nd_timestamp (h (ps ! Suc i))))"
      using assms unfolding times_ok_def by blast
    with median_branch [OF assms(2), of i] assms(3) show ?thesis by (simp add: ts_def)
  qed
  ultimately show ?thesis
    using median_shift [of ts "nd_timestamp (h (ps ! Suc i))"] median_branch [OF assms(2), of i] median_branch [OF assms(2), of "Suc i"] assms(3)
    by (simp add: ts_def)
qed

lemma median_mono:
  assumes "times_ok h" "branch h p ps"
  shows "i \<le> j \<Longrightarrow> j < length ps \<Longrightarrow> CalcPastMedianTime h (h (ps ! i)) \<le> CalcPastMedianTime h (h (ps ! j))"
proof (induction j)
  case (Suc j)
  then show ?case
    using median_step [OF assms, of j] by (cases "i = Suc j") (auto intro: order_trans)
qed simp

lemma clock_branch:
  assumes "index_ok h bi" "branch h p ps" "i < length ps"
  shows "PastMedianTime sha h bi (node_Header h (ps ! i)) =
    (if i = 0 then None else Some (CalcPastMedianTime h (h (ps ! i))))"
proof (cases "i = 0")
  case True
  with assms branch_parent [OF assms(2,3)] show ?thesis
    by (simp add: PastMedianTime_def node_Header_def LookupNode_def index_ok_def)
next
  case False
  define q where "q = ps ! (i - 1)"
  have q: "nd_parent (h (ps ! i)) = Some q" using branch_parent [OF assms(2,3)] False by (simp add: q_def)
  have b: "branch h q (take i ps)" using branch_take [OF assms(2), of "i - 1"] False assms(3) by (simp add: q_def)
  have lookup: "LookupNode bi (nd_hash (h q)) = Some q" using assms(1) b unfolding index_ok_def LookupNode_def by blast
  obtain n where n: "initBlockNode sha h (node_Header h (ps ! i)) (Some q) = Some n"
    "nd_timestamp n = nd_timestamp (h (ps ! i))" "nd_parent n = Some q"
    by (auto simp: initBlockNode_def buildAncestor_def ancestor_branch [OF b] node_Header_def time_Unix_def Unix_time_def Let_def)
  have "CalcPastMedianTime h n = CalcPastMedianTime h (h (ps ! i))"
    using n q by (simp add: CalcPastMedianTime_def medianTimeBlocks_def eval_nat_numeral)
  with False n q lookup show ?thesis by (simp add: PastMedianTime_def node_Header_def)
qed

lemma checker_HasStarted_branch:
  assumes "index_ok h bi" "branch h p ps" "i < length ps"
  shows "checker_HasStarted sha h bi d (ps ! i) \<longleftrightarrow> ds_Clock (dp_DeploymentStarter d) \<and>
    (case ds_startTime (dp_DeploymentStarter d) of None \<Rightarrow> True
     | Some s \<Rightarrow> i \<noteq> 0 \<and> s \<le> CalcPastMedianTime h (h (ps ! i)))"
  by (auto simp: checker_HasStarted_def starter_HasStarted_def clock_branch [OF assms] split: option.splits)

lemma checker_HasEnded_branch:
  assumes "index_ok h bi" "branch h p ps" "i < length ps"
  shows "checker_HasEnded sha h bi d (ps ! i) \<longleftrightarrow> de_Clock (dp_DeploymentEnder d) \<and>
    (case de_endTime (dp_DeploymentEnder d) of None \<Rightarrow> False
     | Some e \<Rightarrow> i \<noteq> 0 \<and> e \<le> CalcPastMedianTime h (h (ps ! i)))"
  by (auto simp: checker_HasEnded_def ender_HasEnded_def clock_branch [OF assms] split: option.splits)

lemma deployment_laws:
  assumes "index_ok h bi" "times_ok h" "config_ok d"
  shows "starts_before_end h (deploymentChecker sha h bi params d)"
  unfolding starts_before_end_def
proof (intro conjI allI impI)
  fix q qs i j
  assume b: "branch h q qs" and ij: "i \<le> j" "j < length qs"
    and s: "ck_HasStarted (deploymentChecker sha h bi params d) (qs ! i)"
  with median_mono [OF assms(2) b ij] show "ck_HasStarted (deploymentChecker sha h bi params d) (qs ! j)"
    by (auto simp: deploymentChecker_def checker_HasStarted_branch [OF assms(1) b] split: option.splits)
next
  fix q qs
  assume b: "branch h q qs" and e: "ck_HasEnded (deploymentChecker sha h bi params d) q"
  have i: "length qs - 1 < length qs" using branch_length [OF b] by simp
  from e assms(3) show "ck_HasStarted (deploymentChecker sha h bi params d) q"
    using checker_HasStarted_branch [OF assms(1) b i, of sha d] checker_HasEnded_branch [OF assms(1) b i, of sha d]
    unfolding branch_tip [OF b, symmetric] by (auto simp: deploymentChecker_def config_ok_def split: option.splits)
qed

lemma HasEnded_mono:
  assumes "index_ok h bi" "times_ok h" "branch h p ps" "i \<le> j" "j < length ps"
  shows "checker_HasEnded sha h bi d (ps ! i) \<Longrightarrow> checker_HasEnded sha h bi d (ps ! j)"
  using median_mono [OF assms(2-5)] checker_HasEnded_branch [OF assms(1,3), of i sha d]
    checker_HasEnded_branch [OF assms(1,3), of j sha d] assms(4,5)
  by (auto split: option.splits)

lemma count_votes_branch:
  assumes b: "branch h p ps" and c: "\<And>q. ck_Condition checker q = Inr (P q)"
  shows "n \<le> i \<Longrightarrow> i \<le> length ps \<Longrightarrow>
    count_votes h checker n (if i = 0 then None else Some (ps ! (i - 1))) cnt =
      Inr (cnt + word_of_nat (length (filter P (drop (i - n) (take i ps)))))"
proof (induction n arbitrary: i cnt)
  case (Suc n)
  then obtain j where j: "i = Suc j" by (cases i) auto
  have "drop (i - Suc n) (take i ps) = drop (j - n) (take j ps) @ [ps ! j]"
    using Suc.prems by (simp add: j take_Suc_conv_app_nth)
  with Suc.IH [of j] Suc.prems branch_parent [OF b, of j] show ?case by (simp add: j c)
qed simp

section \<open>Properties\<close>

definition votes :: "node_heap \<Rightarrow> ConsensusDeployment \<Rightarrow> nref list \<Rightarrow> nat \<Rightarrow> nat \<Rightarrow> nat" where
  "votes h d ps w k = length (filter (checker_Condition h d) (take w (drop (k * w) ps)))"

lemma window_votes:
  assumes "branch h p ps" "0 < w" "w < 2 ^ 31" "Suc k * w \<le> length ps"
  shows "count_votes h (deploymentChecker sha h bi params d) (nat (sint (word_of_nat w :: i32))) (Some (ps ! (Suc k * w - 1))) 0 =
    Inr (word_of_nat (votes h d ps w k))"
proof -
  have "drop (Suc k * w - w) (take (Suc k * w) ps) = take w (drop (k * w) ps)" by (simp add: drop_take)
  with count_votes_branch [OF assms(1), of "deploymentChecker sha h bi params d" "checker_Condition h d" w "Suc k * w" 0] assms
  show ?thesis by (simp add: deploymentChecker_def sint_height votes_def del: mult_Suc)
qed

lemma window_state_locked_in:
  assumes "branch h p ps" "0 < w" "w < 2 ^ 31" "Suc k * w \<le> length ps"
    and "window_state h (deploymentChecker sha h bi params d) ps w k = Inr ThresholdStarted"
    and "\<not> checker_HasEnded sha h bi d (ps ! (Suc k * w - 1))"
    and "checker_Threshold params d \<le> word_of_nat (votes h d ps w k)"
  shows "window_state h (deploymentChecker sha h bi params d) ps w (Suc k) = Inr ThresholdLockedIn"
proof -
  let ?c = "deploymentChecker sha h bi params d"
  have c: "ck_HasEnded ?c = checker_HasEnded sha h bi d" "ck_Threshold ?c = checker_Threshold params d"
    by (simp_all add: deploymentChecker_def)
  have "thresholdStateTransition h ThresholdStarted (ps ! (Suc k * w - 1)) ?c (word_of_nat w) = Inr ThresholdLockedIn"
    using assms(6,7) window_votes [OF assms(1-4), of sha bi params d]
    unfolding thresholdStateTransition_def c by (simp del: mult_Suc One_nat_def)
  with assms(5) show ?thesis by (simp del: mult_Suc)
qed

lemma window_state_active:
  assumes b: "branch h p ps" "0 < w" "n * w \<le> length ps"
    and k: "window_state h (deploymentChecker sha h bi params d) ps w k = Inr ThresholdLockedIn" "k < n"
    and min: "unat (dp_MinActivationHeight d) \<le> n * w"
  shows "window_state h (deploymentChecker sha h bi params d) ps w n = Inr ThresholdActive"
proof -
  let ?c = "deploymentChecker sha h bi params d"
  have step: "window_state h ?c ps w (Suc j) \<in> {Inr ThresholdLockedIn, Inr ThresholdActive} \<and>
      (unat (dp_MinActivationHeight d) \<le> Suc j * w \<longrightarrow> window_state h ?c ps w (Suc j) = Inr ThresholdActive)"
    if "window_state h ?c ps w j \<in> {Inr ThresholdLockedIn, Inr ThresholdActive}" "Suc j \<le> n" for j
  proof -
    have i: "Suc j * w - 1 < length ps"
      by (rule window_index) (use b that(2) in \<open>auto intro: le_trans [OF mult_le_mono1] simp del: mult_Suc\<close>)
    have sw: "Suc (Suc j * w - 1) = Suc j * w" using b(2) by simp
    then have lt: "Suc j * w < 2 ^ 32" using i branch_length [OF b(1)] by simp
    have "nd_height (h (ps ! (Suc j * w - 1))) + 1 = word_of_nat (Suc (Suc j * w - 1))"
      using branch_height [OF b(1) i] by (simp del: mult_Suc)
    also have "\<dots> = word_of_nat (Suc j * w)" by (simp only: sw)
    finally have "unat (nd_height (h (ps ! (Suc j * w - 1))) + 1) = Suc j * w"
      using lt by (simp only: unat_of_nat) (simp add: take_bit_nat_eq_self del: mult_Suc)
    then have "checker_EligibleToActivate h d (ps ! (Suc j * w - 1))" if "unat (dp_MinActivationHeight d) \<le> Suc j * w"
      using that by (simp add: checker_EligibleToActivate_def word_le_nat_alt del: mult_Suc)
    with that(1) show ?thesis
      by (auto simp: thresholdStateTransition_def deploymentChecker_def simp del: mult_Suc)
  qed
  have "window_state h ?c ps w (k + j) \<in> {Inr ThresholdLockedIn, Inr ThresholdActive}" if "k + j \<le> n" for j
    using that
  proof (induction j)
    case (Suc j)
    then show ?case using step [of "k + j"] by (simp del: window_state.simps mult_Suc)
  qed (use k in simp)
  from this [of "n - 1 - k"] k(2) step [of "n - 1"] min show ?thesis by (simp del: window_state.simps mult_Suc)
qed

lemma deploymentState_branch:
  assumes "index_ok h bi" "times_ok h" "branch h p ps"
    and "unat deploymentID < length (dpp_Deployments params)" "length (dpp_Deployments params) < 2 ^ 32"
    and "length caches = length (dpp_Deployments params)"
    and "d = dpp_Deployments params ! unat deploymentID" "config_ok d"
    and "dpp_MinerConfirmationWindow params = word_of_nat w" "0 < w" "w < 2 ^ 31"
    and "cache_ok h (deploymentChecker sha h bi params d) w (caches ! unat deploymentID)"
  shows "\<exists>cache'. deploymentState sha h bi params (Some p) deploymentID caches =
      Some (window_state h (deploymentChecker sha h bi params d) ps w (length ps div w), caches[unat deploymentID := cache']) \<and>
    cache_ok h (deploymentChecker sha h bi params d) w cache'"
proof -
  have "\<not> deploymentID > word_of_nat (length (dpp_Deployments params))"
    using assms(4,5) by (simp add: word_less_nat_alt unat_of_nat take_bit_nat_eq_self)
  moreover have "ck_Window (deploymentChecker sha h bi params d) = word_of_nat w" using assms(9) by (simp add: deploymentChecker_def)
  ultimately show ?thesis
    using thresholdState_branch [OF deployment_laws [OF assms(1,2,8)] index_hashes_unique [OF assms(1)] assms(3) _ assms(10,11,12)]
      assms(4,6,7) by (auto simp: deploymentState_def Let_def)
qed

text \<open>
  C37 (deployment states): the cached computation of a deployment's state returns for every block
  of the index, gives the state reached by the transitions of all windows from the genesis block
  on, and leaves every cache consistent.
\<close>

theorem deployment_state_exact:
  assumes "index_ok h bi" "times_ok h" "branch h p ps"
    and "unat deploymentID < length (dpp_Deployments params)" "length (dpp_Deployments params) < 2 ^ 32"
    and "length caches = length (dpp_Deployments params)"
    and "d = dpp_Deployments params ! unat deploymentID" "config_ok d"
    and "dpp_MinerConfirmationWindow params = word_of_nat w" "0 < w" "w < 2 ^ 31"
    and "cache_ok h (deploymentChecker sha h bi params d) w (caches ! unat deploymentID)"
  shows "\<exists>cache'. deploymentState sha h bi params (Some p) deploymentID caches =
      Some (window_state h (deploymentChecker sha h bi params d) ps w (length ps div w), caches[unat deploymentID := cache']) \<and>
    cache_ok h (deploymentChecker sha h bi params d) w cache'"
  using assms by (rule deploymentState_branch)

text \<open>
  C38 (activation): once the start time is reached in a window and the next window collects the
  threshold of votes before the deadline, the deployment is reported active for every block from
  two windows on that has reached the minimum activation height.
\<close>

theorem deployment_activates:
  assumes "index_ok h bi" "times_ok h" "branch h p ps"
    and "unat deploymentID < length (dpp_Deployments params)" "length (dpp_Deployments params) < 2 ^ 32"
    and "length caches = length (dpp_Deployments params)"
    and "d = dpp_Deployments params ! unat deploymentID" "config_ok d"
    and "dpp_MinerConfirmationWindow params = word_of_nat w" "0 < w" "w < 2 ^ 31"
    and "cache_ok h (deploymentChecker sha h bi params d) w (caches ! unat deploymentID)"
    and "0 < k" "k + 2 \<le> length ps div w"
    and "checker_HasStarted sha h bi d (ps ! (k * w - 1))" "k = 1 \<or> \<not> checker_HasStarted sha h bi d (ps ! ((k - 1) * w - 1))"
    and "\<not> checker_HasEnded sha h bi d (ps ! (Suc k * w - 1))"
    and "checker_Threshold params d \<le> word_of_nat (votes h d ps w k)"
    and "unat (dp_MinActivationHeight d) \<le> length ps div w * w"
  shows "\<exists>caches'. deploymentState sha h bi params (Some p) deploymentID caches = Some (Inr ThresholdActive, caches')"
proof -
  let ?c = "deploymentChecker sha h bi params d" and ?n = "length ps div w"
  have n: "?n * w \<le> length ps" by simp
  have len: "j * w \<le> length ps" if "j \<le> ?n" for j using that n by (meson le_trans mult_le_mono1)
  have idx: "j * w - 1 < length ps" if "0 < j" "j \<le> ?n" for j by (rule window_index) (use that len assms(10) in auto)
  have "window_state h ?c ps w (k - 1) = Inr ThresholdDefined"
    by (rule not_started_defined [OF deployment_laws [OF assms(1,2,8)] assms(3,10)])
      (use assms(13,14,16) len in \<open>auto simp: deploymentChecker_def\<close>)
  moreover have "\<not> checker_HasEnded sha h bi d (ps ! (k * w - 1))"
    using HasEnded_mono [OF assms(1,2,3), of "k * w - 1" "Suc k * w - 1" sha d] idx [of "Suc k"] assms(14,17)
    by (auto simp: diff_le_mono)
  moreover have "Suc (k - 1) = k" using assms(13) by simp
  ultimately have "window_state h ?c ps w k = Inr ThresholdStarted"
    using window_state.simps(2) [of h ?c ps w "k - 1"] assms(15)
    by (simp add: thresholdStateTransition_def deploymentChecker_def del: window_state.simps)
  then have "window_state h ?c ps w (Suc k) = Inr ThresholdLockedIn"
    by (intro window_state_locked_in [OF assms(3,10,11)]) (use assms(14,17,18) len [of "Suc k"] in auto)
  then have "window_state h ?c ps w ?n = Inr ThresholdActive"
    by (rule window_state_active [OF assms(3,10) n]) (use assms(14,19) in auto)
  with deploymentState_branch [OF assms(1-12)] show ?thesis by auto
qed

text \<open>
  The example: windows of one block and no votes needed, as on the regression test network, over the heap of
  the block index.
\<close>

definition ex_index :: blockIndex where
  "ex_index = \<lparr>bi_index = map_of (map (\<lambda>p. (nd_hash (ex_heap p), p)) [0, 1, 2, 3]), bi_dirty = []\<rparr>"

definition ex_deployment :: ConsensusDeployment where
  "ex_deployment = \<lparr>dp_BitNumber = 1, dp_MinActivationHeight = 0, dp_CustomActivationThreshold = 0,
     dp_DeploymentStarter = \<lparr>ds_Clock = True, ds_startTime = None\<rparr>,
     dp_DeploymentEnder = \<lparr>de_Clock = True, de_endTime = None\<rparr>\<rparr>"

definition ex_params :: deployment_params where
  "ex_params = \<lparr>dpp_RuleChangeActivationThreshold = 0, dpp_MinerConfirmationWindow = 1, dpp_Deployments = [ex_deployment]\<rparr>"

lemma ex_index_hashes:
  "bi_index ex_index (nd_hash (ex_heap 0)) = Some 0" "bi_index ex_index (nd_hash (ex_heap 1)) = Some 1"
  "bi_index ex_index (nd_hash (ex_heap 2)) = Some 2" "bi_index ex_index (nd_hash (ex_heap 3)) = Some 3"
  "bi_index ex_index zeroHash = None"
  by code_simp+

lemma ex_index_ok: "index_ok ex_heap ex_index"
  unfolding index_ok_def using ex_index_hashes by (auto dest!: ex_branch_cases)

lemma ex_medians:
  "CalcPastMedianTime ex_heap (ex_heap 0) < Unix_time (sint (nd_timestamp (ex_heap 1)))"
  "CalcPastMedianTime ex_heap (ex_heap 0) < Unix_time (sint (nd_timestamp (ex_heap 3)))"
  "CalcPastMedianTime ex_heap (ex_heap 1) < Unix_time (sint (nd_timestamp (ex_heap 2)))"
  by code_simp+

lemma ex_times_ok: "times_ok ex_heap"
  unfolding times_ok_def using ex_medians by (auto dest!: ex_branch_cases simp: less_Suc_eq nth_Cons')

lemma ex_started: "checker_HasStarted sha ex_heap ex_index ex_deployment p" "\<not> checker_HasEnded sha ex_heap ex_index ex_deployment p"
  "config_ok ex_deployment"
  by (simp_all add: checker_HasStarted_def starter_HasStarted_def checker_HasEnded_def ender_HasEnded_def ex_deployment_def config_ok_def)

lemma ex_cache_ok: "cache_ok h checker w Map.empty"
  by (simp add: cache_ok_def)

theorem deployment_state_exact_witness:
  "\<exists>cache'. deploymentState (\<lambda>x. x) ex_heap ex_index ex_params (Some 2) 0 [Map.empty] =
      Some (window_state ex_heap (deploymentChecker (\<lambda>x. x) ex_heap ex_index ex_params ex_deployment) [0, 1, 2] 1 (length [0, 1, 2 :: nref] div 1), [cache']) \<and>
    cache_ok ex_heap (deploymentChecker (\<lambda>x. x) ex_heap ex_index ex_params ex_deployment) 1 cache'"
  using deployment_state_exact [OF ex_index_ok ex_times_ok ex_branches(3), of 0 ex_params "[Map.empty]" ex_deployment 1 "\<lambda>x. x"]
  by (simp add: ex_params_def ex_started ex_cache_ok del: window_state.simps)

theorem deployment_activates_witness:
  "\<exists>caches'. deploymentState (\<lambda>x. x) ex_heap ex_index ex_params (Some 2) 0 [Map.empty] = Some (Inr ThresholdActive, caches')"
  using deployment_activates [OF ex_index_ok ex_times_ok ex_branches(3), of 0 ex_params "[Map.empty]" ex_deployment 1 "\<lambda>x. x" 1]
  by (simp add: ex_params_def ex_started ex_cache_ok checker_Threshold_def del: window_state.simps) (simp add: ex_deployment_def)

end
