(* ===== verification/Spec2Isabelle.thy ===== *)
theory Spec2Isabelle
  imports Wire_Block Engine_Run Merkle Accept Threshold
begin

text \<open>
  \<^bold>\<open>The program.\<close>

  The program is a full node of a second-layer chain on Bitcoin.  Its blocks and transactions follow
  Bitcoin, with three additions: an output carries a list of assets beside its satoshis, an \<^emph>\<open>anchor\<close>
  transaction brings in value that is locked on the first layer, and blocks are produced under
  a proof-of-stake schedule.  A block reaches the node through \<^verbatim>\<open>wire\<close> (the byte format of
  messages), is entered in the block index, is checked by \<^verbatim>\<open>blockchain\<close> (sanity, context, inputs,
  scripts through \<^verbatim>\<open>txscript\<close>), and changes the set of unspent outputs, which lives in a cache over
  a key-value database.  A reorganisation undoes blocks with the records of the outputs they
  spent.

  The development models this path.  Machine integers keep their width (\<open>byte\<close>, \<open>u32\<close>, \<open>i64\<close>, ...,
  read by \<^const>\<open>unat\<close> and \<^const>\<open>sint\<close>), byte slices and Go strings are lists of bytes, errors are
  values of a sum type, a panic is an error value of its own, and pointers that are shared (block
  nodes) are references into a heap.  Code outside the repository is a parameter with its
  documented behaviour as hypothesis: SHA-256 (\<open>sha\<close>), the identifier of a transaction where only
  its injectivity matters (\<open>txid\<close>), the decimal library and the asset lists of the indexer
  (\<open>decimal_ops\<close>, \<open>asset_ops\<close>), the elliptic-curve library and the hashes
  of the script engine (\<open>pubkey_ops\<close>, \<open>script_env\<close>) and the database
  bucket (a partial function from keys to values).

  \<^bold>\<open>The theories.\<close>

  \<^item> \<open>Prelude\<close>: early return, byte-stream readers, little-endian bytes and word ranges.
  \<^item> \<open>Wire_Common\<close>, \<open>Wire_Tx\<close>, \<open>Wire_Block\<close> (\<^verbatim>\<open>wire/common.go\<close>, \<^verbatim>\<open>msgtx.go\<close>, \<^verbatim>\<open>txassets.go\<close>,
    \<^verbatim>\<open>blockheader.go\<close>, \<^verbatim>\<open>msgblock.go\<close>): readers and writers of integers, strings, transactions with
    assets, headers and blocks.  Every encoding decodes to what was encoded, sizes and script
    and transaction offsets are exact, the transaction id ignores witnesses and separates
    transactions; three lemmas show where the decoder or the offsets are wrong.  \<open>Wire_Common\<close>
    has the locales \<open>codec\<close> and \<open>canonical_codec\<close>, the contract of an encoder and its decoder;
    \<open>memTx\<close> is a transaction in memory, where a witness may be nil.
  \<^item> \<open>Script_Num\<close>, \<open>Script_Stack\<close>, \<open>Script_Token\<close>, \<open>Script_Standard\<close> (\<^verbatim>\<open>txscript/scriptnum.go\<close>,
    \<^verbatim>\<open>stack.go\<close>, \<^verbatim>\<open>tokenizer.go\<close>, \<^verbatim>\<open>script.go\<close>, \<^verbatim>\<open>scriptbuilder.go\<close>, \<^verbatim>\<open>standard.go\<close>): script numbers, the
    data stack, the tokenizer, script classes and the builder.
  \<^item> \<open>Sighash\<close>, \<open>Script_Sig\<close>, \<open>Script_Opcode\<close>, \<open>Script_Engine\<close> (\<^verbatim>\<open>txscript/sighash.go\<close>, \<^verbatim>\<open>sigvalidate.go\<close>,
    \<^verbatim>\<open>sigcache.go\<close>, \<^verbatim>\<open>taproot.go\<close>, \<^verbatim>\<open>opcode.go\<close>, \<^verbatim>\<open>engine.go\<close>): the digests a signature signs, the
    signature verifiers, the handler of every opcode and the engine.  Digests bind what they
    sign, but the digest of witness version 0 writes assets without their lengths.
  \<^item> \<open>Engine_Safe\<close>, \<open>Engine_Sound\<close>, \<open>Engine_Run\<close>: what holds of every run of the engine.  A judgement
    \<open>holds\<close> on outcomes has one rule per operation of the stacks and one lemma per opcode; a
    measure on the rest of the scripts shows that \<open>Execute\<close> ends, and \<open>engine_inv\<close> that the
    states are well typed and no step panics.  The last theory runs the engine on a P2SH input
    whose witness does panic, which shows that the hypothesis on nested witnesses is needed.
  \<^item> \<open>Compress\<close>, \<open>Utxo_View\<close>, \<open>Utxo_Store\<close>, \<open>Size_Helper\<close>, \<open>Utxo_Cache\<close> (\<^verbatim>\<open>blockchain/compress.go\<close>,
    \<^verbatim>\<open>utxoviewpoint.go\<close>, \<^verbatim>\<open>chainio.go\<close>, \<^verbatim>\<open>spend_journal_legacy.go\<close>, \<^verbatim>\<open>sizehelper.go\<close>, \<^verbatim>\<open>utxocache.go\<close>):
    the unspent outputs as a view, as stored bytes and as a cache.  The specification is a
    partial function from outpoints to coins with \<open>tx_apply\<close> and \<open>tx_undo\<close>; views, cache and
    database refine it, and disconnecting a connected block restores it.  The locale
    \<open>outpoint_store\<close> is the contract of the map slices under the cache.
  \<^item> \<open>Merkle\<close> (\<^verbatim>\<open>merkle.go\<close>, \<^verbatim>\<open>rolling_merkle.go\<close>): the streaming and the array computation of
    the merkle root agree, and the root binds the transactions.
  \<^item> \<open>Validate\<close>, \<open>Accept\<close> (\<^verbatim>\<open>validate.go\<close>, \<^verbatim>\<open>asset_validation.go\<close>, \<^verbatim>\<open>weight.go\<close>): sanity of
    transactions and blocks, inputs, fees, anchors and the check before a block is connected.
    An accepted block creates neither satoshis nor, if the asset library adds and subtracts
    exactly on the lists the checks admit (\<open>asset_laws\<close>), assets, fits the UTXO set, and after it is
    connected and flushed the database stores the set the specification gives.
  \<^item> \<open>Block_Index\<close>, \<open>Threshold\<close> (\<^verbatim>\<open>blockindex.go\<close>, \<^verbatim>\<open>chainview.go\<close>, \<^verbatim>\<open>internal/workmath\<close>,
    \<^verbatim>\<open>thresholdstate.go\<close>, \<^verbatim>\<open>versionbits.go\<close>, \<^verbatim>\<open>chaincfg/deployment_time_frame.go\<close>): block nodes on a
    heap, skip pointers, the best-chain view, locators, median times and soft-fork deployments.

  \<^bold>\<open>Bounds, loops and parameters.\<close>

  Loops over lists are recursions on the list; loops that count are recursions with a measure.
  Loops that follow pointers (\<open>ancestor_loop\<close>, \<open>setTip_loop\<close>, \<open>fork_loop\<close>, \<open>locator_loop\<close>,
  \<open>needed_states\<close>), the loops of the rolling merkle tree (\<open>rm_shift\<close>, \<open>rm_finish\<close>) and the loop of
  the script engine (\<open>execute_loop\<close>) are partial functions into \<open>option\<close>, whose outer \<open>None\<close> is a
  loop that does not end.  The properties show that they return: the pointer loops on every
  branch of the index, the merkle loops on every non-empty list, the engine from every state
  \<open>NewEngine\<close> returns.  Branches have fewer than \<open>2 ^ 31\<close> blocks, the range of
  an \<^verbatim>\<open>int32\<close> height; stacks have fewer than \<open>2 ^ 30\<close> items, and an index that the code computes
  from a count wraps around as an \<^verbatim>\<open>int32\<close>.

  \<^bold>\<open>Not modelled.\<close>

  Locks, logging, metrics and error texts; the network layer (\<^verbatim>\<open>server.go\<close>, \<^verbatim>\<open>peer\<close>,
  \<^verbatim>\<open>connmgr\<close>, \<^verbatim>\<open>netsync\<close>), whose behaviour is goroutines and sockets; the RPC servers and clients
  and their JSON types; the wallets and command-line tools; the database engine under
  \<^verbatim>\<open>database/ffldb\<close>, whose buckets are a parameter; the elliptic-curve, hashing and EVM code,
  which is a parameter where it is used; the contract runtimes, the indexer and DKVS, which run
  beside the chain and are reached only through the hooks in \<open>connect_env\<close>.
\<close>

end
